(* ===== verification/Prelude.thy ===== *)
theory Prelude
  imports Main "HOL-Library.Word" "HOL-Library.Monad_Syntax"
begin

text \<open>
  Shared vocabulary of the development.

  \<^item> Machine integers. Where the source manipulates bits, a value of the C++ type
    \<open>Uint8\<close>, \<open>Uint16\<close>, \<open>Uint32\<close> or \<open>Uint64\<close> is a word. Where it only counts, adds
    and compares, the value is a natural number and the wrap-around of the C++ type is
    written out with \<open>u32\<close>, \<open>add32\<close> and \<open>sub32\<close> (and their 64-bit companions).
  \<^item> Memory. A C++ array is a list. A read or write that C++ leaves undefined (an access
    outside the array) is the value \<open>None\<close> of \<open>memcpy_at\<close> and \<open>mem_read\<close>, so that
    ``the code never leaves its buffer'' is the statement that a result is \<open>Some\<close>.
  \<^item> Generic lemmas on lists that several components share.
\<close>

unbundle bit_operations_syntax

named_theorems u32_simps \<open>removing the wrap-around of 32-bit and 64-bit counters\<close>
named_theorems mem_simps \<open>array reads and writes that stay inside the array\<close>

type_synonym u8 = "8 word"
type_synonym u16 = "16 word"
type_synonym u32w = "32 word"
type_synonym u64w = "64 word"
type_synonym bytes = "u8 list"

section \<open>Counters with the wrap-around of the C++ types\<close>

definition u32 :: "nat \<Rightarrow> nat" where
  "u32 n = n mod 2 ^ 32"

definition add32 :: "nat \<Rightarrow> nat \<Rightarrow> nat" where
  "add32 a b = (a + b) mod 2 ^ 32"

definition sub32 :: "nat \<Rightarrow> nat \<Rightarrow> nat" where
  "sub32 a b = (a + 2 ^ 32 - b mod 2 ^ 32) mod 2 ^ 32"

definition u64 :: "nat \<Rightarrow> nat" where
  "u64 n = n mod 2 ^ 64"

definition add64 :: "nat \<Rightarrow> nat \<Rightarrow> nat" where
  "add64 a b = (a + b) mod 2 ^ 64"

definition sub64 :: "nat \<Rightarrow> nat \<Rightarrow> nat" where
  "sub64 a b = (a + 2 ^ 64 - b mod 2 ^ 64) mod 2 ^ 64"

definition int32 :: "nat \<Rightarrow> int" where
  \<comment> \<open>the conversion of a \<open>Uint32\<close> to \<open>int\<close>\<close>
  "int32 n = (if n mod 2 ^ 32 < 2 ^ 31 then int (n mod 2 ^ 32) else int (n mod 2 ^ 32) - 2 ^ 32)"

lemma int32_id [u32_simps]: "n < 2 ^ 31 \<Longrightarrow> int32 n = int n"
  by (simp add: int32_def)

lemma u32_id [u32_simps]: "n < 2 ^ 32 \<Longrightarrow> u32 n = n"
  by (simp add: u32_def)

lemma add32_id [u32_simps]: "a + b < 2 ^ 32 \<Longrightarrow> add32 a b = a + b"
  by (simp add: add32_def)

lemma sub32_id [u32_simps]: "b \<le> a \<Longrightarrow> a < 2 ^ 32 \<Longrightarrow> sub32 a b = a - b"
  by (simp add: sub32_def mod_if)

lemma u64_id [u32_simps]: "n < 2 ^ 64 \<Longrightarrow> u64 n = n"
  by (simp add: u64_def)

lemma add64_id [u32_simps]: "a + b < 2 ^ 64 \<Longrightarrow> add64 a b = a + b"
  by (simp add: add64_def)

lemma sub64_id [u32_simps]: "b \<le> a \<Longrightarrow> a < 2 ^ 64 \<Longrightarrow> sub64 a b = a - b"
  by (simp add: sub64_def mod_if)

lemma u32_bound [simp]: "u32 n < 2 ^ 32" "add32 a b < 2 ^ 32" "sub32 a b < 2 ^ 32"
  by (simp_all add: u32_def add32_def sub32_def)

lemma u64_bound [simp]: "u64 n < 2 ^ 64" "add64 a b < 2 ^ 64" "sub64 a b < 2 ^ 64"
  by (simp_all add: u64_def add64_def sub64_def)

section \<open>Arrays: reads and writes that may leave the array\<close>

definition memcpy_at :: "'a list \<Rightarrow> nat \<Rightarrow> 'a list \<Rightarrow> 'a list option" where
  "memcpy_at dst off src =
     (if off + length src \<le> length dst
      then Some (take off dst @ src @ drop (off + length src) dst) else None)"

definition mem_read :: "'a list \<Rightarrow> nat \<Rightarrow> nat \<Rightarrow> 'a list option" where
  "mem_read src off n = (if off + n \<le> length src then Some (take n (drop off src)) else None)"

lemma memcpy_at_Some [mem_simps]:
  "off + length src \<le> length dst \<Longrightarrow>
   memcpy_at dst off src = Some (take off dst @ src @ drop (off + length src) dst)"
  by (simp add: memcpy_at_def)

lemma mem_read_Some [mem_simps]:
  "off + n \<le> length src \<Longrightarrow> mem_read src off n = Some (take n (drop off src))"
  by (simp add: mem_read_def)

lemma memcpy_at_length: "memcpy_at dst off src = Some dst' \<Longrightarrow> length dst' = length dst"
  by (auto simp: memcpy_at_def split: if_splits)

lemma memcpy_at_nth:
  assumes "memcpy_at dst off src = Some dst'" and "i < length dst"
  shows "dst' ! i = (if off \<le> i \<and> i < off + length src then src ! (i - off) else dst ! i)"
  using assms
  by (auto simp: memcpy_at_def nth_append min_def split: if_splits)

lemma memcpy_at_full: "length src = length dst \<Longrightarrow> memcpy_at dst 0 src = Some src"
  by (simp add: memcpy_at_def)

lemma memcpy_then_read_same:
  assumes "memcpy_at dst off src = Some dst'"
  shows "mem_read dst' off (length src) = Some src"
  using assms by (auto simp: memcpy_at_def mem_read_def split: if_splits)

lemma memcpy_then_read_disjoint:
  assumes w: "memcpy_at dst off src = Some dst'"
    and "o2 + n \<le> off \<or> off + length src \<le> o2"
  shows "mem_read dst' o2 n = mem_read dst o2 n"
proof (cases "o2 + n \<le> length dst")
  case True
  have len: "length dst' = length dst" using w by (rule memcpy_at_length)
  have "take n (drop o2 dst') = take n (drop o2 dst)"
  proof (rule nth_equalityI)
    show "length (take n (drop o2 dst')) = length (take n (drop o2 dst))" by (simp add: len)
  next
    fix i assume "i < length (take n (drop o2 dst'))"
    then have i: "i < n" "o2 + i < length dst" using True len by auto
    then show "take n (drop o2 dst') ! i = take n (drop o2 dst) ! i"
      using memcpy_at_nth[OF w, of "o2 + i"] assms(2) len by auto
  qed
  with True len show ?thesis by (simp add: mem_read_def)
next
  case False
  then show ?thesis using memcpy_at_length[OF w] by (simp add: mem_read_def)
qed

lemma mem_read_nth:
  assumes "mem_read b off n = Some xs"
  shows "off + n \<le> length b" "length xs = n" "\<And>i. i < n \<Longrightarrow> b ! (off + i) = xs ! i"
  using assms by (auto simp: mem_read_def split: if_splits)

lemma mem_read_eq_iff:
  "mem_read b off n = Some xs \<longleftrightarrow>
     off + n \<le> length b \<and> length xs = n \<and> (\<forall>i<n. b ! (off + i) = xs ! i)"
  by (auto simp: mem_read_def list_eq_iff_nth_eq)

lemma memcpy_at_mid:
  "length old = length new \<Longrightarrow> n = length a \<Longrightarrow> memcpy_at (a @ old @ c) n new = Some (a @ new @ c)"
  by (simp add: memcpy_at_def)

lemma memcpy_twice:
  assumes "memcpy_at d n x = Some d1"
  shows "memcpy_at d1 (n + length x) y = memcpy_at d n (x @ y)"
proof -
  have d1: "n + length x \<le> length d" "d1 = take n d @ x @ drop (n + length x) d"
    using assms by (auto simp: memcpy_at_def split: if_splits)
  then have "length d1 = length d" "take (n + length x) d1 = take n d @ x"
      "drop (n + length x + length y) d1 = drop (n + length x + length y) d"
    by (simp_all add: min_absorb2 add.commute add.left_commute)
  then show ?thesis by (simp add: memcpy_at_def add.assoc)
qed

lemma memcpy_seq:
  "memcpy_at d n x \<bind> (\<lambda>d. memcpy_at d (n + length x) y \<bind> f) =
     (if n + length x + length y \<le> length d then memcpy_at d n (x @ y) \<bind> f
      else None)"
proof (cases "memcpy_at d n x")
  case None
  then show ?thesis by (auto simp: memcpy_at_def split: if_splits)
next
  case (Some d1)
  then have "memcpy_at d1 (n + length x) y = memcpy_at d n (x @ y)" by (rule memcpy_twice)
  then show ?thesis using Some by (auto simp: memcpy_at_def split: if_splits)
qed

lemma memcpy_chain [mem_simps]:
  assumes "m = n + length x"
  shows "memcpy_at d n x \<bind> (\<lambda>d. memcpy_at d m y \<bind> f) = memcpy_at d n (x @ y) \<bind> f"
proof (cases "memcpy_at d n x")
  case None
  then show ?thesis by (auto simp: memcpy_at_def split: if_splits)
next
  case (Some d1)
  then show ?thesis using memcpy_twice[OF Some, of y] assms by simp
qed

lemma memcpy_chain_last [mem_simps]:
  "m = n + length x \<Longrightarrow> memcpy_at d n x \<bind> (\<lambda>d. memcpy_at d m y) = memcpy_at d n (x @ y)"
  using memcpy_chain[of m n x d y Some] by simp

section \<open>Lists\<close>

lemma fold_invariant_set:
  assumes "P s" and "\<And>x s. x \<in> set xs \<Longrightarrow> P s \<Longrightarrow> P (f x s)"
  shows "P (fold f xs s)"
  using assms by (induction xs arbitrary: s) auto

lemma fold_preserves:
  assumes "\<And>x s. g (f x s) = g s"
  shows "g (fold f xs s) = g s"
  using assms by (induction xs arbitrary: s) auto

lemma upt_mem [simp]: "i \<in> set [a..<b] \<longleftrightarrow> a \<le> i \<and> i < b"
  by simp

lemma take_add_drop: "take (a + b) xs = take a xs @ take b (drop a xs)"
  by (rule take_add)

end
