(* ===== verification/Bytes.thy ===== *)
theory Bytes
  imports Prelude
begin

text \<open>
  The big-endian integer accessors of \<open>src/util/functions.h\<close> that every wire format of
  the program uses: \<open>WriteUint64/32/16\<close>, \<open>ReadUint64/32/16\<close> and their signed
  companions. A signed value is its two's complement word (\<open>sint\<close> reads it), as the C++
  conversions keep the bits. The locale \<open>wire_int\<close> states what the packet formats rely
  on; it is interpreted on the three unsigned accessor pairs.
\<close>

section \<open>Accessors\<close>

definition be64 :: "u64w \<Rightarrow> bytes" where
  "be64 v =
    [ucast (drop_bit 56 (v AND 0xFF00000000000000)), ucast (drop_bit 48 (v AND 0x00FF000000000000)),
     ucast (drop_bit 40 (v AND 0x0000FF0000000000)), ucast (drop_bit 32 (v AND 0x000000FF00000000)),
     ucast (drop_bit 24 (v AND 0x00000000FF000000)), ucast (drop_bit 16 (v AND 0x0000000000FF0000)),
     ucast (drop_bit 8 (v AND 0x000000000000FF00)), ucast (v AND 0x00000000000000FF)]"

definition be32 :: "u32w \<Rightarrow> bytes" where
  "be32 v =
    [ucast (drop_bit 24 (v AND 0xFF000000)), ucast (drop_bit 16 (v AND 0x00FF0000)),
     ucast (drop_bit 8 (v AND 0x0000FF00)), ucast (v AND 0x000000FF)]"

definition be16 :: "u16 \<Rightarrow> bytes" where
  "be16 v = [ucast (drop_bit 8 (v AND 0xFF00)), ucast (v AND 0x00FF)]"

definition WriteUint64 :: "bytes \<Rightarrow> nat \<Rightarrow> u64w \<Rightarrow> bytes option" where
  "WriteUint64 buf off v = memcpy_at buf off (be64 v)"

definition WriteUint32 :: "bytes \<Rightarrow> nat \<Rightarrow> u32w \<Rightarrow> bytes option" where
  "WriteUint32 buf off v = memcpy_at buf off (be32 v)"

definition WriteUint16 :: "bytes \<Rightarrow> nat \<Rightarrow> u16 \<Rightarrow> bytes option" where
  "WriteUint16 buf off v = memcpy_at buf off (be16 v)"

definition ReadUint64 :: "bytes \<Rightarrow> nat \<Rightarrow> u64w option" where
  "ReadUint64 buf off = (if off + 8 \<le> length buf then Some
     (push_bit 56 (ucast (buf ! off)) OR push_bit 48 (ucast (buf ! (off + 1))) OR
      push_bit 40 (ucast (buf ! (off + 2))) OR push_bit 32 (ucast (buf ! (off + 3))) OR
      push_bit 24 (ucast (buf ! (off + 4))) OR push_bit 16 (ucast (buf ! (off + 5))) OR
      push_bit 8 (ucast (buf ! (off + 6))) OR ucast (buf ! (off + 7))) else None)"

definition ReadUint32 :: "bytes \<Rightarrow> nat \<Rightarrow> u32w option" where
  "ReadUint32 buf off = (if off + 4 \<le> length buf then Some
     (push_bit 24 (ucast (buf ! off)) OR push_bit 16 (ucast (buf ! (off + 1))) OR
      push_bit 8 (ucast (buf ! (off + 2))) OR ucast (buf ! (off + 3))) else None)"

definition ReadUint16 :: "bytes \<Rightarrow> nat \<Rightarrow> u16 option" where
  "ReadUint16 buf off = (if off + 2 \<le> length buf then Some
     (push_bit 8 (ucast (buf ! off)) OR ucast (buf ! (off + 1))) else None)"

text \<open>The signed accessors write and read the same bits; the value is their \<open>sint\<close>.\<close>

definition WriteInt64 :: "bytes \<Rightarrow> nat \<Rightarrow> int \<Rightarrow> bytes option" where
  "WriteInt64 buf off v = memcpy_at buf off (be64 (word_of_int v))"

definition ReadInt64 :: "bytes \<Rightarrow> nat \<Rightarrow> int option" where
  "ReadInt64 buf off = map_option sint (ReadUint64 buf off)"

definition WriteInt32 :: "bytes \<Rightarrow> nat \<Rightarrow> int \<Rightarrow> bytes option" where
  "WriteInt32 buf off v = memcpy_at buf off (be32 (word_of_int v))"

definition ReadInt32 :: "bytes \<Rightarrow> nat \<Rightarrow> int option" where
  "ReadInt32 buf off = map_option sint (ReadUint32 buf off)"

definition WriteInt16 :: "bytes \<Rightarrow> nat \<Rightarrow> int \<Rightarrow> bytes option" where
  "WriteInt16 buf off v = memcpy_at buf off (be16 (word_of_int v))"

definition ReadInt16 :: "bytes \<Rightarrow> nat \<Rightarrow> int option" where
  "ReadInt16 buf off = map_option sint (ReadUint16 buf off)"

section \<open>The bytes determine the value\<close>

lemma length_be [simp]: "length (be64 v) = 8" "length (be32 w) = 4" "length (be16 x) = 2"
  by (simp_all add: be64_def be32_def be16_def)

lemma bit_255: "bit (255 :: int) n \<longleftrightarrow> n < 8"
proof -
  have "(255 :: int) = mask 8" by (simp add: mask_eq_exp_minus_1)
  then show ?thesis by (simp only: bit_mask_iff possible_bit_int simp_thms)
qed

lemma ucast_and255: "(ucast (w AND 255) :: u8) = ucast (w :: 'a::len word)"
  by (rule bit_word_eqI) (auto simp: bit_simps bit_255 dest: bit_imp_le_length)

lemma be64_eq: "be64 v = map (\<lambda>k. ucast (drop_bit (8 * k) v)) [7,6,5,4,3,2,1,0]"
  by (simp add: be64_def ucast_and255)

lemma be32_eq: "be32 v = map (\<lambda>k. ucast (drop_bit (8 * k) v)) [3,2,1,0]"
  by (simp add: be32_def ucast_and255)

lemma be16_eq: "be16 v = map (\<lambda>k. ucast (drop_bit (8 * k) v)) [1,0]"
  by (simp add: be16_def ucast_and255)

text \<open>Bit \<open>n\<close> of a shifted byte of \<open>v\<close> is bit \<open>n\<close> of \<open>v\<close> inside the byte's window.\<close>

lemma bit_byte_window:
  fixes v :: "'a::len word"
  shows "bit (push_bit k (ucast (ucast (drop_bit k v) :: u8)) :: 'a word) n
           \<longleftrightarrow> k \<le> n \<and> n < k + 8 \<and> bit v n"
  by (auto simp: bit_simps dest: bit_imp_le_length)

lemma bit_byte_window0:
  fixes v :: "'a::len word"
  shows "bit (ucast (ucast v :: u8) :: 'a word) n \<longleftrightarrow> n < 8 \<and> bit v n"
  by (auto simp: bit_simps dest: bit_imp_le_length)

lemmas byte_window = bit_byte_window bit_byte_window0 bit_or_iff

lemma be16_assemble: "push_bit 8 (ucast (be16 v ! 0)) OR ucast (be16 v ! 1) = v"
  unfolding be16_eq by (rule bit_word_eqI) (auto simp: byte_window)

lemma be32_assemble:
  "push_bit 24 (ucast (be32 v ! 0)) OR push_bit 16 (ucast (be32 v ! 1)) OR
   push_bit 8 (ucast (be32 v ! 2)) OR ucast (be32 v ! 3) = v"
  unfolding be32_eq by (rule bit_word_eqI) (auto simp: byte_window)

lemma be64_assemble:
  "push_bit 56 (ucast (be64 v ! 0)) OR push_bit 48 (ucast (be64 v ! 1)) OR
   push_bit 40 (ucast (be64 v ! 2)) OR push_bit 32 (ucast (be64 v ! 3)) OR
   push_bit 24 (ucast (be64 v ! 4)) OR push_bit 16 (ucast (be64 v ! 5)) OR
   push_bit 8 (ucast (be64 v ! 6)) OR ucast (be64 v ! 7) = v"
  unfolding be64_eq by (rule bit_word_eqI) (auto simp: byte_window)

section \<open>The contract the wire formats rely on\<close>

locale wire_int =
  fixes wr :: "bytes \<Rightarrow> nat \<Rightarrow> 'w \<Rightarrow> bytes option"
    and rd :: "bytes \<Rightarrow> nat \<Rightarrow> 'w option"
    and enc :: "'w \<Rightarrow> bytes"
    and width :: nat
  assumes enc_width: "length (enc v) = width"
    and wr_enc: "wr buf off v = memcpy_at buf off (enc v)"
    and rd_enc: "mem_read buf off width = Some (enc v) \<Longrightarrow> rd buf off = Some v"
    and rd_local: "mem_read buf off width = mem_read buf' off' width \<Longrightarrow> rd buf off = rd buf' off'"
    and rd_range: "rd buf off \<noteq> None \<longleftrightarrow> off + width \<le> length buf"
begin

lemma wr_Some_iff: "wr buf off v \<noteq> None \<longleftrightarrow> off + width \<le> length buf"
  by (simp add: wr_enc memcpy_at_def enc_width)

lemma wr_length: "wr buf off v = Some buf' \<Longrightarrow> length buf' = length buf"
  by (auto simp: wr_enc dest: memcpy_at_length)

lemma rd_wr_same: "wr buf off v = Some buf' \<Longrightarrow> rd buf' off = Some v"
  using memcpy_then_read_same[of buf off "enc v" buf'] by (auto simp: wr_enc enc_width intro: rd_enc)

lemma rd_wr_disjoint:
  assumes "wr buf off v = Some buf'" and "o2 + width \<le> off \<or> off + width \<le> o2"
  shows "rd buf' o2 = rd buf o2"
  using assms memcpy_then_read_disjoint[of buf off "enc v" buf' o2 width]
  by (auto simp: wr_enc enc_width intro: rd_local)

lemma wr_frame:
  assumes "wr buf off v = Some buf'" and "i < length buf" and "i < off \<or> off + width \<le> i"
  shows "buf' ! i = buf ! i"
  using assms memcpy_at_nth[of buf off "enc v" buf' i] by (auto simp: wr_enc enc_width)

lemma wr_rd_total:
  assumes "off + width \<le> length buf"
  shows "\<exists>buf'. wr buf off v = Some buf' \<and> length buf' = length buf \<and> rd buf' off = Some v
           \<and> (\<forall>i<length buf. i < off \<or> off + width \<le> i \<longrightarrow> buf' ! i = buf ! i)"
proof -
  obtain buf' where w: "wr buf off v = Some buf'" using assms wr_Some_iff by blast
  then show ?thesis using wr_length rd_wr_same wr_frame by blast
qed

end

lemma read_bytes_eq:
  assumes "mem_read buf off n = mem_read buf' off' n" and "off + n \<le> length buf"
  shows "off' + n \<le> length buf'" "\<And>i. i < n \<Longrightarrow> buf ! (off + i) = buf' ! (off' + i)"
proof -
  have "mem_read buf off n = Some (take n (drop off buf))" using assms(2) by (rule mem_read_Some)
  moreover from this have "mem_read buf' off' n = Some (take n (drop off buf))" using assms(1) by simp
  ultimately obtain xs where "mem_read buf off n = Some xs" "mem_read buf' off' n = Some xs" by blast
  then show "off' + n \<le> length buf'" "\<And>i. i < n \<Longrightarrow> buf ! (off + i) = buf' ! (off' + i)"
    by (auto simp: mem_read_eq_iff)
qed

lemma read_range_cong:
  assumes "mem_read buf off n = mem_read buf' off' n"
  shows "off + n \<le> length buf \<longleftrightarrow> off' + n \<le> length buf'"
  using assms by (auto simp: mem_read_def split: if_splits)

lemma ReadUint16_enc: "mem_read buf off 2 = Some (be16 v) \<Longrightarrow> ReadUint16 buf off = Some v"
  using be16_assemble[of v] mem_read_nth(3)[of buf off 2 "be16 v" 0]
    mem_read_nth(3)[of buf off 2 "be16 v" 1] mem_read_nth(1)[of buf off 2 "be16 v"]
  by (simp add: ReadUint16_def)

lemma ReadUint32_enc: "mem_read buf off 4 = Some (be32 v) \<Longrightarrow> ReadUint32 buf off = Some v"
  using be32_assemble[of v] mem_read_nth(3)[of buf off 4 "be32 v" 0]
    mem_read_nth(3)[of buf off 4 "be32 v" 1] mem_read_nth(3)[of buf off 4 "be32 v" 2]
    mem_read_nth(3)[of buf off 4 "be32 v" 3] mem_read_nth(1)[of buf off 4 "be32 v"]
  by (simp add: ReadUint32_def)

lemma ReadUint64_enc: "mem_read buf off 8 = Some (be64 v) \<Longrightarrow> ReadUint64 buf off = Some v"
proof -
  assume r: "mem_read buf off 8 = Some (be64 v)"
  have n: "\<And>i. i < 8 \<Longrightarrow> buf ! (off + i) = be64 v ! i" using r by (rule mem_read_nth(3))
  show ?thesis
    using be64_assemble[of v] n[of 0] n[of 1] n[of 2] n[of 3] n[of 4] n[of 5] n[of 6] n[of 7]
      mem_read_nth(1)[OF r]
    by (simp add: ReadUint64_def)
qed

lemma ReadUint16_local:
  assumes "mem_read buf off 2 = mem_read buf' off' 2"
  shows "ReadUint16 buf off = ReadUint16 buf' off'"
proof (cases "off + 2 \<le> length buf")
  case True
  note n = read_bytes_eq(2)[OF assms True]
  show ?thesis
    using True read_range_cong[OF assms] n[of 0] n[of 1] by (simp add: ReadUint16_def)
next
  case False
  then show ?thesis using read_range_cong[OF assms] by (simp add: ReadUint16_def)
qed

lemma ReadUint32_local:
  assumes "mem_read buf off 4 = mem_read buf' off' 4"
  shows "ReadUint32 buf off = ReadUint32 buf' off'"
proof (cases "off + 4 \<le> length buf")
  case True
  note n = read_bytes_eq(2)[OF assms True]
  show ?thesis
    using True read_range_cong[OF assms] n[of 0] n[of 1] n[of 2] n[of 3]
    by (simp add: ReadUint32_def)
next
  case False
  then show ?thesis using read_range_cong[OF assms] by (simp add: ReadUint32_def)
qed

lemma ReadUint64_local:
  assumes "mem_read buf off 8 = mem_read buf' off' 8"
  shows "ReadUint64 buf off = ReadUint64 buf' off'"
proof (cases "off + 8 \<le> length buf")
  case True
  note n = read_bytes_eq(2)[OF assms True]
  show ?thesis
    using True read_range_cong[OF assms] n[of 0] n[of 1] n[of 2] n[of 3] n[of 4] n[of 5] n[of 6] n[of 7]
    by (simp add: ReadUint64_def)
next
  case False
  then show ?thesis using read_range_cong[OF assms] by (simp add: ReadUint64_def)
qed

interpretation int16: wire_int WriteUint16 ReadUint16 be16 2
  by unfold_locales
    (auto simp: WriteUint16_def intro: ReadUint16_enc ReadUint16_local, auto simp: ReadUint16_def split: if_splits)

interpretation int32: wire_int WriteUint32 ReadUint32 be32 4
  by unfold_locales
    (auto simp: WriteUint32_def intro: ReadUint32_enc ReadUint32_local, auto simp: ReadUint32_def split: if_splits)

interpretation int64: wire_int WriteUint64 ReadUint64 be64 8
  by unfold_locales
    (auto simp: WriteUint64_def intro: ReadUint64_enc ReadUint64_local, auto simp: ReadUint64_def split: if_splits)

lemma sint_word_of_int_id:
  "- (2 ^ (LENGTH('a::len) - 1)) \<le> v \<Longrightarrow> v < 2 ^ (LENGTH('a) - 1) \<Longrightarrow> sint (word_of_int v :: 'a word) = v"
  by (simp add: signed_of_int signed_take_bit_int_eq_self)

section \<open>Properties\<close>

text \<open>
  Writing a 16, 32 or 64-bit integer inside a buffer succeeds, leaves every other byte
  of the buffer alone, and reading it back gives the value written.
\<close>

theorem wire_int_roundtrip:
  assumes "off + 2 \<le> length b2" and "off + 4 \<le> length b4" and "off + 8 \<le> length b8"
  shows "(\<exists>b. WriteUint16 b2 off v2 = Some b \<and> ReadUint16 b off = Some v2 \<and> length b = length b2
            \<and> (\<forall>i<length b2. i < off \<or> off + 2 \<le> i \<longrightarrow> b ! i = b2 ! i))
       \<and> (\<exists>b. WriteUint32 b4 off v4 = Some b \<and> ReadUint32 b off = Some v4 \<and> length b = length b4
            \<and> (\<forall>i<length b4. i < off \<or> off + 4 \<le> i \<longrightarrow> b ! i = b4 ! i))
       \<and> (\<exists>b. WriteUint64 b8 off v8 = Some b \<and> ReadUint64 b off = Some v8 \<and> length b = length b8
            \<and> (\<forall>i<length b8. i < off \<or> off + 8 \<le> i \<longrightarrow> b ! i = b8 ! i))"
  using int16.wr_rd_total[OF assms(1), of v2] int32.wr_rd_total[OF assms(2), of v4]
    int64.wr_rd_total[OF assms(3), of v8]
  by blast

theorem wire_int_roundtrip_witness:
  "\<exists>b. WriteUint32 [0,0,0,0,0,0] 1 0xDEADBEEF = Some b \<and> ReadUint32 b 1 = Some 0xDEADBEEF
     \<and> length b = 6 \<and> b ! 0 = 0 \<and> b ! 5 = 0"
proof -
  have h: "1 + 2 \<le> length [0::u8,0,0,0,0,0]" "1 + 4 \<le> length [0::u8,0,0,0,0,0]"
    "1 + 8 \<le> length [0::u8,0,0,0,0,0,0,0,0]" by simp_all
  show ?thesis using wire_int_roundtrip[OF h, of 0 "0xDEADBEEF" 0] by fastforce
qed

text \<open>
  A signed 64, 32 or 16-bit value in range survives the write and the read of the
  signed accessors, which share the bits of the unsigned ones.
\<close>

theorem signed_int_roundtrip:
  "(- (2 ^ 63) \<le> v \<and> v < 2 ^ 63 \<and> WriteInt64 buf off v = Some b \<longrightarrow> ReadInt64 b off = Some v) \<and>
   (- (2 ^ 31) \<le> v \<and> v < 2 ^ 31 \<and> WriteInt32 buf off v = Some b \<longrightarrow> ReadInt32 b off = Some v) \<and>
   (- (2 ^ 15) \<le> v \<and> v < 2 ^ 15 \<and> WriteInt16 buf off v = Some b \<longrightarrow> ReadInt16 b off = Some v)"
  using int64.rd_wr_same[of buf off "word_of_int v" b] int32.rd_wr_same[of buf off "word_of_int v" b]
    int16.rd_wr_same[of buf off "word_of_int v" b]
  by (simp add: WriteInt64_def ReadInt64_def WriteInt32_def ReadInt32_def WriteInt16_def ReadInt16_def
      WriteUint64_def WriteUint32_def WriteUint16_def sint_word_of_int_id)

theorem signed_int_roundtrip_witness:
  "\<exists>b. WriteInt32 [0,0,0,0] 0 (-5) = Some b \<and> ReadInt32 b 0 = Some (-5)"
proof -
  obtain b where b: "WriteInt32 [0,0,0,0] 0 (-5) = Some b"
    by (simp add: WriteInt32_def memcpy_at_def)
  then show ?thesis using signed_int_roundtrip[of "-5" "[0,0,0,0]" 0 b] by simp
qed

end
