(* ===== verification/Bit_Set.thy ===== *)
theory Bit_Set
  imports Bytes
begin

text \<open>
  The class \<open>BitSet\<close> of \<open>src/util/bitset.h\<close> and \<open>src/util/bitset.cpp\<close>: the set of chunks
  a peer or the local client has, kept as a byte array whose first bit is the most
  significant bit of byte 0, with the number of bits and of bits that are on cached beside it.

  The invariant has three layers. \<open>bs_wf\<close> ties the sizes together and makes every array
  access of the class fall inside \<open>data\<close>; \<open>bs_counted\<close> says that the cached \<open>num_on\<close> is the
  number of bits that \<open>get\<close> reports; \<open>bs_padded\<close> says that the unused bits of the last byte
  are zero, which \<open>updateNumOnBits\<close>, \<open>orBitSet\<close>, \<open>andBitSet\<close> and \<open>operator ==\<close> rely on and
  which \<open>setAll(true)\<close> breaks.
\<close>

section \<open>State and operations\<close>

record BitSet =
  bs_num_bits :: nat
  bs_num_bytes :: nat
  bs_data :: bytes
  bs_num_on :: nat

definition BitCount :: "nat list" where
  "BitCount = [
     0, 1, 1, 2, 1, 2, 2, 3, 1, 2, 2, 3, 2, 3, 3, 4,
     1, 2, 2, 3, 2, 3, 3, 4, 2, 3, 3, 4, 3, 4, 4, 5,
     1, 2, 2, 3, 2, 3, 3, 4, 2, 3, 3, 4, 3, 4, 4, 5,
     2, 3, 3, 4, 3, 4, 4, 5, 3, 4, 4, 5, 4, 5, 5, 6,
     1, 2, 2, 3, 2, 3, 3, 4, 2, 3, 3, 4, 3, 4, 4, 5,
     2, 3, 3, 4, 3, 4, 4, 5, 3, 4, 4, 5, 4, 5, 5, 6,
     2, 3, 3, 4, 3, 4, 4, 5, 3, 4, 4, 5, 4, 5, 5, 6,
     3, 4, 4, 5, 4, 5, 5, 6, 4, 5, 5, 6, 5, 6, 6, 7,
     1, 2, 2, 3, 2, 3, 3, 4, 2, 3, 3, 4, 3, 4, 4, 5,
     2, 3, 3, 4, 3, 4, 4, 5, 3, 4, 4, 5, 4, 5, 5, 6,
     2, 3, 3, 4, 3, 4, 4, 5, 3, 4, 4, 5, 4, 5, 5, 6,
     3, 4, 4, 5, 4, 5, 5, 6, 4, 5, 5, 6, 5, 6, 6, 7,
     2, 3, 3, 4, 3, 4, 4, 5, 3, 4, 4, 5, 4, 5, 5, 6,
     3, 4, 4, 5, 4, 5, 5, 6, 4, 5, 5, 6, 5, 6, 6, 7,
     3, 4, 4, 5, 4, 5, 5, 6, 4, 5, 5, 6, 5, 6, 6, 7,
     4, 5, 5, 6, 5, 6, 6, 7, 5, 6, 6, 7, 6, 7, 7, 8]"

definition numBytes :: "nat \<Rightarrow> nat" where
  "numBytes n = n div 8 + (if n mod 8 > 0 then 1 else 0)"

definition BitSet_get :: "BitSet \<Rightarrow> nat \<Rightarrow> bool" where
  "BitSet_get bs i =
     (if i \<ge> bs_num_bits bs then False
      else (bs_data bs ! (i div 8)) AND push_bit (7 - i mod 8) 1 \<noteq> 0)"

definition BitSet_set :: "BitSet \<Rightarrow> nat \<Rightarrow> bool \<Rightarrow> BitSet" where
  "BitSet_set bs i on =
     (if i \<ge> bs_num_bits bs then bs
      else let b = i div 8; m = push_bit (7 - i mod 8) 1; d = bs_data bs in
        if on \<and> \<not> BitSet_get bs i then
          bs\<lparr>bs_num_on := add32 (bs_num_on bs) 1, bs_data := d[b := d ! b OR m]\<rparr>
        else if \<not> on \<and> BitSet_get bs i then
          bs\<lparr>bs_num_on := sub32 (bs_num_on bs) 1, bs_data := d[b := d ! b AND NOT m]\<rparr>
        else bs)"

definition BitSet_new :: "nat \<Rightarrow> BitSet" where
  "BitSet_new n = \<lparr>bs_num_bits = n, bs_num_bytes = numBytes n,
                   bs_data = replicate (numBytes n) 0, bs_num_on = 0\<rparr>"

text \<open>The constructor from raw bytes copies \<open>num_bytes\<close> bytes and counts with \<open>get\<close>.\<close>

definition BitSet_from :: "bytes \<Rightarrow> nat \<Rightarrow> BitSet option" where
  "BitSet_from d n =
     do { d' \<leftarrow> mem_read d 0 (numBytes n);
          let bs = \<lparr>bs_num_bits = n, bs_num_bytes = numBytes n, bs_data = d', bs_num_on = 0\<rparr>;
          Some (fold (\<lambda>i s. if BitSet_get s i then s\<lparr>bs_num_on := add32 (bs_num_on s) 1\<rparr> else s)
                  [0..<n] bs) }"

definition updateNumOnBits :: "BitSet \<Rightarrow> BitSet" where
  "updateNumOnBits bs =
     fold (\<lambda>i s. s\<lparr>bs_num_on := add32 (bs_num_on s) (BitCount ! unat (bs_data s ! i))\<rparr>)
       [0..<bs_num_bytes bs] (bs\<lparr>bs_num_on := 0\<rparr>)"

definition BitSet_assign :: "BitSet \<Rightarrow> BitSet \<Rightarrow> BitSet" where
  "BitSet_assign bs other =
     bs\<lparr>bs_num_bytes := bs_num_bytes other, bs_num_bits := bs_num_bits other,
        bs_data := take (bs_num_bytes other) (bs_data other), bs_num_on := bs_num_on other\<rparr>"

definition BitSet_invert :: "BitSet \<Rightarrow> BitSet" where
  "BitSet_invert bs = fold (\<lambda>i s. BitSet_set s i (\<not> BitSet_get s i)) [0..<bs_num_bits bs] bs"

definition BitSet_minus :: "BitSet \<Rightarrow> BitSet \<Rightarrow> BitSet" where
  "BitSet_minus bs other =
     fold (\<lambda>i s. if BitSet_get s i \<and> BitSet_get other i then BitSet_set s i False else s)
       [0..<bs_num_bits bs] bs"

definition BitSet_setAll :: "BitSet \<Rightarrow> bool \<Rightarrow> BitSet" where
  "BitSet_setAll bs on =
     bs\<lparr>bs_data := map (\<lambda>_. if on then 0xFF else 0x00) (bs_data bs),
        bs_num_on := (if on then bs_num_bits bs else 0)\<rparr>"

definition BitSet_clear :: "BitSet \<Rightarrow> BitSet" where
  "BitSet_clear bs = BitSet_setAll bs False"

text \<open>The loop that \<open>orBitSet\<close> and \<open>andBitSet\<close> share, with the byte operation as parameter.\<close>

definition bytewise_loop :: "(u8 \<Rightarrow> u8 \<Rightarrow> u8) \<Rightarrow> BitSet \<Rightarrow> BitSet \<Rightarrow> BitSet" where
  "bytewise_loop f bs other =
     fold (\<lambda>i s. let od = (if i < bs_num_bytes other then bs_data other ! i else 0);
                     d = f (bs_data s ! i) od
                 in s\<lparr>bs_data := (bs_data s)[i := d], bs_num_on := add32 (bs_num_on s) (BitCount ! unat d)\<rparr>)
       [0..<bs_num_bytes bs] (bs\<lparr>bs_num_on := 0\<rparr>)"

definition BitSet_or :: "BitSet \<Rightarrow> BitSet \<Rightarrow> BitSet" where
  "BitSet_or bs other = bytewise_loop (OR) bs other"

definition BitSet_and :: "BitSet \<Rightarrow> BitSet \<Rightarrow> BitSet" where
  "BitSet_and bs other = bytewise_loop (AND) bs other"

definition BitSet_includes :: "BitSet \<Rightarrow> BitSet \<Rightarrow> bool" where
  "BitSet_includes bs other =
     (\<not> list_ex (\<lambda>i. BitSet_get other i \<and> \<not> BitSet_get bs i) [0..<bs_num_bits bs])"

definition BitSet_allOn :: "BitSet \<Rightarrow> bool" where
  "BitSet_allOn bs \<longleftrightarrow> bs_num_on bs = bs_num_bits bs"

definition BitSet_eq :: "BitSet \<Rightarrow> BitSet \<Rightarrow> bool" where
  "BitSet_eq bs other \<longleftrightarrow>
     (if bs_num_bits bs \<noteq> bs_num_bits other then False
      else take (bs_num_bytes bs) (bs_data bs) = take (bs_num_bytes bs) (bs_data other))"

section \<open>Invariants\<close>

definition bs_wf :: "BitSet \<Rightarrow> bool" where
  "bs_wf bs \<longleftrightarrow> bs_num_bytes bs = numBytes (bs_num_bits bs) \<and> length (bs_data bs) = bs_num_bytes bs
     \<and> bs_num_bits bs < 2 ^ 32"

definition on_bits :: "BitSet \<Rightarrow> nat" where
  "on_bits bs = length (filter (BitSet_get bs) [0..<bs_num_bits bs])"

definition bs_counted :: "BitSet \<Rightarrow> bool" where
  "bs_counted bs \<longleftrightarrow> bs_wf bs \<and> bs_num_on bs = on_bits bs"

definition raw_bit :: "bytes \<Rightarrow> nat \<Rightarrow> bool" where
  "raw_bit d i = bit (d ! (i div 8)) (7 - i mod 8)"

definition bs_padded :: "BitSet \<Rightarrow> bool" where
  "bs_padded bs \<longleftrightarrow> list_all (\<lambda>i. \<not> raw_bit (bs_data bs) i) [bs_num_bits bs..<8 * bs_num_bytes bs]"

lemma ceil8:
  fixes q r n :: nat
  shows "8 * q + r = n \<Longrightarrow> r < 8 \<Longrightarrow>
    n \<le> 8 * (q + (if r > 0 then 1 else 0)) \<and> 8 * (q + (if r > 0 then 1 else 0)) < n + 8"
  by (cases "r > 0") auto

lemma numBytes_bounds: "n \<le> 8 * numBytes n" "8 * numBytes n < n + 8"
  using ceil8[of "n div 8" "n mod 8" n] by (simp_all add: numBytes_def)

lemma numBytes_index: "i < n \<Longrightarrow> i div 8 < numBytes n"
  using numBytes_bounds[of n] by (auto simp: less_mult_imp_div_less mult.commute)

lemma BitSet_get_raw: "BitSet_get bs i \<longleftrightarrow> i < bs_num_bits bs \<and> raw_bit (bs_data bs) i"
  by (auto simp: BitSet_get_def raw_bit_def bit_iff_and_push_bit_not_eq_0)

lemma bs_wf_index: "bs_wf bs \<Longrightarrow> i < bs_num_bits bs \<Longrightarrow> i div 8 < length (bs_data bs)"
  by (simp add: bs_wf_def numBytes_index)

lemma bs_wf_new [simp]: "n < 2 ^ 32 \<Longrightarrow> bs_wf (BitSet_new n)"
  by (simp add: bs_wf_def BitSet_new_def)

lemma BitSet_set_sizes [simp]:
  "bs_num_bits (BitSet_set bs i on) = bs_num_bits bs"
  "bs_num_bytes (BitSet_set bs i on) = bs_num_bytes bs"
  "length (bs_data (BitSet_set bs i on)) = length (bs_data bs)"
  by (simp_all add: BitSet_set_def Let_def)

lemma bs_wf_set [simp]: "bs_wf (BitSet_set bs i on) = bs_wf bs"
  by (simp add: bs_wf_def)

lemma index_split0:
  fixes a b p q :: nat
  shows "a < 8 \<Longrightarrow> b < 8 \<Longrightarrow> (8 * q + a = 8 * p + b) \<longleftrightarrow> (q = p \<and> 7 - a = 7 - b)"
proof
  assume l: "a < 8" "b < 8" and e: "8 * q + a = 8 * p + b"
  have "\<not> q < p" "\<not> p < q" using l e by linarith+
  then show "q = p \<and> 7 - a = 7 - b" using e by simp
next
  assume "a < 8" "b < 8" "q = p \<and> 7 - a = 7 - b"
  then show "8 * q + a = 8 * p + b" by linarith
qed

lemma index_split: "(i::nat) = j \<longleftrightarrow> i div 8 = j div 8 \<and> 7 - i mod 8 = 7 - j mod 8"
proof -
  have m: "i mod 8 < 8" "j mod 8 < 8" by simp_all
  from index_split0[OF m, of "i div 8" "j div 8"] show ?thesis by (simp only: mult_div_mod_eq)
qed

lemma raw_bit_update:
  assumes "i div 8 < length d"
  shows "raw_bit (d[i div 8 := d ! (i div 8) OR push_bit (7 - i mod 8) 1]) j
           \<longleftrightarrow> j = i \<or> raw_bit d j"
    and "raw_bit (d[i div 8 := d ! (i div 8) AND NOT (push_bit (7 - i mod 8) 1)]) j
           \<longleftrightarrow> j \<noteq> i \<and> raw_bit d j"
proof -
  have k: "7 - j mod 8 < 8" by simp
  show "raw_bit (d[i div 8 := d ! (i div 8) OR push_bit (7 - i mod 8) 1]) j \<longleftrightarrow> j = i \<or> raw_bit d j"
    using assms k index_split[of j i]
    by (cases "j div 8 = i div 8") (auto simp: raw_bit_def bit_simps)
  show "raw_bit (d[i div 8 := d ! (i div 8) AND NOT (push_bit (7 - i mod 8) 1)]) j \<longleftrightarrow> j \<noteq> i \<and> raw_bit d j"
    using assms k index_split[of j i]
    by (cases "j div 8 = i div 8") (auto simp: raw_bit_def bit_simps)
qed

lemma BitSet_get_set:
  assumes "bs_wf bs"
  shows "BitSet_get (BitSet_set bs i on) j =
           (if j = i \<and> i < bs_num_bits bs then on else BitSet_get bs j)"
  using raw_bit_update[OF bs_wf_index[OF assms, of i], of j]
  by (auto simp: BitSet_get_raw BitSet_set_def Let_def)

section \<open>The contract of a bit array and what its loops compute\<close>

text \<open>
  What the clients of a bit array use: reading after writing, the size, and a cached number
  of bits that are on. A loop that rewrites each index once, from what is there, computes a
  pointwise function; \<open>invert\<close> and \<open>operator -=\<close> are two such loops.
\<close>

locale bit_array =
  fixes bget :: "'s \<Rightarrow> nat \<Rightarrow> bool"
    and bset :: "'s \<Rightarrow> nat \<Rightarrow> bool \<Rightarrow> 's"
    and bsize :: "'s \<Rightarrow> nat"
    and bcount :: "'s \<Rightarrow> nat"
    and binv :: "'s \<Rightarrow> bool"
  assumes inv_bset: "binv s \<Longrightarrow> binv (bset s i on)"
    and size_bset: "bsize (bset s i on) = bsize s"
    and get_bset: "binv s \<Longrightarrow> bget (bset s i on) j = (if j = i \<and> i < bsize s then on else bget s j)"
    and get_range: "bget s i \<Longrightarrow> i < bsize s"
    and count_card: "binv s \<Longrightarrow> bcount s = card {i. bget s i}"
begin

lemma full_iff:
  assumes "binv s"
  shows "bcount s = bsize s \<longleftrightarrow> (\<forall>i<bsize s. bget s i)"
proof
  have sub: "{i. bget s i} \<subseteq> {..<bsize s}" using get_range by blast
  assume "bcount s = bsize s"
  then have "card {i. bget s i} = card {..<bsize s}" using count_card[OF assms] by simp
  then have "{i. bget s i} = {..<bsize s}" by (rule card_subset_eq[OF finite_lessThan sub])
  then show "\<forall>i<bsize s. bget s i" by blast
next
  assume "\<forall>i<bsize s. bget s i"
  then have "{i. bget s i} = {..<bsize s}" using get_range by blast
  then show "bcount s = bsize s" using count_card[OF assms] by simp
qed

lemma count_le: "binv s \<Longrightarrow> bcount s \<le> bsize s"
proof -
  assume "binv s"
  moreover have "{i. bget s i} \<subseteq> {..<bsize s}" using get_range by auto
  ultimately show ?thesis using card_mono[of "{..<bsize s}" "{i. bget s i}"] by (simp add: count_card)
qed

lemma pointwise_loop:
  assumes "binv s" and st: "\<And>i s. binv s \<Longrightarrow> step i s = bset s i (h i (bget s i))"
  shows "binv (fold step [0..<n] s) \<and> bsize (fold step [0..<n] s) = bsize s
       \<and> (\<forall>j. bget (fold step [0..<n] s) j = (if j < n \<and> j < bsize s then h j (bget s j) else bget s j))"
proof (induction n)
  case 0
  then show ?case using assms(1) by simp
next
  case (Suc n)
  let ?t = "fold step [0..<n] s"
  have t: "fold step [0..<Suc n] s = bset ?t n (h n (bget ?t n))" using Suc st by simp
  have g: "bget ?t n = bget s n" using Suc by simp
  show ?case unfolding t g using Suc by (simp add: inv_bset size_bset get_bset less_Suc_eq)
qed

end

lemma filter_upt_Suc_on:
  "length (filter p [0..<n]) = card {i. i < n \<and> p i}"
proof -
  have "length (filter p [0..<n]) = card (set (filter p [0..<n]))"
    by (rule distinct_card[symmetric]) simp
  also have "set (filter p [0..<n]) = {i. i < n \<and> p i}" by auto
  finally show ?thesis .
qed

lemma on_bits_card: "on_bits bs = card {i. BitSet_get bs i}"
proof -
  have "{i. i < bs_num_bits bs \<and> BitSet_get bs i} = {i. BitSet_get bs i}"
    by (auto simp: BitSet_get_raw)
  then show ?thesis by (simp add: on_bits_def filter_upt_Suc_on)
qed

lemma on_bits_le: "on_bits bs \<le> bs_num_bits bs"
  unfolding on_bits_def using length_filter_le[of "BitSet_get bs" "[0..<bs_num_bits bs]"] by simp

lemma finite_on [simp]: "finite {i. BitSet_get bs i}"
  by (rule finite_subset[of _ "{..<bs_num_bits bs}"]) (auto simp: BitSet_get_raw)

lemma BitSet_set_counted: "bs_counted bs \<Longrightarrow> bs_counted (BitSet_set bs i on)"
proof -
  assume c: "bs_counted bs"
  then have wf: "bs_wf bs" and n: "bs_num_on bs = card {i. BitSet_get bs i}"
    by (simp_all add: bs_counted_def on_bits_card)
  have lt: "bs_num_bits bs < 2 ^ 32" using wf by (simp add: bs_wf_def)
  have le: "card {i. BitSet_get bs i} \<le> bs_num_bits bs" using on_bits_le by (simp add: on_bits_card)
  let ?A = "{j. BitSet_get bs j}"
  consider (same) "BitSet_set bs i on = bs"
    | (on) "i < bs_num_bits bs" "on" "\<not> BitSet_get bs i" | (off) "i < bs_num_bits bs" "\<not> on" "BitSet_get bs i"
    by (cases "i < bs_num_bits bs"; cases "on"; cases "BitSet_get bs i") (auto simp: BitSet_set_def)
  then show ?thesis
  proof cases
    case same then show ?thesis using c by simp
  next
    case on
    have s: "{j. BitSet_get (BitSet_set bs i on) j} = insert i ?A"
      using on by (auto simp: BitSet_get_set[OF wf])
    have "insert i ?A \<subseteq> {..<bs_num_bits bs}" using on(1) by (auto simp: BitSet_get_raw)
    then have "card (insert i ?A) \<le> bs_num_bits bs"
      using card_mono[of "{..<bs_num_bits bs}"] by (metis card_lessThan finite_lessThan)
    then have "card ?A + 1 < 2 ^ 32" using on(3) lt by simp
    moreover have "bs_num_on (BitSet_set bs i on) = add32 (bs_num_on bs) 1"
      using on by (simp add: BitSet_set_def Let_def)
    ultimately show ?thesis
      using on(3) wf s n by (simp add: bs_counted_def on_bits_card u32_simps)
  next
    case off
    have s: "{j. BitSet_get (BitSet_set bs i on) j} = ?A - {i}"
      using off by (auto simp: BitSet_get_set[OF wf])
    have "0 < card ?A" using off(3) by (auto simp: card_gt_0_iff)
    moreover have "bs_num_on (BitSet_set bs i on) = sub32 (bs_num_on bs) 1"
      using off by (simp add: BitSet_set_def Let_def)
    ultimately show ?thesis
      using off(3) wf s n le lt by (simp add: bs_counted_def on_bits_card u32_simps)
  qed
qed

lemma bs_countedD: "bs_counted bs \<Longrightarrow> bs_wf bs" "bs_counted bs \<Longrightarrow> bs_num_on bs = card {i. BitSet_get bs i}"
  by (simp_all add: bs_counted_def on_bits_card)

interpretation bs: bit_array BitSet_get BitSet_set bs_num_bits bs_num_on bs_counted
  by unfold_locales
    (simp_all add: BitSet_set_counted BitSet_get_set bs_countedD, simp add: BitSet_get_raw)

section \<open>Table lookup, whole-byte operations\<close>

definition popcount :: "u8 \<Rightarrow> nat" where
  "popcount b = length (filter (bit b) [0..<8])"

lemma BitCount_table: "list_all (\<lambda>n. BitCount ! n = popcount (word_of_nat n)) [0..<256]"
  by code_simp

lemma BitCount_popcount: "BitCount ! unat (b :: u8) = popcount b"
proof -
  have "unat b < 256" using unsigned_less[of b] by simp
  then show ?thesis using BitCount_table by (auto simp: list_all_iff)
qed

lemma length_filter_of_bool: "length (filter P xs) = sum_list (map (\<lambda>x. of_bool (P x)) xs)"
  by (induction xs) auto

lemma popcount_msb_first: "length (filter (\<lambda>k. bit b (7 - k)) [0..<8]) = popcount b"
proof -
  have u: "[0..<8] = [0, 1, 2, 3, 4, 5, 6, 7::nat]" by code_simp
  show ?thesis by (simp add: popcount_def length_filter_of_bool u)
qed

lemma raw_bit_append:
  "i < 8 * length d \<Longrightarrow> raw_bit (d @ [b]) i = raw_bit d i"
  "k < 8 \<Longrightarrow> raw_bit (d @ [b]) (8 * length d + k) = bit b (7 - k)"
proof -
  assume "i < 8 * length d"
  then have "i div 8 < length d" using less_mult_imp_div_less[of i "length d" 8] by (simp only: mult.commute)
  then show "raw_bit (d @ [b]) i = raw_bit d i" by (simp only: raw_bit_def nth_append if_True)
next
  assume "k < 8"
  then have "(8 * length d + k) div 8 = length d" "(8 * length d + k) mod 8 = k" by simp_all
  then show "raw_bit (d @ [b]) (8 * length d + k) = bit b (7 - k)"
    by (simp only: raw_bit_def nth_append_length)
qed

lemma raw_count: "length (filter (raw_bit d) [0..<8 * length d]) = sum_list (map popcount d)"
proof (induction d rule: rev_induct)
  case Nil
  then show ?case by simp
next
  case (snoc b d)
  have u: "[0..<8 * length (d @ [b])] = [0..<8 * length d] @ map (\<lambda>k. 8 * length d + k) [0..<8]"
    using upt_add_eq_append[of 0 "8 * length d" 8] map_add_upt[of "8 * length d" 8]
    by (simp add: add.commute)
  have v: "sum_list (map popcount (d @ [b])) = sum_list (map popcount d) + popcount b" by simp
  have "filter (raw_bit (d @ [b])) [0..<8 * length d] = filter (raw_bit d) [0..<8 * length d]"
    by (rule filter_cong) (auto simp: raw_bit_append)
  moreover have "length (filter (raw_bit (d @ [b])) (map (\<lambda>k. 8 * length d + k) [0..<8])) = popcount b"
  proof -
    have "filter (raw_bit (d @ [b]) \<circ> (\<lambda>k. 8 * length d + k)) [0..<8] = filter (\<lambda>k. bit b (7 - k)) [0..<8]"
      by (rule filter_cong) (auto simp: raw_bit_append)
    then show ?thesis by (simp add: filter_map popcount_msb_first)
  qed
  ultimately show ?case using snoc unfolding u v by (simp only: filter_append length_append)
qed

lemma padded_count:
  assumes "bs_wf bs" and "bs_padded bs"
  shows "sum_list (map popcount (bs_data bs)) = on_bits bs"
proof -
  let ?n = "bs_num_bits bs" and ?m = "8 * bs_num_bytes bs"
  have "?n \<le> ?m" using assms(1) numBytes_bounds(1)[of ?n] by (simp add: bs_wf_def)
  then have u: "[0..<?m] = [0..<?n] @ [?n..<?m]"
    using upt_add_eq_append[of 0 ?n "?m - ?n"] by simp
  have "filter (raw_bit (bs_data bs)) [?n..<?m] = []"
    using assms(2) by (auto simp: bs_padded_def list_all_iff filter_empty_conv)
  moreover have "filter (raw_bit (bs_data bs)) [0..<?n] = filter (BitSet_get bs) [0..<?n]"
    by (rule filter_cong) (auto simp: BitSet_get_raw)
  ultimately show ?thesis
    using raw_count[of "bs_data bs"] assms(1) unfolding on_bits_def bs_wf_def
    by (metis append_Nil2 filter_append u)
qed

lemma add32_mod: "add32 (x mod 2 ^ 32) y = (x + y) mod 2 ^ 32"
  by (simp add: add32_def mod_simps)

text \<open>Whatever the padding holds, \<open>updateNumOnBits\<close> counts the set bits of the whole array.\<close>

lemma updateNumOnBits_eq:
  assumes "bs_wf bs"
  shows "updateNumOnBits bs = bs\<lparr>bs_num_on := sum_list (map popcount (bs_data bs)) mod 2 ^ 32\<rparr>"
proof -
  let ?step = "\<lambda>i s. s\<lparr>bs_num_on := add32 (bs_num_on s) (BitCount ! unat (bs_data s ! i))\<rparr>"
  have "fold ?step [0..<n] (bs\<lparr>bs_num_on := 0\<rparr>)
          = bs\<lparr>bs_num_on := sum_list (map popcount (take n (bs_data bs))) mod 2 ^ 32\<rparr>"
    if "n \<le> length (bs_data bs)" for n
    using that
    by (induction n) (auto simp: take_Suc_conv_app_nth BitCount_popcount add32_mod simp del: power_numeral)
  from this[of "bs_num_bytes bs"] show ?thesis using assms by (simp add: updateNumOnBits_def bs_wf_def)
qed

definition other_byte :: "BitSet \<Rightarrow> nat \<Rightarrow> u8" where
  "other_byte o' i = (if i < bs_num_bytes o' then bs_data o' ! i else 0)"

lemma bytewise_loop_eq:
  assumes "bs_wf bs"
  shows "bytewise_loop f bs o' =
    (let d = map (\<lambda>i. f (bs_data bs ! i) (other_byte o' i)) [0..<bs_num_bytes bs]
     in bs\<lparr>bs_data := d, bs_num_on := sum_list (map popcount d) mod 2 ^ 32\<rparr>)"
proof -
  let ?g = "\<lambda>i. f (bs_data bs ! i) (other_byte o' i)"
  let ?step = "\<lambda>i s. let od = (if i < bs_num_bytes o' then bs_data o' ! i else 0);
                     d = f (bs_data s ! i) od
                 in s\<lparr>bs_data := (bs_data s)[i := d], bs_num_on := add32 (bs_num_on s) (BitCount ! unat d)\<rparr>"
  have len: "length (bs_data bs) = bs_num_bytes bs" using assms by (simp add: bs_wf_def)
  have "fold ?step [0..<n] (bs\<lparr>bs_num_on := 0\<rparr>)
          = bs\<lparr>bs_data := map ?g [0..<n] @ drop n (bs_data bs),
               bs_num_on := sum_list (map popcount (map ?g [0..<n])) mod 2 ^ 32\<rparr>"
    if "n \<le> length (bs_data bs)" for n
    using that
  proof (induction n)
    case 0
    then show ?case by simp
  next
    case (Suc n)
    then have dr: "drop n (bs_data bs) = bs_data bs ! n # drop (Suc n) (bs_data bs)"
      by (simp add: Cons_nth_drop_Suc)
    show ?case
      using Suc
      by (simp add: Let_def nth_append list_update_append dr BitCount_popcount add32_mod other_byte_def
          del: power_numeral)
  qed
  from this[of "bs_num_bytes bs"] show ?thesis
    by (simp only: bytewise_loop_def Let_def len) (simp add: len)
qed

lemma bytewise_raw:
  assumes "bs_wf bs" and "i < 8 * bs_num_bytes bs"
  shows "raw_bit (bs_data (bytewise_loop f bs o')) i
           = bit (f (bs_data bs ! (i div 8)) (other_byte o' (i div 8))) (7 - i mod 8)"
proof -
  have "i div 8 < bs_num_bytes bs"
    using assms(2) less_mult_imp_div_less[of i "bs_num_bytes bs" 8] by (simp only: mult.commute)
  then show ?thesis by (simp add: bytewise_loop_eq[OF assms(1)] Let_def raw_bit_def)
qed

lemma bytewise_sizes:
  assumes "bs_wf bs"
  shows "bs_wf (bytewise_loop f bs o')" "bs_num_bits (bytewise_loop f bs o') = bs_num_bits bs"
    "bs_num_bytes (bytewise_loop f bs o') = bs_num_bytes bs"
  using assms by (simp_all add: bytewise_loop_eq Let_def bs_wf_def)

lemma bytewise_counted:
  assumes "bs_wf bs" and "bs_padded (bytewise_loop f bs o')"
  shows "bs_counted (bytewise_loop f bs o')"
proof -
  let ?r = "bytewise_loop f bs o'"
  have wf: "bs_wf ?r" using assms(1) by (rule bytewise_sizes)
  have "bs_num_on ?r = sum_list (map popcount (bs_data ?r)) mod 2 ^ 32"
    by (simp add: bytewise_loop_eq[OF assms(1)] Let_def)
  moreover have "on_bits ?r < 2 ^ 32" using on_bits_le[of ?r] wf by (simp add: bs_wf_def)
  ultimately show ?thesis using padded_count[OF wf assms(2)] wf by (simp add: bs_counted_def)
qed

lemma same_size_bytes: "bs_wf a \<Longrightarrow> bs_wf b \<Longrightarrow> bs_num_bits a = bs_num_bits b \<Longrightarrow> bs_num_bytes a = bs_num_bytes b"
  by (simp add: bs_wf_def)

lemma bytewise_same_size:
  assumes a: "bs_wf a" and b: "bs_wf b" and "bs_num_bits a = bs_num_bits b" and "i < 8 * bs_num_bytes a"
  shows "raw_bit (bs_data (BitSet_or a b)) i \<longleftrightarrow> raw_bit (bs_data a) i \<or> raw_bit (bs_data b) i"
    and "raw_bit (bs_data (BitSet_and a b)) i \<longleftrightarrow> raw_bit (bs_data a) i \<and> raw_bit (bs_data b) i"
proof -
  have "i div 8 < bs_num_bytes a"
    using assms(4) less_mult_imp_div_less[of i "bs_num_bytes a" 8] by (simp only: mult.commute)
  then have o': "other_byte b (i div 8) = bs_data b ! (i div 8)"
    using same_size_bytes[OF a b assms(3)] by (simp add: other_byte_def)
  show "raw_bit (bs_data (BitSet_or a b)) i \<longleftrightarrow> raw_bit (bs_data a) i \<or> raw_bit (bs_data b) i"
    unfolding BitSet_or_def bytewise_raw[OF a assms(4)] o' by (simp add: raw_bit_def bit_or_iff)
  show "raw_bit (bs_data (BitSet_and a b)) i \<longleftrightarrow> raw_bit (bs_data a) i \<and> raw_bit (bs_data b) i"
    unfolding BitSet_and_def bytewise_raw[OF a assms(4)] o' by (simp add: raw_bit_def bit_and_iff)
qed

lemma bs_wf_inside: "bs_wf bs \<Longrightarrow> i < bs_num_bits bs \<Longrightarrow> i < 8 * bs_num_bytes bs"
  using numBytes_bounds(1)[of "bs_num_bits bs"] by (simp add: bs_wf_def)

lemma invert_step: "BitSet_invert bs = fold (\<lambda>i s. BitSet_set s i (\<not> BitSet_get s i)) [0..<bs_num_bits bs] bs"
  by (simp add: BitSet_invert_def)

lemma BitSet_set_same: "BitSet_get s i \<Longrightarrow> BitSet_set s i True = s" "\<not> BitSet_get s i \<Longrightarrow> BitSet_set s i False = s"
  by (simp_all add: BitSet_set_def Let_def)

lemma minus_step:
  "(if BitSet_get s i \<and> BitSet_get o' i then BitSet_set s i False else s)
     = BitSet_set s i (BitSet_get s i \<and> \<not> BitSet_get o' i)"
  by (cases "BitSet_get s i"; cases "BitSet_get o' i") (simp_all add: BitSet_set_same)

lemma BitSet_new_size [simp]: "bs_num_bits (BitSet_new n) = n"
  by (simp add: BitSet_new_def)

lemma BitSet_get_new [simp]: "\<not> BitSet_get (BitSet_new n) i"
  using numBytes_index[of i n] by (auto simp: BitSet_get_def BitSet_new_def)

lemma bs_counted_new: "n < 2 ^ 32 \<Longrightarrow> bs_counted (BitSet_new n)"
  by (simp add: bs_counted_def on_bits_def) (simp add: BitSet_new_def)

lemma bs_padded_new: "bs_padded (BitSet_new n)"
proof -
  have "i div 8 < numBytes n" if "i < 8 * numBytes n" for i
    using that less_mult_imp_div_less[of i "numBytes n" 8] by (simp only: mult.commute)
  then show ?thesis by (auto simp: bs_padded_def BitSet_new_def list_all_iff raw_bit_def)
qed

lemma bs_padded_set:
  assumes "bs_wf bs" and "bs_padded bs"
  shows "bs_padded (BitSet_set bs i on)"
proof (cases "i < bs_num_bits bs")
  case True
  note raw = raw_bit_update[OF bs_wf_index[OF assms(1) True]]
  have "\<not> raw_bit (bs_data (BitSet_set bs i on)) j"
    if "bs_num_bits bs \<le> j" and "\<not> raw_bit (bs_data bs) j" for j
    using that True raw[of j] by (auto simp: BitSet_set_def Let_def)
  then show ?thesis using assms(2) by (simp add: bs_padded_def list_all_iff)
next
  case False
  then show ?thesis using assms(2) by (simp add: BitSet_set_def)
qed

section \<open>Properties\<close>

text \<open>
  C18. Setting a bit changes exactly that bit (and nothing when the index is out of range),
  keeps the cached count equal to the number of bits that are on, and \<open>allOn\<close> is true
  exactly when every bit is.
\<close>

theorem BitSet_set_correct:
  assumes "bs_counted bs"
  shows "bs_counted (BitSet_set bs i on)
       \<and> (\<forall>j. BitSet_get (BitSet_set bs i on) j = (if j = i \<and> i < bs_num_bits bs then on else BitSet_get bs j))
       \<and> (BitSet_allOn bs \<longleftrightarrow> (\<forall>j<bs_num_bits bs. BitSet_get bs j))"
  using assms bs.inv_bset bs.get_bset bs.full_iff by (auto simp: BitSet_allOn_def)

theorem BitSet_set_correct_witness:
  "bs_counted (BitSet_set (BitSet_new 10) 3 True) \<and> BitSet_get (BitSet_set (BitSet_new 10) 3 True) 3
     \<and> \<not> BitSet_get (BitSet_set (BitSet_new 10) 3 True) 4"
proof -
  have "bs_counted (BitSet_new 10)" by (rule bs_counted_new) simp
  from BitSet_set_correct[OF this, of 3 True] show ?thesis by simp
qed

text \<open>
  \<open>invert\<close> flips every bit and \<open>operator -=\<close> removes exactly the bits of the other set;
  both keep the cached count exact.
\<close>

theorem BitSet_invert_minus_correct:
  assumes "bs_counted bs"
  shows "bs_counted (BitSet_invert bs) \<and> bs_counted (BitSet_minus bs other)
       \<and> (\<forall>j<bs_num_bits bs. BitSet_get (BitSet_invert bs) j = (\<not> BitSet_get bs j)
            \<and> BitSet_get (BitSet_minus bs other) j = (BitSet_get bs j \<and> \<not> BitSet_get other j))"
  using bs.pointwise_loop[OF assms, of "\<lambda>i s. BitSet_set s i (\<not> BitSet_get s i)" "\<lambda>_ b. \<not> b" "bs_num_bits bs"]
    bs.pointwise_loop[OF assms, of "\<lambda>i s. if BitSet_get s i \<and> BitSet_get other i then BitSet_set s i False else s"
      "\<lambda>i b. b \<and> \<not> BitSet_get other i" "bs_num_bits bs"]
  by (simp add: BitSet_invert_def BitSet_minus_def minus_step)

theorem BitSet_invert_minus_correct_witness:
  "bs_counted (BitSet_invert (BitSet_new 10)) \<and> BitSet_get (BitSet_invert (BitSet_new 10)) 9"
proof -
  have "bs_counted (BitSet_new 10)" by (rule bs_counted_new) simp
  from BitSet_invert_minus_correct[OF this, of "BitSet_new 3"] show ?thesis by simp
qed

text \<open>
  On two sets of the same size whose padding is zero, \<open>orBitSet\<close> is union and
  \<open>andBitSet\<close> intersection; the results have zero padding again and an exact count.
\<close>

theorem BitSet_or_and_correct:
  assumes "bs_wf a" and "bs_wf b" and "bs_num_bits a = bs_num_bits b" and "bs_padded a" and "bs_padded b"
  shows "(\<forall>j. BitSet_get (BitSet_or a b) j = (BitSet_get a j \<or> BitSet_get b j))
       \<and> (\<forall>j. BitSet_get (BitSet_and a b) j = (BitSet_get a j \<and> BitSet_get b j))
       \<and> bs_counted (BitSet_or a b) \<and> bs_counted (BitSet_and a b)
       \<and> bs_padded (BitSet_or a b) \<and> bs_padded (BitSet_and a b)"
proof -
  have sz: "bs_num_bits (BitSet_or a b) = bs_num_bits a" "bs_num_bits (BitSet_and a b) = bs_num_bits a"
    "bs_num_bytes (BitSet_or a b) = bs_num_bytes a" "bs_num_bytes (BitSet_and a b) = bs_num_bytes a"
    using bytewise_sizes[OF assms(1)] by (simp_all add: BitSet_or_def BitSet_and_def)
  note same = same_size_bytes[OF assms(1,2,3)] and raw = bytewise_same_size[OF assms(1,2,3)]
  have p: "bs_padded (BitSet_or a b)" "bs_padded (BitSet_and a b)"
    using assms(3,4,5) same by (simp_all add: bs_padded_def list_all_iff sz raw)
  have c: "bs_counted (BitSet_or a b)" "bs_counted (BitSet_and a b)"
    using p bytewise_counted[OF assms(1)] unfolding BitSet_or_def BitSet_and_def by simp_all
  have g: "BitSet_get (BitSet_or a b) j = (BitSet_get a j \<or> BitSet_get b j)"
      "BitSet_get (BitSet_and a b) j = (BitSet_get a j \<and> BitSet_get b j)" for j
    using raw[OF bs_wf_inside[OF assms(1)], of j] assms(3) by (auto simp: BitSet_get_raw sz)
  show ?thesis using p c g by simp
qed

theorem BitSet_or_and_correct_witness:
  "BitSet_get (BitSet_or (BitSet_set (BitSet_new 10) 3 True) (BitSet_new 10)) 3
   \<and> bs_counted (BitSet_or (BitSet_set (BitSet_new 10) 3 True) (BitSet_new 10))"
proof -
  let ?a = "BitSet_set (BitSet_new 10) 3 True"
  have wf: "bs_wf (BitSet_new 10)" by simp
  have "bs_padded ?a" by (rule bs_padded_set[OF wf bs_padded_new])
  then show ?thesis
    using BitSet_or_and_correct[of ?a "BitSet_new 10"] wf bs_padded_new[of 10]
    by (simp add: BitSet_get_set[OF wf])
qed

lemma count_loop:
  assumes "n \<le> m" and "m < 2 ^ 32" and "bs_num_on bs = 0" and "bs_num_bits bs = m"
  shows "fold (\<lambda>i s. if BitSet_get s i then s\<lparr>bs_num_on := add32 (bs_num_on s) 1\<rparr> else s) [0..<n] bs
           = bs\<lparr>bs_num_on := length (filter (BitSet_get bs) [0..<n])\<rparr>"
  using assms(1)
proof (induction n)
  case 0
  then show ?case using assms(3) by simp
next
  case (Suc n)
  have "length (filter (BitSet_get bs) [0..<n]) \<le> n" using length_filter_le[of _ "[0..<n]"] by simp
  then have "length (filter (BitSet_get bs) [0..<n]) + 1 < 2 ^ 32" using Suc.prems assms(2) by linarith
  moreover have "BitSet_get (bs\<lparr>bs_num_on := k\<rparr>) n = BitSet_get bs n" for k
    by (simp add: BitSet_get_def)
  ultimately show ?case using Suc by (simp add: add32_id)
qed

lemma BitSet_from_law:
  assumes "numBytes n \<le> length d" and "n < 2 ^ 32"
  shows "\<exists>bs. BitSet_from d n = Some bs \<and> bs_counted bs \<and> bs_num_bits bs = n \<and> bs_data bs = take (numBytes n) d
           \<and> (\<forall>i<n. BitSet_get bs i = bit (d ! (i div 8)) (7 - i mod 8))"
proof -
  let ?d = "take (numBytes n) d"
  let ?init = "\<lparr>bs_num_bits = n, bs_num_bytes = numBytes n, bs_data = ?d, bs_num_on = 0\<rparr>"
  let ?b = "?init\<lparr>bs_num_on := length (filter (BitSet_get ?init) [0..<n])\<rparr>"
  let ?step = "\<lambda>i s. if BitSet_get s i then s\<lparr>bs_num_on := add32 (bs_num_on s) 1\<rparr> else s"
  have "fold ?step [0..<n] ?init = ?b" by (rule count_loop[OF order_refl assms(2)]) simp_all
  then have f: "BitSet_from d n = Some ?b"
    by (simp only: BitSet_from_def mem_read_Some[of 0 _ d, simplified, OF assms(1)] Let_def bind.bind_lunit drop_0)
  have g: "BitSet_get ?b = BitSet_get ?init" by (simp add: BitSet_get_def fun_eq_iff)
  have c: "bs_counted ?b" using assms unfolding bs_counted_def on_bits_def g by (simp add: bs_wf_def)
  have "BitSet_get ?b i = bit (d ! (i div 8)) (7 - i mod 8)" if "i < n" for i
    using that numBytes_index[OF that] by (simp add: BitSet_get_raw raw_bit_def)
  then show ?thesis using f c by (intro exI[of _ ?b]) auto
qed

lemma BitSet_assign_wf: "bs_wf other \<Longrightarrow> BitSet_assign bs other = other"
  by (simp add: BitSet_assign_def bs_wf_def)

text \<open>
  The constructor from raw bytes reads no further than \<open>num_bytes\<close> bytes, exposes the
  bits of the buffer most significant first and counts them exactly; \<open>includesBitSet\<close> is
  inclusion on the indices of the receiver.
\<close>

theorem BitSet_from_correct:
  assumes "numBytes n \<le> length d" and "n < 2 ^ 32"
  shows "\<exists>bs. BitSet_from d n = Some bs \<and> bs_counted bs \<and> bs_num_bits bs = n
           \<and> (\<forall>i<n. BitSet_get bs i = bit (d ! (i div 8)) (7 - i mod 8))
           \<and> (BitSet_includes bs other \<longleftrightarrow> (\<forall>i<n. BitSet_get other i \<longrightarrow> BitSet_get bs i))"
proof -
  obtain bs where "BitSet_from d n = Some bs" "bs_counted bs" "bs_num_bits bs = n"
      "\<forall>i<n. BitSet_get bs i = bit (d ! (i div 8)) (7 - i mod 8)"
    using BitSet_from_law[OF assms] by blast
  then show ?thesis by (auto simp: BitSet_includes_def list_ex_iff)
qed

theorem BitSet_from_correct_witness:
  "\<exists>bs. BitSet_from [0xA0, 0x40] 10 = Some bs \<and> BitSet_get bs 2 \<and> BitSet_get bs 9 \<and> \<not> BitSet_get bs 1"
  using BitSet_from_correct[of 10 "[0xA0, 0x40]" "BitSet_new 1"]
  by (auto simp: numBytes_def)

lemma BitSet_setAll_get:
  "bs_wf bs \<Longrightarrow> BitSet_get (BitSet_setAll bs on) i \<longleftrightarrow> i < bs_num_bits bs \<and> on"
  using bs_wf_index[of bs i] mod_less_divisor[of 8 i] bit_255[of "7 - i mod 8"]
  by (auto simp: BitSet_get_raw BitSet_setAll_def raw_bit_def)

lemma BitSet_setAll_counted: "bs_wf bs \<Longrightarrow> bs_counted (BitSet_setAll bs on) \<and> bs_num_bits (BitSet_setAll bs on) = bs_num_bits bs"
proof -
  assume wf: "bs_wf bs"
  have "filter (BitSet_get (BitSet_setAll bs on)) [0..<bs_num_bits bs] = (if on then [0..<bs_num_bits bs] else [])"
    using wf by (auto simp: BitSet_setAll_get filter_id_conv)
  then show ?thesis using wf by (simp add: bs_counted_def on_bits_def) (simp add: BitSet_setAll_def bs_wf_def)
qed

lemma popcount_255: "popcount 255 = 8"
  by code_simp

lemma overcount_arith: "n < 2 ^ 32 \<Longrightarrow> (8 * numBytes n) mod 2 ^ 32 = n \<longleftrightarrow> n mod 8 = 0"
proof
  assume "n < 2 ^ 32" and "(8 * numBytes n) mod 2 ^ 32 = n"
  moreover have "8 dvd (8 * numBytes n) mod (2 ^ 32 :: nat)" by (rule dvd_mod) simp_all
  ultimately have "8 dvd n" by simp
  then show "n mod 8 = 0" by simp
next
  assume "n < 2 ^ 32" and "n mod 8 = 0"
  then have "8 * numBytes n = n" by (auto simp: numBytes_def)
  then show "(8 * numBytes n) mod 2 ^ 32 = n" using \<open>n < 2 ^ 32\<close> by simp
qed

text \<open>
  The unused bits of the last byte matter: after \<open>setAll(true)\<close> every bit reads as on and
  \<open>allOn\<close> holds, but \<open>updateNumOnBits\<close> then counts the padding too, so that \<open>num_on\<close> is the
  number of bits of the whole array and \<open>allOn\<close> turns false whenever the number of bits is
  not a multiple of eight.
\<close>

theorem BitSet_setAll_overcount:
  assumes "bs_wf bs"
  shows "BitSet_allOn (BitSet_setAll bs True)
       \<and> (\<forall>i<bs_num_bits bs. BitSet_get (BitSet_setAll bs True) i)
       \<and> bs_num_on (updateNumOnBits (BitSet_setAll bs True)) = (8 * bs_num_bytes bs) mod 2 ^ 32
       \<and> (BitSet_allOn (updateNumOnBits (BitSet_setAll bs True)) \<longleftrightarrow> bs_num_bits bs mod 8 = 0)"
proof -
  let ?b = "BitSet_setAll bs True" and ?n = "bs_num_bits bs"
  have wf: "bs_wf ?b" using assms by (simp add: bs_wf_def BitSet_setAll_def)
  have nb: "bs_num_bytes bs = numBytes ?n" "?n < 2 ^ 32" using assms by (simp_all add: bs_wf_def)
  have "sum_list (map popcount (bs_data ?b)) = 8 * bs_num_bytes bs"
    using assms by (simp add: BitSet_setAll_def bs_wf_def comp_def popcount_255 sum_list_replicate map_replicate_const)
  then have on: "bs_num_on (updateNumOnBits ?b) = (8 * bs_num_bytes bs) mod 2 ^ 32"
    by (simp add: updateNumOnBits_eq[OF wf])
  have bits: "bs_num_bits (updateNumOnBits ?b) = ?n"
    by (simp add: updateNumOnBits_eq[OF wf]) (simp add: BitSet_setAll_def)
  have "(8 * numBytes ?n) mod 2 ^ 32 = ?n \<longleftrightarrow> ?n mod 8 = 0"
    using nb(2) overcount_arith[of ?n] by simp
  then show ?thesis
    using on bits nb by (simp add: BitSet_setAll_get[OF assms] BitSet_allOn_def) (simp add: BitSet_setAll_def)
qed

theorem BitSet_setAll_overcount_witness:
  "BitSet_allOn (BitSet_setAll (BitSet_new 10) True)
   \<and> bs_num_on (updateNumOnBits (BitSet_setAll (BitSet_new 10) True)) = 16
   \<and> \<not> BitSet_allOn (updateNumOnBits (BitSet_setAll (BitSet_new 10) True))"
proof -
  have "bs_wf (BitSet_new 10)" by simp
  from BitSet_setAll_overcount[OF this] show ?thesis by simp (simp add: BitSet_new_def numBytes_def)
qed

end
