(* ===== verification/Circular_Buffer.thy ===== *)
theory Circular_Buffer
  imports Prelude
begin

text \<open>
  The class \<open>CircularBuffer\<close> of \<open>src/util/circularbuffer.cpp\<close>: the receive window of a uTP
  connection keeps its bytes in one. The C++ pointers of a \<open>Range\<close> are offsets into \<open>data\<close>.
  Every \<open>memcpy\<close> is a \<open>mem_read\<close> or \<open>memcpy_at\<close>, so a copy outside the array would make the
  operation \<open>None\<close>; that this never happens, and that the buffer is a bounded FIFO queue, is
  what is proved. All sums are taken modulo \<open>2 ^ 32\<close> as in the source; the invariant bounds
  the capacity by \<open>2 ^ 31\<close>, below which none of them wraps.
\<close>

section \<open>State and operations\<close>

record CircularBuffer =
  cb_data :: bytes
  cb_capacity :: nat
  cb_start :: nat
  cb_size :: nat

definition CircularBuffer_new :: "bytes \<Rightarrow> CircularBuffer" where
  \<comment> \<open>\<open>new Uint8[cap]\<close> leaves the contents unspecified: they are the argument\<close>
  "CircularBuffer_new mem = \<lparr>cb_data = mem, cb_capacity = length mem, cb_start = 0, cb_size = 0\<rparr>"

definition cb_empty :: "CircularBuffer \<Rightarrow> bool" where
  "cb_empty cb \<longleftrightarrow> cb_size cb = 0"

definition cb_full :: "CircularBuffer \<Rightarrow> bool" where
  "cb_full cb \<longleftrightarrow> cb_size cb = cb_capacity cb"

definition cb_available :: "CircularBuffer \<Rightarrow> nat" where
  "cb_available cb = sub32 (cb_capacity cb) (cb_size cb)"

definition firstRange :: "CircularBuffer \<Rightarrow> nat \<times> nat" where
  "firstRange cb =
     (if add32 (cb_start cb) (cb_size cb) > cb_capacity cb
      then (cb_start cb, sub32 (cb_capacity cb) (cb_start cb)) else (cb_start cb, cb_size cb))"

definition secondRange :: "CircularBuffer \<Rightarrow> nat \<times> nat" where
  "secondRange cb =
     (if add32 (cb_start cb) (cb_size cb) > cb_capacity cb
      then (0, sub32 (cb_size cb) (sub32 (cb_capacity cb) (cb_start cb))) else (0, 0))"

text \<open>\<open>read\<close> returns the bytes it copied to \<open>ptr\<close> (their number is the C++ result).\<close>

definition cb_read :: "CircularBuffer \<Rightarrow> nat \<Rightarrow> (bytes \<times> CircularBuffer) option" where
  "cb_read cb max_len =
     (if cb_empty cb then Some ([], cb)
      else
        let to_read = (if cb_size cb < max_len then cb_size cb else max_len);
            r = firstRange cb; s = snd r
        in do { out \<leftarrow>
                  (if s \<ge> to_read then mem_read (cb_data cb) (fst r) to_read
                   else do { a \<leftarrow> mem_read (cb_data cb) (fst r) s;
                             b \<leftarrow> mem_read (cb_data cb) (fst (secondRange cb)) (sub32 to_read s);
                             Some (a @ b) });
                Some (out, cb\<lparr>cb_start := add32 (cb_start cb) to_read mod cb_capacity cb,
                              cb_size := sub32 (cb_size cb) to_read\<rparr>) })"

definition cb_write :: "CircularBuffer \<Rightarrow> bytes \<Rightarrow> (nat \<times> CircularBuffer) option" where
  "cb_write cb ptr =
     (if cb_full cb then Some (0, cb)
      else
        let len = length ptr;
            free_space = sub32 (cb_capacity cb) (cb_size cb);
            to_write = (if free_space < len then free_space else len);
            write_pos = add32 (cb_start cb) (cb_size cb) mod cb_capacity cb
        in do { d \<leftarrow>
                  (if add32 write_pos to_write > cb_capacity cb then
                     let w = sub32 (cb_capacity cb) write_pos in
                     do { x \<leftarrow> mem_read ptr 0 w;
                          d1 \<leftarrow> memcpy_at (cb_data cb) write_pos x;
                          y \<leftarrow> mem_read ptr w (sub32 to_write w);
                          memcpy_at d1 0 y }
                   else do { x \<leftarrow> mem_read ptr 0 to_write; memcpy_at (cb_data cb) write_pos x });
                Some (to_write, cb\<lparr>cb_data := d, cb_size := add32 (cb_size cb) to_write\<rparr>) })"

section \<open>Invariant and abstraction\<close>

definition cb_inv :: "CircularBuffer \<Rightarrow> bool" where
  "cb_inv cb \<longleftrightarrow> length (cb_data cb) = cb_capacity cb \<and> cb_size cb \<le> cb_capacity cb
     \<and> (cb_start cb < cb_capacity cb \<or> cb_start cb = 0 \<and> cb_capacity cb = 0) \<and> cb_capacity cb \<le> 2 ^ 31"

text \<open>The queue the buffer holds: \<open>size\<close> bytes from \<open>start\<close>, wrapping at the capacity.\<close>

definition cb_content :: "CircularBuffer \<Rightarrow> bytes" where
  "cb_content cb = map (\<lambda>k. cb_data cb ! ((cb_start cb + k) mod cb_capacity cb)) [0..<cb_size cb]"

locale byte_queue =
  fixes rd :: "'q \<Rightarrow> nat \<Rightarrow> (bytes \<times> 'q) option"
    and wr :: "'q \<Rightarrow> bytes \<Rightarrow> (nat \<times> 'q) option"
    and content :: "'q \<Rightarrow> bytes"
    and room :: "'q \<Rightarrow> nat"
    and qinv :: "'q \<Rightarrow> bool"
  assumes rd_law: "qinv q \<Longrightarrow> \<exists>q'. rd q n = Some (take n (content q), q') \<and> qinv q'
             \<and> content q' = drop n (content q) \<and> room q' = room q + min n (length (content q))"
    and wr_law: "qinv q \<Longrightarrow> length ptr < 2 ^ 32 \<Longrightarrow>
             \<exists>q'. wr q ptr = Some (min (room q) (length ptr), q') \<and> qinv q'
             \<and> content q' = content q @ take (room q) ptr \<and> room q' = room q - min (room q) (length ptr)"
begin

lemma write_then_read:
  assumes "qinv q" and "content q = []" and "length ptr \<le> room q" and "length ptr < 2 ^ 32"
  shows "\<exists>q' q''. wr q ptr = Some (length ptr, q') \<and> rd q' (length ptr) = Some (ptr, q'')
           \<and> content q'' = [] \<and> room q'' = room q"
proof -
  obtain q' where w: "wr q ptr = Some (length ptr, q')" "qinv q'" "content q' = ptr"
      "room q' = room q - length ptr"
    using wr_law[OF assms(1,4)] assms(2,3) by auto
  then show ?thesis using rd_law[OF w(2), of "length ptr"] assms(3) by fastforce
qed

lemma split_read:
  assumes "qinv q"
  shows "\<exists>q' q''. rd q m = Some (take m (content q), q')
           \<and> rd q' n = Some (take n (drop m (content q)), q'') \<and> content q'' = drop (m + n) (content q)"
proof -
  obtain q' where r: "rd q m = Some (take m (content q), q')" "qinv q'" "content q' = drop m (content q)"
    using rd_law[OF assms] by blast
  then show ?thesis using rd_law[OF r(2), of n] by (fastforce simp: add.commute)
qed

end

section \<open>Correctness of the two copies\<close>

lemma wrap_index: "s < c \<Longrightarrow> k \<le> c \<Longrightarrow> (s + k) mod c = (if s + k < c then s + k else s + k - (c::nat))"
  by (auto simp: le_mod_geq)

lemma cb_no_wrap:
  assumes "cb_inv cb" "0 < cb_capacity cb"
  shows "add32 (cb_start cb) (cb_size cb) = cb_start cb + cb_size cb"
    "sub32 (cb_capacity cb) (cb_start cb) = cb_capacity cb - cb_start cb"
    "sub32 (cb_capacity cb) (cb_size cb) = cb_capacity cb - cb_size cb"
    "cb_start cb < cb_capacity cb" "cb_capacity cb \<le> 2 ^ 31" "cb_size cb \<le> cb_capacity cb"
    "length (cb_data cb) = cb_capacity cb"
  using assms by (auto simp: cb_inv_def u32_simps)

lemma content_length [simp]: "length (cb_content cb) = cb_size cb"
  by (simp add: cb_content_def)

lemma content_nth:
  assumes "cb_inv cb" and "k < cb_size cb"
  shows "cb_content cb ! k = cb_data cb ! (if cb_start cb + k < cb_capacity cb then cb_start cb + k
                                            else cb_start cb + k - cb_capacity cb)"
proof -
  have c: "0 < cb_capacity cb" using assms by (auto simp: cb_inv_def)
  note f = cb_no_wrap[OF assms(1) c]
  show ?thesis using assms(2) f wrap_index[of "cb_start cb" "cb_capacity cb" k]
    by (simp add: cb_content_def)
qed

lemma read_first:
  assumes "cb_inv cb" and "0 < cb_size cb" and "t \<le> cb_size cb" and "t \<le> snd (firstRange cb)"
  shows "mem_read (cb_data cb) (fst (firstRange cb)) t = Some (take t (cb_content cb))"
proof -
  have c: "0 < cb_capacity cb" using assms by (auto simp: cb_inv_def)
  note f = cb_no_wrap[OF assms(1) c]
  show ?thesis using assms f
    by (auto simp: mem_read_eq_iff firstRange_def content_nth split: if_splits)
qed

lemma read_second:
  assumes "cb_inv cb" and "0 < cb_size cb" and "t \<le> cb_size cb" and "snd (firstRange cb) < t"
  shows "mem_read (cb_data cb) (fst (secondRange cb)) (sub32 t (snd (firstRange cb)))
           = Some (drop (snd (firstRange cb)) (take t (cb_content cb)))"
proof -
  have c: "0 < cb_capacity cb" using assms by (auto simp: cb_inv_def)
  note f = cb_no_wrap[OF assms(1) c]
  have over: "cb_capacity cb < cb_start cb + cb_size cb" using assms(3,4) f
    by (auto simp: firstRange_def split: if_splits)
  then have fr: "snd (firstRange cb) = cb_capacity cb - cb_start cb" "fst (secondRange cb) = 0"
    using f by (simp_all add: firstRange_def secondRange_def)
  have sub: "sub32 t (snd (firstRange cb)) = t - snd (firstRange cb)"
    using assms(3,4) f by (intro sub32_id) auto
  show ?thesis using assms f over unfolding sub mem_read_eq_iff
    by (auto simp: fr content_nth)
qed

lemma cb_read_law:
  assumes "cb_inv cb"
  shows "\<exists>cb'. cb_read cb n = Some (take n (cb_content cb), cb') \<and> cb_inv cb'
           \<and> cb_content cb' = drop n (cb_content cb) \<and> cb_capacity cb' = cb_capacity cb
           \<and> cb_size cb' = cb_size cb - min n (cb_size cb)"
proof (cases "cb_empty cb")
  case True
  then show ?thesis using assms by (auto simp: cb_read_def cb_empty_def cb_content_def intro!: exI[of _ cb])
next
  case False
  then have sz: "0 < cb_size cb" by (simp add: cb_empty_def)
  then have c: "0 < cb_capacity cb" using assms by (auto simp: cb_inv_def)
  note f = cb_no_wrap[OF assms c]
  define t where "t = min n (cb_size cb)"
  have tt: "(if cb_size cb < n then cb_size cb else n) = t" by (auto simp: t_def)
  have tn: "take t (cb_content cb) = take n (cb_content cb)" "drop t (cb_content cb) = drop n (cb_content cb)"
    by (auto simp: t_def min_def)
  have le: "t \<le> cb_size cb" by (simp add: t_def)
  define cb' where "cb' = cb\<lparr>cb_start := (cb_start cb + t) mod cb_capacity cb, cb_size := cb_size cb - t\<rparr>"
  have e: "add32 (cb_start cb) t = cb_start cb + t" "sub32 (cb_size cb) t = cb_size cb - t"
    using f le by (auto intro: add32_id sub32_id)
  have "cb_read cb n = Some (take t (cb_content cb), cb')"
  proof (cases "t \<le> snd (firstRange cb)")
    case True
    then show ?thesis using False read_first[OF assms sz le True]
      by (simp add: cb_read_def tt Let_def e cb'_def)
  next
    case False': False
    then have "snd (firstRange cb) < t" by simp
    then show ?thesis
      using False read_first[OF assms sz, of "snd (firstRange cb)"] read_second[OF assms sz le] le
        append_take_drop_id[of "snd (firstRange cb)" "take t (cb_content cb)"]
      by (simp add: cb_read_def tt Let_def e cb'_def min_def)
  qed
  moreover have "cb_inv cb'" using assms c by (auto simp: cb_inv_def cb'_def)
  moreover have "cb_content cb' = drop t (cb_content cb)"
    by (rule nth_equalityI) (auto simp: cb'_def cb_content_def mod_simps add.assoc)
  ultimately show ?thesis using tn by (auto simp: cb'_def t_def)
qed

text \<open>The array after a write of \<open>t\<close> bytes at \<open>p\<close>, wrapping at the capacity \<open>c\<close>.\<close>

definition ring_put :: "bytes \<Rightarrow> nat \<Rightarrow> bytes \<Rightarrow> bytes" where
  "ring_put d p src = map (\<lambda>j. if p \<le> j \<and> j < p + length src then src ! (j - p)
      else if j + length d < p + length src then src ! (j + length d - p) else d ! j) [0..<length d]"

lemma ring_put_nth:
  assumes "p < length d" and "length src \<le> length d" and "k < length d"
  shows "ring_put d p src ! ((p + k) mod length d) = (if k < length src then src ! k else d ! ((p + k) mod length d))"
  using assms wrap_index[of p "length d" k] by (auto simp: ring_put_def)

lemma memcpy_ring:
  assumes "p + length src \<le> length d"
  shows "memcpy_at d p src = Some (ring_put d p src)"
proof -
  obtain d' where w: "memcpy_at d p src = Some d'" using assms by (simp add: mem_simps)
  have "d' = ring_put d p src"
    using assms memcpy_at_length[OF w] memcpy_at_nth[OF w]
    by (intro nth_equalityI) (auto simp: ring_put_def)
  then show ?thesis using w by simp
qed

lemma memcpy_ring2:
  assumes "p < length d" and "length d < p + length src" and "length src \<le> length d"
    and "memcpy_at d p (take (length d - p) src) = Some d1"
  shows "memcpy_at d1 0 (drop (length d - p) src) = Some (ring_put d p src)"
proof -
  have l1: "length d1 = length d" using assms(4) by (rule memcpy_at_length)
  obtain d' where w: "memcpy_at d1 0 (drop (length d - p) src) = Some d'"
    using assms l1 by (simp add: mem_simps)
  have "d' = ring_put d p src"
    using assms l1 memcpy_at_length[OF w] memcpy_at_nth[OF w] memcpy_at_nth[OF assms(4)]
    by (intro nth_equalityI) (auto simp: ring_put_def add.commute)
  then show ?thesis using w by simp
qed

lemma ring_put_length [simp]: "length (ring_put d p src) = length d"
  by (simp add: ring_put_def)

lemma write_content:
  assumes "cb_inv cb" and "0 < cb_capacity cb" and "t \<le> cb_capacity cb - cb_size cb" and "t \<le> length ptr"
  shows "cb_content (cb\<lparr>cb_data := ring_put (cb_data cb) ((cb_start cb + cb_size cb) mod cb_capacity cb) (take t ptr),
                        cb_size := cb_size cb + t\<rparr>) = cb_content cb @ take t ptr"
proof (rule nth_equalityI)
  note f = cb_no_wrap[OF assms(1,2)]
  let ?c = "cb_capacity cb" and ?pos = "(cb_start cb + cb_size cb) mod cb_capacity cb"
  let ?r = "ring_put (cb_data cb) ?pos (take t ptr)"
  fix k assume "k < length (cb_content (cb\<lparr>cb_data := ?r, cb_size := cb_size cb + t\<rparr>))"
  then have k: "k < cb_size cb + t" by simp
  have nth: "?r ! ((?pos + m) mod ?c) = (if m < t then ptr ! m else cb_data cb ! ((?pos + m) mod ?c))" if "m < ?c" for m
    using ring_put_nth[of ?pos "cb_data cb" "take t ptr" m] that assms(3,4) f by (simp add: min_def)
  show "cb_content (cb\<lparr>cb_data := ?r, cb_size := cb_size cb + t\<rparr>) ! k = (cb_content cb @ take t ptr) ! k"
  proof (cases "k < cb_size cb")
    case True
    have "(?pos + (?c - cb_size cb + k)) mod ?c = (cb_start cb + k) mod ?c"
    proof -
      have "(?pos + (?c - cb_size cb + k)) mod ?c = (cb_start cb + cb_size cb + (?c - cb_size cb + k)) mod ?c"
        by (simp only: mod_add_left_eq)
      also have "cb_start cb + cb_size cb + (?c - cb_size cb + k) = cb_start cb + k + ?c" using f(6) by simp
      finally show ?thesis by simp
    qed
    moreover have "?c - cb_size cb + k < ?c" "\<not> ?c - cb_size cb + k < t" using True f(6) assms(3) by linarith+
    ultimately have "?r ! ((cb_start cb + k) mod ?c) = cb_data cb ! ((cb_start cb + k) mod ?c)"
      using nth[of "?c - cb_size cb + k"] by (simp only: if_False)
    then show ?thesis using True by (simp add: cb_content_def nth_append)
  next
    case False
    then have "cb_start cb + cb_size cb + (k - cb_size cb) = cb_start cb + k" by simp
    then have "(?pos + (k - cb_size cb)) mod ?c = (cb_start cb + k) mod ?c"
      by (simp only: mod_add_left_eq)
    moreover have "k - cb_size cb < ?c" "k - cb_size cb < t" using False k f(6) assms(3) by linarith+
    ultimately have "?r ! ((cb_start cb + k) mod ?c) = ptr ! (k - cb_size cb)"
      using nth[of "k - cb_size cb"] by (simp only: if_True)
    then show ?thesis using False k \<open>k - cb_size cb < t\<close> by (simp add: cb_content_def nth_append)
  qed
qed (use assms in simp)

lemma cb_write_law:
  assumes "cb_inv cb" and "length ptr < 2 ^ 32"
  shows "\<exists>cb'. cb_write cb ptr = Some (min (cb_capacity cb - cb_size cb) (length ptr), cb') \<and> cb_inv cb'
           \<and> cb_content cb' = cb_content cb @ take (cb_capacity cb - cb_size cb) ptr
           \<and> cb_capacity cb' = cb_capacity cb
           \<and> cb_size cb' = cb_size cb + min (cb_capacity cb - cb_size cb) (length ptr)"
proof (cases "cb_full cb")
  case True
  then show ?thesis using assms by (auto simp: cb_write_def cb_full_def intro!: exI[of _ cb])
next
  case False
  then have c: "0 < cb_capacity cb" using assms by (auto simp: cb_inv_def cb_full_def)
  note f = cb_no_wrap[OF assms(1) c]
  let ?c = "cb_capacity cb" and ?d = "cb_data cb"
  define t where "t = min (?c - cb_size cb) (length ptr)"
  define pos where "pos = (cb_start cb + cb_size cb) mod ?c"
  have tt: "(if ?c - cb_size cb < length ptr then ?c - cb_size cb else length ptr) = t"
    by (auto simp: t_def)
  have t: "t \<le> ?c - cb_size cb" "t \<le> length ptr" by (simp_all add: t_def)
  have pos: "pos < ?c" using c by (simp add: pos_def)
  have e: "add32 pos t = pos + t" "add32 (cb_size cb) t = cb_size cb + t" "sub32 ?c pos = ?c - pos"
    using f t pos by (auto intro!: add32_id sub32_id)
  define cb' where "cb' = cb\<lparr>cb_data := ring_put ?d pos (take t ptr), cb_size := cb_size cb + t\<rparr>"
  have "cb_write cb ptr = Some (t, cb')"
  proof (cases "?c < pos + t")
    case True
    have w: "sub32 t (?c - pos) = t - (?c - pos)" using True t f(5) by (intro sub32_id) auto
    obtain d1 where d1: "memcpy_at ?d pos (take (?c - pos) ptr) = Some d1"
      using True t pos f(7) by (simp add: mem_simps)
    have "memcpy_at d1 0 (drop (?c - pos) (take t ptr)) = Some (ring_put ?d pos (take t ptr))"
    proof -
      have "length (take t ptr) = t" "take (?c - pos) (take t ptr) = take (?c - pos) ptr"
        using t True by (simp_all add: min_absorb1 min_absorb2)
      then show ?thesis using memcpy_ring2[of pos ?d "take t ptr" d1] d1 True pos t f by simp
    qed
    then show ?thesis using False True t pos d1
      by (simp add: cb_write_def Let_def f tt pos_def[symmetric] e w mem_simps drop_take cb'_def)
  next
    case False': False
    then show ?thesis using False t pos memcpy_ring[of pos "take t ptr" ?d] f(7)
      by (simp add: cb_write_def Let_def f(1,3) tt pos_def[symmetric] e mem_simps cb'_def min_def)
  qed
  moreover have "cb_inv cb'" using assms(1) t f by (auto simp: cb_inv_def cb'_def)
  moreover have "cb_content cb' = cb_content cb @ take t ptr"
    using write_content[OF assms(1) c t] by (simp add: cb'_def pos_def)
  moreover have "take t ptr = take (?c - cb_size cb) ptr" by (auto simp: t_def min_def)
  ultimately show ?thesis by (auto simp: cb'_def t_def)
qed

interpretation cb: byte_queue cb_read cb_write cb_content "\<lambda>cb. cb_capacity cb - cb_size cb" cb_inv
proof
  fix cb n assume "cb_inv cb"
  then show "\<exists>cb'. cb_read cb n = Some (take n (cb_content cb), cb') \<and> cb_inv cb'
      \<and> cb_content cb' = drop n (cb_content cb)
      \<and> cb_capacity cb' - cb_size cb' = cb_capacity cb - cb_size cb + min n (length (cb_content cb))"
    using cb_read_law[of cb n] by (fastforce simp: cb_inv_def min_def)
next
  fix cb and ptr :: bytes assume "cb_inv cb" "length ptr < 2 ^ 32"
  then show "\<exists>cb'. cb_write cb ptr = Some (min (cb_capacity cb - cb_size cb) (length ptr), cb') \<and> cb_inv cb'
      \<and> cb_content cb' = cb_content cb @ take (cb_capacity cb - cb_size cb) ptr
      \<and> cb_capacity cb' - cb_size cb' = cb_capacity cb - cb_size cb - min (cb_capacity cb - cb_size cb) (length ptr)"
    using cb_write_law[of cb ptr] by (metis diff_diff_left)
qed

section \<open>Properties\<close>

text \<open>
  On a well-formed buffer \<open>read\<close> never touches memory outside the array, returns the oldest
  \<open>min(max_len, size)\<close> bytes in order and removes exactly them.
\<close>

theorem CircularBuffer_read_fifo:
  assumes "cb_inv cb"
  shows "\<exists>cb'. cb_read cb n = Some (take n (cb_content cb), cb') \<and> cb_inv cb'
           \<and> cb_content cb' = drop n (cb_content cb) \<and> cb_capacity cb' = cb_capacity cb"
  using cb_read_law[OF assms, of n] by blast

theorem CircularBuffer_read_fifo_witness:
  "\<exists>cb'. cb_read \<lparr>cb_data = [7,8,9,10], cb_capacity = 4, cb_start = 3, cb_size = 3\<rparr> 2 = Some ([10, 7], cb')
     \<and> cb_content cb' = [8]"
proof -
  let ?cb = "\<lparr>cb_data = [7,8,9,10], cb_capacity = 4, cb_start = 3, cb_size = 3\<rparr>"
  have "cb_inv ?cb" by (simp add: cb_inv_def)
  moreover have "cb_content ?cb = [10, 7, 8]" by (simp add: cb_content_def upt_rec)
  ultimately show ?thesis using CircularBuffer_read_fifo[of ?cb 2] by auto
qed

text \<open>
  C17. On a well-formed buffer \<open>write\<close> never touches memory outside the array (or past the
  source), appends exactly the bytes that fit, leaves the bytes already queued as they are and
  returns how many it took.
\<close>

theorem CircularBuffer_write_fifo:
  assumes "cb_inv cb" and "length ptr < 2 ^ 32"
  shows "\<exists>cb'. cb_write cb ptr = Some (min (cb_available cb) (length ptr), cb') \<and> cb_inv cb'
           \<and> cb_content cb' = cb_content cb @ take (cb_available cb) ptr \<and> cb_capacity cb' = cb_capacity cb"
proof -
  have "cb_available cb = cb_capacity cb - cb_size cb"
    using assms by (simp add: cb_available_def cb_inv_def sub32_id)
  then show ?thesis using cb_write_law[OF assms] by auto
qed

theorem CircularBuffer_write_fifo_witness:
  "\<exists>cb'. cb_write \<lparr>cb_data = [7,8,9,10], cb_capacity = 4, cb_start = 3, cb_size = 1\<rparr> [1,2,3,4] = Some (3, cb')
     \<and> cb_content cb' = [10, 1, 2, 3]"
proof -
  let ?cb = "\<lparr>cb_data = [7,8,9,10], cb_capacity = 4, cb_start = 3, cb_size = 1\<rparr>"
  have "cb_inv ?cb" by (simp add: cb_inv_def)
  moreover have "cb_content ?cb = [10]" by (simp add: cb_content_def)
  ultimately show ?thesis using CircularBuffer_write_fifo[of ?cb "[1,2,3,4]"]
    by (auto simp: cb_available_def u32_simps)
qed

end
