(* ===== verification/Packet_Reader.thy ===== *)
theory Packet_Reader
  imports Bytes
begin

text \<open>
  The class \<open>PacketReader\<close> of \<open>src/peer/packetreader.cpp\<close>: it chops the byte stream of a peer's
  socket into BitTorrent messages. The network thread calls \<open>onDataReady\<close> with whatever arrived,
  the main thread calls \<open>update\<close> and passes finished packets to the peer; both run under the
  object's mutex, so an interleaving is a sequence of these operations.

  A copy outside a buffer, \<open>last()\<close> on an empty queue, and a receive loop that does not end are
  the value \<open>None\<close>. The specification is a parser that reads one byte at a time (\<open>rx_feed\<close>);
  \<open>onDataReady\<close> is proved total and equal to it, so how the network cuts the stream is invisible.
\<close>

section \<open>State and operations\<close>

record IncomingPacket =
  pk_data :: bytes
  pk_size :: nat
  pk_read :: nat

record PacketReader =
  pr_error :: bool
  pr_queue :: "IncomingPacket list"
  pr_len :: bytes
  pr_len_received :: int
  pr_max :: nat

definition IncomingPacket_new :: "nat \<Rightarrow> IncomingPacket" where
  \<comment> \<open>the bytes of a fresh array are unspecified; zero stands for them until they are received\<close>
  "IncomingPacket_new n = \<lparr>pk_data = replicate n 0, pk_size = n, pk_read = 0\<rparr>"

definition PacketReader_new :: "nat \<Rightarrow> PacketReader" where
  "PacketReader_new mx = \<lparr>pr_error = False, pr_queue = [], pr_len = replicate 4 0,
                           pr_len_received = -1, pr_max = mx\<rparr>"

definition dequeuePacket :: "PacketReader \<Rightarrow> IncomingPacket option \<times> PacketReader" where
  "dequeuePacket pr =
     (case pr_queue pr of
        [] \<Rightarrow> (None, pr)
      | pck # q \<Rightarrow> if pk_read pck \<noteq> pk_size pck then (None, pr) else (Some pck, pr\<lparr>pr_queue := q\<rparr>))"

text \<open>\<open>update\<close> returns the packets it hands to \<open>PeerInterface::handlePacket\<close>, in order.\<close>

fun update_loop :: "IncomingPacket list \<Rightarrow> bytes list \<times> IncomingPacket list" where
  "update_loop [] = ([], [])"
| "update_loop (pck # q) =
     (if pk_read pck \<noteq> pk_size pck then ([], pck # q)
      else let (ps, q') = update_loop q in (pk_data pck # ps, q'))"

definition PacketReader_update :: "PacketReader \<Rightarrow> bytes list \<times> PacketReader" where
  "PacketReader_update pr =
     (if pr_error pr then ([], pr)
      else let (ps, q) = update_loop (pr_queue pr) in (ps, pr\<lparr>pr_queue := q\<rparr>))"

definition readPacket :: "PacketReader \<Rightarrow> bytes \<Rightarrow> (nat \<times> PacketReader) option" where
  "readPacket pr buf =
     (if buf = [] then Some (0, pr)
      else if pr_queue pr = [] then None
      else
        let pck = last (pr_queue pr);
            tr = (if add32 (pk_read pck) (length buf) \<ge> pk_size pck
                  then sub32 (pk_size pck) (pk_read pck) else length buf)
        in do { x \<leftarrow> mem_read buf 0 tr;
                d \<leftarrow> memcpy_at (pk_data pck) (pk_read pck) x;
                Some (tr, pr\<lparr>pr_queue := butlast (pr_queue pr)
                               @ [pck\<lparr>pk_data := d, pk_read := add32 (pk_read pck) tr\<rparr>]\<rparr>) })"

text \<open>What \<open>newPacket\<close> does once it knows the packet length.\<close>

definition beginPacket :: "PacketReader \<Rightarrow> bytes \<Rightarrow> nat \<Rightarrow> nat \<Rightarrow> (nat \<times> PacketReader) option" where
  "beginPacket pr buf packet_length am_of_len_read =
     (if packet_length = 0 then Some (am_of_len_read, pr)
      else if packet_length > pr_max pr then Some (length buf, pr\<lparr>pr_error := True\<rparr>)
      else do { (n, pr') \<leftarrow> readPacket (pr\<lparr>pr_queue := pr_queue pr @ [IncomingPacket_new packet_length]\<rparr>)
                             (drop am_of_len_read buf);
                Some (add32 am_of_len_read n, pr') })"

definition newPacket :: "PacketReader \<Rightarrow> bytes \<Rightarrow> (nat \<times> PacketReader) option" where
  "newPacket pr buf =
     (if pr_len_received pr > 0 then
        if int32 (length buf) < 4 - pr_len_received pr then
          do { l \<leftarrow> memcpy_at (pr_len pr) (nat (pr_len_received pr)) buf;
               Some (length buf, pr\<lparr>pr_len := l, pr_len_received := pr_len_received pr + int32 (length buf)\<rparr>) }
        else
          do { let n = nat (4 - pr_len_received pr);
               x \<leftarrow> mem_read buf 0 n;
               l \<leftarrow> memcpy_at (pr_len pr) (nat (pr_len_received pr)) x;
               packet_length \<leftarrow> ReadUint32 l 0;
               beginPacket (pr\<lparr>pr_len := l, pr_len_received := 0\<rparr>) buf (unat packet_length) n }
      else if length buf < 4 then
        do { l \<leftarrow> memcpy_at (pr_len pr) 0 buf;
             Some (length buf, pr\<lparr>pr_len := l, pr_len_received := int32 (length buf)\<rparr>) }
      else
        do { packet_length \<leftarrow> ReadUint32 buf 0;
             beginPacket pr buf (unat packet_length) 4 })"

text \<open>The loop \<open>while (ret < size && !error) ret += newPacket(buf + ret, size - ret)\<close>.\<close>

partial_function (option) newPacket_loop :: "PacketReader \<Rightarrow> bytes \<Rightarrow> PacketReader option" where
  "newPacket_loop pr buf =
     (if buf \<noteq> [] \<and> \<not> pr_error pr then
        do { (n, pr') \<leftarrow> newPacket pr buf; newPacket_loop pr' (drop n buf) }
      else Some pr)"

definition onDataReady :: "PacketReader \<Rightarrow> bytes \<Rightarrow> PacketReader option" where
  "onDataReady pr buf =
     (if pr_error pr then Some pr
      else if pr_queue pr = [] then newPacket_loop pr buf
      else
        let pck = last (pr_queue pr) in
        do { (n, pr') \<leftarrow> (if pk_read pck = pk_size pck then newPacket pr buf else readPacket pr buf);
             newPacket_loop pr' (drop n buf) })"

section \<open>Specification: a parser that reads one byte at a time\<close>

record rx_state =
  rx_err :: bool
  rx_done :: "bytes list"
  rx_hdr :: bytes
  rx_cur :: "(nat \<times> bytes) option"

definition be_value :: "bytes \<Rightarrow> nat" where
  "be_value h = (case ReadUint32 h 0 of None \<Rightarrow> 0 | Some w \<Rightarrow> unat w)"

definition rx_header :: "nat \<Rightarrow> bytes \<Rightarrow> rx_state \<Rightarrow> rx_state" where
  "rx_header mx h s =
     (let n = be_value h; s' = s\<lparr>rx_hdr := []\<rparr> in
      if n = 0 then s' else if n > mx then s'\<lparr>rx_err := True\<rparr> else s'\<lparr>rx_cur := Some (n, [])\<rparr>)"

definition rx_feed :: "nat \<Rightarrow> u8 \<Rightarrow> rx_state \<Rightarrow> rx_state" where
  "rx_feed mx b s =
     (if rx_err s then s
      else case rx_cur s of
        Some (n, xs) \<Rightarrow>
          (if Suc (length xs) = n then s\<lparr>rx_done := rx_done s @ [xs @ [b]], rx_cur := None\<rparr>
           else s\<lparr>rx_cur := Some (n, xs @ [b])\<rparr>)
      | None \<Rightarrow>
          (if Suc (length (rx_hdr s)) < 4 then s\<lparr>rx_hdr := rx_hdr s @ [b]\<rparr>
           else rx_header mx (rx_hdr s @ [b]) s))"

abbreviation rx_run :: "nat \<Rightarrow> bytes \<Rightarrow> rx_state \<Rightarrow> rx_state" where
  "rx_run mx bs s \<equiv> fold (rx_feed mx) bs s"

definition pk_complete :: "IncomingPacket \<Rightarrow> bool" where
  "pk_complete p \<longleftrightarrow> pk_read p = pk_size p"

definition pr_abs :: "PacketReader \<Rightarrow> rx_state" where
  "pr_abs pr = \<lparr>rx_err = pr_error pr, rx_done = map pk_data (filter pk_complete (pr_queue pr)),
     rx_hdr = take (nat (pr_len_received pr)) (pr_len pr),
     rx_cur = (if pr_queue pr \<noteq> [] \<and> \<not> pk_complete (last (pr_queue pr))
               then Some (pk_size (last (pr_queue pr)),
                          take (pk_read (last (pr_queue pr))) (pk_data (last (pr_queue pr))))
               else None)\<rparr>"

definition pk_inv :: "nat \<Rightarrow> IncomingPacket \<Rightarrow> bool" where
  "pk_inv mx p \<longleftrightarrow> length (pk_data p) = pk_size p \<and> pk_read p \<le> pk_size p \<and> pk_size p \<le> mx"

definition pr_idle :: "PacketReader \<Rightarrow> bool" where
  "pr_idle pr \<longleftrightarrow> list_all pk_complete (pr_queue pr)"

definition pr_inv :: "PacketReader \<Rightarrow> bool" where
  "pr_inv pr \<longleftrightarrow> length (pr_len pr) = 4 \<and> -1 \<le> pr_len_received pr \<and> pr_len_received pr \<le> 3
     \<and> pr_max pr < 2 ^ 31 \<and> list_all (pk_inv (pr_max pr)) (pr_queue pr)
     \<and> list_all pk_complete (butlast (pr_queue pr)) \<and> (pr_len_received pr > 0 \<longrightarrow> pr_idle pr)"

lemma rx_run_err: "rx_err s \<Longrightarrow> rx_run mx bs s = s"
  by (induction bs) (auto simp: rx_feed_def)

lemma rx_run_header_part:
  "\<not> rx_err s \<Longrightarrow> rx_cur s = None \<Longrightarrow> length (rx_hdr s) + length bs < 4 \<Longrightarrow>
   rx_run mx bs s = s\<lparr>rx_hdr := rx_hdr s @ bs\<rparr>"
  by (induction bs arbitrary: s) (auto simp: rx_feed_def)

lemma rx_run_header_full:
  assumes "\<not> rx_err s" "rx_cur s = None" "length (rx_hdr s) < 4" "length (rx_hdr s) + length bs = 4"
  shows "rx_run mx bs s = rx_header mx (rx_hdr s @ bs) s"
proof -
  have "bs \<noteq> []" using assms by auto
  then have bs: "bs = butlast bs @ [last bs]" by simp
  have "rx_run mx (butlast bs) s = s\<lparr>rx_hdr := rx_hdr s @ butlast bs\<rparr>"
    using assms by (intro rx_run_header_part) auto
  then have "rx_run mx bs s = rx_feed mx (last bs) (s\<lparr>rx_hdr := rx_hdr s @ butlast bs\<rparr>)"
    by (subst bs) simp
  then show ?thesis using assms bs by (simp add: rx_feed_def rx_header_def)
qed

lemma rx_run_body_part:
  "\<not> rx_err s \<Longrightarrow> rx_cur s = Some (n, xs) \<Longrightarrow> length xs + length bs < n \<Longrightarrow>
   rx_run mx bs s = s\<lparr>rx_cur := Some (n, xs @ bs)\<rparr>"
  by (induction bs arbitrary: s xs) (auto simp: rx_feed_def)

lemma rx_run_body_full:
  assumes "\<not> rx_err s" "rx_cur s = Some (n, xs)" "length xs < n" "length xs + length bs = n"
  shows "rx_run mx bs s = s\<lparr>rx_done := rx_done s @ [xs @ bs], rx_cur := None\<rparr>"
proof -
  have "bs \<noteq> []" using assms by auto
  then have bs: "bs = butlast bs @ [last bs]" by simp
  have "rx_run mx (butlast bs) s = s\<lparr>rx_cur := Some (n, xs @ butlast bs)\<rparr>"
    using assms by (intro rx_run_body_part) auto
  then have "rx_run mx bs s = rx_feed mx (last bs) (s\<lparr>rx_cur := Some (n, xs @ butlast bs)\<rparr>)"
    by (subst bs) simp
  then show ?thesis using assms bs by (simp add: rx_feed_def)
qed

section \<open>The implementation follows the specification\<close>

text \<open>What one call that consumes \<open>n\<close> bytes of \<open>buf\<close> guarantees.\<close>

definition consumes :: "PacketReader \<Rightarrow> bytes \<Rightarrow> nat \<Rightarrow> PacketReader \<Rightarrow> bool" where
  "consumes pr buf n pr' \<longleftrightarrow> n \<le> length buf \<and> pr_inv pr' \<and> pr_max pr' = pr_max pr
     \<and> pr_abs pr' = rx_run (pr_max pr) (take n buf) (pr_abs pr)
     \<and> (n < length buf \<longrightarrow> pr_error pr' \<or> pr_idle pr')"

lemma pr_idle_abs: "pr_idle pr \<Longrightarrow> rx_cur (pr_abs pr) = None \<and> rx_done (pr_abs pr) = map pk_data (pr_queue pr)"
  by (cases "pr_queue pr" rule: rev_cases) (auto simp: pr_idle_def pr_abs_def list_all_iff)

lemma pr_queue_split:
  assumes "pr_inv pr" and "\<not> pr_idle pr"
  obtains q p where "pr_queue pr = q @ [p]" "list_all pk_complete q" "\<not> pk_complete p"
    "pk_inv (pr_max pr) p" "pr_len_received pr \<le> 0"
  using assms by (cases "pr_queue pr" rule: rev_cases) (auto simp: pr_inv_def pr_idle_def)

lemma readPacket_law:
  assumes inv: "pr_inv pr" and "\<not> pr_error pr" and "\<not> pr_idle pr" and "buf \<noteq> []" and "length buf < 2 ^ 31"
  shows "\<exists>n pr'. readPacket pr buf = Some (n, pr') \<and> 0 < n \<and> consumes pr buf n pr'"
proof -
  obtain q p where q: "pr_queue pr = q @ [p]" "list_all pk_complete q" "\<not> pk_complete p"
      "pk_inv (pr_max pr) p" "pr_len_received pr \<le> 0"
    using pr_queue_split[OF inv assms(3)] by blast
  have p: "length (pk_data p) = pk_size p" "pk_read p < pk_size p" "pk_size p < 2 ^ 31" "pk_size p \<le> pr_max pr"
    using q(3,4) inv by (auto simp: pk_inv_def pk_complete_def pr_inv_def)
  have a: "add32 (pk_read p) (length buf) = pk_read p + length buf" using p assms(5) by (intro add32_id) auto
  define tr where "tr = min (pk_size p - pk_read p) (length buf)"
  have tr: "(if add32 (pk_read p) (length buf) \<ge> pk_size p then sub32 (pk_size p) (pk_read p) else length buf) = tr"
    using p a by (auto simp: tr_def sub32_id)
  have tr1: "tr \<le> length buf" "pk_read p + tr \<le> pk_size p" "0 < tr" using p assms(4) by (auto simp: tr_def)
  have a2: "add32 (pk_read p) tr = pk_read p + tr" using p tr1 by (intro add32_id) auto
  define d where "d = take (pk_read p) (pk_data p) @ take tr buf @ drop (pk_read p + tr) (pk_data p)"
  have w: "memcpy_at (pk_data p) (pk_read p) (take tr buf) = Some d"
    using p tr1 by (simp add: mem_simps d_def)
  define p' where "p' = p\<lparr>pk_data := d, pk_read := pk_read p + tr\<rparr>"
  define pr' where "pr' = pr\<lparr>pr_queue := q @ [p']\<rparr>"
  have r: "readPacket pr buf = Some (tr, pr')"
    using assms(4) q(1) tr1 w by (simp add: readPacket_def Let_def tr a2 mem_simps pr'_def p'_def)
  have inv': "pr_inv pr'"
    using inv q p tr1 memcpy_at_length[OF w] by (auto simp: pr_inv_def pr'_def p'_def pk_inv_def)
  have idle: "pr_idle pr' \<longleftrightarrow> pk_read p + tr = pk_size p"
    using q by (auto simp: pr_idle_def pr'_def p'_def pk_complete_def)
  have td: "take (pk_read p + tr) d = take (pk_read p) (pk_data p) @ take tr buf"
    using p tr1 by (simp add: d_def min_def)
  have abs0: "rx_cur (pr_abs pr) = Some (pk_size p, take (pk_read p) (pk_data p))" "\<not> rx_err (pr_abs pr)"
    using q assms(2) by (simp_all add: pr_abs_def)
  have "pr_abs pr' = rx_run (pr_max pr) (take tr buf) (pr_abs pr)"
  proof (cases "pk_read p + tr = pk_size p")
    case True
    have "d = take (pk_read p) (pk_data p) @ take tr buf" using td True p memcpy_at_length[OF w] by simp
    then show ?thesis
      using rx_run_body_full[OF abs0(2,1), of "take tr buf"] True p tr1 q
      by (simp add: pr_abs_def pr'_def p'_def pk_complete_def min_def)
  next
    case False
    then show ?thesis
      using rx_run_body_part[OF abs0(2,1), of "take tr buf"] p tr1 q td
      by (simp add: pr_abs_def pr'_def p'_def pk_complete_def min_def)
  qed
  moreover have "tr < length buf \<longrightarrow> pr_idle pr'" using idle p(2) by (auto simp: tr_def)
  ultimately show ?thesis using r tr1 inv' by (auto simp: consumes_def pr'_def)
qed

lemma beginPacket_law:
  assumes inv: "pr_inv pr" and "\<not> pr_error pr" and "pr_idle pr" and lr: "pr_len_received pr \<le> 0"
    and "0 < am" and "am \<le> 4" and am: "am \<le> length buf" and "length buf < 2 ^ 31"
  shows "\<exists>n pr'. beginPacket pr buf (be_value h) am = Some (n, pr') \<and> am \<le> n \<and> n \<le> length buf \<and> pr_inv pr'
     \<and> pr_max pr' = pr_max pr
     \<and> pr_abs pr' = rx_run (pr_max pr) (drop am (take n buf)) (rx_header (pr_max pr) h (pr_abs pr))
     \<and> (n < length buf \<longrightarrow> pr_error pr' \<or> pr_idle pr')"
proof -
  let ?n = "be_value h" and ?mx = "pr_max pr"
  have hd: "(pr_abs pr)\<lparr>rx_hdr := []\<rparr> = pr_abs pr" using lr by (simp add: pr_abs_def)
  consider (zero) "?n = 0" | (big) "?n > ?mx" "?n \<noteq> 0" | (ok) "0 < ?n" "?n \<le> ?mx" by linarith
  then show ?thesis
  proof cases
    case zero
    then show ?thesis using assms hd by (simp add: beginPacket_def rx_header_def Let_def)
  next
    case big
    have e: "pr_abs (pr\<lparr>pr_error := True\<rparr>) = rx_header ?mx h (pr_abs pr)"
      using big hd by (simp add: rx_header_def Let_def) (simp add: pr_abs_def)
    have "rx_err (rx_header ?mx h (pr_abs pr))" using big by (simp add: rx_header_def Let_def)
    then show ?thesis using big am inv e
      by (auto simp: beginPacket_def rx_run_err pr_inv_def pr_idle_def)
  next
    case ok
    define pr1 where "pr1 = pr\<lparr>pr_queue := pr_queue pr @ [IncomingPacket_new ?n]\<rparr>"
    have inv1: "pr_inv pr1" using inv assms(3) lr ok
      by (auto simp: pr1_def pr_inv_def pr_idle_def pk_inv_def IncomingPacket_new_def)
    have idle1: "\<not> pr_idle pr1" using ok by (simp add: pr1_def pr_idle_def pk_complete_def IncomingPacket_new_def)
    have e: "pr_abs pr1 = rx_header ?mx h (pr_abs pr)"
      using ok hd by (simp add: rx_header_def Let_def) (simp add: pr_abs_def pr1_def IncomingPacket_new_def pk_complete_def)
    show ?thesis
    proof (cases "drop am buf = []")
      case True
      have "beginPacket pr buf ?n am = Some (am, pr1)"
        using ok True assms(6) by (simp add: beginPacket_def readPacket_def pr1_def add32_id)
      then show ?thesis using True am inv1 e by (auto simp: pr1_def)
    next
      case False
      obtain n pr' where r: "readPacket pr1 (drop am buf) = Some (n, pr')" "consumes pr1 (drop am buf) n pr'"
      proof -
        have "\<not> pr_error pr1" "length (drop am buf) < 2 ^ 31" using assms(2,8) by (auto simp: pr1_def)
        then show ?thesis using that readPacket_law[OF inv1 _ idle1 False] by blast
      qed
      then have "n \<le> length buf - am" by (simp add: consumes_def)
      then have a: "add32 am n = am + n" using am assms(8) by (intro add32_id) auto
      have "beginPacket pr buf ?n am = Some (am + n, pr')"
        using ok r(1) a by (simp add: beginPacket_def pr1_def)
      moreover have "take n (drop am buf) = drop am (take (am + n) buf)" by (simp add: drop_take)
      ultimately show ?thesis using r(2) am e by (auto simp: consumes_def pr1_def)
    qed
  qed
qed

lemma rx_header_hdr: "rx_header mx h (s\<lparr>rx_hdr := x\<rparr>) = rx_header mx h s"
  by (simp add: rx_header_def Let_def)

lemma newPacket_law:
  assumes inv: "pr_inv pr" and err: "\<not> pr_error pr" and idle: "pr_idle pr" and "buf \<noteq> []" and sz: "length buf < 2 ^ 31"
  shows "\<exists>n pr'. newPacket pr buf = Some (n, pr') \<and> 0 < n \<and> consumes pr buf n pr'"
proof -
  let ?mx = "pr_max pr"
  define k where "k = nat (pr_len_received pr)"
  have k: "k \<le> 3" "length (pr_len pr) = 4" using inv by (auto simp: pr_inv_def k_def)
  have cur: "rx_cur (pr_abs pr) = None" "\<not> rx_err (pr_abs pr)" "rx_hdr (pr_abs pr) = take k (pr_len pr)"
    using pr_idle_abs[OF idle] err by (simp_all add: pr_abs_def k_def)
  have i32: "int32 (length buf) = int (length buf)" using sz by (rule int32_id)
  show ?thesis
  proof (cases "length buf < 4 - k")
    case True
    define pr' where "pr' = pr\<lparr>pr_len := take k (pr_len pr) @ buf @ drop (k + length buf) (pr_len pr),
                              pr_len_received := int k + int (length buf)\<rparr>"
    have r: "newPacket pr buf = Some (length buf, pr')"
      using True k i32 by (auto simp: newPacket_def mem_simps pr'_def k_def)
    have "pr_inv pr'" using inv idle True k by (auto simp: pr_inv_def pr'_def pr_idle_def)
    moreover have "pr_abs pr' = rx_run ?mx buf (pr_abs pr)"
    proof -
      have "take (k + length buf) (take k (pr_len pr) @ buf @ drop (k + length buf) (pr_len pr)) = take k (pr_len pr) @ buf"
        using k by (simp add: min_def)
      then have "pr_abs pr' = (pr_abs pr)\<lparr>rx_hdr := take k (pr_len pr) @ buf\<rparr>"
        by (simp add: pr_abs_def pr'_def nat_int_add)
      then show ?thesis
        using rx_run_header_part[OF cur(2,1), of buf ?mx] True k cur(3) by simp
    qed
    ultimately show ?thesis using r assms(4) by (auto simp: consumes_def pr'_def)
  next
    case False
    let ?n = "4 - k"
    define h where "h = take k (pr_len pr) @ take ?n buf"
    define pr1 where "pr1 = (if pr_len_received pr > 0 then pr\<lparr>pr_len := h, pr_len_received := 0\<rparr> else pr)"
    have h: "length h = 4" using k False by (simp add: h_def min_def)
    obtain w where w: "ReadUint32 h 0 = Some w" using h by (auto simp: ReadUint32_def)
    then have bv: "be_value h = unat w" by (simp add: be_value_def)
    have np: "newPacket pr buf = beginPacket pr1 buf (be_value h) ?n"
    proof (cases "pr_len_received pr > 0")
      case True
      then have kk: "pr_len_received pr = int k" by (simp add: k_def)
      have "memcpy_at (pr_len pr) k (take ?n buf) = Some h" using k False by (simp add: mem_simps h_def)
      moreover have "\<not> int (length buf) < 4 - int k" using False by linarith
      ultimately show ?thesis using True False i32 kk w bv k
        by (simp add: newPacket_def mem_simps pr1_def nat_diff_distrib')
    next
      case F: False
      then have "k = 0" by (simp add: k_def)
      moreover have "ReadUint32 buf 0 = ReadUint32 (take 4 buf) 0"
        using \<open>k = 0\<close> False by (intro int32.rd_local) (simp add: mem_read_def)
      ultimately show ?thesis using F False w bv by (simp add: newPacket_def pr1_def h_def)
    qed
    have pr1: "pr_inv pr1" "\<not> pr_error pr1" "pr_idle pr1" "pr_len_received pr1 \<le> 0" "pr_max pr1 = ?mx"
      using inv err idle h by (auto simp: pr1_def pr_inv_def pr_idle_def)
    have abs1: "pr_abs pr1 = (pr_abs pr)\<lparr>rx_hdr := []\<rparr>" by (auto simp: pr1_def pr_abs_def)
    have run: "rx_run ?mx (take ?n buf) (pr_abs pr) = rx_header ?mx h (pr_abs pr)"
      using rx_run_header_full[OF cur(2,1), of "take ?n buf" ?mx] cur(3) k False by (simp add: h_def min_def)
    obtain n pr' where b: "beginPacket pr1 buf (be_value h) ?n = Some (n, pr')" "?n \<le> n" "n \<le> length buf"
        "pr_inv pr'" "pr_max pr' = ?mx" "n < length buf \<longrightarrow> pr_error pr' \<or> pr_idle pr'"
        "pr_abs pr' = rx_run ?mx (drop ?n (take n buf)) (rx_header ?mx h (pr_abs pr1))"
      using beginPacket_law[OF pr1(1-4), of ?n buf h] k False sz unfolding pr1(5) by auto
    have "take n buf = take ?n buf @ drop ?n (take n buf)"
      using b(2) append_take_drop_id[of ?n "take n buf"] by (simp add: min_def)
    then have "rx_run ?mx (take n buf) (pr_abs pr) = pr_abs pr'"
      using run b(7) abs1 rx_header_hdr by (metis comp_apply fold_append)
    then show ?thesis using np b k by (auto simp: consumes_def)
  qed
qed

lemma newPacket_loop_law:
  assumes "pr_inv pr" and "pr_error pr \<or> pr_idle pr \<or> buf = []" and "length buf < 2 ^ 31"
  shows "\<exists>pr'. newPacket_loop pr buf = Some pr' \<and> pr_inv pr' \<and> pr_max pr' = pr_max pr
           \<and> pr_abs pr' = rx_run (pr_max pr) buf (pr_abs pr)"
  using assms
proof (induction "length buf" arbitrary: pr buf rule: less_induct)
  case less
  show ?case
  proof (cases "buf \<noteq> [] \<and> \<not> pr_error pr")
    case True
    then obtain n pr1 where n: "newPacket pr buf = Some (n, pr1)" "0 < n" "consumes pr buf n pr1"
      using newPacket_law[OF less.prems(1) _ _ _ less.prems(3)] less.prems(2) by blast
    then have c: "pr_inv pr1" "pr_max pr1 = pr_max pr" "pr_error pr1 \<or> pr_idle pr1 \<or> drop n buf = []"
        "pr_abs pr1 = rx_run (pr_max pr) (take n buf) (pr_abs pr)"
      by (auto simp: consumes_def)
    have "length (drop n buf) < length buf" "length (drop n buf) < 2 ^ 31" using True n(2) less.prems(3) by auto
    then obtain pr' where "newPacket_loop pr1 (drop n buf) = Some pr'" "pr_inv pr'" "pr_max pr' = pr_max pr1"
        "pr_abs pr' = rx_run (pr_max pr1) (drop n buf) (pr_abs pr1)"
      using less.hyps[OF _ c(1,3)] by blast
    moreover have "rx_run (pr_max pr) (drop n buf) (rx_run (pr_max pr) (take n buf) (pr_abs pr))
        = rx_run (pr_max pr) buf (pr_abs pr)"
      by (metis append_take_drop_id comp_apply fold_append)
    ultimately show ?thesis using True n(1) c by (simp add: newPacket_loop.simps[of pr buf])
  next
    case False
    then have "rx_run (pr_max pr) buf (pr_abs pr) = pr_abs pr"
      by (auto intro: rx_run_err simp: pr_abs_def)
    then show ?thesis using False less.prems by (auto simp: newPacket_loop.simps[of pr buf])
  qed
qed

lemma onDataReady_law:
  assumes inv: "pr_inv pr" and sz: "length buf < 2 ^ 31"
  shows "\<exists>pr'. onDataReady pr buf = Some pr' \<and> pr_inv pr' \<and> pr_max pr' = pr_max pr
           \<and> pr_abs pr' = rx_run (pr_max pr) buf (pr_abs pr)"
proof (cases "pr_error pr \<or> pr_queue pr = [] \<or> buf = []")
  case True
  have empty: "onDataReady pr [] = Some pr'" if "pr_queue pr \<noteq> []" "\<not> pr_error pr" "buf = []"
      "pr' = (if pk_complete (last (pr_queue pr)) \<and> pr_len_received pr \<le> 0 then pr\<lparr>pr_len_received := 0\<rparr> else pr)" for pr'
    using that inv
    by (auto simp: onDataReady_def newPacket_def readPacket_def newPacket_loop.simps mem_simps pk_complete_def
        pr_inv_def int32_def Let_def)
  show ?thesis
  proof (cases "pr_error pr")
    case True
    then have "rx_run (pr_max pr) buf (pr_abs pr) = pr_abs pr" by (intro rx_run_err) (simp add: pr_abs_def)
    then show ?thesis using True inv by (auto simp: onDataReady_def)
  next
    case e: False
    show ?thesis
    proof (cases "pr_queue pr = []")
      case True
      then show ?thesis using e newPacket_loop_law[OF inv _ sz] by (auto simp: onDataReady_def pr_idle_def)
    next
      case q: False
      then have "buf = []" using e \<open>pr_error pr \<or> pr_queue pr = [] \<or> buf = []\<close> by blast
      then show ?thesis using empty[OF q e] inv q
        by (auto simp: pr_inv_def pr_abs_def pr_idle_def)
    qed
  qed
next
  case False
  then have e: "\<not> pr_error pr" "pr_queue pr \<noteq> []" "buf \<noteq> []" by auto
  have idle: "pk_read (last (pr_queue pr)) = pk_size (last (pr_queue pr)) \<longleftrightarrow> pr_idle pr"
    using inv e(2) by (cases "pr_queue pr" rule: rev_cases) (auto simp: pr_inv_def pr_idle_def pk_complete_def)
  obtain n pr1 where n: "(if pr_idle pr then newPacket pr buf else readPacket pr buf) = Some (n, pr1)"
      "consumes pr buf n pr1"
    using newPacket_law[OF inv e(1) _ e(3) sz] readPacket_law[OF inv e(1) _ e(3) sz]
    by (cases "pr_idle pr") auto
  then have c: "pr_inv pr1" "pr_max pr1 = pr_max pr" "pr_error pr1 \<or> pr_idle pr1 \<or> drop n buf = []"
      "pr_abs pr1 = rx_run (pr_max pr) (take n buf) (pr_abs pr)"
    by (auto simp: consumes_def)
  obtain pr' where "newPacket_loop pr1 (drop n buf) = Some pr'" "pr_inv pr'" "pr_max pr' = pr_max pr1"
      "pr_abs pr' = rx_run (pr_max pr1) (drop n buf) (pr_abs pr1)"
    using newPacket_loop_law[OF c(1,3)] sz by fastforce
  moreover have "rx_run (pr_max pr) (drop n buf) (rx_run (pr_max pr) (take n buf) (pr_abs pr))
      = rx_run (pr_max pr) buf (pr_abs pr)"
    by (metis append_take_drop_id comp_apply fold_append)
  ultimately show ?thesis using e n(1) c by (simp add: onDataReady_def Let_def idle)
qed

section \<open>What the main thread takes out\<close>

lemma update_loop_eq:
  "update_loop q = (map pk_data (takeWhile pk_complete q), dropWhile pk_complete q)"
  by (induction q) (auto simp: pk_complete_def split: prod.splits)

lemma update_loop_complete: "list_all pk_complete q \<Longrightarrow> update_loop q = (map pk_data q, [])"
  by (auto simp: update_loop_eq list_all_iff takeWhile_eq_all_conv[THEN iffD2] dropWhile_eq_Nil_conv[THEN iffD2])

lemma PacketReader_update_law:
  assumes "pr_inv pr" and "\<not> pr_error pr"
  shows "\<exists>pr'. PacketReader_update pr = (rx_done (pr_abs pr), pr') \<and> pr_inv pr' \<and> pr_max pr' = pr_max pr
           \<and> pr_abs pr' = (pr_abs pr)\<lparr>rx_done := []\<rparr>"
proof (cases "pr_idle pr")
  case True
  then show ?thesis using assms pr_idle_abs[OF True]
    by (auto simp: PacketReader_update_def pr_idle_def update_loop_complete pr_inv_def) (simp add: pr_abs_def)
next
  case False
  obtain q p where q: "pr_queue pr = q @ [p]" "list_all pk_complete q" "\<not> pk_complete p"
    using pr_queue_split[OF assms(1) False] by blast
  then have "update_loop (pr_queue pr) = (map pk_data q, [p])"
    by (simp add: update_loop_eq list_all_iff)
  moreover have "filter pk_complete q = q" using q(2) by (simp add: list_all_iff)
  ultimately show ?thesis using assms q False
    by (auto simp: PacketReader_update_def pr_inv_def pr_idle_def pr_abs_def)
qed

lemma dequeue_update:
  "\<not> pr_error pr \<Longrightarrow> PacketReader_update pr =
     (case dequeuePacket pr of (None, pr') \<Rightarrow> ([], pr')
      | (Some p, pr') \<Rightarrow> (let (ps, pr'') = PacketReader_update pr' in (pk_data p # ps, pr'')))"
  by (cases "pr_queue pr") (auto simp: PacketReader_update_def dequeuePacket_def split: prod.splits)

text \<open>The framing of a message on the wire: its length, then its bytes.\<close>

definition frame :: "bytes \<Rightarrow> bytes" where
  "frame p = be32 (word_of_nat (length p)) @ p"

lemma be_value_be32: "n < 2 ^ 32 \<Longrightarrow> be_value (be32 (word_of_nat n)) = n"
proof -
  assume n: "n < 2 ^ 32"
  have "ReadUint32 (be32 (word_of_nat n)) 0 = Some (word_of_nat n)"
    by (rule ReadUint32_enc) (simp add: mem_read_def)
  then show ?thesis using n by (simp add: be_value_def unat_of_nat take_bit_nat_eq_self)
qed

lemma rx_run_frame:
  assumes "\<not> rx_err s" "rx_cur s = None" "rx_hdr s = []" "0 < length p" "length p \<le> mx" "mx < 2 ^ 31"
  shows "rx_run mx (frame p) s = s\<lparr>rx_done := rx_done s @ [p]\<rparr>"
proof -
  let ?h = "be32 (word_of_nat (length p))"
  have "be_value ?h = length p" using assms by (intro be_value_be32) auto
  then have "rx_run mx ?h s = s\<lparr>rx_cur := Some (length p, [])\<rparr>"
    using rx_run_header_full[of s ?h mx] assms by (simp add: rx_header_def)
  then show ?thesis
    using rx_run_body_full[of "s\<lparr>rx_cur := Some (length p, [])\<rparr>" "length p" "[]" p mx] assms
    by (simp add: frame_def)
qed

lemma rx_run_frames:
  assumes "\<not> rx_err s" "rx_cur s = None" "rx_hdr s = []" "mx < 2 ^ 31"
    and "\<forall>p \<in> set ps. 0 < length p \<and> length p \<le> mx"
  shows "rx_run mx (concat (map frame ps)) s = s\<lparr>rx_done := rx_done s @ ps\<rparr>"
  using assms
proof (induction ps arbitrary: s)
  case Nil
  then show ?case by simp
next
  case (Cons p ps)
  then show ?case using rx_run_frame[of s p mx] by simp
qed

section \<open>Several calls\<close>

fun feed_all :: "PacketReader \<Rightarrow> bytes list \<Rightarrow> PacketReader option" where
  "feed_all pr [] = Some pr"
| "feed_all pr (b # bs) = do { pr' \<leftarrow> onDataReady pr b; feed_all pr' bs }"

lemma feed_all_law:
  assumes "pr_inv pr" and "\<forall>b \<in> set bufs. length b < 2 ^ 31"
  shows "\<exists>pr'. feed_all pr bufs = Some pr' \<and> pr_inv pr' \<and> pr_max pr' = pr_max pr
           \<and> pr_abs pr' = rx_run (pr_max pr) (concat bufs) (pr_abs pr)"
  using assms
proof (induction bufs arbitrary: pr)
  case Nil
  then show ?case by simp
next
  case (Cons b bufs)
  then obtain pr1 where "onDataReady pr b = Some pr1" "pr_inv pr1" "pr_max pr1 = pr_max pr"
      "pr_abs pr1 = rx_run (pr_max pr) b (pr_abs pr)"
    using onDataReady_law[of pr b] by auto
  then show ?case using Cons.IH[of pr1] Cons.prems by auto
qed

lemma pr_inv_new: "mx < 2 ^ 31 \<Longrightarrow> pr_inv (PacketReader_new mx)"
  by (simp add: pr_inv_def PacketReader_new_def)

lemma pr_max_new [simp]: "pr_max (PacketReader_new mx) = mx"
  by (simp add: PacketReader_new_def)

lemma pr_abs_new: "pr_abs (PacketReader_new mx) = \<lparr>rx_err = False, rx_done = [], rx_hdr = [], rx_cur = None\<rparr>"
  by (simp add: pr_abs_def PacketReader_new_def)

section \<open>Properties\<close>

text \<open>
  C16. \<open>onDataReady\<close> always returns, never leaves a buffer, keeps the invariant, and has
  exactly the effect of feeding its bytes one at a time to the specification parser, whatever
  is pending from earlier calls (a partial length, a partial packet, an error).
\<close>

theorem onDataReady_refines:
  assumes "pr_inv pr" and "length buf < 2 ^ 31"
  shows "\<exists>pr'. onDataReady pr buf = Some pr' \<and> pr_inv pr' \<and> pr_max pr' = pr_max pr
           \<and> pr_abs pr' = rx_run (pr_max pr) buf (pr_abs pr)"
  using assms by (rule onDataReady_law)

theorem onDataReady_refines_witness:
  "\<exists>pr'. onDataReady (PacketReader_new 100) [0, 0, 0, 2, 7] = Some pr'
     \<and> rx_cur (pr_abs pr') = Some (2, [7])"
proof -
  have e: "rx_cur (rx_run 100 [0, 0, 0, 2, 7] \<lparr>rx_err = False, rx_done = [], rx_hdr = [], rx_cur = None\<rparr>)
      = Some (2, [7])"
    by (simp add: rx_feed_def rx_header_def be_value_def ReadUint32_def)
  have "pr_inv (PacketReader_new 100)" by (rule pr_inv_new) simp
  from onDataReady_refines[OF this, of "[0, 0, 0, 2, 7]"] e show ?thesis
    by (auto simp: pr_abs_new)
qed

text \<open>
  How the stream is cut into calls does not matter: two sequences of buffers with the same
  bytes leave the reader in states with the same meaning (packets finished, bytes pending, error).
\<close>

theorem onDataReady_segmentation:
  assumes "pr_inv pr" and "concat xs = concat ys"
    and "\<forall>b \<in> set xs. length b < 2 ^ 31" and "\<forall>b \<in> set ys. length b < 2 ^ 31"
  shows "\<exists>p q. feed_all pr xs = Some p \<and> feed_all pr ys = Some q \<and> pr_abs p = pr_abs q"
  using feed_all_law[OF assms(1,3)] feed_all_law[OF assms(1,4)] assms(2) by auto

theorem onDataReady_segmentation_witness:
  "\<exists>p q. feed_all (PacketReader_new 100) [[0], [0, 0, 2, 7], [8, 0]] = Some p
     \<and> feed_all (PacketReader_new 100) [[0, 0, 0, 2, 7, 8, 0]] = Some q \<and> pr_abs p = pr_abs q"
  by (rule onDataReady_segmentation) (simp_all add: pr_inv_new)

lemma PacketReader_delivers_law:
  assumes "mx < 2 ^ 31" and "\<forall>p \<in> set ps. 0 < length p \<and> length p \<le> mx"
    and "concat bufs = concat (map frame ps)" and "\<forall>b \<in> set bufs. length b < 2 ^ 31"
  shows "\<exists>pr pr'. feed_all (PacketReader_new mx) bufs = Some pr \<and> PacketReader_update pr = (ps, pr')
           \<and> PacketReader_update pr' = ([], pr') \<and> pr_inv pr \<and> pr_inv pr' \<and> \<not> pr_error pr"
proof -
  obtain pr where pr: "feed_all (PacketReader_new mx) bufs = Some pr" "pr_inv pr"
      "pr_abs pr = \<lparr>rx_err = False, rx_done = ps, rx_hdr = [], rx_cur = None\<rparr>"
    using feed_all_law[OF pr_inv_new[OF assms(1)] assms(4)]
      rx_run_frames[of "pr_abs (PacketReader_new mx)" mx ps] assms(1,2,3)
    by (auto simp: pr_abs_new)
  then have e: "\<not> pr_error pr" by (simp add: pr_abs_def)
  obtain pr' where u: "PacketReader_update pr = (ps, pr')" "pr_inv pr'"
      "pr_abs pr' = \<lparr>rx_err = False, rx_done = [], rx_hdr = [], rx_cur = None\<rparr>"
    using PacketReader_update_law[OF pr(2) e] pr(3) by auto
  have "fst (PacketReader_update pr') = []" "snd (PacketReader_update pr') = pr'"
    using u(3) by (auto simp: PacketReader_update_def update_loop_eq pr_abs_def filter_empty_conv
        split: if_splits) (cases "pr_queue pr'"; auto)+
  then show ?thesis using pr(1,2) u(1,2) e by (metis prod.collapse)
qed

text \<open>
  C7. End to end: if the peer sends framed packets, each non-empty and within the size limit,
  then however the network cuts their bytes, \<open>update\<close> hands exactly these packets to the peer
  in the order sent, and a second \<open>update\<close> hands out nothing more.
\<close>

theorem PacketReader_delivers:
  assumes "mx < 2 ^ 31" and "\<forall>p \<in> set ps. 0 < length p \<and> length p \<le> mx"
    and "concat bufs = concat (map frame ps)" and "\<forall>b \<in> set bufs. length b < 2 ^ 31"
  shows "\<exists>pr pr'. feed_all (PacketReader_new mx) bufs = Some pr \<and> PacketReader_update pr = (ps, pr')
           \<and> PacketReader_update pr' = ([], pr')"
  using PacketReader_delivers_law[OF assms] by blast

theorem PacketReader_delivers_witness:
  "\<exists>pr pr'. feed_all (PacketReader_new 100) [[0, 0], [0, 3, 1], [2, 3, 0, 0, 0], [1, 9]] = Some pr
     \<and> PacketReader_update pr = ([[1, 2, 3], [9]], pr')"
proof -
  have "concat [[0, 0], [0, 3, 1], [2, 3, 0, 0, 0], [1, 9]] = concat (map frame [[1, 2, 3], [9]])"
    by (simp add: frame_def be32_def)
  from PacketReader_delivers[OF _ _ this, of 100] show ?thesis by simp blast
qed

text \<open>
  A length above the limit stops the reader for good: the error flag is set, later data is
  ignored and \<open>update\<close> hands nothing to the peer any more.
\<close>

theorem PacketReader_oversize_stops:
  assumes "pr_inv pr" and "\<not> pr_error pr" and "pr_idle pr" and "pr_len_received pr \<le> 0"
    and "n > pr_max pr" and "n < 2 ^ 32" and "length rest < 2 ^ 30" and "length later < 2 ^ 31"
  shows "\<exists>pr'. onDataReady pr (be32 (word_of_nat n) @ rest) = Some pr' \<and> pr_error pr'
           \<and> onDataReady pr' later = Some pr' \<and> PacketReader_update pr' = ([], pr')"
proof -
  let ?s = "pr_abs pr" and ?h = "be32 (word_of_nat n)"
  have s: "\<not> rx_err ?s" "rx_cur ?s = None" "rx_hdr ?s = []"
    using assms(2,4) pr_idle_abs[OF assms(3)] by (simp_all add: pr_abs_def)
  have "rx_run (pr_max pr) ?h ?s = rx_header (pr_max pr) ?h ?s"
    using rx_run_header_full[OF s(1,2), of ?h] s(3) by simp
  then have "rx_err (rx_run (pr_max pr) ?h ?s)"
    using be_value_be32[OF assms(6)] assms(5) by (simp add: rx_header_def Let_def)
  then have "rx_err (rx_run (pr_max pr) (?h @ rest) ?s)" using rx_run_err by simp
  moreover obtain pr' where r: "onDataReady pr (?h @ rest) = Some pr'"
      and "pr_abs pr' = rx_run (pr_max pr) (?h @ rest) ?s"
    using onDataReady_law[OF assms(1), of "?h @ rest"] assms(7) by auto
  ultimately have "rx_err (pr_abs pr')" by simp
  then have "pr_error pr'" by (simp add: pr_abs_def)
  moreover from this have "onDataReady pr' later = Some pr'" "PacketReader_update pr' = ([], pr')"
    by (simp_all add: onDataReady_def PacketReader_update_def)
  ultimately show ?thesis using r by blast
qed

theorem PacketReader_oversize_stops_witness:
  "\<exists>pr'. onDataReady (PacketReader_new 100) (be32 (word_of_nat 101) @ [1, 2]) = Some pr' \<and> pr_error pr'"
  using PacketReader_oversize_stops[of "PacketReader_new 100" 101 "[1, 2]" "[]"] pr_inv_new[of 100]
  by (auto simp: PacketReader_new_def pr_idle_def)

end
