(* ===== verification/Wire_Packet.thy ===== *)
theory Wire_Packet
  imports Bytes Bit_Set Packet_Reader
begin

text \<open>
  What travels between peers: \<open>Request\<close> (\<open>src/download/request.h\<close>), the messages that
  \<open>Packet\<close> builds (\<open>src/download/packet.cpp\<close>), and the chunk data they carry, read through
  \<open>Chunk\<close> and \<open>PieceData\<close> (\<open>src/diskio/chunk.cpp\<close>, \<open>src/diskio/piecedata.cpp\<close>). Sizes are
  32-bit and wrap; a write outside the allocated packet is \<open>None\<close>.

  The disk cache behind a chunk is a virtual interface: \<open>Cache::loadPiece\<close> is the argument
  \<open>load\<close> of the definitions that call it.
\<close>

section \<open>Message types and priorities\<close>

definition MAX_PIECE_LEN :: nat where "MAX_PIECE_LEN = 16384"

definition CHOKE :: u8 where "CHOKE = 0"
definition UNCHOKE :: u8 where "UNCHOKE = 1"
definition INTERESTED :: u8 where "INTERESTED = 2"
definition NOT_INTERESTED :: u8 where "NOT_INTERESTED = 3"
definition HAVE :: u8 where "HAVE = 4"
definition BITFIELD :: u8 where "BITFIELD = 5"
definition REQUEST :: u8 where "REQUEST = 6"
definition PIECE :: u8 where "PIECE = 7"
definition CANCEL :: u8 where "CANCEL = 8"
definition PORT :: u8 where "PORT = 9"
definition SUGGEST_PIECE :: u8 where "SUGGEST_PIECE = 13"
definition HAVE_ALL :: u8 where "HAVE_ALL = 14"
definition HAVE_NONE :: u8 where "HAVE_NONE = 15"
definition REJECT_REQUEST :: u8 where "REJECT_REQUEST = 16"
definition ALLOWED_FAST :: u8 where "ALLOWED_FAST = 17"
definition EXTENDED :: u8 where "EXTENDED = 20"

lemmas msg_types = CHOKE_def UNCHOKE_def INTERESTED_def NOT_INTERESTED_def HAVE_def BITFIELD_def
  REQUEST_def PIECE_def CANCEL_def PORT_def SUGGEST_PIECE_def HAVE_ALL_def HAVE_NONE_def
  REJECT_REQUEST_def ALLOWED_FAST_def EXTENDED_def

datatype Priority = EXCLUDED | ONLY_SEED_PRIORITY | LAST_PRIORITY | NORMAL_PRIORITY
  | FIRST_PRIORITY | PREVIEW_PRIORITY

fun prio_value :: "Priority \<Rightarrow> nat" where
  "prio_value PREVIEW_PRIORITY = 60"
| "prio_value FIRST_PRIORITY = 50"
| "prio_value NORMAL_PRIORITY = 40"
| "prio_value LAST_PRIORITY = 30"
| "prio_value ONLY_SEED_PRIORITY = 20"
| "prio_value EXCLUDED = 10"

lemma prio_value_inj [simp]: "prio_value a = prio_value b \<longleftrightarrow> a = b"
  by (cases a; cases b) simp_all

instantiation Priority :: linorder
begin

definition less_eq_Priority :: "Priority \<Rightarrow> Priority \<Rightarrow> bool" where
  "less_eq_Priority a b \<longleftrightarrow> prio_value a \<le> prio_value b"

definition less_Priority :: "Priority \<Rightarrow> Priority \<Rightarrow> bool" where
  "less_Priority a b \<longleftrightarrow> prio_value a < prio_value b"

instance
  by standard (auto simp: less_eq_Priority_def less_Priority_def)

end

section \<open>Requests, pieces of chunks\<close>

text \<open>The downloader pointer of a \<open>Request\<close> takes no part in its equality and is left out.\<close>

record Request =
  rq_index :: u32w
  rq_off :: u32w
  rq_len :: u32w

definition Request_new :: "u32w \<Rightarrow> u32w \<Rightarrow> u32w \<Rightarrow> Request" where
  "Request_new i off len = \<lparr>rq_index = i, rq_off = off, rq_len = len\<rparr>"

definition Request_eq :: "Request \<Rightarrow> Request \<Rightarrow> bool" where
  "Request_eq a b \<longleftrightarrow> rq_index a = rq_index b \<and> rq_len a = rq_len b \<and> rq_off a = rq_off b"

lemma Request_eq_iff [simp]: "Request_eq a b \<longleftrightarrow> a = b"
  by (cases a; cases b) (auto simp: Request_eq_def)

record PieceData =
  pd_len :: nat
  pd_ptr :: "bytes option"
  pd_read_only :: bool

definition pd_ok :: "PieceData \<Rightarrow> bool" where
  "pd_ok d \<longleftrightarrow> pd_ptr d \<noteq> None"

text \<open>\<open>Inl\<close> is a thrown \<open>bt::Error\<close>; the outer \<open>None\<close> is an access outside the mapped piece.\<close>

definition PieceData_write :: "PieceData \<Rightarrow> bytes \<Rightarrow> nat \<Rightarrow> (string + (nat \<times> PieceData)) option" where
  "PieceData_write d buf off =
     (case pd_ptr d of
        None \<Rightarrow> Some (Inr (0, d))
      | Some p \<Rightarrow>
          if add32 off (length buf) > pd_len d then Some (Inr (0, d))
          else if pd_read_only d then Some (Inl ''Unable to write to a piece mapped read only'')
          else do { p' \<leftarrow> memcpy_at p off buf; Some (Inr (length buf, d\<lparr>pd_ptr := Some p'\<rparr>)) })"

definition PieceData_read :: "PieceData \<Rightarrow> nat \<Rightarrow> nat \<Rightarrow> (nat \<times> bytes) option" where
  "PieceData_read d to_read off =
     (case pd_ptr d of
        None \<Rightarrow> Some (0, [])
      | Some p \<Rightarrow>
          if add32 off to_read > pd_len d then Some (0, [])
          else do { x \<leftarrow> mem_read p off to_read; Some (to_read, x) })"

definition PieceData_generateHash :: "(bytes \<Rightarrow> bytes) \<Rightarrow> PieceData \<Rightarrow> bytes" where
  \<comment> \<open>\<open>sha1\<close> is the hash of the crypto library; a default \<open>SHA1Hash\<close> is twenty zero bytes\<close>
  "PieceData_generateHash sha1 d =
     (case pd_ptr d of None \<Rightarrow> replicate 20 0 | Some p \<Rightarrow> sha1 (take (pd_len d) p))"

datatype ChunkStatus = ON_DISK | NOT_DOWNLOADED

record Chunk =
  ch_status :: ChunkStatus
  ch_index :: nat
  ch_size :: nat
  ch_priority :: Priority

definition Chunk_new :: "nat \<Rightarrow> nat \<Rightarrow> Chunk" where
  "Chunk_new i sz = \<lparr>ch_status = NOT_DOWNLOADED, ch_index = i, ch_size = sz, ch_priority = NORMAL_PRIORITY\<rparr>"

definition isExcluded :: "Chunk \<Rightarrow> bool" where
  "isExcluded c \<longleftrightarrow> ch_priority c = EXCLUDED"

definition isExcludedForDownloading :: "Chunk \<Rightarrow> bool" where
  "isExcludedForDownloading c \<longleftrightarrow> ch_priority c = ONLY_SEED_PRIORITY"

definition setExclude :: "Chunk \<Rightarrow> bool \<Rightarrow> Chunk" where
  "setExclude c yes = c\<lparr>ch_priority := (if yes then EXCLUDED else NORMAL_PRIORITY)\<rparr>"

type_synonym loader = "Chunk \<Rightarrow> nat \<Rightarrow> nat \<Rightarrow> PieceData option"

text \<open>\<open>readPiece\<close> copies into the caller's buffer and returns whether all bytes came.\<close>

definition Chunk_readPiece :: "loader \<Rightarrow> Chunk \<Rightarrow> nat \<Rightarrow> nat \<Rightarrow> (bool \<times> bytes) option" where
  "Chunk_readPiece load c off len =
     (case load c off len of
        None \<Rightarrow> Some (False, [])
      | Some d \<Rightarrow> if pd_ok d then do { (n, x) \<leftarrow> PieceData_read d len 0; Some (n = len, x) }
                  else Some (False, []))"

definition Chunk_checkHash :: "loader \<Rightarrow> (bytes \<Rightarrow> bytes) \<Rightarrow> Chunk \<Rightarrow> bytes \<Rightarrow> bool" where
  "Chunk_checkHash load sha1 c h =
     (case load c 0 (ch_size c) of
        None \<Rightarrow> False
      | Some d \<Rightarrow> if \<not> pd_ok d then False else PieceData_generateHash sha1 d = h)"

section \<open>Packets\<close>

record Packet =
  pkt_type :: u8
  pkt_data :: bytes
  pkt_size :: nat
  pkt_written :: nat

text \<open>The bytes of a fresh allocation are unspecified in C++; zero stands for them.\<close>

definition AllocPacket :: "nat \<Rightarrow> u8 \<Rightarrow> bytes option" where
  "AllocPacket sz ty =
     do { d \<leftarrow> WriteUint32 (replicate sz 0) 0 (word_of_nat (sub32 sz 4)); memcpy_at d 4 [ty] }"

definition mk_packet :: "u8 \<Rightarrow> nat \<Rightarrow> bytes \<Rightarrow> Packet" where
  "mk_packet ty sz d = \<lparr>pkt_type = ty, pkt_data = d, pkt_size = sz, pkt_written = 0\<rparr>"

definition Packet_simple :: "u8 \<Rightarrow> Packet option" where
  "Packet_simple ty = do { d \<leftarrow> AllocPacket 5 ty; Some (mk_packet ty 5 d) }"

definition Packet_port :: "u16 \<Rightarrow> Packet option" where
  "Packet_port port = do { d \<leftarrow> AllocPacket 7 PORT; d \<leftarrow> WriteUint16 d 5 port; Some (mk_packet PORT 7 d) }"

definition Packet_chunk :: "u32w \<Rightarrow> u8 \<Rightarrow> Packet option" where
  "Packet_chunk chunk ty = do { d \<leftarrow> AllocPacket 9 ty; d \<leftarrow> WriteUint32 d 5 chunk; Some (mk_packet ty 9 d) }"

definition Packet_bitset :: "BitSet \<Rightarrow> Packet option" where
  "Packet_bitset bs =
     do { let sz = add32 5 (bs_num_bytes bs);
          d \<leftarrow> AllocPacket sz BITFIELD;
          x \<leftarrow> mem_read (bs_data bs) 0 (bs_num_bytes bs);
          d \<leftarrow> memcpy_at d 5 x;
          Some (mk_packet BITFIELD sz d) }"

definition Packet_request :: "Request \<Rightarrow> u8 \<Rightarrow> Packet option" where
  "Packet_request r ty =
     do { d \<leftarrow> AllocPacket 17 ty;
          d \<leftarrow> WriteUint32 d 5 (rq_index r);
          d \<leftarrow> WriteUint32 d 9 (rq_off r);
          d \<leftarrow> WriteUint32 d 13 (rq_len r);
          Some (mk_packet ty 17 d) }"

text \<open>The result of \<open>readPiece\<close> is not looked at: on a failed read the payload stays as allocated.\<close>

definition Packet_piece :: "loader \<Rightarrow> u32w \<Rightarrow> u32w \<Rightarrow> u32w \<Rightarrow> Chunk \<Rightarrow> Packet option" where
  "Packet_piece load index begin' len ch =
     do { let sz = add32 13 (unat len);
          d \<leftarrow> AllocPacket sz PIECE;
          d \<leftarrow> WriteUint32 d 5 index;
          d \<leftarrow> WriteUint32 d 9 begin';
          (_, x) \<leftarrow> Chunk_readPiece load ch (unat begin') (unat len);
          d \<leftarrow> memcpy_at d 13 x;
          Some (mk_packet PIECE sz d) }"

definition Packet_ext :: "u8 \<Rightarrow> bytes \<Rightarrow> Packet option" where
  "Packet_ext ext_id ext_data =
     do { let sz = add32 6 (length ext_data);
          d \<leftarrow> AllocPacket sz EXTENDED;
          d \<leftarrow> memcpy_at d 5 [ext_id];
          d \<leftarrow> memcpy_at d 6 ext_data;
          Some (mk_packet EXTENDED sz d) }"

definition Packet_isSent :: "Packet \<Rightarrow> bool" where
  "Packet_isSent p \<longleftrightarrow> pkt_written p = pkt_size p"

definition Packet_sending :: "Packet \<Rightarrow> bool" where
  "Packet_sending p \<longleftrightarrow> pkt_written p > 0"

definition Packet_isPiece :: "Packet \<Rightarrow> Request \<Rightarrow> bool option" where
  "Packet_isPiece p r =
     do { t \<leftarrow> mem_read (pkt_data p) 4 1;
          if hd t = PIECE then
            do { i \<leftarrow> ReadUint32 (pkt_data p) 5;
                 if i \<noteq> rq_index r then Some False
                 else do { off \<leftarrow> ReadUint32 (pkt_data p) 9;
                           if off \<noteq> rq_off r then Some False
                           else Some (sub32 (pkt_size p) 13 = unat (rq_len r)) } }
          else Some False }"

definition makeRejectOfPiece :: "Packet \<Rightarrow> Packet option option" where
  \<comment> \<open>\<open>Some None\<close> is the null pointer returned for a packet that is not a piece\<close>
  "makeRejectOfPiece p =
     (if pkt_type p \<noteq> PIECE then Some None
      else do { idx \<leftarrow> ReadUint32 (pkt_data p) 5;
                off \<leftarrow> ReadUint32 (pkt_data p) 9;
                let len = word_of_nat (sub32 (pkt_size p) 13);
                q \<leftarrow> Packet_request (Request_new idx off len) REJECT_REQUEST;
                Some (Some q) })"

text \<open>
  \<open>send\<close> offers bytes to the socket device. The device is outside the program: \<open>dev\<close> gives
  the result of its \<open>send\<close> call as a function of everything it has accepted so far and the
  bytes offered. The documented contract is that it accepts at most what is offered.
\<close>

type_synonym device = "bytes \<Rightarrow> bytes \<Rightarrow> int"

definition device_ok :: "device \<Rightarrow> bool" where
  "device_ok dev \<longleftrightarrow> (\<forall>out x. dev out x \<le> int (length x))"

definition Packet_send :: "device \<Rightarrow> bytes \<Rightarrow> Packet \<Rightarrow> nat \<Rightarrow> (int \<times> bytes \<times> Packet) option" where
  "Packet_send dev out p max_to_send =
     (let bw = sub32 (pkt_size p) (pkt_written p) in
      if bw = 0 then Some (0, out, p)
      else
        let bw' = (if bw > max_to_send \<and> max_to_send > 0 then max_to_send else bw) in
        do { x \<leftarrow> mem_read (pkt_data p) (pkt_written p) bw';
             let ret = dev out x;
             Some (ret, out @ take (nat ret) x,
                   if ret > 0 then p\<lparr>pkt_written := add32 (pkt_written p) (nat ret)\<rparr> else p) })"

section \<open>Every packet is a frame\<close>

lemma AllocPacket_eq:
  assumes "5 \<le> sz" and "sz < 2 ^ 32"
  shows "AllocPacket sz ty = Some (be32 (word_of_nat (sz - 4)) @ [ty] @ replicate (sz - 5) 0)"
proof -
  have r: "replicate sz (0::u8) = [] @ replicate 4 0 @ (replicate 1 0 @ replicate (sz - 5) 0)"
    using assms(1) by (simp only: replicate_add[symmetric]) simp
  have "WriteUint32 (replicate sz 0) 0 (word_of_nat (sz - 4))
      = Some ([] @ be32 (word_of_nat (sz - 4)) @ (replicate 1 0 @ replicate (sz - 5) 0))"
    unfolding r WriteUint32_def by (rule memcpy_at_mid) simp_all
  moreover have "memcpy_at (be32 (word_of_nat (sz - 4)) @ replicate 1 0 @ replicate (sz - 5) 0) 4 [ty]
      = Some (be32 (word_of_nat (sz - 4)) @ [ty] @ replicate (sz - 5) 0)"
    by (rule memcpy_at_mid) simp_all
  moreover have "sub32 sz 4 = sz - 4" using assms by (intro sub32_id) auto
  ultimately show ?thesis by (simp add: AllocPacket_def)
qed

text \<open>A packet that holds a body: the length prefix, then the message type and the payload.\<close>

definition packet_of :: "u8 \<Rightarrow> bytes \<Rightarrow> Packet" where
  "packet_of ty payload = mk_packet ty (5 + length payload) (frame (ty # payload))"

lemma fill_packet:
  assumes "length payload < 2 ^ 32 - 5"
  shows "do { d \<leftarrow> AllocPacket (5 + length payload) ty; d \<leftarrow> memcpy_at d 5 payload;
              Some (mk_packet ty (5 + length payload) d) } = Some (packet_of ty payload)"
proof -
  have "memcpy_at ((be32 (word_of_nat (Suc (length payload))) @ [ty]) @ replicate (length payload) 0 @ []) 5 payload
     = Some ((be32 (word_of_nat (Suc (length payload))) @ [ty]) @ payload @ [])"
    by (rule memcpy_at_mid) simp_all
  then show ?thesis
    using assms by (simp add: AllocPacket_eq packet_of_def frame_def)
qed

lemma Packet_simple_frame: "Packet_simple ty = Some (packet_of ty [])"
  by (simp add: Packet_simple_def AllocPacket_eq packet_of_def frame_def)

lemma Packet_port_frame: "Packet_port port = Some (packet_of PORT (be16 port))"
  using fill_packet[of "be16 port" PORT] by (simp add: Packet_port_def WriteUint16_def)

lemma Packet_chunk_frame: "Packet_chunk c ty = Some (packet_of ty (be32 c))"
  using fill_packet[of "be32 c" ty] by (simp add: Packet_chunk_def WriteUint32_def)

lemma Packet_bitset_frame:
  assumes "bs_wf bs"
  shows "Packet_bitset bs = Some (packet_of BITFIELD (bs_data bs))"
proof -
  have l: "length (bs_data bs) = bs_num_bytes bs" "bs_num_bytes bs < 2 ^ 32 - 5"
    using assms numBytes_bounds(2)[of "bs_num_bits bs"] by (auto simp: bs_wf_def)
  then show ?thesis using fill_packet[of "bs_data bs" BITFIELD]
    by (simp add: Packet_bitset_def mem_simps add32_id)
qed

lemma Packet_request_frame:
  "Packet_request r ty = Some (packet_of ty (be32 (rq_index r) @ be32 (rq_off r) @ be32 (rq_len r)))"
proof -
  let ?i = "be32 (rq_index r)" and ?o = "be32 (rq_off r)" and ?l = "be32 (rq_len r)"
  let ?f = "\<lambda>d. Some (mk_packet ty 17 d)"
  have m: "memcpy_at d 5 ?i \<bind> (\<lambda>d. memcpy_at d 9 ?o \<bind> (\<lambda>d. memcpy_at d 13 ?l \<bind> ?f))
        = memcpy_at d 5 (?i @ ?o @ ?l) \<bind> ?f" if "length d = 17" for d
    using memcpy_seq[of d 5 ?i ?o "\<lambda>d. memcpy_at d 13 ?l \<bind> ?f"] memcpy_seq[of d 5 "?i @ ?o" ?l ?f] that
    by simp
  obtain d where d: "AllocPacket 17 ty = Some d" "length d = 17" by (simp add: AllocPacket_eq)
  show ?thesis using fill_packet[of "?i @ ?o @ ?l" ty] m[OF d(2)] d(1)
    by (simp add: Packet_request_def WriteUint32_def)
qed

lemma Packet_ext_frame:
  assumes "length x < 2 ^ 31"
  shows "Packet_ext ext_id x = Some (packet_of EXTENDED (ext_id # x))"
proof -
  let ?f = "\<lambda>d. Some (mk_packet EXTENDED (6 + length x) d)"
  obtain d where d: "AllocPacket (6 + length x) EXTENDED = Some d" "length d = 6 + length x"
    using assms by (simp add: AllocPacket_eq)
  have "memcpy_at d 5 [ext_id] \<bind> (\<lambda>d. memcpy_at d 6 x \<bind> ?f) = memcpy_at d 5 (ext_id # x) \<bind> ?f"
    using memcpy_seq[of d 5 "[ext_id]" x ?f] d(2) by simp
  then show ?thesis using fill_packet[of "ext_id # x" EXTENDED] assms d(1)
    by (simp add: Packet_ext_def add32_id)
qed

lemma PieceData_read_ok:
  "pd_ptr d = Some p \<Longrightarrow> len \<le> pd_len d \<Longrightarrow> pd_len d \<le> length p \<Longrightarrow> pd_len d < 2 ^ 32 \<Longrightarrow>
   PieceData_read d len 0 = Some (len, take len p)"
  by (simp add: PieceData_read_def add32_id mem_simps)

lemma Packet_piece_frame:
  assumes "unat len < 2 ^ 32 - 13" and "load ch (unat b) (unat len) = Some d" and "pd_ptr d = Some p"
    and "pd_len d = unat len" and "unat len \<le> length p"
  shows "Packet_piece load i b len ch = Some (packet_of PIECE (be32 i @ be32 b @ take (unat len) p))"
proof -
  let ?x = "take (unat len) p" and ?n = "13 + unat len"
  let ?f = "\<lambda>d. Some (mk_packet PIECE ?n d)"
  have r: "Chunk_readPiece load ch (unat b) (unat len) = Some (True, ?x)"
    using assms PieceData_read_ok[OF assms(3), of "unat len"] unsigned_less[of len]
    by (simp add: Chunk_readPiece_def pd_ok_def)
  have l: "length ?x = unat len" using assms(5) by (simp add: min_absorb2)
  have m: "memcpy_at e 5 (be32 i) \<bind> (\<lambda>e. memcpy_at e 9 (be32 b) \<bind> (\<lambda>e. memcpy_at e 13 ?x \<bind> ?f))
        = memcpy_at e 5 (be32 i @ be32 b @ ?x) \<bind> ?f" if "length e = ?n" for e
    using memcpy_seq[of e 5 "be32 i" "be32 b" "\<lambda>e. memcpy_at e 13 ?x \<bind> ?f"]
      memcpy_seq[of e 5 "be32 i @ be32 b" ?x ?f] that l by simp
  obtain e where e: "AllocPacket ?n PIECE = Some e" "length e = ?n"
    using assms(1) by (simp add: AllocPacket_eq)
  have "add32 13 (unat len) = ?n" using assms(1) by (intro add32_id) auto
  then show ?thesis using fill_packet[of "be32 i @ be32 b @ ?x" PIECE] m[OF e(2)] e(1) r l assms(1)
    by (simp add: Packet_piece_def WriteUint32_def)
qed

lemma wrap32: "2 ^ 32 \<le> a \<Longrightarrow> a < 2 * 2 ^ 32 \<Longrightarrow> a mod 2 ^ 32 = a - (2 ^ 32 :: nat)"
  by (simp add: le_mod_geq)

lemma Packet_piece_overflow:
  assumes "unat len \<ge> 2 ^ 32 - 8"
  shows "Packet_piece load i b len ch = None"
proof -
  let ?n = "add32 13 (unat len)"
  have u: "unat len < 2 ^ 32" using unsigned_less[of len] by simp
  have "?n = 13 + unat len - 2 ^ 32" unfolding add32_def using assms u by (intro wrap32) simp_all
  then have n: "5 \<le> ?n" "?n < 13" using assms u by linarith+
  obtain e where e: "AllocPacket ?n PIECE = Some e" "length e = ?n"
    using n AllocPacket_eq[of ?n PIECE] by simp
  have "WriteUint32 e 5 i \<bind> (\<lambda>d. WriteUint32 d 9 b \<bind> g) = None" for g :: "bytes \<Rightarrow> Packet option"
  proof (cases "WriteUint32 e 5 i")
    case (Some d)
    then have "length d = ?n" using int32.wr_length e(2) by simp
    then have "WriteUint32 d 9 b = None" using n(2) int32.wr_Some_iff[of d 9 b] by auto
    then show ?thesis using Some by simp
  qed simp
  then show ?thesis using e(1) by (simp add: Packet_piece_def)
qed

lemma frame_fields:
  assumes "length h = 4" "length x = 4" "length y = 4"
  shows "mem_read (h @ ty # x @ y @ z) 4 1 = Some [ty]" "mem_read (h @ ty # x @ y @ z) 5 4 = Some x"
    "mem_read (h @ ty # x @ y @ z) 9 4 = Some y"
  using assms by (simp_all add: mem_read_def)

lemma read_piece_fields:
  "ReadUint32 (pkt_data (packet_of PIECE (be32 i @ be32 b @ x))) 5 = Some i"
  "ReadUint32 (pkt_data (packet_of PIECE (be32 i @ be32 b @ x))) 9 = Some b"
  "mem_read (pkt_data (packet_of PIECE (be32 i @ be32 b @ x))) 4 1 = Some [PIECE]"
  by (auto simp: packet_of_def mk_packet_def frame_def frame_fields simp del: One_nat_def intro!: ReadUint32_enc)

lemma piece_size:
  "length x < 2 ^ 32 - 13 \<Longrightarrow> sub32 (pkt_size (packet_of PIECE (be32 i @ be32 b @ x))) 13 = length x"
  by (simp add: packet_of_def mk_packet_def sub32_id)

section \<open>Sending a packet\<close>

definition pkt_ok :: "Packet \<Rightarrow> bool" where
  "pkt_ok p \<longleftrightarrow> length (pkt_data p) = pkt_size p \<and> pkt_size p < 2 ^ 32 \<and> pkt_written p \<le> pkt_size p \<and> 0 < pkt_size p"

lemma packet_of_ok: "length x < 2 ^ 32 - 5 \<Longrightarrow> pkt_ok (packet_of ty x)"
  by (simp add: pkt_ok_def packet_of_def mk_packet_def frame_def)

lemma Packet_send_law:
  assumes "pkt_ok p" and "device_ok dev"
  shows "\<exists>ret out' p'. Packet_send dev out p m = Some (ret, out', p')
     \<and> out' = out @ take (nat ret) (drop (pkt_written p) (pkt_data p)) \<and> pkt_ok p'
     \<and> p' = p\<lparr>pkt_written := pkt_written p + nat ret\<rparr> \<and> (m > 0 \<longrightarrow> ret \<le> int m)
     \<and> pkt_written p + nat ret \<le> pkt_size p"
proof (cases "pkt_written p = pkt_size p")
  case True
  then show ?thesis using assms by (auto simp: Packet_send_def pkt_ok_def sub32_id)
next
  case False
  let ?bw = "pkt_size p - pkt_written p"
  define k where "k = (if ?bw > m \<and> m > 0 then m else ?bw)"
  have p: "length (pkt_data p) = pkt_size p" "pkt_written p < pkt_size p" "pkt_size p < 2 ^ 32"
    using assms(1) False by (auto simp: pkt_ok_def)
  have k: "0 < k" "pkt_written p + k \<le> pkt_size p" "m > 0 \<longrightarrow> k \<le> m" using p by (auto simp: k_def)
  have sub: "sub32 (pkt_size p) (pkt_written p) = ?bw" using p by (intro sub32_id) auto
  let ?x = "take k (drop (pkt_written p) (pkt_data p))"
  let ?ret = "dev out ?x"
  have "length ?x = k" using k p by (simp add: min_absorb2)
  then have ret: "?ret \<le> int k" using assms(2) unfolding device_ok_def by metis
  then have w: "add32 (pkt_written p) (nat ?ret) = pkt_written p + nat ?ret"
    using k p by (intro add32_id) linarith
  have t: "take (nat ?ret) ?x = take (nat ?ret) (drop (pkt_written p) (pkt_data p))"
    using ret by (simp add: min_def)
  have "Packet_send dev out p m = Some (?ret, out @ take (nat ?ret) ?x,
          if ?ret > 0 then p\<lparr>pkt_written := add32 (pkt_written p) (nat ?ret)\<rparr> else p)"
    using k p by (simp add: Packet_send_def sub Let_def mem_simps k_def[symmetric])
  moreover have "(if ?ret > 0 then p\<lparr>pkt_written := add32 (pkt_written p) (nat ?ret)\<rparr> else p)
      = p\<lparr>pkt_written := pkt_written p + nat ?ret\<rparr>" by (simp add: w)
  moreover have "pkt_written p + nat ?ret \<le> pkt_size p" using ret k by linarith
  ultimately show ?thesis using t ret k assms(1) by (auto simp: pkt_ok_def)
qed

section \<open>Properties\<close>

text \<open>
  Every message constructor that does not carry chunk data succeeds and produces a well-formed
  frame: the big-endian length of what follows, the message type, then the fields in the order
  the protocol wants.
\<close>

theorem Packet_constructors_frame:
  assumes "bs_wf bs" and "length x < 2 ^ 31"
  shows "Packet_simple ty = Some (packet_of ty [])
       \<and> Packet_port port = Some (packet_of PORT (be16 port))
       \<and> Packet_chunk c ty = Some (packet_of ty (be32 c))
       \<and> Packet_bitset bs = Some (packet_of BITFIELD (bs_data bs))
       \<and> Packet_request r ty = Some (packet_of ty (be32 (rq_index r) @ be32 (rq_off r) @ be32 (rq_len r)))
       \<and> Packet_ext e x = Some (packet_of EXTENDED (e # x))
       \<and> pkt_data (packet_of ty x) = be32 (word_of_nat (Suc (length x))) @ ty # x"
  using assms
  by (simp add: Packet_simple_frame Packet_port_frame Packet_chunk_frame Packet_bitset_frame
      Packet_request_frame Packet_ext_frame) (simp add: packet_of_def mk_packet_def frame_def)

theorem Packet_constructors_frame_witness:
  "Packet_bitset (BitSet_new 10) = Some (packet_of BITFIELD [0, 0]) \<and> Packet_ext 1 [2] = Some (packet_of EXTENDED [1, 2])"
proof -
  have "bs_data (BitSet_new 10) = [0, 0]" by (simp add: BitSet_new_def numBytes_def)
  then show ?thesis
    using Packet_constructors_frame[of "BitSet_new 10" "[2]" CHOKE 0 0 "Request_new 0 0 0" 1] by simp
qed

text \<open>
  A piece whose data the cache delivers becomes a frame with the index, the offset and exactly
  those bytes; \<open>isPiece\<close> recognises it for the request it answers and for no other, and
  \<open>makeRejectOfPiece\<close> turns it into the rejection of that request.
\<close>

theorem Packet_piece_correct:
  assumes "unat len < 2 ^ 32 - 13" and "load ch (unat b) (unat len) = Some d" and "pd_ptr d = Some p"
    and "pd_len d = unat len" and "unat len \<le> length p"
  shows "\<exists>pkt. Packet_piece load i b len ch = Some pkt
           \<and> pkt_data pkt = frame (PIECE # be32 i @ be32 b @ take (unat len) p)
           \<and> (\<forall>r. Packet_isPiece pkt r = Some (r = Request_new i b len))
           \<and> makeRejectOfPiece pkt = Some (Packet_request (Request_new i b len) REJECT_REQUEST)"
proof -
  let ?x = "take (unat len) p"
  let ?p = "packet_of PIECE (be32 i @ be32 b @ ?x)"
  have l: "length ?x = unat len" using assms(5) by (simp add: min_absorb2)
  have sz: "sub32 (pkt_size ?p) 13 = unat len" using piece_size[of ?x i b] l assms(1) by simp
  have ty: "pkt_type ?p = PIECE" by (simp add: packet_of_def mk_packet_def)
  have "Packet_isPiece ?p r = Some (r = Request_new i b len)" for r
    using read_piece_fields[of i b ?x] sz
    by (cases r) (auto simp: Packet_isPiece_def Request_new_def word_unat_eq_iff)
  moreover have "makeRejectOfPiece ?p = Some (Packet_request (Request_new i b len) REJECT_REQUEST)"
    using read_piece_fields[of i b ?x] sz ty by (simp add: makeRejectOfPiece_def Packet_request_frame)
  moreover have "pkt_data ?p = frame (PIECE # be32 i @ be32 b @ ?x)" by (simp add: packet_of_def mk_packet_def)
  ultimately show ?thesis using Packet_piece_frame assms by blast
qed

theorem Packet_piece_correct_witness:
  "\<exists>pkt. Packet_piece (\<lambda>_ _ _. Some \<lparr>pd_len = 2, pd_ptr = Some [8, 9], pd_read_only = True\<rparr>) 3 16 2 (Chunk_new 3 64) = Some pkt
     \<and> pkt_data pkt = frame (PIECE # be32 3 @ be32 16 @ [8, 9])"
  using Packet_piece_correct[of 2 "\<lambda>_ _ _. Some \<lparr>pd_len = 2, pd_ptr = Some [8, 9], pd_read_only = True\<rparr>" "Chunk_new 3 64" 16
      "\<lparr>pd_len = 2, pd_ptr = Some [8, 9], pd_read_only = True\<rparr>" "[8, 9]" 3]
  by auto

text \<open>
  The size of a piece packet is computed in 32 bits. For a length within eight of the top of
  the range the allocation is too small for the header and the constructor writes outside it,
  whatever the chunk holds.
\<close>

theorem Packet_piece_size_wraps:
  assumes "unat len \<ge> 2 ^ 32 - 8"
  shows "Packet_piece load i b len ch = None"
  using assms by (rule Packet_piece_overflow)

theorem Packet_piece_size_wraps_witness:
  "Packet_piece (\<lambda>_ _ _. None) 0 1 0xFFFFFFFF (Chunk_new 0 64) = None"
  by (rule Packet_piece_size_wraps) simp

end
