(* ===== verification/Packet_Socket.thy ===== *)
theory Packet_Socket
  imports Wire_Packet "HOL-Library.Multiset"
begin

text \<open>
  The class \<open>PacketSocket\<close> of \<open>src/net/packetsocket.cpp\<close>: the outgoing queues of one peer
  connection. Control messages and pieces are queued apart; the upload thread calls \<open>write\<close>,
  the main thread queues, clears and cancels packets.

  The C++ lists hold shared pointers, and \<open>curr_packet\<close> aliases the packet at the front of one
  of them. The model makes the sharing explicit: \<open>ps_store\<close> holds every packet object, and
  queues and \<open>curr_packet\<close> hold its index (the pointer). The upload speed statistics that
  \<open>write\<close> also feeds are not part of this state.
\<close>

section \<open>State and operations\<close>

record PacketSocket =
  ps_store :: "Packet list"
  ps_control :: "nat list"
  ps_data :: "nat list"
  ps_curr :: "nat option"
  ps_ctrl_sent :: nat
  ps_uploaded :: nat

definition PacketSocket_new :: PacketSocket where
  "PacketSocket_new = \<lparr>ps_store = [], ps_control = [], ps_data = [], ps_curr = None,
                       ps_ctrl_sent = 0, ps_uploaded = 0\<rparr>"

definition selectPacket :: "PacketSocket \<Rightarrow> nat option \<times> PacketSocket" where
  "selectPacket s =
     (if ps_ctrl_sent s < 3 then
        case ps_control s of
          c # _ \<Rightarrow> (Some c, s)
        | [] \<Rightarrow> (case ps_data s of d # _ \<Rightarrow> (Some d, s) | [] \<Rightarrow> (None, s))
      else
        case ps_data s of
          d # _ \<Rightarrow> (Some d, s\<lparr>ps_ctrl_sent := 0\<rparr>)
        | [] \<Rightarrow> (case ps_control s of c # _ \<Rightarrow> (Some c, s) | [] \<Rightarrow> (None, s)))"

definition addPacket :: "PacketSocket \<Rightarrow> Packet \<Rightarrow> PacketSocket" where
  "addPacket s p =
     (let i = length (ps_store s); s' = s\<lparr>ps_store := ps_store s @ [p]\<rparr> in
      if pkt_type p = PIECE then s'\<lparr>ps_data := ps_data s @ [i]\<rparr>
      else s'\<lparr>ps_control := ps_control s @ [i]\<rparr>)"

definition bytesReadyToWrite :: "PacketSocket \<Rightarrow> bool" where
  "bytesReadyToWrite s \<longleftrightarrow> ps_data s \<noteq> [] \<or> ps_control s \<noteq> []"

definition dataBytesUploaded :: "PacketSocket \<Rightarrow> nat \<times> PacketSocket" where
  "dataBytesUploaded s = (ps_uploaded s, s\<lparr>ps_uploaded := 0\<rparr>)"

definition numPendingPieceUploads :: "PacketSocket \<Rightarrow> nat" where
  "numPendingPieceUploads s = length (ps_data s)"

text \<open>\<open>curr_packet = selectPacket ()\<close>, which \<open>write\<close> does at its start and after every packet.\<close>

definition selectNext :: "PacketSocket \<Rightarrow> PacketSocket" where
  "selectNext s = (let (c, s') = selectPacket s in s'\<lparr>ps_curr := c\<rparr>)"

text \<open>What \<open>write\<close> does with the packet it has just finished: remove it, choose the next.\<close>

definition finishPacket :: "PacketSocket \<Rightarrow> Packet \<Rightarrow> PacketSocket" where
  "finishPacket s p =
     selectNext
       (if pkt_type p = PIECE then s\<lparr>ps_data := tl (ps_data s), ps_ctrl_sent := 0\<rparr>
        else s\<lparr>ps_control := tl (ps_control s), ps_ctrl_sent := add32 (ps_ctrl_sent s) 1\<rparr>)"

partial_function (option) write_loop ::
  "device \<Rightarrow> nat \<Rightarrow> bytes \<Rightarrow> PacketSocket \<Rightarrow> nat \<Rightarrow> (nat \<times> bytes \<times> PacketSocket) option" where
  "write_loop dev mx out s written =
     (case ps_curr s of
        None \<Rightarrow> Some (written, out, s)
      | Some c \<Rightarrow>
          if written < mx \<or> mx = 0 then
            do { (ret, out', p) \<leftarrow> Packet_send dev out (ps_store s ! c) (if mx = 0 then 0 else sub32 mx written);
                 if ret > 0 then
                   (let w = add32 written (nat ret);
                        s1 = s\<lparr>ps_store := (ps_store s)[c := p],
                               ps_uploaded := (if pkt_type p = PIECE then add32 (ps_uploaded s) (nat ret)
                                               else ps_uploaded s)\<rparr>
                    in if Packet_isSent p then write_loop dev mx out' (finishPacket s1 p) w
                       else Some (w, out', s1))
                 else Some (written, out', s) }
          else Some (written, out, s))"

definition PacketSocket_write ::
  "device \<Rightarrow> bool \<Rightarrow> nat \<Rightarrow> bytes \<Rightarrow> PacketSocket \<Rightarrow> (nat \<times> bytes \<times> PacketSocket) option" where
  \<comment> \<open>\<open>connecting\<close>: the device is still connecting and its connect has not succeeded\<close>
  "PacketSocket_write dev connecting mx out s =
     (if connecting then Some (0, out, s)
      else write_loop dev mx out
             (case ps_curr s of None \<Rightarrow> selectNext s | Some _ \<Rightarrow> s) 0)"

fun clear_loop :: "bool \<Rightarrow> nat list \<Rightarrow> PacketSocket \<Rightarrow> PacketSocket option" where
  "clear_loop reject [] s = Some s"
| "clear_loop reject (i # is) s =
     (let p = ps_store s ! i in
      if pkt_type p = PIECE \<and> \<not> Packet_sending p \<and> ps_curr s \<noteq> Some i then
        do { s' \<leftarrow> (if reject then
                      do { q \<leftarrow> makeRejectOfPiece p; q' \<leftarrow> q; Some (addPacket s q') }
                    else Some s);
             clear_loop reject is (s'\<lparr>ps_data := remove1 i (ps_data s')\<rparr>) }
      else clear_loop reject is s)"

definition clearPieces :: "PacketSocket \<Rightarrow> bool \<Rightarrow> PacketSocket option" where
  "clearPieces s reject = clear_loop reject (ps_data s) s"

fun cancel_loop :: "Request \<Rightarrow> bool \<Rightarrow> nat list \<Rightarrow> PacketSocket \<Rightarrow> PacketSocket option" where
  "cancel_loop req reject [] s = Some s"
| "cancel_loop req reject (i # is) s =
     (let p = ps_store s ! i in
      do { m \<leftarrow> Packet_isPiece p req;
           if m \<and> \<not> Packet_sending p \<and> ps_curr s \<noteq> Some i then
             do { let s1 = s\<lparr>ps_data := remove1 i (ps_data s)\<rparr>;
                  s2 \<leftarrow> (if reject then
                          do { q \<leftarrow> makeRejectOfPiece p; q' \<leftarrow> q; Some (addPacket s1 q') }
                        else Some s1);
                  cancel_loop req reject is s2 }
           else cancel_loop req reject is s })"

definition doNotSendPiece :: "PacketSocket \<Rightarrow> Request \<Rightarrow> bool \<Rightarrow> PacketSocket option" where
  "doNotSendPiece s req reject = cancel_loop req reject (ps_data s) s"

section \<open>Invariant\<close>

definition queued :: "PacketSocket \<Rightarrow> nat list" where
  "queued s = ps_control s @ ps_data s"

definition ps_wf :: "PacketSocket \<Rightarrow> bool" where
  "ps_wf s \<longleftrightarrow> distinct (queued s) \<and> (\<forall>i \<in> set (queued s). i < length (ps_store s))
     \<and> (\<forall>p \<in> set (ps_store s). pkt_ok p)
     \<and> (\<forall>i \<in> set (ps_control s). pkt_type (ps_store s ! i) \<noteq> PIECE)
     \<and> (\<forall>i \<in> set (ps_data s). pkt_type (ps_store s ! i) = PIECE \<and> 13 \<le> pkt_size (ps_store s ! i))"


text \<open>At most the current packet has been sent in part, and it is the front of its queue.\<close>

definition idle :: "PacketSocket \<Rightarrow> bool" where
  "idle s \<longleftrightarrow> ps_wf s \<and> (\<forall>i \<in> set (queued s). pkt_written (ps_store s ! i) = 0)"

definition is_front :: "PacketSocket \<Rightarrow> nat \<Rightarrow> bool" where
  "is_front s c \<longleftrightarrow> (\<exists>cs. ps_control s = c # cs) \<or> (\<exists>ds. ps_data s = c # ds)"

definition ps_inv :: "PacketSocket \<Rightarrow> bool" where
  "ps_inv s \<longleftrightarrow> ps_wf s
     \<and> (\<forall>i \<in> set (queued s). ps_curr s \<noteq> Some i \<longrightarrow> pkt_written (ps_store s ! i) = 0)
     \<and> (\<forall>c. ps_curr s = Some c \<longrightarrow> is_front s c \<and> \<not> Packet_isSent (ps_store s ! c))"

text \<open>The part of the current packet that is already on the wire.\<close>

definition partial_out :: "PacketSocket \<Rightarrow> bytes" where
  "partial_out s = (case ps_curr s of None \<Rightarrow> []
     | Some c \<Rightarrow> take (pkt_written (ps_store s ! c)) (pkt_data (ps_store s ! c)))"

section \<open>The transmission order\<close>

text \<open>
  The order in which two waiting queues leave: three control packets, then one piece, until one
  of them is empty. \<open>n\<close> counts the control packets since the last piece.
\<close>

fun sched :: "nat \<Rightarrow> 'a list \<Rightarrow> 'a list \<Rightarrow> 'a list" where
  "sched n [] ds = ds"
| "sched n (c # cs) [] = c # cs"
| "sched n (c # cs) (d # ds) =
     (if n < 3 then c # sched (Suc n) cs (d # ds) else d # sched 0 (c # cs) ds)"

lemma sched_no_data [simp]: "sched n cs [] = cs"
  by (cases cs) auto

lemma sched_mset: "mset (sched n cs ds) = mset cs + mset ds"
  by (induction n cs ds rule: sched.induct) auto

lemma sched_length [simp]: "length (sched n cs ds) = length cs + length ds"
  by (induction n cs ds rule: sched.induct) auto

lemma sched_piece_position:
  assumes "n \<le> 3" and "k < length ds"
  shows "sched n cs ds ! (k + min (length cs) (3 * (k + 1) - n)) = ds ! k"
  using assms
proof (induction n cs ds arbitrary: k rule: sched.induct)
  case (3 n c cs d ds)
  show ?case
  proof (cases "n < 3")
    case True
    have "k + min (length (c # cs)) (3 * (k + 1) - n) = Suc (k + min (length cs) (3 * (k + 1) - Suc n))"
      using True by auto
    then show ?thesis using 3(1)[OF True, of k] 3(4) True by simp
  next
    case False
    then have n: "n = 3" using 3(3) by simp
    show ?thesis
    proof (cases k)
      case 0
      then show ?thesis using n by simp
    next
      case (Suc j)
      have "k + min (length (c # cs)) (3 * (k + 1) - n) = Suc (j + min (length (c # cs)) (3 * (j + 1) - 0))"
        using n Suc by simp
      then show ?thesis using 3(2)[OF False, of j] 3(4) Suc n by simp
    qed
  qed
qed auto

text \<open>The order in which the packets of a socket will leave, the current one first.\<close>

definition order :: "PacketSocket \<Rightarrow> nat list" where
  "order s =
     (case ps_curr s of
        None \<Rightarrow> sched (ps_ctrl_sent s) (ps_control s) (ps_data s)
      | Some c \<Rightarrow> c # (if pkt_type (ps_store s ! c) = PIECE then sched 0 (ps_control s) (tl (ps_data s))
                      else sched (add32 (ps_ctrl_sent s) 1) (tl (ps_control s)) (ps_data s)))"

text \<open>
  \<open>wire_step\<close> relates the bytes put on the wire to whole packets: what was begun is finished, then
  the packets \<open>ids\<close> follow in the transmission order, and the last one may be begun.
\<close>

definition wire_step :: "PacketSocket \<Rightarrow> bytes \<Rightarrow> nat list \<Rightarrow> PacketSocket \<Rightarrow> bool" where
  "wire_step s new ids s' \<longleftrightarrow>
     partial_out s @ new = concat (map (\<lambda>i. pkt_data (ps_store s ! i)) ids) @ partial_out s'
     \<and> order s = ids @ order s'
     \<and> map pkt_data (ps_store s') = map pkt_data (ps_store s)
     \<and> map pkt_type (ps_store s') = map pkt_type (ps_store s)"

section \<open>Selecting a packet\<close>

lemma selectPacket_state: "\<exists>k. snd (selectPacket s) = s\<lparr>ps_ctrl_sent := k\<rparr>"
proof -
  have "snd (selectPacket s) = s\<lparr>ps_ctrl_sent := ps_ctrl_sent s\<rparr> \<or> snd (selectPacket s) = s\<lparr>ps_ctrl_sent := 0\<rparr>"
    by (auto simp: selectPacket_def split: list.splits)
  then show ?thesis by blast
qed

lemma selectPacket_front:
  "fst (selectPacket s) = Some c \<Longrightarrow> is_front s c"
  "fst (selectPacket s) = None \<longleftrightarrow> queued s = []"
  by (auto simp: selectPacket_def is_front_def queued_def split: list.splits if_splits)

lemma selectNext_fields [simp]:
  "ps_store (selectNext s) = ps_store s" "ps_control (selectNext s) = ps_control s"
  "ps_data (selectNext s) = ps_data s" "ps_uploaded (selectNext s) = ps_uploaded s"
  "ps_curr (selectNext s) = fst (selectPacket s)" "queued (selectNext s) = queued s"
  using selectPacket_state[of s] by (auto simp: selectNext_def case_prod_beta queued_def)

lemma is_front_queued: "is_front s c \<Longrightarrow> c \<in> set (queued s)"
  by (auto simp: is_front_def queued_def)

lemma selectNext_inv:
  assumes "idle s"
  shows "ps_inv (selectNext s)" and "partial_out (selectNext s) = []"
proof -
  have wf: "ps_wf (selectNext s) = ps_wf s" by (simp add: ps_wf_def)
  have fr: "is_front (selectNext s) c = is_front s c" for c by (simp add: is_front_def)
  have q: "c < length (ps_store s)" "pkt_ok (ps_store s ! c)" "pkt_written (ps_store s ! c) = 0" if "is_front s c" for c
    using is_front_queued[OF that] assms by (auto simp: idle_def ps_wf_def)
  show "ps_inv (selectNext s)" using assms selectPacket_front(1)[of s] q
    by (auto simp: ps_inv_def idle_def wf fr Packet_isSent_def pkt_ok_def)
  show "partial_out (selectNext s) = []" using selectPacket_front(1)[of s] q
    by (auto simp: partial_out_def split: option.splits)
qed

lemma selectNext_order:
  assumes "ps_wf s" and "ps_curr s = None"
  shows "order (selectNext s) = order s"
proof -
  have c: "pkt_type (ps_store s ! hd (ps_control s)) \<noteq> PIECE" if "ps_control s \<noteq> []"
    using that assms(1) by (auto simp: ps_wf_def)
  have d: "pkt_type (ps_store s ! hd (ps_data s)) = PIECE" if "ps_data s \<noteq> []"
    using that assms(1) by (auto simp: ps_wf_def)
  show ?thesis using c d assms(2)
    by (auto simp: order_def selectNext_def selectPacket_def add32_def u32_def split: list.splits)
qed

section \<open>Writing\<close>

text \<open>One call of \<open>send\<close> on the current packet, and the bookkeeping of \<open>write\<close> around it.\<close>

definition sent_part :: "PacketSocket \<Rightarrow> nat \<Rightarrow> nat \<Rightarrow> PacketSocket" where
  "sent_part s c k =
     (let p = (ps_store s ! c)\<lparr>pkt_written := pkt_written (ps_store s ! c) + k\<rparr>
      in s\<lparr>ps_store := (ps_store s)[c := p],
           ps_uploaded := (if pkt_type p = PIECE then add32 (ps_uploaded s) k else ps_uploaded s)\<rparr>)"

lemma ps_inv_curr:
  assumes "ps_inv s" and "ps_curr s = Some c"
  shows "c < length (ps_store s)" "pkt_ok (ps_store s ! c)" "c \<in> set (queued s)"
    "pkt_written (ps_store s ! c) < pkt_size (ps_store s ! c)" "is_front s c"
proof -
  have f: "is_front s c" "\<not> Packet_isSent (ps_store s ! c)" using assms by (auto simp: ps_inv_def)
  then show q: "is_front s c" "c \<in> set (queued s)" by (auto intro: is_front_queued)
  then show "c < length (ps_store s)" using assms(1) by (auto simp: ps_inv_def ps_wf_def)
  then show "pkt_ok (ps_store s ! c)" using assms(1) by (auto simp: ps_inv_def ps_wf_def)
  then show "pkt_written (ps_store s ! c) < pkt_size (ps_store s ! c)"
    using f(2) by (auto simp: pkt_ok_def Packet_isSent_def)
qed

lemma sent_part_fields [simp]:
  "ps_control (sent_part s c k) = ps_control s" "ps_data (sent_part s c k) = ps_data s"
  "ps_curr (sent_part s c k) = ps_curr s" "ps_ctrl_sent (sent_part s c k) = ps_ctrl_sent s"
  "queued (sent_part s c k) = queued s" "length (ps_store (sent_part s c k)) = length (ps_store s)"
  by (simp_all add: sent_part_def Let_def queued_def)

lemma sent_part_store:
  assumes "c < length (ps_store s)"
  shows "ps_store (sent_part s c k) ! i =
      (if i = c then (ps_store s ! c)\<lparr>pkt_written := pkt_written (ps_store s ! c) + k\<rparr> else ps_store s ! i)"
    and "map pkt_data (ps_store (sent_part s c k)) = map pkt_data (ps_store s)"
    and "map pkt_type (ps_store (sent_part s c k)) = map pkt_type (ps_store s)"
  using assms by (auto simp: sent_part_def Let_def map_update list_update_same_conv)

lemma sent_part_wf:
  assumes "ps_wf s" and "c < length (ps_store s)"
    and "pkt_written (ps_store s ! c) + k \<le> pkt_size (ps_store s ! c)"
  shows "ps_wf (sent_part s c k)"
proof -
  have "pkt_ok p" if "p \<in> set (ps_store (sent_part s c k))" for p
  proof -
    obtain i where "i < length (ps_store s)" "p = ps_store (sent_part s c k) ! i"
      using \<open>p \<in> set (ps_store (sent_part s c k))\<close> by (auto simp: in_set_conv_nth)
    moreover have "pkt_ok (ps_store s ! i)" using assms(1) \<open>i < length (ps_store s)\<close> by (auto simp: ps_wf_def)
    moreover have "pkt_ok (ps_store s ! c)" using assms(1,2) by (auto simp: ps_wf_def)
    ultimately show ?thesis using assms(3) by (auto simp: sent_part_store(1)[OF assms(2)] pkt_ok_def)
  qed
  then show ?thesis using assms(1) by (auto simp: ps_wf_def sent_part_store(1)[OF assms(2)])
qed

lemma sent_part_order: "c < length (ps_store s) \<Longrightarrow> order (sent_part s c k) = order s"
  by (auto simp: order_def sent_part_store(1) split: option.splits)

lemma sent_part_out:
  assumes "ps_inv s" and "ps_curr s = Some c"
  shows "partial_out (sent_part s c k)
       = partial_out s @ take k (drop (pkt_written (ps_store s ! c)) (pkt_data (ps_store s ! c)))"
  using ps_inv_curr(1)[OF assms] assms(2) by (simp add: partial_out_def sent_part_store(1) take_add)

text \<open>The packet is not finished: the loop stops and the invariant holds.\<close>

lemma sent_part_inv:
  assumes "ps_inv s" and "ps_curr s = Some c"
    and "pkt_written (ps_store s ! c) + k < pkt_size (ps_store s ! c)"
  shows "ps_inv (sent_part s c k)"
proof -
  note l = ps_inv_curr[OF assms(1,2)]
  have "is_front (sent_part s c k) c" using l(5) by (simp add: is_front_def)
  moreover have "ps_wf (sent_part s c k)" using assms l(1) by (intro sent_part_wf) (auto simp: ps_inv_def)
  ultimately show ?thesis using assms l
    by (auto simp: ps_inv_def sent_part_store(1) Packet_isSent_def)
qed

text \<open>The packet is finished: it leaves the front of its queue and another is chosen.\<close>

definition popped :: "PacketSocket \<Rightarrow> Packet \<Rightarrow> PacketSocket" where
  "popped s p = (if pkt_type p = PIECE then s\<lparr>ps_data := tl (ps_data s), ps_ctrl_sent := 0\<rparr>
     else s\<lparr>ps_control := tl (ps_control s), ps_ctrl_sent := add32 (ps_ctrl_sent s) 1\<rparr>)"

lemma finishPacket_popped: "finishPacket s p = selectNext (popped s p)"
  by (simp add: finishPacket_def popped_def)

lemma is_front_cases:
  assumes "ps_wf s" and "is_front s c"
  obtains ds where "pkt_type (ps_store s ! c) = PIECE" "ps_data s = c # ds"
  | cs where "pkt_type (ps_store s ! c) \<noteq> PIECE" "ps_control s = c # cs"
  using assms by (auto simp: is_front_def ps_wf_def)

lemma popped_idle:
  assumes "ps_wf s" and "is_front s c" and "ps_curr s = Some c"
    and "\<forall>i \<in> set (queued s). i \<noteq> c \<longrightarrow> pkt_written (ps_store s ! i) = 0"
  shows "idle (popped s (ps_store s ! c))"
    and "order s = c # order ((popped s (ps_store s ! c))\<lparr>ps_curr := None\<rparr>)"
    and "length (queued s) = Suc (length (queued (popped s (ps_store s ! c))))"
proof -
  show "idle (popped s (ps_store s ! c))" using assms(1,2)
  proof (cases rule: is_front_cases)
    case (1 ds)
    then show ?thesis using assms by (auto simp: idle_def popped_def ps_wf_def queued_def)
  next
    case (2 cs)
    then show ?thesis using assms by (auto simp: idle_def popped_def ps_wf_def queued_def)
  qed
  show "order s = c # order ((popped s (ps_store s ! c))\<lparr>ps_curr := None\<rparr>)"
    using assms(3) by (simp add: order_def popped_def)
  show "length (queued s) = Suc (length (queued (popped s (ps_store s ! c))))" using assms(1,2)
    by (cases rule: is_front_cases) (auto simp: popped_def queued_def)
qed

lemma selectNext_curr_irrelevant: "selectNext (s\<lparr>ps_curr := x\<rparr>) = selectNext s"
  by (auto simp: selectNext_def selectPacket_def split: list.splits)

lemma finishPacket_law:
  assumes "ps_wf s" and "is_front s c" and "ps_curr s = Some c"
    and "\<forall>i \<in> set (queued s). i \<noteq> c \<longrightarrow> pkt_written (ps_store s ! i) = 0"
  shows "ps_inv (finishPacket s (ps_store s ! c))" and "order s = c # order (finishPacket s (ps_store s ! c))"
    and "partial_out (finishPacket s (ps_store s ! c)) = []"
    and "length (queued (finishPacket s (ps_store s ! c))) < length (queued s)"
    and "ps_store (finishPacket s (ps_store s ! c)) = ps_store s"
proof -
  let ?n = "(popped s (ps_store s ! c))\<lparr>ps_curr := None\<rparr>"
  note p = popped_idle[OF assms]
  have "ps_wf ?n" using p(1) by (simp add: idle_def ps_wf_def queued_def)
  then have "order (selectNext ?n) = order ?n" by (rule selectNext_order) simp
  then show "order s = c # order (finishPacket s (ps_store s ! c))"
    using p(2) by (simp add: finishPacket_popped selectNext_curr_irrelevant)
  show "ps_inv (finishPacket s (ps_store s ! c))" "partial_out (finishPacket s (ps_store s ! c)) = []"
    using selectNext_inv[OF p(1)] by (simp_all add: finishPacket_popped)
  show "length (queued (finishPacket s (ps_store s ! c))) < length (queued s)"
    "ps_store (finishPacket s (ps_store s ! c)) = ps_store s"
    using p(3) by (simp_all add: finishPacket_popped popped_def)
qed

lemma wire_step_refl: "wire_step s [] [] s"
  by (simp add: wire_step_def)

lemma wire_step_part:
  assumes "ps_inv s" and "ps_curr s = Some c"
  shows "wire_step s (take k (drop (pkt_written (ps_store s ! c)) (pkt_data (ps_store s ! c)))) [] (sent_part s c k)"
  using sent_part_out[OF assms] sent_part_order sent_part_store(2,3) ps_inv_curr(1)[OF assms]
  by (simp add: wire_step_def)

lemma wire_step_trans:
  assumes "wire_step s a ids s'" and "wire_step s' b ids' s''"
    and "\<forall>i \<in> set ids'. i < length (ps_store s)"
  shows "wire_step s (a @ b) (ids @ ids') s''"
proof -
  have l: "length (ps_store s') = length (ps_store s)" using assms(1) map_eq_imp_length_eq unfolding wire_step_def by blast
  have "pkt_data (ps_store s' ! i) = pkt_data (ps_store s ! i)" if "i \<in> set ids'" for i
    using assms(1,3) that nth_map[of i "ps_store s" pkt_data] nth_map[of i "ps_store s'" pkt_data] l
    unfolding wire_step_def by force
  then have m: "map (\<lambda>i. pkt_data (ps_store s' ! i)) ids' = map (\<lambda>i. pkt_data (ps_store s ! i)) ids'" by simp
  show ?thesis using assms(1,2) unfolding wire_step_def m
    by (metis (no_types, lifting) append.assoc concat_append map_append)
qed

lemma order_queued:
  assumes "ps_inv s" and "i \<in> set (order s)"
  shows "i \<in> set (queued s)"
proof -
  have ms: "set (sched n cs ds) = set cs \<union> set ds" for n and cs ds :: "nat list"
    using arg_cong[OF sched_mset[of n cs ds], of set_mset] by simp
  have "set (tl xs) \<subseteq> set xs" for xs :: "nat list" by (cases xs) auto
  then show ?thesis using assms ps_inv_curr(3)[OF assms(1)]
    by (auto simp: order_def queued_def ms split: option.splits if_splits)
qed

lemma order_bound: "ps_inv s \<Longrightarrow> i \<in> set (order s) \<Longrightarrow> i < length (ps_store s)"
  by (frule (1) order_queued) (auto simp: ps_inv_def ps_wf_def)

text \<open>One packet sent to its end and the next one chosen.\<close>

lemma wire_step_finish:
  assumes "ps_inv s" and "ps_curr s = Some c"
    and "pkt_written (ps_store s ! c) + k = pkt_size (ps_store s ! c)"
  defines "t \<equiv> sent_part s c k"
  defines "s' \<equiv> finishPacket t (ps_store t ! c)"
  shows "wire_step s (drop (pkt_written (ps_store s ! c)) (pkt_data (ps_store s ! c))) [c] s'"
    and "ps_inv s'" and "length (queued s') < length (queued s)"
proof -
  note l = ps_inv_curr[OF assms(1,2)]
  have wf: "ps_wf t" unfolding t_def using assms l(1) by (intro sent_part_wf) (auto simp: ps_inv_def)
  have f: "is_front t c" using l(5) by (simp add: is_front_def t_def)
  have c: "ps_curr t = Some c" using assms(2) by (simp add: t_def)
  have o: "\<forall>i \<in> set (queued t). i \<noteq> c \<longrightarrow> pkt_written (ps_store t ! i) = 0"
    using assms(1,2) l(1) by (auto simp: t_def sent_part_store(1) ps_inv_def)
  note fin = finishPacket_law[OF wf f c o, folded s'_def]
  show "ps_inv s'" by (rule fin(1))
  show "length (queued s') < length (queued s)" using fin(4) by (simp add: t_def)
  let ?p = "ps_store s ! c"
  have len: "length (pkt_data ?p) = pkt_size ?p" using l(2) by (simp add: pkt_ok_def)
  have "partial_out s @ drop (pkt_written ?p) (pkt_data ?p) = pkt_data ?p"
    using assms(2) by (simp add: partial_out_def)
  moreover have "order s = c # order s'" using fin(2) sent_part_order[OF l(1)] by (simp add: t_def)
  ultimately show "wire_step s (drop (pkt_written ?p) (pkt_data ?p)) [c] s'"
    using fin(3,5) sent_part_store(2,3)[OF l(1)] by (simp add: wire_step_def t_def)
qed

definition written_after :: "nat \<Rightarrow> nat \<Rightarrow> bytes \<Rightarrow> nat \<Rightarrow> bool" where
  "written_after mx written new w \<longleftrightarrow> w = u32 (written + length new) \<and> (mx > 0 \<longrightarrow> written + length new \<le> mx)"

lemma write_step_cases:
  assumes "ps_inv s" and "ps_curr s = Some c" and "device_ok dev" and "mx < 2 ^ 32"
    and "written < mx \<or> mx = 0"
  defines "x \<equiv> drop (pkt_written (ps_store s ! c)) (pkt_data (ps_store s ! c))"
  obtains (full) "write_loop dev mx out s written = Some (written, out, s)"
  | (part) k where "0 < k" "mx > 0 \<longrightarrow> written + k \<le> mx" "k \<le> length x"
      "pkt_written (ps_store s ! c) + k < pkt_size (ps_store s ! c)"
      "write_loop dev mx out s written = Some (add32 written k, out @ take k x, sent_part s c k)"
  | (fin) k where "k = length x" "mx > 0 \<longrightarrow> written + k \<le> mx"
      "pkt_written (ps_store s ! c) + k = pkt_size (ps_store s ! c)"
      "write_loop dev mx out s written = write_loop dev mx (out @ x)
         (finishPacket (sent_part s c k) (ps_store (sent_part s c k) ! c)) (add32 written k)"
proof -
  let ?p = "ps_store s ! c" and ?m = "if mx = 0 then 0 else sub32 mx written"
  note l = ps_inv_curr[OF assms(1,2)]
  have len: "length (pkt_data ?p) = pkt_size ?p" using l(2) by (simp add: pkt_ok_def)
  obtain ret out' p' where q: "Packet_send dev out ?p ?m = Some (ret, out', p')"
      "out' = out @ take (nat ret) (drop (pkt_written ?p) (pkt_data ?p))" "p' = ?p\<lparr>pkt_written := pkt_written ?p + nat ret\<rparr>"
      and r: "?m > 0 \<longrightarrow> ret \<le> int ?m" "pkt_written ?p + nat ret \<le> pkt_size ?p"
    using Packet_send_law[OF l(2) assms(3), of out ?m] by (elim exE conjE) (rule that)
  have send: "Packet_send dev out ?p ?m = Some (ret, out @ take (nat ret) x, ?p\<lparr>pkt_written := pkt_written ?p + nat ret\<rparr>)"
    unfolding q x_def ..
  have w: "write_loop dev mx out s written =
      (if ret > 0 then
         if pkt_written ?p + nat ret = pkt_size ?p
         then write_loop dev mx (out @ take (nat ret) x)
                (finishPacket (sent_part s c (nat ret)) (ps_store (sent_part s c (nat ret)) ! c)) (add32 written (nat ret))
         else Some (add32 written (nat ret), out @ take (nat ret) x, sent_part s c (nat ret))
       else Some (written, out @ take (nat ret) x, s))"
  proof -
    have st: "ps_store (sent_part s c (nat ret)) ! c = ?p\<lparr>pkt_written := pkt_written ?p + nat ret\<rparr>"
      using sent_part_store(1)[OF l(1)] by simp
    have sp: "s\<lparr>ps_store := (ps_store s)[c := ?p\<lparr>pkt_written := pkt_written ?p + nat ret\<rparr>],
               ps_uploaded := (if pkt_type ?p = PIECE then add32 (ps_uploaded s) (nat ret) else ps_uploaded s)\<rparr>
             = sent_part s c (nat ret)" by (simp add: sent_part_def)
    show ?thesis unfolding st
      by (subst write_loop.simps) (use assms(5) in \<open>simp add: assms(2) send sp Let_def Packet_isSent_def del: if_not_P\<close>)
  qed
  have m: "mx > 0 \<longrightarrow> written + nat ret \<le> mx" if "ret > 0"
  proof
    assume "mx > 0"
    then have "written < mx" and "?m = mx - written" using assms(4,5) sub32_id[of written mx] by auto
    then show "written + nat ret \<le> mx" using r(1) by linarith
  qed
  have xl: "length x = pkt_size ?p - pkt_written ?p" using len by (simp add: x_def)
  show ?thesis
  proof (cases "ret > 0")
    case False
    show ?thesis by (rule full) (use False w in simp)
  next
    case True
    show ?thesis
    proof (cases "pkt_written ?p + nat ret = pkt_size ?p")
      case f: True
      then have x: "nat ret = length x" using xl by simp
      show ?thesis
      proof (rule fin)
        show "mx > 0 \<longrightarrow> written + nat ret \<le> mx" using m True by blast
        have "take (nat ret) x = x" using x by simp
        then show "write_loop dev mx out s written = write_loop dev mx (out @ x)
           (finishPacket (sent_part s c (nat ret)) (ps_store (sent_part s c (nat ret)) ! c)) (add32 written (nat ret))"
          unfolding w using True f by (simp only: if_True refl)
      qed (use x f in simp_all)
    next
      case False
      show ?thesis
      proof (rule part)
        show "write_loop dev mx out s written = Some (add32 written (nat ret), out @ take (nat ret) x, sent_part s c (nat ret))"
          unfolding w using True False by (simp only: if_True if_False)
      qed (use True False m r(2) xl in simp_all)
    qed
  qed
qed

lemma written_after_step:
  assumes "written < mx \<or> mx = 0" and "mx < 2 ^ 32" and "mx > 0 \<longrightarrow> written + length a \<le> mx"
    and "written_after mx (add32 written (length a)) b w"
  shows "written_after mx written (a @ b) w"
proof (cases "mx = 0")
  case True
  then show ?thesis using assms(4) by (auto simp: written_after_def u32_def add32_def mod_simps add.assoc)
next
  case False
  then have "add32 written (length a) = written + length a" using assms by (intro add32_id) linarith
  then show ?thesis using assms(4) by (simp add: written_after_def add.assoc)
qed

lemma write_loop_law:
  assumes "ps_inv s" and "device_ok dev" and "mx < 2 ^ 32" and "written < 2 ^ 32" and "mx > 0 \<longrightarrow> written \<le> mx"
  shows "\<exists>w new ids s'. write_loop dev mx out s written = Some (w, out @ new, s')
     \<and> ps_inv s' \<and> wire_step s new ids s' \<and> written_after mx written new w"
  using assms
proof (induction "length (queued s)" arbitrary: s out written rule: less_induct)
  case less
  have stop: ?case if "write_loop dev mx out s written = Some (written, out, s)"
    using less.prems that wire_step_refl[of s]
    by (intro exI[of _ written] exI[of _ "[]"] exI[of _ s]) (auto simp: written_after_def u32_id)
  show ?case
  proof (cases "ps_curr s")
    case None
    show ?thesis by (rule stop) (subst write_loop.simps, simp add: None)
  next
    case (Some c)
    show ?thesis
    proof (cases "written < mx \<or> mx = 0")
      case False
      show ?thesis by (rule stop) (subst write_loop.simps, use Some False in simp)
    next
      case w: True
      let ?x = "drop (pkt_written (ps_store s ! c)) (pkt_data (ps_store s ! c))"
      show ?thesis
      proof (cases rule: write_step_cases[OF less.prems(1) Some less.prems(2,3) w, of out, case_names full part fin])
        case full
        then show ?thesis by (rule stop)
      next
        case (part k)
        have l: "length (take k ?x) = k" using part(3) by (rule length_take[THEN trans, OF min_absorb2])
        have "written_after mx written (take k ?x) (add32 written k)"
          unfolding written_after_def l using part(2) by (simp add: add32_def u32_def)
        then show ?thesis
          using part(5) sent_part_inv[OF less.prems(1) Some part(4)] wire_step_part[OF less.prems(1) Some] by blast
      next
        case (fin k)
        let ?s = "finishPacket (sent_part s c k) (ps_store (sent_part s c k) ! c)"
        note f = wire_step_finish[OF less.prems(1) Some fin(3)]
        have b: "add32 written k < 2 ^ 32" by (simp add: add32_def u32_def)
        have m: "mx > 0 \<longrightarrow> add32 written k \<le> mx"
          using fin(2) less.prems(3) add32_id[of written k] by auto
        obtain w' new ids s' where h: "write_loop dev mx (out @ ?x) ?s (add32 written k) = Some (w', (out @ ?x) @ new, s')"
            "ps_inv s'" "wire_step ?s new ids s'" "written_after mx (add32 written k) new w'"
          using less.hyps[OF f(3) f(2) less.prems(2,3) b m, of "out @ ?x"] by blast
        have "\<forall>i \<in> set ids. i < length (ps_store s)"
        proof
          fix i
          assume "i \<in> set ids"
          then have "i \<in> set (order s)" using f(1) h(3) by (auto simp: wire_step_def)
          then show "i < length (ps_store s)" by (rule order_bound[OF less.prems(1)])
        qed
        then have "wire_step s (?x @ new) ([c] @ ids) s'" by (rule wire_step_trans[OF f(1) h(3)])
        moreover have "written_after mx written (?x @ new) w'"
          using written_after_step[OF w less.prems(3), of ?x new w'] fin(1,2) h(4) by blast
        ultimately show ?thesis using h(1,2) fin(4) by auto
      qed
    qed
  qed
qed

section \<open>Dropping pieces\<close>

text \<open>
  The effect of both loops: the pieces of \<open>X\<close> leave the data queue and the packets \<open>R\<close> are queued
  as control messages.
\<close>

definition removed :: "PacketSocket \<Rightarrow> nat list \<Rightarrow> Packet list \<Rightarrow> PacketSocket" where
  "removed s X R = s\<lparr>ps_data := filter (\<lambda>i. i \<notin> set X) (ps_data s), ps_store := ps_store s @ R,
     ps_control := ps_control s @ [length (ps_store s)..<length (ps_store s) + length R]\<rparr>"

definition droppable :: "(Packet \<Rightarrow> bool) \<Rightarrow> PacketSocket \<Rightarrow> nat \<Rightarrow> bool" where
  "droppable P s i \<longleftrightarrow> P (ps_store s ! i) \<and> \<not> Packet_sending (ps_store s ! i) \<and> ps_curr s \<noteq> Some i"

definition reject_of :: "Packet \<Rightarrow> Packet" where
  "reject_of p = packet_of REJECT_REQUEST (be32 (the (ReadUint32 (pkt_data p) 5))
     @ be32 (the (ReadUint32 (pkt_data p) 9)) @ be32 (word_of_nat (pkt_size p - 13)))"

definition rejects :: "bool \<Rightarrow> PacketSocket \<Rightarrow> nat list \<Rightarrow> Packet list" where
  "rejects reject s X = (if reject then map (\<lambda>i. reject_of (ps_store s ! i)) X else [])"

lemma makeRejectOfPiece_ok:
  assumes "pkt_ok p" and "pkt_type p = PIECE" and "13 \<le> pkt_size p"
  shows "makeRejectOfPiece p = Some (Some (reject_of p))"
  using assms
  by (simp add: makeRejectOfPiece_def reject_of_def ReadUint32_def pkt_ok_def Packet_request_frame sub32_id Request_new_def)

lemma reject_of_ok: "pkt_ok (reject_of p)" "pkt_type (reject_of p) \<noteq> PIECE" "pkt_written (reject_of p) = 0"
  by (auto simp: reject_of_def intro!: packet_of_ok) (auto simp: packet_of_def mk_packet_def msg_types)

lemma removed_wf:
  assumes "ps_wf s" and "\<forall>p \<in> set R. pkt_ok p \<and> pkt_type p \<noteq> PIECE"
  shows "ps_wf (removed s X R)"
proof -
  have b: "i < length (ps_store s)" if "i \<in> set (ps_control s) \<or> i \<in> set (ps_data s)" for i
    using assms(1) that by (auto simp: ps_wf_def queued_def)
  then have b': "\<not> length (ps_store s) \<le> i" "i < length (ps_store s) + k"
    if "i \<in> set (ps_control s) \<or> i \<in> set (ps_data s)" for i k using that by force+
  show ?thesis using assms
    by (auto simp: ps_wf_def removed_def queued_def nth_append b b' dest: nth_mem)
qed

lemma removed_nth: "i < length (ps_store s) \<Longrightarrow> ps_store (removed s X R) ! i = ps_store s ! i"
  by (simp add: removed_def nth_append)

lemma removed_removed:
  "removed (removed s X R) Y R' = removed s (X @ Y) (R @ R')"
proof -
  have "[n..<n + length (R @ R')] = [n..<n + length R] @ [n + length R..<n + length R + length R']" for n
    using upt_add_eq_append[of n "n + length R" "length R'"] by (simp add: add.assoc)
  moreover have "filter (\<lambda>i. i \<notin> set Y) (filter (\<lambda>i. i \<notin> set X) xs) = filter (\<lambda>i. i \<notin> set (X @ Y)) xs" for xs
    by (induction xs) auto
  ultimately show ?thesis by (simp only: removed_def) (simp del: upt_add_eq_append filter_filter)
qed

lemma removed_Nil [simp]: "removed s [] [] = s"
  by (simp add: removed_def)

lemma drop_one:
  assumes "ps_wf s" and "i \<in> set (ps_data s)"
  shows "s\<lparr>ps_data := remove1 i (ps_data s)\<rparr> = removed s [i] []"
    and "addPacket (removed s [i] []) (reject_of p) = removed s [i] [reject_of p]"
    and "(addPacket s (reject_of p))\<lparr>ps_data := remove1 i (ps_data (addPacket s (reject_of p)))\<rparr>
       = removed s [i] [reject_of p]"
proof -
  have "distinct (ps_data s)" using assms(1) by (simp add: ps_wf_def queued_def)
  then have r: "remove1 i (ps_data s) = filter (\<lambda>j. j \<noteq> i) (ps_data s)"
    by (simp add: distinct_remove1_removeAll removeAll_filter_not_eq) metis
  show "s\<lparr>ps_data := remove1 i (ps_data s)\<rparr> = removed s [i] []" by (simp add: removed_def r)
  show "addPacket (removed s [i] []) (reject_of p) = removed s [i] [reject_of p]"
    by (simp add: removed_def addPacket_def reject_of_ok(2) Let_def)
  show "(addPacket s (reject_of p))\<lparr>ps_data := remove1 i (ps_data (addPacket s (reject_of p)))\<rparr>
       = removed s [i] [reject_of p]"
    by (simp add: removed_def addPacket_def reject_of_ok(2) Let_def r)
qed

lemma rejects_Cons:
  "rejects reject s (i # X) = rejects reject s [i] @ rejects reject s X"
  by (simp add: rejects_def)

lemma rejects_ok: "\<forall>p \<in> set (rejects reject s X). pkt_ok p \<and> pkt_type p \<noteq> PIECE \<and> pkt_written p = 0"
  by (auto simp: rejects_def reject_of_ok)

lemma removed_rejects:
  assumes "\<forall>j \<in> set X. j < length (ps_store s)"
  shows "rejects reject (removed s Y R) X = rejects reject s X"
    and "filter (droppable P (removed s Y R)) X = filter (droppable P s) X"
  using assms by (auto simp: rejects_def droppable_def removed_nth removed_def nth_append intro!: filter_cong)

text \<open>The state after the first droppable piece, from which both loops go on.\<close>

lemma removed_step:
  fixes reject :: bool
  assumes "ps_wf s" and "distinct (i # is)" and "set (i # is) \<subseteq> set (ps_data s)"
  defines "s1 \<equiv> removed s [i] (rejects reject s [i])"
  shows "ps_wf s1" and "set is \<subseteq> set (ps_data s1)"
    and "removed s1 (filter (droppable P s1) is) (rejects reject s1 (filter (droppable P s1) is))
       = removed s (i # filter (droppable P s) is) (rejects reject s (i # filter (droppable P s) is))"
proof -
  show "ps_wf s1" unfolding s1_def using assms(1) rejects_ok[of reject s] by (intro removed_wf) auto
  show "set is \<subseteq> set (ps_data s1)" using assms(2,3) by (auto simp: s1_def removed_def)
  have "\<forall>j \<in> set is. j < length (ps_store s)" using assms(1,3) by (auto simp: ps_wf_def queued_def)
  then show "removed s1 (filter (droppable P s1) is) (rejects reject s1 (filter (droppable P s1) is))
       = removed s (i # filter (droppable P s) is) (rejects reject s (i # filter (droppable P s) is))"
    using rejects_Cons[of reject s i "filter (droppable P s) is"]
    by (simp add: s1_def removed_rejects removed_removed)
qed

lemma data_front:
  assumes "ps_wf s" and "i \<in> set (ps_data s)"
  shows "pkt_ok (ps_store s ! i)" "pkt_type (ps_store s ! i) = PIECE" "13 \<le> pkt_size (ps_store s ! i)"
    "makeRejectOfPiece (ps_store s ! i) = Some (Some (reject_of (ps_store s ! i)))"
proof -
  show *: "pkt_ok (ps_store s ! i)" "pkt_type (ps_store s ! i) = PIECE" "13 \<le> pkt_size (ps_store s ! i)"
    using assms by (auto simp: ps_wf_def queued_def)
  then show "makeRejectOfPiece (ps_store s ! i) = Some (Some (reject_of (ps_store s ! i)))"
    by (rule makeRejectOfPiece_ok)
qed

lemma clear_loop_law:
  assumes "ps_wf s" and "distinct is" and "set is \<subseteq> set (ps_data s)"
  shows "clear_loop reject is s =
     Some (removed s (filter (droppable (\<lambda>_. True) s) is) (rejects reject s (filter (droppable (\<lambda>_. True) s) is)))"
  using assms
proof (induction "is" arbitrary: s)
  case Nil
  then show ?case by (simp add: rejects_def)
next
  case (Cons i "is")
  have i: "i \<in> set (ps_data s)" using Cons.prems by simp
  note d = data_front[OF Cons.prems(1) i] and o = drop_one[OF Cons.prems(1) i]
  note st = removed_step[OF Cons.prems, of reject]
  show ?case
  proof (cases "droppable (\<lambda>_. True) s i")
    case True
    have "clear_loop reject (i # is) s = clear_loop reject is (removed s [i] (rejects reject s [i]))"
      using True d o by (auto simp: droppable_def rejects_def)
    then show ?thesis using Cons.IH[OF st(1) _ st(2)] Cons.prems st(3) True by simp
  next
    case False
    then show ?thesis using Cons.IH[of s] Cons.prems d(2) by (auto simp: droppable_def Let_def)
  qed
qed

lemma Packet_isPiece_ok: "pkt_ok p \<Longrightarrow> 13 \<le> pkt_size p \<Longrightarrow> \<exists>m. Packet_isPiece p req = Some m"
  by (auto simp: Packet_isPiece_def pkt_ok_def mem_read_def ReadUint32_def)

lemma cancel_loop_law:
  fixes req :: Request
  assumes "ps_wf s" and "distinct is" and "set is \<subseteq> set (ps_data s)"
  defines "P \<equiv> \<lambda>p. Packet_isPiece p req = Some True"
  shows "cancel_loop req reject is s =
     Some (removed s (filter (droppable P s) is) (rejects reject s (filter (droppable P s) is)))"
  using assms(1-3)
proof (induction "is" arbitrary: s)
  case Nil
  then show ?case by (simp add: rejects_def)
next
  case (Cons i "is")
  have i: "i \<in> set (ps_data s)" using Cons.prems by simp
  note d = data_front[OF Cons.prems(1) i] and o = drop_one[OF Cons.prems(1) i]
  note st = removed_step[OF Cons.prems, of reject]
  obtain m where m: "Packet_isPiece (ps_store s ! i) req = Some m" using Packet_isPiece_ok[OF d(1,3)] by blast
  show ?case
  proof (cases "droppable P s i")
    case True
    have "cancel_loop req reject (i # is) s = cancel_loop req reject is (removed s [i] (rejects reject s [i]))"
      using True d(4) o(1,2) by (auto simp: droppable_def rejects_def P_def)
    then show ?thesis using Cons.IH[OF st(1) _ st(2)] Cons.prems st(3) True by simp
  next
    case False
    then show ?thesis using Cons.IH[of s] Cons.prems m by (auto simp: droppable_def P_def)
  qed
qed

text \<open>Dropping pieces that are not being sent keeps the invariant and what is on the wire.\<close>

lemma removed_inv:
  assumes "ps_inv s" and "\<forall>i \<in> set X. ps_curr s \<noteq> Some i"
    and "\<forall>p \<in> set R. pkt_ok p \<and> pkt_type p \<noteq> PIECE \<and> pkt_written p = 0"
  shows "ps_inv (removed s X R)" and "partial_out (removed s X R) = partial_out s"
proof -
  have wf: "ps_wf s" and z: "\<And>i. i \<in> set (queued s) \<Longrightarrow> ps_curr s \<noteq> Some i \<Longrightarrow> pkt_written (ps_store s ! i) = 0"
    using assms(1) by (auto simp: ps_inv_def)
  have q: "i < length (ps_store s)" if "i \<in> set (queued s)" for i using wf that by (auto simp: ps_wf_def)
  have c: "is_front (removed s X R) c" if "ps_curr s = Some c" for c
  proof -
    have "is_front s c" using ps_inv_curr(5)[OF assms(1) that] .
    then show ?thesis using assms(2) that by (auto simp: is_front_def removed_def)
  qed
  have w: "pkt_written (ps_store (removed s X R) ! i) = 0"
    if "i \<in> set (queued (removed s X R))" "ps_curr s \<noteq> Some i" for i
  proof (cases "i < length (ps_store s)")
    case True
    then show ?thesis using that z[of i] by (auto simp: removed_nth) (auto simp: removed_def queued_def)
  next
    case False
    then show ?thesis using that assms(3) q[of i] by (auto simp: removed_def queued_def nth_append)
  qed
  have "ps_curr (removed s X R) = ps_curr s" by (simp add: removed_def)
  then show "ps_inv (removed s X R)"
    using removed_wf[OF wf, of R X] assms(1,3) c w ps_inv_curr(1)[OF assms(1)]
    by (auto simp: ps_inv_def removed_nth)
  show "partial_out (removed s X R) = partial_out s"
    using ps_inv_curr(1)[OF assms(1)] \<open>ps_curr (removed s X R) = ps_curr s\<close>
    by (auto simp: partial_out_def removed_nth split: option.splits)
qed

section \<open>An accepting device\<close>

text \<open>A device that takes all it is given empties the queues in one call without a limit.\<close>

definition device_accepts :: "device \<Rightarrow> bool" where
  "device_accepts dev \<longleftrightarrow> (\<forall>out x. dev out x = int (length x))"

lemma accepts_ok: "device_accepts dev \<Longrightarrow> device_ok dev"
  by (simp add: device_accepts_def device_ok_def)

lemma write_loop_accepts:
  assumes "ps_inv s" and "ps_curr s = Some c" and "device_accepts dev"
  defines "x \<equiv> drop (pkt_written (ps_store s ! c)) (pkt_data (ps_store s ! c))"
  shows "write_loop dev 0 out s written = write_loop dev 0 (out @ x)
     (finishPacket (sent_part s c (length x)) (ps_store (sent_part s c (length x)) ! c)) (add32 written (length x))"
proof -
  let ?p = "ps_store s ! c"
  note l = ps_inv_curr[OF assms(1,2)]
  have len: "length (pkt_data ?p) = pkt_size ?p" "pkt_size ?p < 2 ^ 32" using l(2) by (auto simp: pkt_ok_def)
  have xl: "length x = pkt_size ?p - pkt_written ?p" using len by (simp add: x_def)
  have sub: "sub32 (pkt_size ?p) (pkt_written ?p) = length x" using xl l(4) len by (simp add: sub32_id)
  have add: "add32 (pkt_written ?p) (length x) = pkt_size ?p" using xl l(4) len by (simp add: add32_id)
  have xne: "x \<noteq> []" using xl l(4) by auto
  have "mem_read (pkt_data ?p) (pkt_written ?p) (length x) = Some x"
    using xl len l(4) by (simp add: mem_simps) (simp add: x_def)
  then have send: "Packet_send dev out ?p 0 = Some (int (length x), out @ x, ?p\<lparr>pkt_written := pkt_size ?p\<rparr>)"
    using assms(3) xne add by (simp add: Packet_send_def sub device_accepts_def Let_def)
  have st: "ps_store (sent_part s c (length x)) ! c = ?p\<lparr>pkt_written := pkt_size ?p\<rparr>"
    using sent_part_store(1)[OF l(1)] xl l(4) by simp
  have sp: "s\<lparr>ps_store := (ps_store s)[c := ?p\<lparr>pkt_written := pkt_size ?p\<rparr>],
             ps_uploaded := (if pkt_type ?p = PIECE then add32 (ps_uploaded s) (length x) else ps_uploaded s)\<rparr>
           = sent_part s c (length x)" using xl l(4) by (simp add: sent_part_def)
  show ?thesis unfolding st
    by (subst write_loop.simps) (use xne in \<open>simp add: assms(2) send sp[symmetric] Let_def Packet_isSent_def\<close>)
qed

lemma write_loop_drains:
  assumes "ps_inv s" and "device_accepts dev" and "ps_curr s = None \<longrightarrow> queued s = []"
  shows "\<exists>w new s'. write_loop dev 0 out s written = Some (w, out @ new, s') \<and> queued s' = []
     \<and> ps_curr s' = None \<and> partial_out s @ new = concat (map (\<lambda>i. pkt_data (ps_store s ! i)) (order s))"
  using assms
proof (induction "length (queued s)" arbitrary: s out written rule: less_induct)
  case less
  show ?case
  proof (cases "ps_curr s")
    case None
    then have "write_loop dev 0 out s written = Some (written, out @ [], s)" by (subst write_loop.simps) simp
    moreover have "order s = []" using None less.prems(3) by (simp add: order_def queued_def)
    ultimately show ?thesis using None less.prems(3) by (auto simp: partial_out_def)
  next
    case (Some c)
    let ?x = "drop (pkt_written (ps_store s ! c)) (pkt_data (ps_store s ! c))"
    let ?s = "finishPacket (sent_part s c (length ?x)) (ps_store (sent_part s c (length ?x)) ! c)"
    have "pkt_written (ps_store s ! c) + length ?x = pkt_size (ps_store s ! c)"
      using ps_inv_curr(2,4)[OF less.prems(1) Some] by (simp add: pkt_ok_def)
    note f = wire_step_finish[OF less.prems(1) Some this]
    have n: "ps_curr ?s = None \<longrightarrow> queued ?s = []"
      by (simp add: finishPacket_popped selectPacket_front(2))
    obtain w new s' where h: "write_loop dev 0 (out @ ?x) ?s (add32 written (length ?x)) = Some (w, (out @ ?x) @ new, s')"
        "queued s' = []" "ps_curr s' = None" "partial_out ?s @ new = concat (map (\<lambda>i. pkt_data (ps_store ?s ! i)) (order ?s))"
      using less.hyps[OF f(3,2) less.prems(2) n] by blast
    have o: "order s = c # order ?s" and out: "partial_out s @ ?x = pkt_data (ps_store s ! c) @ partial_out ?s"
      and m: "map pkt_data (ps_store ?s) = map pkt_data (ps_store s)"
      using f(1) by (auto simp: wire_step_def)
    have "pkt_data (ps_store ?s ! i) = pkt_data (ps_store s ! i)" if "i \<in> set (order ?s)" for i
    proof -
      have "i < length (ps_store ?s)" by (rule order_bound[OF f(2) that])
      then show ?thesis using m by (metis nth_map map_eq_imp_length_eq)
    qed
    then have "partial_out s @ ?x @ new = concat (map (\<lambda>i. pkt_data (ps_store s ! i)) (order s))"
      using out h(4) o by (simp cong: map_cong) (metis append.assoc)
    then show ?thesis using h(1-3) write_loop_accepts[OF less.prems(1) Some less.prems(2), of out written]
      by (intro exI[of _ w] exI[of _ "?x @ new"] exI[of _ s']) simp
  qed
qed

section \<open>Properties\<close>

definition starts_with_current :: "PacketSocket \<Rightarrow> PacketSocket" where
  "starts_with_current s = (case ps_curr s of None \<Rightarrow> selectNext s | Some _ \<Rightarrow> s)"

lemma write_start:
  assumes "ps_inv s"
  shows "ps_inv (starts_with_current s)" and "order (starts_with_current s) = order s"
    and "partial_out (starts_with_current s) = partial_out s" and "ps_store (starts_with_current s) = ps_store s"
    and "ps_curr (starts_with_current s) = None \<longrightarrow> queued (starts_with_current s) = []"
proof -
  have i: "idle s" if "ps_curr s = None" using assms that by (auto simp: ps_inv_def idle_def)
  have n: "partial_out s = []" if "ps_curr s = None" using that by (simp add: partial_out_def)
  show "ps_inv (starts_with_current s)" "partial_out (starts_with_current s) = partial_out s"
    using assms selectNext_inv[OF i] n by (auto simp: starts_with_current_def split: option.splits)
  show "order (starts_with_current s) = order s"
    using assms selectNext_order[of s] by (auto simp: starts_with_current_def ps_inv_def split: option.splits)
  show "ps_store (starts_with_current s) = ps_store s"
    "ps_curr (starts_with_current s) = None \<longrightarrow> queued (starts_with_current s) = []"
    by (auto simp: starts_with_current_def selectPacket_front(2) split: option.splits)
qed

lemma wire_step_start: "ps_inv s \<Longrightarrow> wire_step (starts_with_current s) new ids s' = wire_step s new ids s'"
  by (simp add: wire_step_def write_start)

text \<open>
  C19. \<open>PacketSocket::write\<close> returns, never touches memory outside a packet, never exceeds its limit,
  and whatever the device accepts: what is on the wire is whole packets, in the transmission order,
  followed by the beginning of at most one packet, which the next call continues.
\<close>

theorem PacketSocket_write_correct:
  assumes "ps_inv s" and "device_ok dev" and "mx < 2 ^ 32"
  shows "\<exists>w new ids s'. PacketSocket_write dev False mx out s = Some (w, out @ new, s') \<and> ps_inv s'
     \<and> partial_out s @ new = concat (map (\<lambda>i. pkt_data (ps_store s ! i)) ids) @ partial_out s'
     \<and> order s = ids @ order s'
     \<and> w = u32 (length new) \<and> (mx > 0 \<longrightarrow> length new \<le> mx)"
proof -
  obtain w new ids s' where h: "write_loop dev mx out (starts_with_current s) 0 = Some (w, out @ new, s')"
      "ps_inv s'" "wire_step (starts_with_current s) new ids s'" "written_after mx 0 new w"
    using write_loop_law[OF write_start(1)[OF assms(1)] assms(2,3), of 0 out] by auto
  have "wire_step s new ids s'" using h(3) wire_step_start[OF assms(1)] by simp
  moreover have "PacketSocket_write dev False mx out s = Some (w, out @ new, s')"
    using h(1) by (simp add: PacketSocket_write_def starts_with_current_def)
  ultimately show ?thesis using h(2,4) unfolding wire_step_def written_after_def by auto
qed

theorem PacketSocket_write_correct_witness:
  "\<exists>w new ids s'. PacketSocket_write (\<lambda>_ _. 0) False 0 [] (addPacket PacketSocket_new (packet_of CHOKE [])) = Some (w, new, s')
     \<and> partial_out (addPacket PacketSocket_new (packet_of CHOKE [])) @ new
        = concat (map (\<lambda>i. pkt_data (ps_store (addPacket PacketSocket_new (packet_of CHOKE [])) ! i)) ids) @ partial_out s'"
proof -
  have "ps_inv (addPacket PacketSocket_new (packet_of CHOKE []))"
    by (auto simp: ps_inv_def ps_wf_def addPacket_def PacketSocket_new_def queued_def packet_of_def mk_packet_def
        pkt_ok_def frame_def msg_types)
  then show ?thesis
    using PacketSocket_write_correct[of "addPacket PacketSocket_new (packet_of CHOKE [])" "\<lambda>_ _. 0" 0 "[]"]
    by (auto simp: device_ok_def)
qed

text \<open>
  C20. With a device that takes all it is given, one unlimited \<open>write\<close> empties the socket: every queued
  packet is on the wire exactly once, and the piece at place \<open>k\<close> of its queue is preceded by
  exactly three control packets for every piece up to it (fewer only when there are no more).
\<close>

theorem PacketSocket_write_drains:
  assumes "ps_inv s" and "device_accepts dev" and "ps_curr s = None" and "ps_ctrl_sent s \<le> 3"
  shows "\<exists>w s' ids. PacketSocket_write dev False 0 out s
         = Some (w, out @ concat (map (\<lambda>i. pkt_data (ps_store s ! i)) ids), s') \<and> bytesReadyToWrite s' = False
     \<and> mset ids = mset (ps_control s) + mset (ps_data s)
     \<and> (\<forall>k < length (ps_data s).
          ids ! (k + min (length (ps_control s)) (3 * (k + 1) - ps_ctrl_sent s)) = ps_data s ! k)"
proof -
  note st = write_start[OF assms(1)]
  obtain w new s' where h: "write_loop dev 0 out (starts_with_current s) 0 = Some (w, out @ new, s')" "queued s' = []"
      "partial_out s @ new = concat (map (\<lambda>i. pkt_data (ps_store s ! i)) (order s))"
    using write_loop_drains[OF st(1) assms(2) st(5), of out 0] unfolding st(2-4) by blast
  have "partial_out s = []" using assms(3) by (simp add: partial_out_def)
  moreover have "order s = sched (ps_ctrl_sent s) (ps_control s) (ps_data s)" using assms(3) by (simp add: order_def)
  moreover have "bytesReadyToWrite s' = False" using h(2) by (simp add: bytesReadyToWrite_def queued_def)
  moreover have "PacketSocket_write dev False 0 out s = Some (w, out @ new, s')"
    using h(1) by (simp add: PacketSocket_write_def starts_with_current_def)
  ultimately show ?thesis using h(3) sched_mset[of "ps_ctrl_sent s" "ps_control s" "ps_data s"]
      sched_piece_position[OF assms(4), of _ "ps_data s" "ps_control s"]
    by (intro exI[of _ w] exI[of _ s'] exI[of _ "order s"]) simp
qed

theorem PacketSocket_write_drains_witness:
  "\<exists>w s' ids. PacketSocket_write (\<lambda>_ x. int (length x)) False 0 [] (addPacket PacketSocket_new (packet_of HAVE [1, 2, 3, 4]))
       = Some (w, [] @ concat (map (\<lambda>i. pkt_data (ps_store (addPacket PacketSocket_new (packet_of HAVE [1, 2, 3, 4])) ! i)) ids), s')
     \<and> bytesReadyToWrite s' = False"
proof -
  let ?s = "addPacket PacketSocket_new (packet_of HAVE [1, 2, 3, 4])"
  have "ps_inv ?s" "device_accepts (\<lambda>_ x. int (length x))" "ps_curr ?s = None" "ps_ctrl_sent ?s \<le> 3"
    by (auto simp: ps_inv_def ps_wf_def addPacket_def PacketSocket_new_def queued_def packet_of_def mk_packet_def
        pkt_ok_def frame_def msg_types device_accepts_def)
  from PacketSocket_write_drains[OF this, of "[]"] show ?thesis by blast
qed

text \<open>
  \<open>clearPieces\<close> and \<open>doNotSendPiece\<close> remove exactly the waiting pieces they are about, queue one
  reject for each in order when asked to, and never the piece that is on the wire: the invariant
  and the bytes already sent are unchanged.
\<close>

theorem PacketSocket_drop_pieces:
  assumes "ps_inv s"
  defines "victims P \<equiv> filter (\<lambda>i. P (ps_store s ! i) \<and> ps_curr s \<noteq> Some i) (ps_data s)"
  shows "(\<exists>s'. clearPieces s reject = Some s' \<and> ps_inv s' \<and> partial_out s' = partial_out s
            \<and> ps_data s' = filter (\<lambda>i. ps_curr s = Some i) (ps_data s)
            \<and> map (\<lambda>i. ps_store s' ! i) (ps_control s') = map (\<lambda>i. ps_store s ! i) (ps_control s)
                @ rejects reject s (victims (\<lambda>_. True)))
     \<and> (\<exists>s'. doNotSendPiece s req reject = Some s' \<and> ps_inv s' \<and> partial_out s' = partial_out s
            \<and> ps_data s' = filter (\<lambda>i. Packet_isPiece (ps_store s ! i) req \<noteq> Some True \<or> ps_curr s = Some i) (ps_data s)
            \<and> map (\<lambda>i. ps_store s' ! i) (ps_control s') = map (\<lambda>i. ps_store s ! i) (ps_control s)
                @ rejects reject s (victims (\<lambda>p. Packet_isPiece p req = Some True)))"
proof -
  have wf: "ps_wf s" and d: "distinct (ps_data s)" using assms(1) by (auto simp: ps_inv_def ps_wf_def queued_def)
  have v: "filter (droppable P s) (ps_data s) = victims P" for P
    using assms(1) unfolding victims_def
    by (intro filter_cong) (auto simp: droppable_def Packet_sending_def ps_inv_def queued_def)
  have ctl: "map (\<lambda>i. ps_store (removed s X R) ! i) (ps_control (removed s X R)) = map (\<lambda>i. ps_store s ! i) (ps_control s) @ R" for X R
  proof -
    have "map (\<lambda>i. (ps_store s @ R) ! i) [length (ps_store s)..<length (ps_store s) + length R] = R"
      by (rule nth_equalityI) (auto simp: nth_append)
    moreover have "map (\<lambda>i. (ps_store s @ R) ! i) (ps_control s) = map (\<lambda>i. ps_store s ! i) (ps_control s)"
      using wf by (auto simp: ps_wf_def queued_def nth_append)
    ultimately show ?thesis by (simp add: removed_def)
  qed
  have dat: "ps_data (removed s (victims P) R) = filter (\<lambda>i. \<not> P (ps_store s ! i) \<or> ps_curr s = Some i) (ps_data s)" for P R
    by (auto simp: removed_def victims_def intro!: filter_cong)
  have inv: "ps_inv (removed s (victims P) (rejects reject s X))"
    "partial_out (removed s (victims P) (rejects reject s X)) = partial_out s" for P X
    by (rule removed_inv[OF assms(1) _ rejects_ok]; simp add: victims_def)+
  let ?T = "\<lambda>_ :: Packet. True" and ?Q = "\<lambda>p. Packet_isPiece p req = Some True"
  have c: "clearPieces s reject = Some (removed s (victims ?T) (rejects reject s (victims ?T)))"
    using clear_loop_law[OF wf d, of reject] unfolding clearPieces_def v by simp
  have n: "doNotSendPiece s req reject = Some (removed s (victims ?Q) (rejects reject s (victims ?Q)))"
    using cancel_loop_law[OF wf d, of req reject] unfolding doNotSendPiece_def v by simp
  show ?thesis
  proof (intro conjI exI)
    show "ps_data (removed s (victims ?T) (rejects reject s (victims ?T))) = filter (\<lambda>i. ps_curr s = Some i) (ps_data s)"
      unfolding dat by simp
  qed (rule c n inv ctl dat)+
qed

theorem PacketSocket_drop_pieces_witness:
  "\<exists>s'. clearPieces (addPacket PacketSocket_new (packet_of PIECE (be32 1 @ be32 2 @ [5]))) True = Some s' \<and> ps_data s' = []"
proof -
  let ?s = "addPacket PacketSocket_new (packet_of PIECE (be32 1 @ be32 2 @ [5]))"
  have "ps_inv ?s" by (simp add: ps_inv_def ps_wf_def addPacket_def PacketSocket_new_def queued_def packet_of_def
        mk_packet_def pkt_ok_def frame_def)
  moreover have "ps_curr ?s = None" by (simp add: addPacket_def PacketSocket_new_def Let_def)
  ultimately show ?thesis using PacketSocket_drop_pieces[of ?s True] by auto
qed

end
