(* ===== verification/Bencode.thy ===== *)
theory Bencode
  imports Bytes
begin

text \<open>
  The bencoding library of \<open>src/bcodec\<close>: values and nodes, the recursive-descent decoder
  \<open>BDecoder\<close>, the writer \<open>BEncoder\<close> with its memory output, and the accessors of the dictionary
  and list nodes.

  Converting text to numbers and back is done by Qt (\<open>QString::toInt\<close>, \<open>toLongLong\<close>,
  \<open>number\<close>/\<open>arg\<close>), and so is the conversion of a key to a \<open>QString\<close>; these functions are
  parameters, and the locale \<open>qt_numbers\<close> states what their documentation promises.

  The decoder is recursive through its loops. The model runs it on fuel; \<open>decode\<close> gives it twice
  the length of the input, and \<open>decode_total\<close> shows that this is always enough.
\<close>

section \<open>Values and nodes\<close>

datatype BValueData = VString bytes | VInt int | VInt64 int

text \<open>
  \<open>toInt\<close> reads the member \<open>ival\<close>, which the constructor for 64-bit values leaves uninitialised:
  there is no value to read (\<open>None\<close>).
\<close>

fun Value_toInt :: "BValueData \<Rightarrow> int option" where
  "Value_toInt (VInt v) = Some v"
| "Value_toInt (VString s) = Some 0"
| "Value_toInt (VInt64 v) = None"

fun Value_toInt64 :: "BValueData \<Rightarrow> int" where
  "Value_toInt64 (VInt v) = v"
| "Value_toInt64 (VInt64 v) = v"
| "Value_toInt64 (VString s) = 0"

fun Value_toByteArray :: "BValueData \<Rightarrow> bytes" where
  "Value_toByteArray (VString s) = s"
| "Value_toByteArray _ = []"

text \<open>A node carries the offset where it starts and the length it takes up in the input.\<close>

datatype BNode =
    BValueNode BValueData (node_off: nat) (node_len: nat)
  | BDictNode "(bytes \<times> BNode) list" (node_off: nat) (node_len: nat)
  | BListNode "BNode list" (node_off: nat) (node_len: nat)

section \<open>The decoder\<close>

text \<open>Running out of fuel is kept apart from an exception of the decoder.\<close>

datatype 'a outcome = OutOfFuel | Throw string | Return 'a

fun obind :: "'a outcome \<Rightarrow> ('a \<Rightarrow> 'b outcome) \<Rightarrow> 'b outcome" where
  "obind OutOfFuel f = OutOfFuel"
| "obind (Throw e) f = Throw e"
| "obind (Return x) f = f x"

fun scan_until :: "u8 \<Rightarrow> bytes \<Rightarrow> bytes \<times> bytes" where
  \<comment> \<open>the loops that collect characters up to a terminator: what was read and what is left\<close>
  "scan_until t [] = ([], [])"
| "scan_until t (c # cs) = (if c = t then ([], c # cs) else let (n, r) = scan_until t cs in (c # n, r))"

definition parseInt :: "(bytes \<Rightarrow> int option) \<Rightarrow> (bytes \<Rightarrow> int option) \<Rightarrow> bytes \<Rightarrow> nat \<Rightarrow> (BNode option \<times> nat) outcome" where
  "parseInt toInt toLongLong data off =
     (let (n, r) = scan_until 101 (drop (off + 1) data); pos = off + 1 + length n in
      if r = [] then Throw ''Unexpected end of input''
      else case toInt n of
             Some v \<Rightarrow> Return (Some (BValueNode (VInt v) off (pos + 1 - off)), pos + 1)
           | None \<Rightarrow> (case toLongLong n of
                       None \<Rightarrow> Throw ''Cannot convert to an int''
                     | Some v \<Rightarrow> Return (Some (BValueNode (VInt64 v) off (pos + 1 - off)), pos + 1)))"

definition parseString :: "(bytes \<Rightarrow> int option) \<Rightarrow> bytes \<Rightarrow> nat \<Rightarrow> (BNode option \<times> nat) outcome" where
  "parseString toInt data off =
     (let (n, r) = scan_until 58 (drop off data); pos = off + length n in
      if r = [] then Throw ''Unexpected end of input''
      else case toInt n of
             None \<Rightarrow> Throw ''Cannot convert to an int''
           | Some len \<Rightarrow>
               if len < 0 then Throw ''Cannot convert to an int''
               else if pos + 1 + nat len > length data then Throw ''Torrent is incomplete.''
               else Return (Some (BValueNode (VString (take (nat len) (drop (pos + 1) data))) off
                                    (pos + 1 + nat len - off)), pos + 1 + nat len))"

fun decode_fuel :: "(bytes \<Rightarrow> int option) \<Rightarrow> (bytes \<Rightarrow> int option) \<Rightarrow> nat \<Rightarrow> bytes \<Rightarrow> nat \<Rightarrow> (BNode option \<times> nat) outcome"
  and parseDict :: "(bytes \<Rightarrow> int option) \<Rightarrow> (bytes \<Rightarrow> int option) \<Rightarrow> nat \<Rightarrow> bytes \<Rightarrow> nat \<Rightarrow> nat
         \<Rightarrow> (bytes \<times> BNode) list \<Rightarrow> (BNode option \<times> nat) outcome"
  and parseList :: "(bytes \<Rightarrow> int option) \<Rightarrow> (bytes \<Rightarrow> int option) \<Rightarrow> nat \<Rightarrow> bytes \<Rightarrow> nat \<Rightarrow> nat
         \<Rightarrow> BNode list \<Rightarrow> (BNode option \<times> nat) outcome" where
  "decode_fuel toInt toLL 0 data pos = OutOfFuel"
| "decode_fuel toInt toLL (Suc k) data pos =
     (if pos \<ge> length data then Return (None, pos)
      else if data ! pos = 100 then parseDict toInt toLL k data pos (pos + 1) []
      else if data ! pos = 108 then parseList toInt toLL k data pos (pos + 1) []
      else if data ! pos = 105 then parseInt toInt toLL data pos
      else if data ! pos \<ge> 48 \<and> data ! pos \<le> 57 then parseString toInt data pos
      else Throw ''Illegal token'')"
| "parseDict toInt toLL 0 data off pos kids = OutOfFuel"
| "parseDict toInt toLL (Suc k) data off pos kids =
     (if pos < length data \<and> data ! pos \<noteq> 101 then
        obind (decode_fuel toInt toLL k data pos) (\<lambda>(kn, pos1).
          case kn of
            Some (BValueNode (VString key) _ _) \<Rightarrow>
              obind (decode_fuel toInt toLL k data pos1) (\<lambda>(vn, pos2).
                case vn of
                  None \<Rightarrow> Throw ''Decode error''
                | Some v \<Rightarrow> parseDict toInt toLL k data off pos2 (kids @ [(key, v)]))
          | _ \<Rightarrow> Throw ''Decode error'')
      else Return (Some (BDictNode kids off (pos + 1 - off)), pos + 1))"
| "parseList toInt toLL 0 data off pos kids = OutOfFuel"
| "parseList toInt toLL (Suc k) data off pos kids =
     (if pos < length data \<and> data ! pos \<noteq> 101 then
        obind (decode_fuel toInt toLL k data pos) (\<lambda>(n, pos1).
          parseList toInt toLL k data off pos1 (case n of Some v \<Rightarrow> kids @ [v] | None \<Rightarrow> kids))
      else Return (Some (BListNode kids off (pos + 1 - off)), pos + 1))"

definition decode :: "(bytes \<Rightarrow> int option) \<Rightarrow> (bytes \<Rightarrow> int option) \<Rightarrow> bytes \<Rightarrow> nat \<Rightarrow> (BNode option \<times> nat) outcome" where
  "decode toInt toLL data pos = decode_fuel toInt toLL (2 * length data + 2) data pos"

definition decodeDict :: "(bytes \<Rightarrow> int option) \<Rightarrow> (bytes \<Rightarrow> int option) \<Rightarrow> bytes \<Rightarrow> nat \<Rightarrow> (BNode option \<times> nat) outcome" where
  "decodeDict toInt toLL data pos =
     obind (decode toInt toLL data pos) (\<lambda>(n, pos').
       case n of Some (BDictNode c off len) \<Rightarrow> Return (Some (BDictNode c off len), pos') | _ \<Rightarrow> Return (None, pos'))"

definition decodeList :: "(bytes \<Rightarrow> int option) \<Rightarrow> (bytes \<Rightarrow> int option) \<Rightarrow> bytes \<Rightarrow> nat \<Rightarrow> (BNode option \<times> nat) outcome" where
  "decodeList toInt toLL data pos =
     obind (decode toInt toLL data pos) (\<lambda>(n, pos').
       case n of Some (BListNode c off len) \<Rightarrow> Return (Some (BListNode c off len), pos') | _ \<Rightarrow> Return (None, pos'))"

section \<open>Accessors\<close>

text \<open>Dictionaries are association lists in input order; a lookup finds the first entry with the key.\<close>

fun getData :: "(bytes \<Rightarrow> string) \<Rightarrow> (bytes \<times> BNode) list \<Rightarrow> string \<Rightarrow> BNode option" where
  "getData qs [] key = None"
| "getData qs (e # es) key = (if qs (fst e) = key then Some (snd e) else getData qs es key)"

fun as_dict :: "BNode option \<Rightarrow> (bytes \<times> BNode) list option" where
  "as_dict (Some (BDictNode c _ _)) = Some c"
| "as_dict _ = None"

fun as_list :: "BNode option \<Rightarrow> BNode list option" where
  "as_list (Some (BListNode c _ _)) = Some c"
| "as_list _ = None"

fun as_value :: "BNode option \<Rightarrow> BValueData option" where
  "as_value (Some (BValueNode v _ _)) = Some v"
| "as_value _ = None"

fun getDict_raw :: "(bytes \<times> BNode) list \<Rightarrow> bytes \<Rightarrow> (bytes \<times> BNode) list option" where
  "getDict_raw [] key = None"
| "getDict_raw (e # es) key = (if fst e = key then as_dict (Some (snd e)) else getDict_raw es key)"

definition getList where "getList qs d key = as_list (getData qs d key)"
definition getDict where "getDict qs d key = as_dict (getData qs d key)"
definition getValue where "getValue qs d key = as_value (getData qs d key)"

definition value_int :: "BValueData option \<Rightarrow> int outcome" where
  "value_int v = (case v of None \<Rightarrow> Throw ''Key not found in dict''
     | Some (VInt i) \<Rightarrow> Return i | Some _ \<Rightarrow> Throw ''Incompatible type'')"

definition value_int64 :: "BValueData option \<Rightarrow> int outcome" where
  "value_int64 v = (case v of None \<Rightarrow> Throw ''Key not found in dict''
     | Some (VString s) \<Rightarrow> Throw ''Incompatible type'' | Some x \<Rightarrow> Return (Value_toInt64 x))"

definition value_bytes :: "BValueData option \<Rightarrow> bytes outcome" where
  "value_bytes v = (case v of None \<Rightarrow> Throw ''Key not found in dict''
     | Some (VString s) \<Rightarrow> Return s | Some _ \<Rightarrow> Throw ''Incompatible type'')"

definition getInt where "getInt qs d key = value_int (getValue qs d key)"
definition getInt64 where "getInt64 qs d key = value_int64 (getValue qs d key)"
definition getByteArray where "getByteArray qs d key = value_bytes (getValue qs d key)"

text \<open>\<open>QList::at\<close> outside the list is undefined: the accessors of a list node are \<open>None\<close> there.\<close>

definition getChild :: "BNode list \<Rightarrow> nat \<Rightarrow> BNode option" where
  "getChild l i = (if i < length l then Some (l ! i) else None)"

definition list_getList :: "BNode list \<Rightarrow> nat \<Rightarrow> BNode list option option" where
  "list_getList l i = map_option (\<lambda>n. as_list (Some n)) (getChild l i)"

definition list_getDict :: "BNode list \<Rightarrow> nat \<Rightarrow> (bytes \<times> BNode) list option option" where
  "list_getDict l i = map_option (\<lambda>n. as_dict (Some n)) (getChild l i)"

definition list_getValue :: "BNode list \<Rightarrow> nat \<Rightarrow> BValueData option option" where
  "list_getValue l i = map_option (\<lambda>n. as_value (Some n)) (getChild l i)"

definition list_getInt :: "BNode list \<Rightarrow> nat \<Rightarrow> int outcome option" where
  "list_getInt l i = map_option value_int (list_getValue l i)"

definition list_getInt64 :: "BNode list \<Rightarrow> nat \<Rightarrow> int outcome option" where
  "list_getInt64 l i = map_option value_int64 (list_getValue l i)"

definition list_getByteArray :: "BNode list \<Rightarrow> nat \<Rightarrow> bytes outcome option" where
  "list_getByteArray l i = map_option value_bytes (list_getValue l i)"

section \<open>The encoder\<close>

text \<open>\<open>BEncoderBufferOutput\<close>: a byte array and the write position.\<close>

record BufferOutput =
  bo_data :: bytes
  bo_ptr :: nat

fun bo_copy :: "bytes \<Rightarrow> BufferOutput \<Rightarrow> BufferOutput" where
  "bo_copy [] o' = o'"
| "bo_copy (c # cs) o' = bo_copy cs (o'\<lparr>bo_data := (bo_data o')[bo_ptr o' := c], bo_ptr := bo_ptr o' + 1\<rparr>)"

definition bo_write :: "BufferOutput \<Rightarrow> bytes \<Rightarrow> BufferOutput" where
  "bo_write o' str =
     bo_copy str (if bo_ptr o' + length str > length (bo_data o')
                  then o'\<lparr>bo_data := bo_data o' @ replicate (bo_ptr o' + length str - length (bo_data o')) 0\<rparr> else o')"

definition enc_beginDict where "enc_beginDict o' = bo_write o' [100]"
definition enc_beginList where "enc_beginList o' = bo_write o' [108]"
definition enc_end where "enc_end o' = bo_write o' [101]"

definition enc_bool :: "(nat \<Rightarrow> bytes) \<Rightarrow> BufferOutput \<Rightarrow> bool \<Rightarrow> BufferOutput" where
  "enc_bool number o' b = bo_write o' ([105] @ number (if b then 1 else 0) @ [101])"

definition enc_uint :: "(nat \<Rightarrow> bytes) \<Rightarrow> BufferOutput \<Rightarrow> nat \<Rightarrow> BufferOutput" where
  "enc_uint number o' v = bo_write o' ([105] @ number v @ [101])"

definition enc_bytes :: "(nat \<Rightarrow> bytes) \<Rightarrow> BufferOutput \<Rightarrow> bytes \<Rightarrow> BufferOutput" where
  "enc_bytes number o' d = bo_write (bo_write (bo_write o' (number (length d))) [58]) d"

definition enc_data :: "(nat \<Rightarrow> bytes) \<Rightarrow> BufferOutput \<Rightarrow> bytes \<Rightarrow> BufferOutput" where
  "enc_data number o' d = bo_write (bo_write o' (number (length d) @ [58])) d"

section \<open>Termination and spans\<close>

lemma scan_until_split:
  "scan_until t xs = (n, r) \<Longrightarrow> xs = n @ r \<and> t \<notin> set n \<and> (r = [] \<or> hd r = t)"
  by (induction t xs arbitrary: n r rule: scan_until.induct) (auto split: if_splits prod.splits)

lemma scan_until_append: "t \<notin> set n \<Longrightarrow> scan_until t (n @ t # r) = (n, t # r)"
  by (induction n) auto

lemma obind_cases:
  "obind m f = Return y \<longleftrightarrow> (\<exists>x. m = Return x \<and> f x = Return y)"
  "obind m f = OutOfFuel \<longleftrightarrow> m = OutOfFuel \<or> (\<exists>x. m = Return x \<and> f x = OutOfFuel)"
  "obind m f = Throw e \<longleftrightarrow> m = Throw e \<or> (\<exists>x. m = Return x \<and> f x = Throw e)"
  by (cases m; auto)+

definition finishes :: "'a outcome \<Rightarrow> bool" where
  "finishes r \<longleftrightarrow> r \<noteq> OutOfFuel"

lemma finishes_simps [simp]: "finishes (Return x)" "finishes (Throw e)" "\<not> finishes OutOfFuel"
  by (simp_all add: finishes_def)

lemma finishes_obind: "finishes m \<Longrightarrow> (\<And>x. m = Return x \<Longrightarrow> finishes (f x)) \<Longrightarrow> finishes (obind m f)"
  by (cases m) auto

text \<open>
  \<open>spans off r\<close>: a returned node starts at \<open>off\<close>, is not empty, and its recorded length is the
  distance to the position behind it.
\<close>

definition spans :: "nat \<Rightarrow> (BNode option \<times> nat) outcome \<Rightarrow> bool" where
  "spans off r \<longleftrightarrow> (\<forall>n pos'. r = Return (n, pos') \<longrightarrow>
     (\<exists>v. n = Some v \<and> node_off v = off \<and> off < pos' \<and> off + node_len v = pos'))"

lemma spans_triv [simp]: "spans off OutOfFuel" "spans off (Throw e)"
  "spans off (Return (Some v, pos')) \<longleftrightarrow> node_off v = off \<and> off < pos' \<and> off + node_len v = pos'"
  "spans off (Return (None, pos')) = False"
  by (simp_all add: spans_def)

lemma parseInt_spans: "spans off (parseInt toInt toLL data off)" "finishes (parseInt toInt toLL data off)"
  by (auto simp: parseInt_def Let_def split: prod.splits option.splits)

lemma parseString_spans:
  assumes "off < length data" and "data ! off \<ge> 48 \<and> data ! off \<le> 57"
  shows "spans off (parseString toInt data off)" "finishes (parseString toInt data off)"
  by (auto simp: parseString_def Let_def split: prod.splits option.splits)

lemma loops_span:
  "(pos < length data \<longrightarrow> spans pos (decode_fuel toInt toLL k data pos))
   \<and> (off < pos \<longrightarrow> spans off (parseDict toInt toLL k data off pos kids))
   \<and> (off < pos \<longrightarrow> spans off (parseList toInt toLL k data off pos l))"
proof (induction k arbitrary: off pos kids l)
  case 0
  then show ?case by simp
next
  case (Suc k)
  have d: "pos < length data \<longrightarrow> spans pos (decode_fuel toInt toLL k data pos)" for pos using Suc by blast
  have dict: "spans off (parseDict toInt toLL k data off p kids)" if "off < p" for off p kids using Suc that by blast
  have list: "spans off (parseList toInt toLL k data off p l)" if "off < p" for off p l using Suc that by blast
  have b: "spans off (obind (decode_fuel toInt toLL k data p) f)"
    if "\<And>x. decode_fuel toInt toLL k data p = Return x \<Longrightarrow> spans off (f x)" for p f
    using that by (cases "decode_fuel toInt toLL k data p") auto
  have adv: "p < q" if "decode_fuel toInt toLL k data p = Return (n, q)" "p < length data" for p q n
    using d[of p] that by (auto simp: spans_def)
  have adv2: "p \<le> q" if "decode_fuel toInt toLL k data p = Return (n, q)" for p q n
  proof (cases "p < length data")
    case False
    then show ?thesis using that by (cases k) auto
  qed (use adv[OF that] in simp)
  have 1: "pos < length data \<longrightarrow> spans pos (decode_fuel toInt toLL (Suc k) data pos)"
    using dict[of pos "pos + 1"] list[of pos "pos + 1"] parseInt_spans(1) parseString_spans(1) by auto
  have 2: "off < pos \<longrightarrow> spans off (parseDict toInt toLL (Suc k) data off pos kids)"
    by (auto intro!: b dict split: option.splits BNode.splits BValueData.splits dest!: adv adv2)
  have 3: "off < pos \<longrightarrow> spans off (parseList toInt toLL (Suc k) data off pos l)"
    by (auto intro!: b list dest!: adv)
  show ?case using 1 2 3 by blast
qed

lemma fuel_enough:
  "(2 * (length data - pos) \<le> k \<longrightarrow> 1 \<le> k \<longrightarrow> finishes (decode_fuel toInt toLL k data pos))
   \<and> (2 * (length data - pos) + 1 \<le> k \<longrightarrow> finishes (parseDict toInt toLL k data off pos kids))
   \<and> (2 * (length data - pos) + 1 \<le> k \<longrightarrow> finishes (parseList toInt toLL k data off pos l))"
proof (induction k arbitrary: off pos kids l)
  case 0
  then show ?case by simp
next
  case (Suc k)
  have adv: "p < q" if "decode_fuel toInt toLL k data p = Return (n, q)" "p < length data" for p q n
    using loops_span[of p data toInt toLL k] that by (auto simp: spans_def)
  have dec: "finishes (decode_fuel toInt toLL k data p)" if "2 * (length data - p) \<le> k" "1 \<le> k" for p
    using Suc.IH that by blast
  have dict: "finishes (parseDict toInt toLL k data off p kids)" if "2 * (length data - p) + 1 \<le> k" for off p kids
    using Suc.IH that by blast
  have list: "finishes (parseList toInt toLL k data off p l)" if "2 * (length data - p) + 1 \<le> k" for off p l
    using Suc.IH that by blast
  have adv2: "p \<le> q" if "decode_fuel toInt toLL k data p = Return (n, q)" for p q n
  proof (cases "p < length data")
    case False
    then show ?thesis using that by (cases k) auto
  qed (use adv[OF that] in simp)
  have 1: "2 * (length data - pos) \<le> Suc k \<longrightarrow> 1 \<le> Suc k \<longrightarrow> finishes (decode_fuel toInt toLL (Suc k) data pos)"
    using dict[of "pos + 1" pos "[]"] list[of "pos + 1" pos "[]"] parseInt_spans(2) parseString_spans(2) by auto
  have 2: "2 * (length data - pos) + 1 \<le> Suc k \<longrightarrow> finishes (parseDict toInt toLL (Suc k) data off pos kids)"
  proof (cases "pos < length data")
    case True
    have dec': "finishes (decode_fuel toInt toLL k data q)" "q \<le> q2 \<Longrightarrow> finishes (parseDict toInt toLL k data off q2 kids)"
      if "2 * (length data - pos) \<le> k" "decode_fuel toInt toLL k data pos = Return (n, q)" for n q q2 kids
    proof -
      have "2 * (length data - q) + 1 \<le> k" "1 \<le> k" using adv[OF that(2) True] that(1) True by auto
      then show "finishes (decode_fuel toInt toLL k data q)" "q \<le> q2 \<Longrightarrow> finishes (parseDict toInt toLL k data off q2 kids)"
        using dec[of q] dict[of q2 off kids] by auto
    qed
    show ?thesis using True dec[of pos]
      by (auto intro!: finishes_obind split: option.splits BNode.splits BValueData.splits)
        (use dec' adv2 in blast)+
  qed auto
  have 3: "2 * (length data - pos) + 1 \<le> Suc k \<longrightarrow> finishes (parseList toInt toLL (Suc k) data off pos l)"
  proof (cases "pos < length data")
    case True
    have "finishes (parseList toInt toLL k data off q l)"
      if "2 * (length data - pos) \<le> k" "decode_fuel toInt toLL k data pos = Return (n, q)" for n q l
      using adv[OF that(2) True] that(1) True by (auto intro: list)
    then show ?thesis using True dec[of pos] by (auto intro!: finishes_obind)
  qed auto
  show ?case using 1 2 3 by blast
qed

section \<open>Encoding and decoding\<close>

text \<open>What the documentation of Qt says of its number conversions.\<close>

locale qt_numbers =
  fixes toInt toLongLong :: "bytes \<Rightarrow> int option" and number :: "nat \<Rightarrow> bytes"
  assumes number_digits: "number n \<noteq> [] \<and> (\<forall>c \<in> set (number n). 48 \<le> c \<and> c \<le> 57)"
    and toInt_number: "toInt (number n) = (if n < 2 ^ 31 then Some (int n) else None)"
    and toLongLong_number: "n < 2 ^ 63 \<Longrightarrow> toLongLong (number n) = Some (int n)"
    and number_length: "n < 10 ^ 20 \<Longrightarrow> length (number n) \<le> 20"
begin

lemma number_not: "c < 48 \<or> 57 < c \<Longrightarrow> c \<notin> set (number n)"
  using number_digits by fastforce

lemma number_Cons: obtains c cs where "number n = c # cs" "48 \<le> c" "c \<le> 57"
  using number_digits[of n] by (cases "number n") auto

end

text \<open>The trees a client writes, and the calls of the encoder that write them.\<close>

datatype btree = TStr bytes | TInt nat | TList "btree list" | TDict "(bytes \<times> btree) list"

fun enc_tree :: "(nat \<Rightarrow> bytes) \<Rightarrow> BufferOutput \<Rightarrow> btree \<Rightarrow> BufferOutput" where
  "enc_tree number o' (TStr s) = enc_bytes number o' s"
| "enc_tree number o' (TInt n) = enc_uint number o' n"
| "enc_tree number o' (TList ts) = enc_end (fold (\<lambda>t o'. enc_tree number o' t) ts (enc_beginList o'))"
| "enc_tree number o' (TDict es) =
     enc_end (fold (\<lambda>e o'. enc_tree number (enc_bytes number o' (fst e)) (snd e)) es (enc_beginDict o'))"

text \<open>The bytes of a tree, and the node it decodes to when it starts at an offset.\<close>

fun tree_bytes :: "(nat \<Rightarrow> bytes) \<Rightarrow> btree \<Rightarrow> bytes" where
  "tree_bytes number (TStr s) = number (length s) @ [58] @ s"
| "tree_bytes number (TInt n) = [105] @ number n @ [101]"
| "tree_bytes number (TList ts) = [108] @ concat (map (tree_bytes number) ts) @ [101]"
| "tree_bytes number (TDict es) =
     [100] @ concat (map (\<lambda>e. number (length (fst e)) @ [58] @ fst e @ tree_bytes number (snd e)) es) @ [101]"

fun node_matches :: "btree \<Rightarrow> BNode \<Rightarrow> bool" where
  "node_matches (TStr s) n \<longleftrightarrow> (case n of BValueNode (VString s') _ _ \<Rightarrow> s' = s | _ \<Rightarrow> False)"
| "node_matches (TInt i) n \<longleftrightarrow> (case n of BValueNode v _ _ \<Rightarrow> v = (if i < 2 ^ 31 then VInt (int i) else VInt64 (int i)) | _ \<Rightarrow> False)"
| "node_matches (TList ts) n \<longleftrightarrow> (case n of BListNode ns _ _ \<Rightarrow> list_all2 node_matches ts ns | _ \<Rightarrow> False)"
| "node_matches (TDict es) n \<longleftrightarrow> (case n of BDictNode ns _ _ \<Rightarrow>
      list_all2 (\<lambda>e m. fst e = fst m \<and> node_matches (snd e) (snd m)) es ns | _ \<Rightarrow> False)"

fun tree_ok :: "btree \<Rightarrow> bool" where
  "tree_ok (TStr s) \<longleftrightarrow> length s < 2 ^ 31"
| "tree_ok (TInt n) \<longleftrightarrow> n < 2 ^ 63"
| "tree_ok (TList ts) \<longleftrightarrow> (\<forall>t \<in> set ts. tree_ok t)"
| "tree_ok (TDict es) \<longleftrightarrow> (\<forall>e \<in> set es. length (fst e) < 2 ^ 31 \<and> tree_ok (snd e))"

lemma drop_prefix:
  assumes "drop p data = x # xs"
  shows "p < length data" "data ! p = x" "length data = p + length (x # xs)"
proof -
  show "p < length data" using assms by (metis drop_all list.distinct(1) not_le)
  then show "data ! p = x" "length data = p + length (x # xs)"
    using assms hd_drop_conv_nth[of p data] length_drop[of p data] by auto
qed

lemma drop_step: "drop p data = a @ b \<Longrightarrow> drop (p + length a) data = b"
  by (metis add.commute append_eq_conv_conj drop_drop)

context qt_numbers
begin

lemma decode_string:
  assumes "drop p data = number (length s) @ [58] @ s @ post" and "length s < 2 ^ 31" and "1 \<le> k"
  shows "decode_fuel toInt toLongLong k data p =
     Return (Some (BValueNode (VString s) p (length (number (length s)) + 1 + length s)),
             p + length (number (length s)) + 1 + length s)"
proof -
  obtain c cs where c: "number (length s) = c # cs" "48 \<le> c" "c \<le> 57" by (rule number_Cons)
  have "drop p data = c # (cs @ [58] @ s @ post)" using assms(1) c(1) by simp
  note d = drop_prefix[OF this]
  have n: "c \<noteq> 100" "c \<noteq> 108" "c \<noteq> 105" using c(3) by auto
  have ps: "decode_fuel toInt toLongLong k data p = parseString toInt data p"
    using d c n assms(3) by (cases k) auto
  have sc: "scan_until 58 (drop p data) = (number (length s), 58 # s @ post)"
    using scan_until_append[of 58 "number (length s)" "s @ post"] number_not[of 58 "length s"] assms(1) by simp
  have t: "toInt (number (length s)) = Some (int (length s))" using assms(2) toInt_number by simp
  have l: "\<not> p + length (number (length s)) + 1 + length s > length data" using d(3) c(1) by simp
  have "drop (p + length (number (length s)) + 1) data = s @ post"
    using drop_step[of p data "number (length s) @ [58]" "s @ post"] assms(1) by (simp add: add.assoc)
  then show ?thesis using ps sc t l by (simp add: parseString_def)
qed

lemma decode_int:
  assumes "drop p data = [105] @ number n @ [101] @ post" and "n < 2 ^ 63" and "1 \<le> k"
  shows "decode_fuel toInt toLongLong k data p =
     Return (Some (BValueNode (if n < 2 ^ 31 then VInt (int n) else VInt64 (int n)) p (length (number n) + 2)),
             p + length (number n) + 2)"
proof -
  have "drop p data = 105 # (number n @ [101] @ post)" using assms(1) by simp
  note d = drop_prefix[OF this]
  have ps: "decode_fuel toInt toLongLong k data p = parseInt toInt toLongLong data p"
    using d assms(3) by (cases k) auto
  have dr: "drop (p + 1) data = number n @ 101 # post" using drop_step[of p data "[105]"] assms(1) by simp
  have sc: "scan_until 101 (drop (p + 1) data) = (number n, 101 # post)"
    using scan_until_append[of 101 "number n" post] number_not[of 101 n] unfolding dr by simp
  show ?thesis using ps sc toInt_number[of n] toLongLong_number[OF assms(2)] by (simp add: parseInt_def)
qed

definition decodes :: "btree \<Rightarrow> bool" where
  "decodes t \<longleftrightarrow> (\<forall>k data p post. drop p data = tree_bytes number t @ post \<longrightarrow> 2 * length (tree_bytes number t) \<le> k \<longrightarrow>
     (\<exists>n. decode_fuel toInt toLongLong k data p = Return (Some n, p + length (tree_bytes number t)) \<and> node_matches t n))"

lemma decodesD:
  assumes "decodes t" and "drop p data = tree_bytes number t @ post" and "2 * length (tree_bytes number t) \<le> k"
  obtains n where "decode_fuel toInt toLongLong k data p = Return (Some n, p + length (tree_bytes number t))" "node_matches t n"
  using assms unfolding decodes_def by blast

lemma tree_bytes_start:
  obtains c cs where "tree_bytes number t = c # cs" "c \<noteq> 101"
proof (cases t)
  case (TStr s)
  obtain c cs where "number (length s) = c # cs" "48 \<le> c" "c \<le> 57" by (rule number_Cons)
  then show ?thesis using TStr that[of c] by fastforce
qed (use that in auto)

lemma parseList_bytes:
  assumes "\<forall>t \<in> set ts. decodes t" and "drop p data = concat (map (tree_bytes number) ts) @ [101] @ post"
    and "2 * length (concat (map (tree_bytes number) ts) @ [101]) \<le> k"
    and "off \<le> p"
  shows "\<exists>ns. parseList toInt toLongLong k data off p l =
      Return (Some (BListNode (l @ ns) off (p + length (concat (map (tree_bytes number) ts)) + 1 - off)),
              p + length (concat (map (tree_bytes number) ts)) + 1) \<and> list_all2 node_matches ts ns"
  using assms
proof (induction ts arbitrary: p k l)
  case Nil
  then obtain k' where "k = Suc k'" by (cases k) auto
  moreover have "data ! p = 101" using drop_prefix[of p data 101 post] Nil.prems(2) by simp
  ultimately show ?case by simp
next
  case (Cons t ts)
  obtain k' where k: "k = Suc k'" using Cons.prems(3) by (cases k) auto
  let ?r = "concat (map (tree_bytes number) ts)"
  have dr: "drop p data = tree_bytes number t @ (?r @ [101] @ post)" using Cons.prems(2) by simp
  obtain c cs where c: "tree_bytes number t = c # cs" "c \<noteq> 101" by (rule tree_bytes_start)
  have "drop p data = c # (cs @ ?r @ [101] @ post)" using dr c by simp
  note d = drop_prefix[OF this]
  have "2 * length (tree_bytes number t) \<le> k'" using Cons.prems(3) k by simp
  with decodesD[OF _ dr] Cons.prems(1) obtain n
    where n: "decode_fuel toInt toLongLong k' data p = Return (Some n, p + length (tree_bytes number t))" "node_matches t n"
    by auto
  have "1 \<le> length (tree_bytes number t)" using c(1) by simp
  then have "2 * length (?r @ [101]) \<le> k'" using Cons.prems(3) k by simp
  then obtain ns where "parseList toInt toLongLong k' data off (p + length (tree_bytes number t)) (l @ [n]) =
      Return (Some (BListNode ((l @ [n]) @ ns) off (p + length (tree_bytes number t) + length ?r + 1 - off)),
              p + length (tree_bytes number t) + length ?r + 1)" "list_all2 node_matches ts ns"
    using Cons.IH[of "p + length (tree_bytes number t)" k' "l @ [n]"] Cons.prems(1,4) drop_step[OF dr] by auto
  then show ?case using d c(2) k n by (intro exI[of _ "n # ns"]) (simp add: add.assoc)
qed

definition entry_bytes :: "bytes \<times> btree \<Rightarrow> bytes" where
  "entry_bytes e = number (length (fst e)) @ [58] @ fst e @ tree_bytes number (snd e)"

lemma parseDict_bytes:
  assumes "\<forall>e \<in> set es. length (fst e) < 2 ^ 31 \<and> decodes (snd e)"
    and "drop p data = concat (map entry_bytes es) @ [101] @ post"
    and "2 * length (concat (map entry_bytes es) @ [101]) \<le> k"
    and "off \<le> p"
  shows "\<exists>ns. parseDict toInt toLongLong k data off p l =
      Return (Some (BDictNode (l @ ns) off (p + length (concat (map entry_bytes es)) + 1 - off)),
              p + length (concat (map entry_bytes es)) + 1)
      \<and> list_all2 (\<lambda>e m. fst e = fst m \<and> node_matches (snd e) (snd m)) es ns"
  using assms
proof (induction es arbitrary: p k l)
  case Nil
  then obtain k' where "k = Suc k'" by (cases k) auto
  moreover have "data ! p = 101" using drop_prefix[of p data 101 post] Nil.prems(2) by simp
  ultimately show ?case by simp
next
  case (Cons e es)
  obtain k' where k: "k = Suc k'" using Cons.prems(3) by (cases k) auto
  let ?r = "concat (map entry_bytes es)" and ?n = "number (length (fst e))" and ?v = "tree_bytes number (snd e)"
  let ?q = "p + length ?n + 1 + length (fst e)"
  have dr: "drop p data = ?n @ [58] @ fst e @ (?v @ ?r @ [101] @ post)" using Cons.prems(2) by (simp add: entry_bytes_def[of e])
  obtain c cs where c: "?n = c # cs" "48 \<le> c" "c \<le> 57" by (rule number_Cons)
  have "drop p data = c # (cs @ [58] @ fst e @ ?v @ ?r @ [101] @ post)" using dr c(1) by simp
  note d = drop_prefix[OF this]
  have len: "length (entry_bytes e) = length ?n + 1 + length (fst e) + length ?v" by (simp add: entry_bytes_def)
  have key: "decode_fuel toInt toLongLong k' data p = Return (Some (BValueNode (VString (fst e)) p (length ?n + 1 + length (fst e))), ?q)"
    by (rule decode_string[OF dr]) (use Cons.prems(1,3) k len in auto)
  have dv: "drop ?q data = ?v @ (?r @ [101] @ post)"
    using drop_step[of p data "?n @ [58] @ fst e"] dr by (simp add: add.assoc)
  have "2 * length ?v \<le> k'" using Cons.prems(3) k len by simp
  with decodesD[OF _ dv] Cons.prems(1) obtain n
    where n: "decode_fuel toInt toLongLong k' data ?q = Return (Some n, ?q + length ?v)" "node_matches (snd e) n" by auto
  have "2 * length (?r @ [101]) \<le> k'" using Cons.prems(3) k len by simp
  then obtain ns where "parseDict toInt toLongLong k' data off (?q + length ?v) (l @ [(fst e, n)]) =
      Return (Some (BDictNode ((l @ [(fst e, n)]) @ ns) off (?q + length ?v + length ?r + 1 - off)), ?q + length ?v + length ?r + 1)"
      "list_all2 (\<lambda>e m. fst e = fst m \<and> node_matches (snd e) (snd m)) es ns"
    using Cons.IH[of "?q + length ?v" k' "l @ [(fst e, n)]"] Cons.prems(1,4) drop_step[OF dv] by auto
  moreover have "?q + length ?v + length ?r + 1 = p + length (concat (map entry_bytes (e # es))) + 1" using len by simp
  moreover have "c \<noteq> 101" using c(3) by auto
  ultimately show ?case using d k key n by (intro exI[of _ "(fst e, n) # ns"]) simp
qed

lemma tree_decodes: "tree_ok t \<Longrightarrow> decodes t"
proof (induction t)
  case (TStr s)
  then show ?case using decode_string[of _ _ s] by (fastforce simp: decodes_def)
next
  case (TInt n)
  then show ?case using decode_int[of _ _ n] by (fastforce simp: decodes_def)
next
  case (TList ts)
  then have ts: "\<forall>t \<in> set ts. decodes t" by simp
  let ?r = "concat (map (tree_bytes number) ts)"
  show ?case unfolding decodes_def
  proof (intro allI impI)
    fix k data p post
    assume dr: "drop p data = tree_bytes number (TList ts) @ post" and k: "2 * length (tree_bytes number (TList ts)) \<le> k"
    then obtain k' where k': "k = Suc k'" by (cases k) auto
    have "drop p data = 108 # (?r @ [101] @ post)" using dr by simp
    note d = drop_prefix[OF this]
    have "drop (p + 1) data = ?r @ [101] @ post" using drop_step[of p data "[108]"] dr by simp
    with parseList_bytes[OF ts this, of k' p "[]"] k k' obtain ns where
      "parseList toInt toLongLong k' data p (p + 1) [] = Return (Some (BListNode ns p (p + 1 + length ?r + 1 - p)), p + 1 + length ?r + 1)"
      "list_all2 node_matches ts ns" by auto
    then show "\<exists>n. decode_fuel toInt toLongLong k data p = Return (Some n, p + length (tree_bytes number (TList ts))) \<and> node_matches (TList ts) n"
      using d k' by auto
  qed
next
  case (TDict es)
  then have es: "\<forall>e \<in> set es. length (fst e) < 2 ^ 31 \<and> decodes (snd e)" by (force intro: snds.intros)
  let ?r = "concat (map entry_bytes es)"
  have tb: "tree_bytes number (TDict es) = [100] @ ?r @ [101]" by (simp add: entry_bytes_def[abs_def])
  show ?case unfolding decodes_def
  proof (intro allI impI)
    fix k data p post
    assume dr: "drop p data = tree_bytes number (TDict es) @ post" and k: "2 * length (tree_bytes number (TDict es)) \<le> k"
    then obtain k' where k': "k = Suc k'" by (cases k) auto
    have "drop p data = 100 # (?r @ [101] @ post)" using dr tb by simp
    note d = drop_prefix[OF this]
    have "drop (p + 1) data = ?r @ [101] @ post" using drop_step[of p data "[100]"] dr tb by simp
    with parseDict_bytes[OF es this, of k' p "[]"] k k' tb obtain ns where
      "parseDict toInt toLongLong k' data p (p + 1) [] = Return (Some (BDictNode ns p (p + 1 + length ?r + 1 - p)), p + 1 + length ?r + 1)"
      "list_all2 (\<lambda>e m. fst e = fst m \<and> node_matches (snd e) (snd m)) es ns" by auto
    then show "\<exists>n. decode_fuel toInt toLongLong k data p = Return (Some n, p + length (tree_bytes number (TDict es))) \<and> node_matches (TDict es) n"
      using d k' tb by auto
  qed
qed

end

section \<open>The encoder appends\<close>

definition bo_at_end :: "BufferOutput \<Rightarrow> bool" where
  "bo_at_end o' \<longleftrightarrow> bo_ptr o' = length (bo_data o')"

lemma bo_copy_law:
  "bo_data o' = a @ old \<Longrightarrow> length old = length str \<Longrightarrow> bo_ptr o' = length a \<Longrightarrow>
   bo_copy str o' = o'\<lparr>bo_data := a @ str, bo_ptr := length a + length str\<rparr>"
proof (induction str arbitrary: o' a old)
  case (Cons c cs)
  then obtain x xs where old: "old = x # xs" by (cases old) auto
  have "(bo_data o')[bo_ptr o' := c] = (a @ [c]) @ xs" using Cons.prems old by (simp add: list_update_append)
  then show ?case
    using Cons.IH[of "o'\<lparr>bo_data := (bo_data o')[bo_ptr o' := c], bo_ptr := bo_ptr o' + 1\<rparr>" "a @ [c]" xs] Cons.prems old by simp
qed simp

lemma bo_write_append:
  assumes "bo_at_end o'"
  shows "bo_data (bo_write o' str) = bo_data o' @ str" "bo_at_end (bo_write o' str)"
proof -
  have "bo_write o' str = o'\<lparr>bo_data := bo_data o' @ str, bo_ptr := length (bo_data o') + length str\<rparr>"
  proof (cases "str = []")
    case True
    then show ?thesis using assms by (simp add: bo_write_def bo_at_end_def)
  next
    case False
    let ?o = "o'\<lparr>bo_data := bo_data o' @ replicate (length str) 0\<rparr>"
    have "bo_write o' str = bo_copy str ?o" using assms False by (simp add: bo_write_def bo_at_end_def)
    also have "\<dots> = ?o\<lparr>bo_data := bo_data o' @ str, bo_ptr := length (bo_data o') + length str\<rparr>"
      using assms by (intro bo_copy_law[of _ _ "replicate (length str) 0"]) (simp_all add: bo_at_end_def)
    finally show ?thesis by simp
  qed
  then show "bo_data (bo_write o' str) = bo_data o' @ str" "bo_at_end (bo_write o' str)" by (simp_all add: bo_at_end_def)
qed

lemma enc_bytes_append:
  "bo_at_end o' \<Longrightarrow> bo_data (enc_bytes number o' d) = bo_data o' @ number (length d) @ [58] @ d \<and> bo_at_end (enc_bytes number o' d)"
  by (simp add: enc_bytes_def bo_write_append)

lemma enc_appends:
  assumes "bo_at_end o'"
  shows "bo_at_end (enc_beginDict o')" "bo_at_end (enc_end o')" "bo_at_end (enc_uint number o' n)" "bo_at_end (enc_bytes number o' d)"
    "bo_data (enc_beginDict o') = bo_data o' @ [100]" "bo_data (enc_end o') = bo_data o' @ [101]"
    "bo_data (enc_uint number o' n) = bo_data o' @ [105] @ number n @ [101]"
    "bo_data (enc_bytes number o' d) = bo_data o' @ number (length d) @ [58] @ d"
  using assms enc_bytes_append[OF assms]
  by (auto simp: enc_beginDict_def enc_end_def enc_uint_def bo_write_append)

text \<open>Reading an entry of a dictionary that was written: the first entry with the key.\<close>

fun tree_lookup :: "(bytes \<Rightarrow> string) \<Rightarrow> (bytes \<times> btree) list \<Rightarrow> string \<Rightarrow> btree option" where
  "tree_lookup qs [] key = None"
| "tree_lookup qs (e # es) key = (if qs (fst e) = key then Some (snd e) else tree_lookup qs es key)"

lemma getData_matches:
  "list_all2 (\<lambda>e m. fst e = fst m \<and> node_matches (snd e) (snd m)) es ns \<Longrightarrow>
   (case tree_lookup qs es key of None \<Rightarrow> getData qs ns key = None
    | Some t \<Rightarrow> \<exists>v. getData qs ns key = Some v \<and> node_matches t v)"
  by (induction es ns rule: list_all2_induct) (auto split: option.splits)

lemma fold_appends:
  assumes "\<And>x o'. x \<in> set xs \<Longrightarrow> bo_at_end o' \<Longrightarrow> bo_data (f x o') = bo_data o' @ g x \<and> bo_at_end (f x o')" and "bo_at_end o'"
  shows "bo_data (fold f xs o') = bo_data o' @ concat (map g xs) \<and> bo_at_end (fold f xs o')"
  using assms by (induction xs arbitrary: o') auto

lemma enc_tree_append:
  "bo_at_end o' \<Longrightarrow> bo_data (enc_tree number o' t) = bo_data o' @ tree_bytes number t \<and> bo_at_end (enc_tree number o' t)"
proof (induction t arbitrary: o')
  case (TStr s)
  then show ?case by (simp add: enc_bytes_append)
next
  case (TInt n)
  then show ?case by (simp add: enc_uint_def bo_write_append)
next
  case (TList ts)
  have b: "bo_at_end (enc_beginList o')" "bo_data (enc_beginList o') = bo_data o' @ [108]"
    using TList.prems by (simp_all add: enc_beginList_def bo_write_append)
  have "bo_data (fold (\<lambda>t o'. enc_tree number o' t) ts (enc_beginList o')) = bo_data (enc_beginList o') @ concat (map (tree_bytes number) ts)
     \<and> bo_at_end (fold (\<lambda>t o'. enc_tree number o' t) ts (enc_beginList o'))"
    using TList.IH b(1) by (intro fold_appends) auto
  then show ?case using b(2) by (simp add: enc_end_def bo_write_append)
next
  case (TDict es)
  have b: "bo_at_end (enc_beginDict o')" "bo_data (enc_beginDict o') = bo_data o' @ [100]"
    using TDict.prems by (simp_all add: enc_beginDict_def bo_write_append)
  let ?f = "\<lambda>e o'. enc_tree number (enc_bytes number o' (fst e)) (snd e)"
  let ?g = "\<lambda>e. number (length (fst e)) @ [58] @ fst e @ tree_bytes number (snd e)"
  have "bo_data (?f e o2) = bo_data o2 @ ?g e \<and> bo_at_end (?f e o2)" if "e \<in> set es" "bo_at_end o2" for e o2
    using TDict.IH[of e "snd e" "enc_bytes number o2 (fst e)"] that enc_bytes_append[of o2 number "fst e"]
    by (auto intro: snds.intros)
  then have "bo_data (fold ?f es (enc_beginDict o')) = bo_data (enc_beginDict o') @ concat (map ?g es) \<and> bo_at_end (fold ?f es (enc_beginDict o'))"
    using b(1) by (intro fold_appends) auto
  then show ?case using b(2) by (simp add: enc_end_def bo_write_append)
qed

section \<open>Reading back what was written\<close>

text \<open>The bytes of a text of ASCII characters, as \<open>toUtf8\<close> gives them.\<close>

definition ascii :: "string \<Rightarrow> bytes" where
  "ascii s = map (\<lambda>c. word_of_nat (of_char c)) s"

lemma ascii_qstring: "map (\<lambda>b. char_of (unat b)) (ascii s) = s"
proof -
  have "char_of (unat (word_of_nat (of_char c) :: u8)) = c" for c :: char
  proof -
    have "(of_char c :: nat) < 256" by simp
    then have "unat (word_of_nat (of_char c) :: u8) = of_char c" unfolding unsigned_of_nat by (simp add: take_bit_nat_eq_self)
    then show ?thesis by simp
  qed
  then show ?thesis by (induction s) (simp_all add: ascii_def)
qed

lemma enc_data_append:
  "bo_at_end o' \<Longrightarrow> bo_data (enc_data number o' d) = bo_data o' @ number (length d) @ [58] @ d \<and> bo_at_end (enc_data number o' d)"
  by (simp add: enc_data_def bo_write_append)

lemma decode_tree:
  assumes "qt_numbers toInt toLL number" and "tree_ok t" and "drop p data = tree_bytes number t"
  obtains v where "decode toInt toLL data p = Return (Some v, p + length (tree_bytes number t))" "node_matches t v"
proof -
  have dec: "qt_numbers.decodes toInt toLL number t" using assms(1,2) by (rule qt_numbers.tree_decodes)
  have dr: "drop p data = tree_bytes number t @ []" using assms(3) by simp
  have "length (tree_bytes number t) \<le> length data" using assms(3) by (metis diff_le_self length_drop)
  then have fuel: "2 * length (tree_bytes number t) \<le> 2 * length data + 2" by simp
  show ?thesis by (rule qt_numbers.decodesD[OF assms(1) dec dr fuel]) (use that in \<open>simp add: decode_def\<close>)
qed

lemma node_matchesD:
  "node_matches (TInt i) v \<Longrightarrow> \<exists>off len. v = BValueNode (if i < 2 ^ 31 then VInt (int i) else VInt64 (int i)) off len"
  "node_matches (TStr s) v \<Longrightarrow> \<exists>off len. v = BValueNode (VString s) off len"
  "node_matches (TDict es) v \<Longrightarrow> \<exists>ns off len. v = BDictNode ns off len
     \<and> list_all2 (\<lambda>e m. fst e = fst m \<and> node_matches (snd e) (snd m)) es ns"
  "node_matches (TList ts) v \<Longrightarrow> \<exists>ns off len. v = BListNode ns off len \<and> list_all2 node_matches ts ns"
proof -
  show "\<exists>off len. v = BValueNode (VString s) off len" if "node_matches (TStr s) v"
  proof (cases v)
    case (BValueNode d off len)
    then show ?thesis using that by (cases d) auto
  qed (use that in auto)
qed (cases v; auto)+

lemma node_matches_dictD:
  assumes "node_matches (TDict es) v"
  obtains ns off len where "v = BDictNode ns off len" "list_all2 (\<lambda>e m. fst e = fst m \<and> node_matches (snd e) (snd m)) es ns"
  using node_matchesD(3)[OF assms] by blast

text \<open>Looking up a written entry gives the value that was written.\<close>

lemma getValue_written:
  assumes "list_all2 (\<lambda>e m. fst e = fst m \<and> node_matches (snd e) (snd m)) es ns"
  shows "tree_lookup qs es key = Some (TInt i) \<Longrightarrow> i < 2 ^ 31 \<Longrightarrow> getValue qs ns key = Some (VInt (int i))"
    and "tree_lookup qs es key = Some (TStr s) \<Longrightarrow> getValue qs ns key = Some (VString s)"
    and "tree_lookup qs es key = None \<Longrightarrow> getValue qs ns key = None"
    and "tree_lookup qs es key = Some (TDict es') \<Longrightarrow> \<exists>ns'. getDict qs ns key = Some ns'
          \<and> list_all2 (\<lambda>e m. fst e = fst m \<and> node_matches (snd e) (snd m)) es' ns'"
    and "tree_lookup qs es key = Some (TList ts) \<Longrightarrow> \<exists>ns'. getList qs ns key = Some ns' \<and> list_all2 node_matches ts ns'"
    and "tree_lookup qs es key = None \<Longrightarrow> getList qs ns key = None"
  using getData_matches[OF assms, of qs key]
  by (auto simp: getValue_def getDict_def getList_def simp del: node_matches.simps dest!: node_matchesD)

section \<open>Decimal numbers\<close>

text \<open>The decimal notation, an instance of what the library documents.\<close>

fun dec_number :: "nat \<Rightarrow> bytes" where
  "dec_number n = (if n < 10 then [word_of_nat (48 + n)] else dec_number (n div 10) @ [word_of_nat (48 + n mod 10)])"

declare dec_number.simps [simp del]

definition dec_value :: "bytes \<Rightarrow> nat" where
  "dec_value s = foldl (\<lambda>a c. 10 * a + (unat c - 48)) 0 s"

definition dec_parse :: "nat \<Rightarrow> bytes \<Rightarrow> int option" where
  "dec_parse limit s = (if s \<noteq> [] \<and> list_all (\<lambda>c. 48 \<le> c \<and> c \<le> 57) s \<and> dec_value s < limit
     then Some (int (dec_value s)) else None)"

lemma digit_char:
  assumes "d < 10"
  shows "unat (word_of_nat (48 + d) :: u8) = 48 + d" "48 \<le> (word_of_nat (48 + d) :: u8)" "(word_of_nat (48 + d) :: u8) \<le> 57"
proof -
  show u: "unat (word_of_nat (48 + d) :: u8) = 48 + d"
    unfolding unsigned_of_nat using assms by (simp add: take_bit_nat_eq_self)
  show "48 \<le> (word_of_nat (48 + d) :: u8)" "(word_of_nat (48 + d) :: u8) \<le> 57" using assms u by (simp_all only: word_le_nat_alt) simp_all
qed

lemma dec_number_law:
  "dec_number n \<noteq> [] \<and> (\<forall>c \<in> set (dec_number n). 48 \<le> c \<and> c \<le> 57) \<and> dec_value (dec_number n) = n"
proof (induction n rule: dec_number.induct)
  case (1 n)
  show ?case
  proof (cases "n < 10")
    case True
    have "dec_number n = [word_of_nat (48 + n)]" using True by (simp only: dec_number.simps[of n] if_True)
    then show ?thesis using digit_char[OF True] by (simp add: dec_value_def del: of_nat_add)
  next
    case False
    have "dec_number n = dec_number (n div 10) @ [word_of_nat (48 + n mod 10)]"
      using False by (simp only: dec_number.simps[of n] if_False)
    then show ?thesis using 1[OF False] digit_char[of "n mod 10"] by (simp add: dec_value_def del: of_nat_add)
  qed
qed

lemma dec_number_length: "0 < k \<Longrightarrow> n < 10 ^ k \<Longrightarrow> length (dec_number n) \<le> k"
proof (induction k arbitrary: n)
  case (Suc k)
  show ?case
  proof (cases "n < 10")
    case True
    then show ?thesis by (simp only: dec_number.simps[of n] if_True) simp
  next
    case False
    then have "0 < k" using Suc.prems by (cases k) auto
    moreover have "n div 10 < 10 ^ k" using Suc.prems(2) by (simp add: less_mult_imp_div_less mult.commute)
    ultimately have "length (dec_number (n div 10)) \<le> k" by (rule Suc.IH)
    then show ?thesis using False by (simp only: dec_number.simps[of n] if_False) simp
  qed
qed simp

interpretation dec: qt_numbers "dec_parse (2 ^ 31)" "dec_parse (2 ^ 63)" dec_number
proof unfold_locales
  fix n
  note l = dec_number_law[of n]
  show "dec_number n \<noteq> [] \<and> (\<forall>c \<in> set (dec_number n). 48 \<le> c \<and> c \<le> 57)" using l by blast
  then have p: "dec_parse limit (dec_number n) = (if n < limit then Some (int n) else None)" for limit
    using l by (simp add: dec_parse_def list_all_iff)
  show "dec_parse (2 ^ 31) (dec_number n) = (if n < 2 ^ 31 then Some (int n) else None)" by (rule p)
  show "dec_parse (2 ^ 63) (dec_number n) = Some (int n)" if "n < 2 ^ 63" unfolding p using that by (rule if_P)
  show "length (dec_number n) \<le> 20" if "n < 10 ^ 20" using dec_number_length[OF _ that] by simp
qed

section \<open>Properties\<close>

text \<open>
  C21. What a client writes with the encoder into a memory buffer, the decoder reads back: every
  tree of strings, numbers, lists and dictionaries decodes to a node with the same content that
  spans the whole buffer.
\<close>

theorem Bencode_roundtrip:
  assumes "qt_numbers toInt toLongLong number" and "tree_ok t"
  defines "out \<equiv> bo_data (enc_tree number \<lparr>bo_data = [], bo_ptr = 0\<rparr> t)"
  shows "\<exists>n. decode toInt toLongLong out 0 = Return (Some n, length out) \<and> node_matches t n
     \<and> node_off n = 0 \<and> node_len n = length out"
proof -
  have out: "out = tree_bytes number t"
    using enc_tree_append[of "\<lparr>bo_data = [], bo_ptr = 0\<rparr>" number t] by (simp add: out_def bo_at_end_def)
  have dec: "qt_numbers.decodes toInt toLongLong number t" using assms(1,2) by (rule qt_numbers.tree_decodes)
  have dr: "drop 0 out = tree_bytes number t @ []" by (simp add: out)
  have fuel: "2 * length (tree_bytes number t) \<le> 2 * length out + 2" by (simp add: out)
  obtain n where n: "decode_fuel toInt toLongLong (2 * length out + 2) out 0 = Return (Some n, 0 + length (tree_bytes number t))"
      "node_matches t n"
    by (rule qt_numbers.decodesD[OF assms(1) dec dr fuel])
  obtain c cs where "tree_bytes number t = c # cs" by (rule qt_numbers.tree_bytes_start[OF assms(1)])
  then have "0 < length out" by (simp add: out)
  then have "spans 0 (decode toInt toLongLong out 0)" unfolding decode_def using loops_span by blast
  moreover have "decode toInt toLongLong out 0 = Return (Some n, length out)" unfolding decode_def n(1) by (simp add: out)
  ultimately show ?thesis using n(2) by (auto simp: spans_def)
qed

theorem Bencode_roundtrip_witness:
  "\<exists>n. decode (dec_parse (2 ^ 31)) (dec_parse (2 ^ 63))
        (bo_data (enc_tree dec_number \<lparr>bo_data = [], bo_ptr = 0\<rparr> (TDict [([97], TInt 5), ([98], TList [TStr [1, 2]])]))) 0
      = Return (Some n, length (bo_data (enc_tree dec_number \<lparr>bo_data = [], bo_ptr = 0\<rparr> (TDict [([97], TInt 5), ([98], TList [TStr [1, 2]])]))))"
  using Bencode_roundtrip[OF dec.qt_numbers_axioms, of "TDict [([97], TInt 5), ([98], TList [TStr [1, 2]])]"] by auto

text \<open>
  C22. The decoder terminates on every input: it throws or returns, and what it returns is nothing at
  the end of the input and otherwise a node that starts at the position given, is not empty, and
  whose recorded length leads exactly to the new position.
\<close>

theorem decode_total:
  "decode toInt toLL data pos \<noteq> OutOfFuel
   \<and> (pos \<ge> length data \<longrightarrow> decode toInt toLL data pos = Return (None, pos))
   \<and> (pos < length data \<longrightarrow> spans pos (decode toInt toLL data pos))"
  using fuel_enough[of data pos "2 * length data + 2" toInt toLL] loops_span[of pos data toInt toLL "2 * length data + 2"]
  by (auto simp: decode_def finishes_def)

theorem decode_total_witness:
  "decode (dec_parse (2 ^ 31)) (dec_parse (2 ^ 63)) [108] 0 \<noteq> OutOfFuel \<and> spans 0 (decode (dec_parse (2 ^ 31)) (dec_parse (2 ^ 63)) [108] 0)"
  using decode_total[of "dec_parse (2 ^ 31)" "dec_parse (2 ^ 63)" "[108]" 0] by simp

text \<open>
  Containers are not required to be closed: an input of opening brackets alone, of any depth, is
  accepted as nested lists, and the recorded length of the root is twice the size of the input,
  one byte beyond it for every list that was left open.
\<close>

theorem decode_accepts_truncated:
  assumes "0 < m"
  shows "\<exists>v. decode toInt toLL (replicate m 108) 0 = Return (Some v, 2 * m) \<and> node_len v = 2 * m"
proof -
  let ?d = "replicate m 108 :: bytes"
  have "\<exists>v. decode_fuel toInt toLL k ?d p = Return (Some v, m + (m - p))"
    if "p < m" "2 * (m - p) \<le> k" for p k
    using that
  proof (induction "m - p" arbitrary: p k)
    case (Suc x)
    then obtain k' where k: "k = Suc (Suc k')" by (cases k; cases "k - 1") auto
    have d: "decode_fuel toInt toLL k ?d p = parseList toInt toLL (Suc k') ?d p (p + 1) []" using Suc.prems k by simp
    show ?case
    proof (cases "p + 1 < m")
      case True
      then have "x = m - (p + 1)" "2 * (m - (p + 1)) \<le> k'" using Suc.hyps(2) Suc.prems k by auto
      then obtain v where "decode_fuel toInt toLL k' ?d (p + 1) = Return (Some v, m + (m - (p + 1)))"
        using Suc.hyps(1)[of "p + 1" k'] True by auto
      then show ?thesis using d True k Suc.prems by (cases k') auto
    next
      case False
      then have "p + 1 = m" using Suc.prems by simp
      then show ?thesis using d by auto
    qed
  qed simp
  from this[of 0 "2 * m + 2"] obtain v where v: "decode toInt toLL ?d 0 = Return (Some v, 2 * m)"
    using assms by (auto simp: decode_def)
  moreover have "spans 0 (decode toInt toLL ?d 0)" 
  proof -
    have "0 < length ?d" using assms by simp
    then show ?thesis unfolding decode_def using loops_span by blast
  qed
  ultimately show ?thesis by (auto simp: spans_def)
qed

theorem decode_accepts_truncated_witness:
  "\<exists>v. decode (dec_parse (2 ^ 31)) (dec_parse (2 ^ 63)) (replicate 3 108) 0 = Return (Some v, 2 * 3)"
  using decode_accepts_truncated[of 3 "dec_parse (2 ^ 31)" "dec_parse (2 ^ 63)"] by fastforce

end
