(* ===== verification/Peer.thy ===== *)
theory Peer
  imports Bencode Packet_Socket
begin

text \<open>
  One connection to another client: the classes \<open>Peer\<close> (\<open>src/peer/peer.cpp\<close>), \<open>PeerDownloader\<close>
  (\<open>peerdownloader.cpp\<close>), \<open>PeerUploader\<close> (\<open>peeruploader.cpp\<close>) and their base classes
  \<open>PeerInterface\<close> and \<open>PieceDownloader\<close>. The three objects point at each other and are created and
  destroyed together, so one record holds the state of all of them: fields \<open>p_\<close> of the peer and
  its statistics, \<open>d_\<close> of the downloader, \<open>u_\<close> of the uploader.

  Inputs a call takes from elsewhere (the clock, the measured rates, whether the socket is still
  open, the settings) are fields of \<open>Env\<close>. Calls into the peer manager and signals to the chunk
  downloads are synchronous callbacks, which may call back into the peer: they are the function
  \<open>e_notify\<close>, whose first argument says which call it is. Results are \<open>None\<close> when the code would
  touch memory outside an array. The percentage of the file, names and addresses of a peer and
  the advanced choke score are statistics for display and are left out.
\<close>

section \<open>State\<close>

record TimeStampedRequest =
  tr_req :: Request
  tr_time :: nat

record Peer =
  p_killed :: bool
  p_paused :: bool
  p_choked :: bool
  p_interested :: bool
  p_am_interested :: bool
  p_has_upload_slot :: bool
  p_fast_extensions :: bool
  p_extension_protocol :: bool
  p_partial_seed :: bool
  p_snubbed :: bool
  p_bytes_downloaded :: nat
  p_bytes_uploaded :: nat
  p_bytes_since_unchoke :: nat
  p_time_choked :: nat
  p_time_unchoked :: nat
  p_num_up_requests :: nat
  p_num_down_requests :: nat
  p_max_request_queue :: nat
  p_download_rate :: nat
  p_upload_rate :: nat
  p_avail :: BitSet
  p_received_have :: bool
  p_sock :: PacketSocket
  p_sock_closed :: bool
  p_token :: bool
  p_reader :: PacketReader
  p_stalled_last :: nat
  p_snub_last :: nat
  p_extensions :: "nat \<Rightarrow> nat option"
  p_ut_pex_id :: nat
  p_pex_allowed :: bool
  d_alive :: bool
  d_reqs :: "TimeStampedRequest list"
  d_wait_queue :: "Request list"
  d_max_wait_queue_size :: nat
  d_pieces_in_chunk :: nat
  d_grabbed :: int
  d_nearly_done :: bool
  u_requests :: "Request list"
  u_uploaded :: nat

datatype PeerEvent =
    RerunChoker
  | HaveReceived nat
  | BitSetReceived BitSet
  | PieceReceived Request bytes
  | PortPacketReceived u16
  | Rejected Request
  | TimedOut Request
  | ExtensionPacket nat bytes
  | ExtensionUpdate

record Env =
  e_now :: nat
  e_down_rate :: nat
  e_up_rate :: nat
  e_sock_ok :: bool
  e_torrent_loaded :: bool
  e_pex_enabled :: bool
  e_toInt :: "bytes \<Rightarrow> int option"
  e_toLongLong :: "bytes \<Rightarrow> int option"
  e_qstring :: "bytes \<Rightarrow> string"
  e_garbage :: int
  e_notify :: "PeerEvent \<Rightarrow> Peer \<Rightarrow> Peer"

definition DHT_SUPPORT :: u32w where "DHT_SUPPORT = 1"
definition EXT_PROT_SUPPORT :: u32w where "EXT_PROT_SUPPORT = 0x10"
definition FAST_EXT_SUPPORT :: u32w where "FAST_EXT_SUPPORT = 4"
definition UT_PEX_ID :: nat where "UT_PEX_ID = 1"
definition UT_METADATA_ID :: nat where "UT_METADATA_ID = 2"

definition max_packet_len :: "nat \<Rightarrow> nat" where
  "max_packet_len num_chunks =
     (let mpl = 9 + MAX_PIECE_LEN; bl = num_chunks div 8 + 1 + (if num_chunks mod 8 = 0 then 0 else 1)
      in if bl > mpl then bl else mpl)"

definition Peer_kill :: "Peer \<Rightarrow> Peer" where
  "Peer_kill p = p\<lparr>p_sock_closed := True, p_killed := True, p_token := False\<rparr>"

definition PeerInterface_init :: "nat \<Rightarrow> nat \<Rightarrow> Peer" where
  \<comment> \<open>the members that the constructors set before the body of \<open>Peer::Peer\<close> runs\<close>
  "PeerInterface_init now num_chunks =
     \<lparr>p_killed = False, p_paused = False, p_choked = True, p_interested = False, p_am_interested = False,
      p_has_upload_slot = False, p_fast_extensions = False, p_extension_protocol = False,
      p_partial_seed = False, p_snubbed = False, p_bytes_downloaded = 0, p_bytes_uploaded = 0,
      p_bytes_since_unchoke = 0, p_time_choked = now, p_time_unchoked = 0, p_num_up_requests = 0,
      p_num_down_requests = 0, p_max_request_queue = 0, p_download_rate = 0, p_upload_rate = 0,
      p_avail = BitSet_new num_chunks, p_received_have = False, p_sock = PacketSocket_new,
      p_sock_closed = False, p_token = True, p_reader = PacketReader_new 0, p_stalled_last = now,
      p_snub_last = now, p_extensions = (\<lambda>_. None), p_ut_pex_id = 0, p_pex_allowed = False,
      d_alive = True, d_reqs = [], d_wait_queue = [], d_max_wait_queue_size = 25, d_pieces_in_chunk = 0,
      d_grabbed = 0, d_nearly_done = False, u_requests = [], u_uploaded = 0\<rparr>"

definition Peer_new :: "Env \<Rightarrow> nat \<Rightarrow> nat \<Rightarrow> u32w \<Rightarrow> bool \<Rightarrow> Peer" where
  \<comment> \<open>\<open>null_addr\<close>: the address of the peer is 0.0.0.0\<close>
  "Peer_new e num_chunks chunk_size support null_addr =
     (let p = (PeerInterface_init (e_now e) num_chunks)
                \<lparr>p_reader := PacketReader_new (u32 (10 * max_packet_len num_chunks)),
                 d_pieces_in_chunk := chunk_size div MAX_PIECE_LEN,
                 p_fast_extensions := (support AND FAST_EXT_SUPPORT \<noteq> 0),
                 p_extension_protocol := (support AND EXT_PROT_SUPPORT \<noteq> 0)\<rparr>;
          p = (if null_addr then Peer_kill p else p)
      in p\<lparr>p_pex_allowed := p_extension_protocol p\<rparr>)"

section \<open>Sending\<close>

definition send_packet :: "Peer \<Rightarrow> Packet option \<Rightarrow> Peer option" where
  "send_packet p pk = do { q \<leftarrow> pk; Some (p\<lparr>p_sock := addPacket (p_sock p) q\<rparr>) }"

definition sendChoke :: "Peer \<Rightarrow> Peer option" where
  "sendChoke p =
     (if \<not> p_has_upload_slot p then Some p
      else do { p' \<leftarrow> send_packet p (Packet_simple CHOKE); Some (p'\<lparr>p_has_upload_slot := False\<rparr>) })"

definition sendUnchoke :: "Peer \<Rightarrow> Peer option" where
  "sendUnchoke p =
     (if p_has_upload_slot p then Some p
      else do { p' \<leftarrow> send_packet p (Packet_simple UNCHOKE); Some (p'\<lparr>p_has_upload_slot := True\<rparr>) })"

definition sendEvilUnchoke :: "Peer \<Rightarrow> Peer option" where
  "sendEvilUnchoke p = do { p' \<leftarrow> send_packet p (Packet_simple UNCHOKE); Some (p'\<lparr>p_has_upload_slot := False\<rparr>) }"

definition sendInterested :: "Peer \<Rightarrow> Peer option" where
  "sendInterested p =
     (if p_am_interested p then Some p
      else do { p' \<leftarrow> send_packet p (Packet_simple INTERESTED); Some (p'\<lparr>p_am_interested := True\<rparr>) })"

definition sendNotInterested :: "Peer \<Rightarrow> Peer option" where
  "sendNotInterested p =
     (if \<not> p_am_interested p then Some p
      else do { p' \<leftarrow> send_packet p (Packet_simple NOT_INTERESTED); Some (p'\<lparr>p_am_interested := False\<rparr>) })"

definition sendRequest :: "Peer \<Rightarrow> Request \<Rightarrow> Peer option" where
  "sendRequest p r = send_packet p (Packet_request r REQUEST)"

definition sendCancel :: "Peer \<Rightarrow> Request \<Rightarrow> Peer option" where
  "sendCancel p r = send_packet p (Packet_request r CANCEL)"

definition sendReject :: "Peer \<Rightarrow> Request \<Rightarrow> Peer option" where
  "sendReject p r = send_packet p (Packet_request r REJECT_REQUEST)"

definition sendHave :: "Peer \<Rightarrow> u32w \<Rightarrow> Peer option" where
  "sendHave p i = send_packet p (Packet_chunk i HAVE)"

definition sendPort :: "Peer \<Rightarrow> u16 \<Rightarrow> Peer option" where
  "sendPort p port = send_packet p (Packet_port port)"

definition sendBitSet :: "Peer \<Rightarrow> BitSet \<Rightarrow> Peer option" where
  "sendBitSet p bs = send_packet p (Packet_bitset bs)"

definition sendHaveAll :: "Peer \<Rightarrow> Peer option" where
  "sendHaveAll p = send_packet p (Packet_simple HAVE_ALL)"

definition sendHaveNone :: "Peer \<Rightarrow> Peer option" where
  "sendHaveNone p = send_packet p (Packet_simple HAVE_NONE)"

definition sendSuggestPiece :: "Peer \<Rightarrow> u32w \<Rightarrow> Peer option" where
  "sendSuggestPiece p i = send_packet p (Packet_chunk i SUGGEST_PIECE)"

definition sendAllowedFast :: "Peer \<Rightarrow> u32w \<Rightarrow> Peer option" where
  "sendAllowedFast p i = send_packet p (Packet_chunk i ALLOWED_FAST)"

definition sendChunk :: "loader \<Rightarrow> Peer \<Rightarrow> u32w \<Rightarrow> u32w \<Rightarrow> u32w \<Rightarrow> Chunk \<Rightarrow> (bool \<times> Peer) option" where
  "sendChunk load p index begin' len ch =
     (if unat begin' \<ge> ch_size ch \<or> add32 (unat begin') (unat len) > ch_size ch then Some (False, p)
      else do { p' \<leftarrow> send_packet p (Packet_piece load index begin' len ch); Some (True, p') })"

definition sendExtProtMsg :: "Peer \<Rightarrow> u8 \<Rightarrow> bytes \<Rightarrow> Peer option" where
  "sendExtProtMsg p i d = send_packet p (Packet_ext i d)"

definition clearPendingPieceUploads :: "Peer \<Rightarrow> Peer option" where
  "clearPendingPieceUploads p =
     do { s \<leftarrow> clearPieces (p_sock p) (p_fast_extensions p); Some (p\<lparr>p_sock := s\<rparr>) }"

definition chunkAllowed :: "Peer \<Rightarrow> u32w \<Rightarrow> Peer option" where
  "chunkAllowed p i = sendHave p i"

section \<open>The downloader\<close>

definition TimeStampedRequest_new :: "nat \<Rightarrow> Request \<Rightarrow> TimeStampedRequest" where
  "TimeStampedRequest_new now r = \<lparr>tr_req = r, tr_time = now\<rparr>"

definition without :: "Request \<Rightarrow> Request list \<Rightarrow> Request list" where
  \<comment> \<open>\<open>QList::removeAll\<close>\<close>
  "without r rs = filter (\<lambda>x. \<not> Request_eq x r) rs"

definition without_ts :: "Request \<Rightarrow> TimeStampedRequest list \<Rightarrow> TimeStampedRequest list" where
  "without_ts r rs = filter (\<lambda>x. \<not> Request_eq (tr_req x) r) rs"

fun remove_one :: "Request \<Rightarrow> TimeStampedRequest list \<Rightarrow> TimeStampedRequest list" where
  \<comment> \<open>\<open>QList::removeOne\<close>\<close>
  "remove_one r [] = []"
| "remove_one r (x # xs) = (if Request_eq (tr_req x) r then xs else x # remove_one r xs)"

definition grab :: "Peer \<Rightarrow> int \<times> Peer" where
  "grab p = (d_grabbed p + 1, p\<lparr>d_grabbed := d_grabbed p + 1\<rparr>)"

definition release :: "Peer \<Rightarrow> Peer" where
  "release p = p\<lparr>d_grabbed := (if d_grabbed p - 1 < 0 then 0 else d_grabbed p - 1)\<rparr>"

definition isNearlyDone :: "Peer \<Rightarrow> bool" where
  "isNearlyDone p \<longleftrightarrow> d_grabbed p = 1 \<and> d_nearly_done p"

definition canAddRequest :: "Peer \<Rightarrow> bool" where
  "canAddRequest p \<longleftrightarrow> length (d_wait_queue p) < d_max_wait_queue_size p"

definition getMaxChunkDownloads :: "nat \<Rightarrow> Peer \<Rightarrow> nat option" where
  \<comment> \<open>\<open>None\<close>: the division by zero of a chunk smaller than a piece\<close>
  "getMaxChunkDownloads rate p =
     (let num_extra = rate div 1024 div 25 in
      if d_pieces_in_chunk p \<ge> 16 then Some (1 + 16 * num_extra div d_pieces_in_chunk p)
      else if d_pieces_in_chunk p = 0 then None
      else Some (1 + (16 div d_pieces_in_chunk p) * num_extra))"

definition canDownloadChunk :: "nat \<Rightarrow> Peer \<Rightarrow> bool option" where
  "canDownloadChunk rate p =
     (if \<not> d_alive p then Some False
      else do { m \<leftarrow> getMaxChunkDownloads rate p;
                Some ((d_grabbed p < int m \<or> isNearlyDone p) \<and> canAddRequest p) })"

definition getNumRequests :: "Peer \<Rightarrow> nat" where
  "getNumRequests p = length (d_reqs p)"

definition max_reqs :: "nat \<Rightarrow> Peer \<Rightarrow> nat" where
  \<comment> \<open>\<open>1 + ceil (10 * rate / MAX_PIECE_LEN)\<close>: the doubles are exact here, a 32-bit rate times ten over a power of two\<close>
  "max_reqs rate p =
     (let m = 1 + (10 * rate + (MAX_PIECE_LEN - 1)) div MAX_PIECE_LEN in
      if m > p_max_request_queue p \<and> p_max_request_queue p \<noteq> 0 then p_max_request_queue p else m)"

fun request_loop :: "nat \<Rightarrow> nat \<Rightarrow> Request list \<Rightarrow> Peer \<Rightarrow> Peer option" where
  "request_loop now mx [] p = Some p"
| "request_loop now mx (r # rs) p =
     (if length (d_reqs p) < mx then
        do { p' \<leftarrow> sendRequest (p\<lparr>d_wait_queue := rs, d_reqs := d_reqs p @ [TimeStampedRequest_new now r]\<rparr>) r;
             request_loop now mx rs p' }
      else Some p)"

definition downloader_update :: "Env \<Rightarrow> Peer \<Rightarrow> Peer option" where
  "downloader_update e p =
     (let mx = max_reqs (e_down_rate e) p in
      do { p' \<leftarrow> request_loop (e_now e) mx (d_wait_queue p) p;
           Some (p'\<lparr>d_max_wait_queue_size := (if 2 * mx < 10 then 10 else 2 * mx)\<rparr>) })"

definition download :: "Env \<Rightarrow> Peer \<Rightarrow> Request \<Rightarrow> Peer option" where
  "download e p r =
     (if \<not> d_alive p then Some p
      else downloader_update e (p\<lparr>d_wait_queue := d_wait_queue p @ [r]\<rparr>))"

definition cancel :: "Peer \<Rightarrow> Request \<Rightarrow> Peer option" where
  "cancel p r =
     (if \<not> d_alive p then Some p
      else if without r (d_wait_queue p) \<noteq> d_wait_queue p then Some (p\<lparr>d_wait_queue := without r (d_wait_queue p)\<rparr>)
      else sendCancel (p\<lparr>d_reqs := without_ts r (d_reqs p)\<rparr>) r)"

definition onRejected :: "Env \<Rightarrow> Peer \<Rightarrow> Request \<Rightarrow> Peer" where
  "onRejected e p r =
     (if \<not> d_alive p then p
      else if without_ts r (d_reqs p) \<noteq> d_reqs p
      then e_notify e (Rejected r) (p\<lparr>d_reqs := without_ts r (d_reqs p)\<rparr>) else p)"

fun send_all :: "(Peer \<Rightarrow> Request \<Rightarrow> Peer option) \<Rightarrow> Request list \<Rightarrow> Peer \<Rightarrow> Peer option" where
  "send_all f [] p = Some p"
| "send_all f (r # rs) p = do { p' \<leftarrow> f p r; send_all f rs p' }"

definition cancelAll :: "Peer \<Rightarrow> Peer option" where
  "cancelAll p =
     do { p' \<leftarrow> (if d_alive p then send_all sendCancel (map tr_req (d_reqs p)) p else Some p);
          Some (p'\<lparr>d_wait_queue := [], d_reqs := []\<rparr>) }"

definition downloader_piece :: "Peer \<Rightarrow> Request \<Rightarrow> Peer" where
  "downloader_piece p r =
     (if remove_one r (d_reqs p) \<noteq> d_reqs p then p\<lparr>d_reqs := remove_one r (d_reqs p)\<rparr>
      else p\<lparr>d_wait_queue := without r (d_wait_queue p)\<rparr>)"

definition peerDestroyed :: "Peer \<Rightarrow> Peer" where
  "peerDestroyed p = p\<lparr>d_alive := False\<rparr>"

definition downloader_isChoked :: "Peer \<Rightarrow> bool" where
  "downloader_isChoked p \<longleftrightarrow> (if d_alive p then p_choked p else True)"

definition hasChunk :: "Peer \<Rightarrow> nat \<Rightarrow> bool" where
  "hasChunk p i \<longleftrightarrow> (if d_alive p then BitSet_get (p_avail p) i else False)"

definition getDownloadRate_chunk :: "nat \<Rightarrow> Peer \<Rightarrow> nat \<Rightarrow> nat" where
  "getDownloadRate_chunk rate p i =
     (case d_reqs p of
        x # _ \<Rightarrow> if unat (rq_index (tr_req x)) = i then (if d_alive p then rate else 0) else 0
      | [] \<Rightarrow> 0)"

partial_function (option) timeout_loop :: "Env \<Rightarrow> Peer \<Rightarrow> Peer option" where
  \<comment> \<open>the callback may append requests, so the loop looks at the queue afresh every time\<close>
  "timeout_loop e p =
     (case d_reqs p of
        [] \<Rightarrow> Some p
      | x # xs \<Rightarrow>
          if sub64 (e_now e) (tr_time x) > 60 * 1000
          then timeout_loop e (e_notify e (TimedOut (tr_req x)) (p\<lparr>d_reqs := xs\<rparr>)) else Some p)"

definition checkTimeouts :: "Env \<Rightarrow> Peer \<Rightarrow> Peer option" where
  "checkTimeouts e p = timeout_loop e p"

definition downloader_choked :: "Env \<Rightarrow> Peer \<Rightarrow> Peer" where
  "downloader_choked e p =
     (if p_fast_extensions p then p
      else
        let p1 = (fold (\<lambda>x. e_notify e (Rejected (tr_req x))) (d_reqs p) p)\<lparr>d_reqs := []\<rparr>
        in (fold (\<lambda>r. e_notify e (Rejected r)) (d_wait_queue p1) p1)\<lparr>d_wait_queue := []\<rparr>)"

section \<open>The uploader\<close>

definition addRequest :: "Peer \<Rightarrow> Request \<Rightarrow> Peer" where
  "addRequest p r = p\<lparr>u_requests := u_requests p @ [r]\<rparr>"

definition removeRequest :: "Peer \<Rightarrow> Request \<Rightarrow> Peer" where
  "removeRequest p r = p\<lparr>u_requests := without r (u_requests p)\<rparr>"

definition areWeChoked :: "Peer \<Rightarrow> bool" where
  "areWeChoked p \<longleftrightarrow> \<not> p_has_upload_slot p \<or> p_paused p"

definition serve_request :: "loader \<Rightarrow> (nat \<Rightarrow> Chunk option) \<Rightarrow> Peer \<Rightarrow> Request \<Rightarrow> Peer option" where
  "serve_request load chunks p r =
     (let reject = (\<lambda>p. if p_fast_extensions p then sendReject p r else Some p) in
      case chunks (unat (rq_index r)) of
        Some c \<Rightarrow>
          if ch_status c = ON_DISK then
            do { (ok, p') \<leftarrow> sendChunk load p (rq_index r) (rq_off r) (rq_len r) c;
                 if ok then Some p' else reject p' }
          else reject p
      | None \<Rightarrow> reject p)"

fun handle_loop :: "loader \<Rightarrow> (nat \<Rightarrow> Chunk option) \<Rightarrow> Request list \<Rightarrow> Peer \<Rightarrow> Peer option" where
  "handle_loop load chunks [] p = Some p"
| "handle_loop load chunks (r # rs) p =
     do { p' \<leftarrow> serve_request load chunks p r; handle_loop load chunks rs (p'\<lparr>u_requests := rs\<rparr>) }"

definition handleRequests :: "loader \<Rightarrow> (nat \<Rightarrow> Chunk option) \<Rightarrow> Peer \<Rightarrow> (nat \<times> Peer) option" where
  "handleRequests load chunks p =
     (let ret = u_uploaded p; p = p\<lparr>u_uploaded := 0\<rparr> in
      if areWeChoked p then Some (ret, p)
      else do { p' \<leftarrow> handle_loop load chunks (u_requests p) p; Some (ret, p') })"

definition clearAllRequests :: "Peer \<Rightarrow> Peer option" where
  "clearAllRequests p =
     do { p1 \<leftarrow> clearPendingPieceUploads p;
          p2 \<leftarrow> (if p_fast_extensions p1 then send_all sendReject (u_requests p1) p1 else Some p1);
          Some (p2\<lparr>u_requests := []\<rparr>) }"

definition addUploadedBytes :: "Peer \<Rightarrow> nat \<Rightarrow> Peer" where
  "addUploadedBytes p n = p\<lparr>u_uploaded := add32 (u_uploaded p) n\<rparr>"

definition Peer_choke :: "Peer \<Rightarrow> Peer option" where
  "Peer_choke p =
     (if \<not> p_has_upload_slot p then Some p
      else do { p' \<leftarrow> sendChoke p; clearAllRequests p' })"

definition Peer_pause :: "Peer \<Rightarrow> Peer option" where
  "Peer_pause p =
     (if p_paused p then Some p
      else do { p1 \<leftarrow> cancelAll p; p2 \<leftarrow> Peer_choke p1; p3 \<leftarrow> sendNotInterested p2;
                Some (p3\<lparr>p_paused := True\<rparr>) })"

definition Peer_unpause :: "Peer \<Rightarrow> Peer" where
  "Peer_unpause p = p\<lparr>p_paused := False\<rparr>"

section \<open>Message handlers\<close>

definition handleChoke :: "Env \<Rightarrow> Peer \<Rightarrow> nat \<Rightarrow> Peer" where
  "handleChoke e p len =
     (if len \<noteq> 1 then Peer_kill p
      else
        let p = (if \<not> p_choked p then p\<lparr>p_time_choked := e_now e\<rparr> else p)
        in downloader_choked e (p\<lparr>p_choked := True\<rparr>))"

definition handleUnchoke :: "Env \<Rightarrow> Peer \<Rightarrow> nat \<Rightarrow> Peer" where
  "handleUnchoke e p len =
     (if len \<noteq> 1 then Peer_kill p
      else
        let p = (if p_choked p then p\<lparr>p_time_unchoked := e_now e, p_bytes_since_unchoke := 0\<rparr> else p)
        in p\<lparr>p_choked := False\<rparr>)"

definition handleInterested :: "Env \<Rightarrow> Peer \<Rightarrow> nat \<Rightarrow> Peer" where
  "handleInterested e p len =
     (if len \<noteq> 1 then Peer_kill p
      else if \<not> p_interested p then e_notify e RerunChoker (p\<lparr>p_interested := True\<rparr>) else p)"

definition handleNotInterested :: "Env \<Rightarrow> Peer \<Rightarrow> nat \<Rightarrow> Peer" where
  "handleNotInterested e p len =
     (if len \<noteq> 1 then Peer_kill p
      else if p_interested p then e_notify e RerunChoker (p\<lparr>p_interested := False\<rparr>) else p)"

definition handleHave :: "Env \<Rightarrow> Peer \<Rightarrow> bytes \<Rightarrow> Peer option" where
  "handleHave e p packet =
     (if length packet \<noteq> 5 then Some (Peer_kill p)
      else do { w \<leftarrow> ReadUint32 packet 1;
                let p = p\<lparr>p_received_have := True\<rparr>;
                let ch = unat w;
                if ch < bs_num_bits (p_avail p) then
                  (let p' = e_notify e (HaveReceived ch) p
                   in Some (p'\<lparr>p_avail := BitSet_set (p_avail p') ch True\<rparr>))
                else if e_torrent_loaded e then Some (Peer_kill p) else Some p })"

definition handleHaveAll :: "Env \<Rightarrow> Peer \<Rightarrow> nat \<Rightarrow> Peer" where
  "handleHaveAll e p len =
     (if len \<noteq> 1 then Peer_kill p
      else let p = p\<lparr>p_received_have := True, p_avail := BitSet_setAll (p_avail p) True\<rparr>
           in e_notify e (BitSetReceived (p_avail p)) p)"

definition handleHaveNone :: "Env \<Rightarrow> Peer \<Rightarrow> nat \<Rightarrow> Peer" where
  "handleHaveNone e p len =
     (if len \<noteq> 1 then Peer_kill p
      else let p = p\<lparr>p_avail := BitSet_setAll (p_avail p) False\<rparr>
           in e_notify e (BitSetReceived (p_avail p)) p)"

definition handleBitField :: "Env \<Rightarrow> Peer \<Rightarrow> bytes \<Rightarrow> Peer option" where
  "handleBitField e p packet =
     (if length packet \<noteq> 1 + bs_num_bytes (p_avail p) then
        Some (if e_torrent_loaded e then Peer_kill p else p)
      else do { bs \<leftarrow> BitSet_from (drop 1 packet) (bs_num_bits (p_avail p));
                let p = p\<lparr>p_received_have := True, p_avail := BitSet_assign (p_avail p) bs\<rparr>;
                Some (e_notify e (BitSetReceived (p_avail p)) p) })"

definition read_request :: "bytes \<Rightarrow> Request option" where
  "read_request packet =
     do { i \<leftarrow> ReadUint32 packet 1; b \<leftarrow> ReadUint32 packet 5; l \<leftarrow> ReadUint32 packet 9;
          Some (Request_new i b l) }"

definition handleRequest :: "Peer \<Rightarrow> bytes \<Rightarrow> Peer option" where
  "handleRequest p packet =
     (if length packet \<noteq> 13 then Some (Peer_kill p)
      else do { r \<leftarrow> read_request packet;
                if p_has_upload_slot p then Some (addRequest p r)
                else if p_fast_extensions p then sendReject p r else Some p })"

definition handlePiece :: "Env \<Rightarrow> Peer \<Rightarrow> bytes \<Rightarrow> Peer option" where
  "handlePiece e p packet =
     (if p_paused p then Some p
      else if length packet < 9 then Some (Peer_kill p)
      else do { i \<leftarrow> ReadUint32 packet 1; b \<leftarrow> ReadUint32 packet 5;
                let n = length packet - 9;
                let r = Request_new i b (word_of_nat n);
                let p = p\<lparr>p_snub_last := e_now e,
                           p_bytes_downloaded := add64 (p_bytes_downloaded p) n,
                           p_bytes_since_unchoke := add64 (p_bytes_since_unchoke p) n\<rparr>;
                downloader_update e (e_notify e (PieceReceived r (drop 9 packet)) (downloader_piece p r)) })"

definition handleCancel :: "Peer \<Rightarrow> bytes \<Rightarrow> Peer option" where
  "handleCancel p packet =
     (if length packet \<noteq> 13 then Some (Peer_kill p)
      else do { r \<leftarrow> read_request packet;
                let p = removeRequest p r;
                s \<leftarrow> doNotSendPiece (p_sock p) r (p_fast_extensions p);
                Some (p\<lparr>p_sock := s\<rparr>) })"

definition handleReject :: "Env \<Rightarrow> Peer \<Rightarrow> bytes \<Rightarrow> Peer option" where
  "handleReject e p packet =
     (if length packet \<noteq> 13 then Some (Peer_kill p)
      else do { r \<leftarrow> read_request packet; Some (onRejected e p r) })"

definition handlePort :: "Env \<Rightarrow> Peer \<Rightarrow> bytes \<Rightarrow> Peer option" where
  "handlePort e p packet =
     (if length packet \<noteq> 3 then Some (Peer_kill p)
      else do { port \<leftarrow> ReadUint16 packet 1; Some (e_notify e (PortPacketReceived port) p) })"

text \<open>
  The extended handshake. An exception leaves the handler where it is raised, with the changes made
  before it; \<open>toInt\<close> of a 64-bit value reads an uninitialised member, whose content is \<open>e_garbage\<close>.
\<close>

definition val_toInt :: "Env \<Rightarrow> BValueData \<Rightarrow> int" where
  "val_toInt e v = (case Value_toInt v of Some i \<Rightarrow> i | None \<Rightarrow> e_garbage e)"

definition int_to_u32 :: "int \<Rightarrow> nat" where
  "int_to_u32 i = nat (i mod 2 ^ 32)"

definition handshake_pex :: "Env \<Rightarrow> (bytes \<times> BNode) list \<Rightarrow> Peer \<Rightarrow> Peer" where
  "handshake_pex e mdict p =
     (case getValue (e_qstring e) mdict ''ut_pex'' of
        Some val \<Rightarrow>
          if e_pex_enabled e then
            let i = int_to_u32 (val_toInt e val); p = p\<lparr>p_ut_pex_id := i\<rparr> in
            if i = 0 then p\<lparr>p_extensions := (p_extensions p)(UT_PEX_ID := None)\<rparr>
            else if p_extensions p UT_PEX_ID \<noteq> None \<or> p_pex_allowed p
            then p\<lparr>p_extensions := (p_extensions p)(UT_PEX_ID := Some i)\<rparr> else p
          else p
      | None \<Rightarrow> p)"

definition handshake_metadata :: "Env \<Rightarrow> (bytes \<times> BNode) list \<Rightarrow> (bytes \<times> BNode) list \<Rightarrow> Peer \<Rightarrow> Peer outcome" where
  "handshake_metadata e dict mdict p =
     (case getValue (e_qstring e) mdict ''ut_metadata'' of
        Some val \<Rightarrow>
          let i = int_to_u32 (val_toInt e val) in
          if i = 0 then Return (p\<lparr>p_extensions := (p_extensions p)(UT_METADATA_ID := None)\<rparr>)
          else if p_extensions p UT_METADATA_ID \<noteq> None
          then Return (p\<lparr>p_extensions := (p_extensions p)(UT_METADATA_ID := Some i)\<rparr>)
          else
            obind (if getValue (e_qstring e) dict ''metadata_size'' \<noteq> None
                   then getInt (e_qstring e) dict ''metadata_size'' else Return 0)
              (\<lambda>_. Return (p\<lparr>p_extensions := (p_extensions p)(UT_METADATA_ID := Some i)\<rparr>))
      | None \<Rightarrow> Return p)"

definition handshake_limits :: "Env \<Rightarrow> (bytes \<times> BNode) list \<Rightarrow> Peer \<Rightarrow> Peer" where
  "handshake_limits e dict p =
     (let p = (case getValue (e_qstring e) dict ''reqq'' of
                 Some val \<Rightarrow> p\<lparr>p_max_request_queue := int_to_u32 (val_toInt e val)\<rparr> | None \<Rightarrow> p)
      in case getValue (e_qstring e) dict ''upload_only'' of
           Some val \<Rightarrow> p\<lparr>p_partial_seed := (val_toInt e val = 1)\<rparr> | None \<Rightarrow> p)"

definition handleExtendedHandshake :: "Env \<Rightarrow> Peer \<Rightarrow> bytes \<Rightarrow> Peer" where
  "handleExtendedHandshake e p packet =
     (case decode (e_toInt e) (e_toLongLong e) packet 2 of
        Return (Some (BDictNode dict _ _), _) \<Rightarrow>
          (case getDict (e_qstring e) dict ''m'' of
             None \<Rightarrow> p
           | Some mdict \<Rightarrow>
               let p1 = handshake_pex e mdict p in
               (case handshake_metadata e dict mdict p1 of
                  Return p2 \<Rightarrow> handshake_limits e dict p2
                | _ \<Rightarrow> p1))
      | _ \<Rightarrow> p)"

definition handleExtendedPacket :: "Env \<Rightarrow> Peer \<Rightarrow> bytes \<Rightarrow> Peer" where
  "handleExtendedPacket e p packet =
     (if length packet \<le> 2 then p
      else
        let i = unat (packet ! 1) in
        if p_extensions p i \<noteq> None then e_notify e (ExtensionPacket i packet) p
        else if i = 0 then handleExtendedHandshake e p packet
        else p)"

definition handlePacket :: "Env \<Rightarrow> Peer \<Rightarrow> bytes \<Rightarrow> Peer option" where
  "handlePacket e p packet =
     (let sz = length packet in
      if p_killed p \<or> sz = 0 then Some p
      else
        let t = packet ! 0 in
        if t = CHOKE then Some (handleChoke e p sz)
        else if t = UNCHOKE then Some (handleUnchoke e p sz)
        else if t = INTERESTED then Some (handleInterested e p sz)
        else if t = NOT_INTERESTED then Some (handleNotInterested e p sz)
        else if t = HAVE then handleHave e p packet
        else if t = BITFIELD then handleBitField e p packet
        else if t = REQUEST then handleRequest p packet
        else if t = PIECE then handlePiece e p packet
        else if t = CANCEL then handleCancel p packet
        else if t = REJECT_REQUEST then handleReject e p packet
        else if t = PORT then handlePort e p packet
        else if t = HAVE_ALL then Some (handleHaveAll e p sz)
        else if t = HAVE_NONE then Some (handleHaveNone e p sz)
        else if t = SUGGEST_PIECE then Some p
        else if t = ALLOWED_FAST then Some p
        else if t = EXTENDED then Some (handleExtendedPacket e p packet)
        else Some p)"

fun handle_packets :: "Env \<Rightarrow> Peer \<Rightarrow> bytes list \<Rightarrow> Peer option" where
  "handle_packets e p [] = Some p"
| "handle_packets e p (x # xs) = do { p' \<leftarrow> handlePacket e p x; handle_packets e p' xs }"

section \<open>Periodic update and queries\<close>

definition elapsed_since :: "nat \<Rightarrow> nat \<Rightarrow> nat" where
  "elapsed_since now prev = (if now > prev then now - prev else 0)"

definition isStalled :: "nat \<Rightarrow> Peer \<Rightarrow> bool" where
  "isStalled now p \<longleftrightarrow> elapsed_since now (p_stalled_last p) \<ge> 2 * 60 * 1000"

definition isSnubbed :: "nat \<Rightarrow> Peer \<Rightarrow> bool" where
  "isSnubbed now p \<longleftrightarrow> elapsed_since now (p_snub_last p) \<ge> 2 * 60 * 1000 \<and> p_num_down_requests p > 0"

definition Peer_update :: "Env \<Rightarrow> Peer \<Rightarrow> Peer option" where
  "Peer_update e p =
     (if p_killed p then Some p
      else if \<not> e_sock_ok e \<or> pr_error (p_reader p) then Some (Peer_kill p)
      else
        do { let (pkts, rd) = PacketReader_update (p_reader p);
             p \<leftarrow> handle_packets e (p\<lparr>p_reader := rd\<rparr>) pkts;
             let (data_bytes, sk) = dataBytesUploaded (p_sock p);
             let p = p\<lparr>p_sock := sk\<rparr>;
             let p = (if data_bytes > 0
                      then addUploadedBytes (p\<lparr>p_bytes_uploaded := add64 (p_bytes_uploaded p) data_bytes\<rparr>) data_bytes
                      else p);
             let p = (if \<not> p_paused p then e_notify e ExtensionUpdate p else p);
             let p = (if e_up_rate e > 100 \<or> e_down_rate e > 100 \<or>
                         u_requests p = [] \<and> numPendingPieceUploads (p_sock p) = 0 \<and> getNumRequests p = 0
                      then p\<lparr>p_stalled_last := e_now e\<rparr> else p);
             Some (p\<lparr>p_download_rate := e_down_rate e, p_upload_rate := e_up_rate e,
                      p_snubbed := isSnubbed (e_now e) p,
                      p_num_up_requests := add32 (length (u_requests p)) (numPendingPieceUploads (p_sock p)),
                      p_num_down_requests := getNumRequests p\<rparr>) })"

definition hasWantedChunks :: "Peer \<Rightarrow> BitSet \<Rightarrow> bool" where
  "hasWantedChunks p wanted \<longleftrightarrow> bs_num_on (BitSet_and (p_avail p) wanted) > 0"

definition averageDownloadSpeed :: "nat \<Rightarrow> Peer \<Rightarrow> nat" where
  "averageDownloadSpeed now p =
     (if p_choked p then 0
      else if now \<ge> p_time_unchoked p then 0
      else u32 (p_bytes_since_unchoke p div (p_time_unchoked p - now)))"

definition setPexEnabled :: "bool \<Rightarrow> Peer \<Rightarrow> bool \<Rightarrow> Peer" where
  "setPexEnabled pex_on p on =
     (if \<not> p_extension_protocol p then p
      else
        let p = (if p_extensions p UT_PEX_ID \<noteq> None \<and> (\<not> on \<or> \<not> pex_on)
                 then p\<lparr>p_extensions := (p_extensions p)(UT_PEX_ID := None)\<rparr>
                 else if p_extensions p UT_PEX_ID = None \<and> on \<and> p_ut_pex_id p > 0 \<and> pex_on
                 then p\<lparr>p_extensions := (p_extensions p)(UT_PEX_ID := Some (p_ut_pex_id p))\<rparr> else p)
        in p\<lparr>p_pex_allowed := on\<rparr>)"

definition sendExtProtHandshake :: "(nat \<Rightarrow> bytes) \<Rightarrow> bytes \<Rightarrow> Peer \<Rightarrow> nat \<Rightarrow> nat \<Rightarrow> bool \<Rightarrow> Peer option" where
  "sendExtProtHandshake number version p port metadata_size partial_seed =
     (if \<not> p_extension_protocol p then Some p
      else
        let str = (\<lambda>s out. enc_bytes number out (ascii s)); num = (\<lambda>n out. enc_uint number out n);
            out = enc_beginDict \<lparr>bo_data = [], bo_ptr = 0\<rparr>;
            out = enc_beginDict (str ''m'' out);
            out = num (if p_pex_allowed p then UT_PEX_ID else 0) (str ''ut_pex'' out);
            out = enc_end (num UT_METADATA_ID (str ''ut_metadata'' out));
            out = (if port > 0 then num port (str ''p'' out) else out);
            out = num 250 (str ''reqq'' out);
            out = (if metadata_size \<noteq> 0 then num metadata_size (str ''metadata_size'' out) else out);
            out = str (if partial_seed then ''1'' else ''0'') (str ''upload_only'' out);
            out = enc_end (enc_bytes number (str ''v'' out) version)
        in sendExtProtMsg p 0 (bo_data out))"

end
