(* ===== verification/Peer_Protocol.thy ===== *)
theory Peer_Protocol
  imports Peer
begin

text \<open>
  What the connection of \<open>Peer.thy\<close> guarantees: whatever bytes the other side sends, every handler
  stays inside its arrays and keeps the invariant; requests are neither lost nor answered twice;
  the request window of the downloader is respected; choking answers everything that is pending.
\<close>

section \<open>Queueing packets\<close>

definition sendable :: "Packet \<Rightarrow> bool" where
  "sendable q \<longleftrightarrow> pkt_ok q \<and> pkt_written q = 0 \<and> (pkt_type q = PIECE \<longrightarrow> 13 \<le> pkt_size q)"

lemma packet_of_fields [simp]:
  "pkt_type (packet_of ty x) = ty" "pkt_written (packet_of ty x) = 0" "pkt_size (packet_of ty x) = 5 + length x"
  "pkt_data (packet_of ty x) = frame (ty # x)"
  by (simp_all add: packet_of_def mk_packet_def)

lemma packet_of_sendable:
  "length x < 2 ^ 32 - 5 \<Longrightarrow> ty = PIECE \<longrightarrow> 8 \<le> length x \<Longrightarrow> sendable (packet_of ty x)"
  by (auto simp: sendable_def packet_of_ok)

lemma addPacket_fields:
  "ps_store (addPacket s q) = ps_store s @ [q]" "ps_curr (addPacket s q) = ps_curr s"
  "ps_control (addPacket s q) = ps_control s @ (if pkt_type q = PIECE then [] else [length (ps_store s)])"
  "ps_data (addPacket s q) = ps_data s @ (if pkt_type q = PIECE then [length (ps_store s)] else [])"
  by (simp_all add: addPacket_def Let_def)

lemma addPacket_inv:
  assumes "ps_inv s" and "sendable q"
  shows "ps_inv (addPacket s q)"
proof -
  let ?s = "addPacket s q"
  have wf: "ps_wf s" and z: "\<And>i. i \<in> set (queued s) \<Longrightarrow> ps_curr s \<noteq> Some i \<Longrightarrow> pkt_written (ps_store s ! i) = 0"
    using assms(1) by (auto simp: ps_inv_def)
  have b: "i < length (ps_store s)" if "i \<in> set (ps_control s) \<or> i \<in> set (ps_data s)" for i
    using wf that by (auto simp: ps_wf_def queued_def)
  then have ne: "length (ps_store s) \<notin> set (ps_control s)" "length (ps_store s) \<notin> set (ps_data s)" by blast+
  have n: "(ps_store s @ [q]) ! i = ps_store s ! i" if "i \<in> set (ps_control s) \<or> i \<in> set (ps_data s)" for i
    using b[OF that] by (simp add: nth_append)
  have "ps_wf ?s" using wf assms(2) ne b n
    by (auto simp: ps_wf_def queued_def addPacket_fields sendable_def less_Suc_eq)
  moreover have "is_front ?s c \<and> \<not> Packet_isSent (ps_store ?s ! c)" if "ps_curr s = Some c" for c
    using ps_inv_curr[OF assms(1) that] that assms(1)
    by (auto simp: is_front_def addPacket_fields nth_append ps_inv_def)
  moreover have "pkt_written (ps_store ?s ! i) = 0" if "i \<in> set (queued ?s)" "ps_curr s \<noteq> Some i" for i
  proof (cases "i = length (ps_store s)")
    case True
    then show ?thesis using assms(2) by (simp add: addPacket_fields sendable_def)
  next
    case False
    then have "i \<in> set (queued s)" using that(1) by (auto simp: queued_def addPacket_fields split: if_splits)
    then show ?thesis using z[of i] n[of i] that(2) by (auto simp: queued_def addPacket_fields)
  qed
  ultimately show ?thesis unfolding ps_inv_def by (simp add: addPacket_fields)
qed

lemma ps_inv_new [simp]: "ps_inv PacketSocket_new"
  by (simp add: ps_inv_def ps_wf_def PacketSocket_new_def queued_def)

text \<open>The packets waiting in the two queues, in order.\<close>

definition control_packets :: "PacketSocket \<Rightarrow> Packet list" where
  "control_packets s = map (\<lambda>i. ps_store s ! i) (ps_control s)"

definition data_packets :: "PacketSocket \<Rightarrow> Packet list" where
  "data_packets s = map (\<lambda>i. ps_store s ! i) (ps_data s)"

lemma addPacket_queues:
  assumes "ps_wf s"
  shows "control_packets (addPacket s q) = control_packets s @ (if pkt_type q = PIECE then [] else [q])"
    and "data_packets (addPacket s q) = data_packets s @ (if pkt_type q = PIECE then [q] else [])"
  using assms by (auto simp: control_packets_def data_packets_def addPacket_fields nth_append ps_wf_def queued_def)

lemmas frame_simps = Packet_simple_frame Packet_port_frame Packet_chunk_frame Packet_request_frame

section \<open>The invariant of a connection\<close>

definition peer_inv :: "nat \<Rightarrow> Peer \<Rightarrow> bool" where
  "peer_inv n p \<longleftrightarrow> ps_inv (p_sock p) \<and> bs_counted (p_avail p) \<and> bs_num_bits (p_avail p) = n \<and> pr_inv (p_reader p)"

definition safe :: "nat \<Rightarrow> Peer option \<Rightarrow> bool" where
  "safe n r \<longleftrightarrow> (\<exists>p. r = Some p \<and> peer_inv n p)"

definition env_ok :: "nat \<Rightarrow> Env \<Rightarrow> bool" where
  \<comment> \<open>the callbacks of the other components keep the invariant of the connection\<close>
  "env_ok n e \<longleftrightarrow> (\<forall>ev p. peer_inv n p \<longrightarrow> peer_inv n (e_notify e ev p))"

named_theorems safe_intros \<open>operations that keep the invariant of a connection\<close>

lemma safe_Some [simp]: "safe n (Some p) \<longleftrightarrow> peer_inv n p"
  by (simp add: safe_def)

lemma safe_bind [safe_intros]: "safe n m \<Longrightarrow> (\<And>p. peer_inv n p \<Longrightarrow> safe n (f p)) \<Longrightarrow> safe n (m \<bind> f)"
  by (auto simp: safe_def)

lemma notify_inv [safe_intros]: "env_ok n e \<Longrightarrow> peer_inv n p \<Longrightarrow> peer_inv n (e_notify e ev p)"
  by (simp add: env_ok_def)

lemma fold_notify_inv: "env_ok n e \<Longrightarrow> peer_inv n p \<Longrightarrow> peer_inv n (fold (\<lambda>x. e_notify e (f x)) xs p)"
  by (induction xs arbitrary: p) (auto intro: notify_inv)

lemma send_packet_safe:
  "peer_inv n p \<Longrightarrow> pk = Some q \<Longrightarrow> sendable q \<Longrightarrow> safe n (send_packet p pk)"
  by (simp add: send_packet_def peer_inv_def addPacket_inv)

lemma send_request_packet_safe: "peer_inv n p \<Longrightarrow> ty \<noteq> PIECE \<Longrightarrow> safe n (send_packet p (Packet_request r ty))"
  by (erule send_packet_safe[OF _ Packet_request_frame]) (simp add: packet_of_sendable)

lemma send_simple_safe: "peer_inv n p \<Longrightarrow> ty \<noteq> PIECE \<Longrightarrow> safe n (send_packet p (Packet_simple ty))"
  by (erule send_packet_safe[OF _ Packet_simple_frame]) (simp add: packet_of_sendable)

lemma send_chunk_safe: "peer_inv n p \<Longrightarrow> ty \<noteq> PIECE \<Longrightarrow> safe n (send_packet p (Packet_chunk c ty))"
  by (erule send_packet_safe[OF _ Packet_chunk_frame]) (simp add: packet_of_sendable)

lemma not_piece [simp]:
  "CHOKE \<noteq> PIECE" "UNCHOKE \<noteq> PIECE" "INTERESTED \<noteq> PIECE" "NOT_INTERESTED \<noteq> PIECE" "HAVE \<noteq> PIECE" "REQUEST \<noteq> PIECE"
  "CANCEL \<noteq> PIECE" "REJECT_REQUEST \<noteq> PIECE" "HAVE_ALL \<noteq> PIECE" "HAVE_NONE \<noteq> PIECE" "SUGGEST_PIECE \<noteq> PIECE"
  "ALLOWED_FAST \<noteq> PIECE" "PORT \<noteq> PIECE" "BITFIELD \<noteq> PIECE" "EXTENDED \<noteq> PIECE"
  by (simp_all add: msg_types)

lemma sendReject_safe [safe_intros]: "peer_inv n p \<Longrightarrow> safe n (sendReject p r)"
  and sendCancel_safe [safe_intros]: "peer_inv n p \<Longrightarrow> safe n (sendCancel p r)"
  and sendRequest_safe [safe_intros]: "peer_inv n p \<Longrightarrow> safe n (sendRequest p r)"
  by (simp_all add: sendReject_def sendCancel_def sendRequest_def send_request_packet_safe)

lemma send_all_safe [safe_intros]:
  "(\<And>p r. peer_inv n p \<Longrightarrow> safe n (f p r)) \<Longrightarrow> peer_inv n p \<Longrightarrow> safe n (send_all f rs p)"
  by (induction rs arbitrary: p) (auto intro!: safe_bind)

lemma request_loop_safe [safe_intros]: "peer_inv n p \<Longrightarrow> safe n (request_loop now mx rs p)"
  by (induction rs arbitrary: p) (auto intro!: safe_intros simp: peer_inv_def)

lemma downloader_update_safe [safe_intros]: "peer_inv n p \<Longrightarrow> safe n (downloader_update e p)"
  unfolding downloader_update_def Let_def by (intro safe_intros) (auto simp: peer_inv_def)

lemma peer_inv_upd [simp]:
  "peer_inv n (p\<lparr>d_reqs := a\<rparr>) = peer_inv n p" "peer_inv n (p\<lparr>d_wait_queue := b\<rparr>) = peer_inv n p"
  "peer_inv n (p\<lparr>u_requests := c\<rparr>) = peer_inv n p" "peer_inv n (p\<lparr>p_choked := x\<rparr>) = peer_inv n p"
  "peer_inv n (p\<lparr>p_time_choked := t\<rparr>) = peer_inv n p" "peer_inv n (p\<lparr>p_interested := x\<rparr>) = peer_inv n p"
  "peer_inv n (p\<lparr>p_received_have := x\<rparr>) = peer_inv n p" "peer_inv n (p\<lparr>p_extensions := m\<rparr>) = peer_inv n p"
  "peer_inv n (p\<lparr>p_ut_pex_id := t\<rparr>) = peer_inv n p" "peer_inv n (p\<lparr>p_max_request_queue := t\<rparr>) = peer_inv n p"
  "peer_inv n (p\<lparr>p_partial_seed := x\<rparr>) = peer_inv n p" "peer_inv n (Peer_kill p) = peer_inv n p"
  "peer_inv n (p\<lparr>p_has_upload_slot := x\<rparr>) = peer_inv n p" "peer_inv n (p\<lparr>p_am_interested := x\<rparr>) = peer_inv n p"
  "peer_inv n (p\<lparr>p_paused := x\<rparr>) = peer_inv n p" "peer_inv n (p\<lparr>u_uploaded := t\<rparr>) = peer_inv n p"
  by (simp_all add: peer_inv_def Peer_kill_def)

section \<open>Every handler is safe\<close>

lemma read_request_ok: "length packet = 13 \<Longrightarrow> \<exists>r. read_request packet = Some r"
  by (simp add: read_request_def ReadUint32_def)

lemma downloader_choked_safe: "env_ok n e \<Longrightarrow> peer_inv n p \<Longrightarrow> peer_inv n (downloader_choked e p)"
  by (simp add: downloader_choked_def Let_def fold_notify_inv)

lemma handleHave_safe: "env_ok n e \<Longrightarrow> peer_inv n p \<Longrightarrow> safe n (handleHave e p packet)"
proof -
  assume e: "env_ok n e" and p: "peer_inv n p"
  have s: "peer_inv n (q\<lparr>p_avail := BitSet_set (p_avail q) i True\<rparr>)" if "peer_inv n q" for q i
    using that by (simp add: peer_inv_def BitSet_set_counted)
  show ?thesis using e p by (auto simp: handleHave_def Let_def ReadUint32_def intro!: s notify_inv)
qed

lemma avail_inv: "peer_inv n p \<Longrightarrow> bs_counted bs \<Longrightarrow> bs_num_bits bs = n \<Longrightarrow> peer_inv n (p\<lparr>p_avail := bs\<rparr>)"
  by (simp add: peer_inv_def)

lemma setAll_inv: "peer_inv n p \<Longrightarrow> peer_inv n (p\<lparr>p_avail := BitSet_setAll (p_avail p) on\<rparr>)"
  using BitSet_setAll_counted[of "p_avail p" on] bs_countedD(1)[of "p_avail p"] by (auto simp: peer_inv_def)

lemma handleHaveAll_safe: "env_ok n e \<Longrightarrow> peer_inv n p \<Longrightarrow> peer_inv n (handleHaveAll e p len)"
  using setAll_inv[of n "p\<lparr>p_received_have := True\<rparr>" True] by (auto simp: handleHaveAll_def Let_def intro!: notify_inv)

lemma handleHaveNone_safe: "env_ok n e \<Longrightarrow> peer_inv n p \<Longrightarrow> peer_inv n (handleHaveNone e p len)"
  by (auto simp: handleHaveNone_def Let_def intro!: notify_inv setAll_inv)

lemma handleBitField_safe:
  assumes "env_ok n e" and "peer_inv n p"
  shows "safe n (handleBitField e p packet)"
proof (cases "length packet = 1 + bs_num_bytes (p_avail p)")
  case True
  have wf: "bs_wf (p_avail p)" "bs_num_bits (p_avail p) = n" using assms(2) bs_countedD(1) by (auto simp: peer_inv_def)
  then have "numBytes n \<le> length (drop 1 packet)" "n < 2 ^ 32" using True by (auto simp: bs_wf_def)
  then obtain bs where bs: "BitSet_from (drop 1 packet) n = Some bs" "bs_counted bs" "bs_num_bits bs = n"
    using BitSet_from_law by blast
  then show ?thesis using True assms wf
    by (auto simp: handleBitField_def Let_def BitSet_assign_wf[OF bs_countedD(1)] peer_inv_def
        intro!: notify_inv[unfolded peer_inv_def])
qed (use assms in \<open>simp add: handleBitField_def\<close>)

lemma handleRequest_safe: "peer_inv n p \<Longrightarrow> safe n (handleRequest p packet)"
  using read_request_ok[of packet] by (auto simp: handleRequest_def addRequest_def intro!: safe_intros)

lemma downloader_piece_inv [simp]: "peer_inv n (downloader_piece p r) = peer_inv n p"
  by (simp add: downloader_piece_def)

lemma handlePiece_safe:
  assumes "env_ok n e" and "peer_inv n p"
  shows "safe n (handlePiece e p packet)"
proof -
  have "peer_inv n (p\<lparr>p_snub_last := t, p_bytes_downloaded := a, p_bytes_since_unchoke := b\<rparr>)" for t a b
    using assms(2) by (simp add: peer_inv_def)
  then show ?thesis using assms
    by (auto simp: handlePiece_def ReadUint32_def Let_def intro!: downloader_update_safe notify_inv)
qed

lemma doNotSendPiece_safe:
  assumes "ps_inv s"
  shows "\<exists>s'. doNotSendPiece s r b = Some s' \<and> ps_inv s'"
proof -
  have wf: "ps_wf s" and d: "distinct (ps_data s)" using assms by (auto simp: ps_inv_def ps_wf_def queued_def)
  show ?thesis unfolding doNotSendPiece_def cancel_loop_law[OF wf d subset_refl]
    by (simp, rule removed_inv(1)[OF assms _ rejects_ok]) (simp add: droppable_def)
qed

lemma clearPieces_safe:
  assumes "ps_inv s"
  shows "\<exists>s'. clearPieces s b = Some s' \<and> ps_inv s'"
proof -
  have wf: "ps_wf s" and d: "distinct (ps_data s)" using assms by (auto simp: ps_inv_def ps_wf_def queued_def)
  show ?thesis unfolding clearPieces_def clear_loop_law[OF wf d subset_refl]
    by (simp, rule removed_inv(1)[OF assms _ rejects_ok]) (simp add: droppable_def)
qed

lemma handleCancel_safe:
  assumes "peer_inv n p"
  shows "safe n (handleCancel p packet)"
proof (cases "length packet = 13")
  case True
  then obtain r where r: "read_request packet = Some r" using read_request_ok by blast
  obtain s where "doNotSendPiece (p_sock p) r (p_fast_extensions p) = Some s" "ps_inv s"
    using doNotSendPiece_safe[of "p_sock p" r "p_fast_extensions p"] assms by (auto simp: peer_inv_def)
  then show ?thesis using True r assms by (simp add: handleCancel_def removeRequest_def Let_def peer_inv_def)
qed (use assms in \<open>simp add: handleCancel_def\<close>)

lemma handleReject_safe: "env_ok n e \<Longrightarrow> peer_inv n p \<Longrightarrow> safe n (handleReject e p packet)"
  using read_request_ok[of packet] by (auto simp: handleReject_def onRejected_def intro!: notify_inv)

lemma handlePort_safe: "env_ok n e \<Longrightarrow> peer_inv n p \<Longrightarrow> safe n (handlePort e p packet)"
  by (auto simp: handlePort_def ReadUint16_def intro!: notify_inv)

lemma handshake_pex_inv [simp]: "peer_inv n (handshake_pex e d p) = peer_inv n p"
  by (simp add: handshake_pex_def Let_def split: option.splits)

lemma handshake_limits_inv [simp]: "peer_inv n (handshake_limits e d p) = peer_inv n p"
  by (simp add: handshake_limits_def Let_def split: option.splits)

lemma handshake_metadata_inv: "handshake_metadata e d m p = Return q \<Longrightarrow> peer_inv n q = peer_inv n p"
  by (auto simp: handshake_metadata_def Let_def obind_cases split: option.splits if_splits)

lemma handleExtendedHandshake_inv [simp]: "peer_inv n (handleExtendedHandshake e p x) = peer_inv n p"
  by (auto simp: handleExtendedHandshake_def Let_def dest!: handshake_metadata_inv[of _ _ _ _ _ n]
      split: outcome.splits prod.splits option.splits BNode.splits)

lemma handleExtendedPacket_safe: "env_ok n e \<Longrightarrow> peer_inv n p \<Longrightarrow> peer_inv n (handleExtendedPacket e p x)"
  by (auto simp: handleExtendedPacket_def Let_def intro!: notify_inv)

lemma handleChoke_safe: "env_ok n e \<Longrightarrow> peer_inv n p \<Longrightarrow> peer_inv n (handleChoke e p len)"
  by (simp add: handleChoke_def Let_def downloader_choked_safe)

lemma handleUnchoke_safe: "peer_inv n p \<Longrightarrow> peer_inv n (handleUnchoke e p len)"
  by (auto simp: handleUnchoke_def Let_def) (simp add: peer_inv_def)

lemma handleInterested_safe: "env_ok n e \<Longrightarrow> peer_inv n p \<Longrightarrow> peer_inv n (handleInterested e p len)"
  by (simp add: handleInterested_def notify_inv)

lemma handleNotInterested_safe: "env_ok n e \<Longrightarrow> peer_inv n p \<Longrightarrow> peer_inv n (handleNotInterested e p len)"
  by (simp add: handleNotInterested_def notify_inv)

lemma handlePacket_inv:
  assumes e: "env_ok n e" and p: "peer_inv n p"
  shows "safe n (handlePacket e p packet)"
proof -
  note rules = handleHave_safe[OF e p] handleBitField_safe[OF e p] handleRequest_safe[OF p] handlePiece_safe[OF e p]
    handleCancel_safe[OF p] handleReject_safe[OF e p] handlePort_safe[OF e p] handleHaveAll_safe[OF e p]
    handleHaveNone_safe[OF e p] handleExtendedPacket_safe[OF e p] handleChoke_safe[OF e p] handleUnchoke_safe[OF p]
    handleInterested_safe[OF e p] handleNotInterested_safe[OF e p] p
  show ?thesis unfolding handlePacket_def Let_def by (simp only: if_distrib[of "safe n"] rules safe_Some if_cancel)
qed

lemma handle_packets_safe: "env_ok n e \<Longrightarrow> peer_inv n p \<Longrightarrow> safe n (handle_packets e p xs)"
  by (induction xs arbitrary: p) (auto intro!: safe_bind handlePacket_inv)

lemma reader_update_inv: "pr_inv rd \<Longrightarrow> \<not> pr_error rd \<Longrightarrow> pr_inv (snd (PacketReader_update rd))"
  using PacketReader_update_law[of rd] by auto

lemma Peer_update_inv:
  assumes "env_ok n e" and "peer_inv n p"
  shows "safe n (Peer_update e p)"
proof (cases "p_killed p \<or> \<not> e_sock_ok e \<or> pr_error (p_reader p)")
  case True
  then show ?thesis using assms(2) by (auto simp: Peer_update_def)
next
  case False
  obtain pkts rd where r: "PacketReader_update (p_reader p) = (pkts, rd)" by (cases "PacketReader_update (p_reader p)")
  have "pr_inv rd" using reader_update_inv[of "p_reader p"] assms(2) False r by (simp add: peer_inv_def)
  then have "peer_inv n (p\<lparr>p_reader := rd\<rparr>)" using assms(2) by (simp add: peer_inv_def)
  then obtain q where q: "handle_packets e (p\<lparr>p_reader := rd\<rparr>) pkts = Some q" "peer_inv n q"
    using handle_packets_safe[OF assms(1)] by (auto simp: safe_def)
  have up: "peer_inv n (q\<lparr>p_sock := (p_sock q)\<lparr>ps_uploaded := 0\<rparr>\<rparr>)"
    using q(2) by (auto simp: peer_inv_def ps_inv_def ps_wf_def queued_def is_front_def)
  have st: "peer_inv n (r\<lparr>p_stalled_last := t\<rparr>) = peer_inv n r"
    "peer_inv n (r\<lparr>p_download_rate := a, p_upload_rate := b, p_snubbed := c, p_num_up_requests := d, p_num_down_requests := f\<rparr>) = peer_inv n r"
    "peer_inv n (addUploadedBytes (r\<lparr>p_bytes_uploaded := x\<rparr>) y) = peer_inv n r" for r t a b c d f x y
    by (simp_all add: peer_inv_def addUploadedBytes_def)
  show ?thesis using False up
    by (simp add: Peer_update_def r q(1) dataBytesUploaded_def Let_def st notify_inv[OF assms(1)])
qed

section \<open>Answering requests\<close>

text \<open>What the cache promises for a piece inside a chunk on disk.\<close>

definition loader_ok :: "loader \<Rightarrow> (Chunk \<Rightarrow> nat \<Rightarrow> nat \<Rightarrow> bytes) \<Rightarrow> bool" where
  "loader_ok load content \<longleftrightarrow> (\<forall>c off len. off + len \<le> ch_size c \<longrightarrow>
     (\<exists>d x. load c off len = Some d \<and> pd_ptr d = Some x \<and> pd_len d = len \<and> len \<le> length x \<and> take len x = content c off len))"

definition servable :: "(nat \<Rightarrow> Chunk option) \<Rightarrow> Request \<Rightarrow> bool" where
  "servable chunks r \<longleftrightarrow> (case chunks (unat (rq_index r)) of None \<Rightarrow> False
     | Some c \<Rightarrow> ch_status c = ON_DISK \<and> unat (rq_off r) < ch_size c \<and> unat (rq_off r) + unat (rq_len r) \<le> ch_size c)"

definition piece_answer :: "(nat \<Rightarrow> Chunk option) \<Rightarrow> (Chunk \<Rightarrow> nat \<Rightarrow> nat \<Rightarrow> bytes) \<Rightarrow> Request \<Rightarrow> Packet" where
  "piece_answer chunks content r = packet_of PIECE (be32 (rq_index r) @ be32 (rq_off r)
     @ content (the (chunks (unat (rq_index r)))) (unat (rq_off r)) (unat (rq_len r)))"

definition reject_answer :: "Request \<Rightarrow> Packet" where
  "reject_answer r = packet_of REJECT_REQUEST (be32 (rq_index r) @ be32 (rq_off r) @ be32 (rq_len r))"

definition request_packet :: "Request \<Rightarrow> Packet" where
  "request_packet r = packet_of REQUEST (be32 (rq_index r) @ be32 (rq_off r) @ be32 (rq_len r))"

lemma send_packet_law:
  assumes "peer_inv n p" and "pk = Some q" and "sendable q"
  obtains s where "send_packet p pk = Some (p\<lparr>p_sock := s\<rparr>)" "peer_inv n (p\<lparr>p_sock := s\<rparr>)"
    "control_packets s = control_packets (p_sock p) @ (if pkt_type q = PIECE then [] else [q])"
    "data_packets s = data_packets (p_sock p) @ (if pkt_type q = PIECE then [q] else [])"
proof -
  have "ps_wf (p_sock p)" using assms(1) by (simp add: peer_inv_def ps_inv_def)
  then show ?thesis using that[of "addPacket (p_sock p) q"] assms addPacket_queues[of "p_sock p" q]
    by (simp add: send_packet_def peer_inv_def addPacket_inv)
qed

lemma reject_answer_sendable [simp]: "sendable (reject_answer r)" "pkt_type (reject_answer r) \<noteq> PIECE"
  by (simp_all add: reject_answer_def packet_of_sendable)

lemma request_packet_sendable [simp]: "sendable (request_packet r)" "pkt_type (request_packet r) \<noteq> PIECE"
  by (simp_all add: request_packet_def packet_of_sendable)

text \<open>The effect of serving requests: exactly one packet for each, in the right queue.\<close>

definition served :: "(nat \<Rightarrow> Chunk option) \<Rightarrow> (Chunk \<Rightarrow> nat \<Rightarrow> nat \<Rightarrow> bytes) \<Rightarrow> bool \<Rightarrow> Request list \<Rightarrow> PacketSocket \<Rightarrow> PacketSocket \<Rightarrow> bool" where
  "served chunks content fast rs s s' \<longleftrightarrow>
     data_packets s' = data_packets s @ map (piece_answer chunks content) (filter (servable chunks) rs)
     \<and> control_packets s' = control_packets s
         @ (if fast then map reject_answer (filter (\<lambda>r. \<not> servable chunks r) rs) else [])"

lemma sendReject_law:
  assumes "peer_inv n p"
  obtains s where "sendReject p r = Some (p\<lparr>p_sock := s\<rparr>)" "peer_inv n (p\<lparr>p_sock := s\<rparr>)"
    "control_packets s = control_packets (p_sock p) @ [reject_answer r]"
    "data_packets s = data_packets (p_sock p)"
proof -
  have pk: "Packet_request r REJECT_REQUEST = Some (reject_answer r)"
    by (simp add: Packet_request_frame reject_answer_def)
  show ?thesis by (rule send_packet_law[OF assms pk reject_answer_sendable(1)]) (use that in \<open>simp add: sendReject_def\<close>)
qed

lemma sendChunk_law:
  assumes "peer_inv n p" and "loader_ok load content" and "chunks (unat (rq_index r)) = Some c" and "servable chunks r"
    and "ch_size c < 2 ^ 32 - 13"
  obtains s where "sendChunk load p (rq_index r) (rq_off r) (rq_len r) c = Some (True, p\<lparr>p_sock := s\<rparr>)"
    "peer_inv n (p\<lparr>p_sock := s\<rparr>)" "control_packets s = control_packets (p_sock p)"
    "data_packets s = data_packets (p_sock p) @ [piece_answer chunks content r]"
proof -
  have r: "unat (rq_off r) < ch_size c" "unat (rq_off r) + unat (rq_len r) \<le> ch_size c"
    using assms(3,4) by (auto simp: servable_def)
  then obtain d x where d: "load c (unat (rq_off r)) (unat (rq_len r)) = Some d" "pd_ptr d = Some x" "pd_len d = unat (rq_len r)"
      "unat (rq_len r) \<le> length x" "take (unat (rq_len r)) x = content c (unat (rq_off r)) (unat (rq_len r))"
    using assms(2) unfolding loader_ok_def by blast
  have len: "unat (rq_len r) < 2 ^ 32 - 13" using r assms(5) by linarith
  have pk: "Packet_piece load (rq_index r) (rq_off r) (rq_len r) c = Some (piece_answer chunks content r)"
    using Packet_piece_frame[of "rq_len r" load c "rq_off r" d x "rq_index r", OF len d(1,2,3,4)] d(5) assms(3)
    by (simp add: piece_answer_def)
  have "length (content c (unat (rq_off r)) (unat (rq_len r))) = unat (rq_len r)"
    using d(4,5) by (metis length_take min_absorb2)
  then have s: "sendable (piece_answer chunks content r)" "pkt_type (piece_answer chunks content r) = PIECE"
    using len assms(3) by (simp_all add: piece_answer_def packet_of_sendable)
  have a: "add32 (unat (rq_off r)) (unat (rq_len r)) = unat (rq_off r) + unat (rq_len r)"
    using r assms(5) by (intro add32_id) linarith
  show ?thesis by (rule send_packet_law[OF assms(1) pk s(1)]) (use r a s(2) that in \<open>simp add: sendChunk_def\<close>)
qed

lemma serve_request_law:
  assumes "peer_inv n p" and "loader_ok load content" and "\<forall>i c. chunks i = Some c \<longrightarrow> ch_size c < 2 ^ 32 - 13"
    and "unat (rq_off r) + unat (rq_len r) < 2 ^ 32"
  obtains s where "serve_request load chunks p r = Some (p\<lparr>p_sock := s\<rparr>)" "peer_inv n (p\<lparr>p_sock := s\<rparr>)"
    "served chunks content (p_fast_extensions p) [r] (p_sock p) s"
proof (cases "servable chunks r")
  case True
  then obtain c where c: "chunks (unat (rq_index r)) = Some c" "ch_status c = ON_DISK"
    by (auto simp: servable_def split: option.splits)
  have "ch_size c < 2 ^ 32 - 13" using assms(3) c(1) by blast
  from sendChunk_law[OF assms(1,2) c(1) True this] obtain s where
    "sendChunk load p (rq_index r) (rq_off r) (rq_len r) c = Some (True, p\<lparr>p_sock := s\<rparr>)" "peer_inv n (p\<lparr>p_sock := s\<rparr>)"
    "control_packets s = control_packets (p_sock p)" "data_packets s = data_packets (p_sock p) @ [piece_answer chunks content r]"
    by blast
  then show ?thesis using that[of s] c True by (simp add: serve_request_def served_def)
next
  case False
  have a: "add32 (unat (rq_off r)) (unat (rq_len r)) = unat (rq_off r) + unat (rq_len r)"
    using assms(4) by (rule add32_id)
  have s: "serve_request load chunks p r = (if p_fast_extensions p then sendReject p r else Some p)"
    using False by (auto simp: serve_request_def servable_def sendChunk_def a split: option.splits)
  show ?thesis
  proof (cases "p_fast_extensions p")
    case fast: True
    from sendReject_law[OF assms(1), of r] obtain s' where
      "sendReject p r = Some (p\<lparr>p_sock := s'\<rparr>)" "peer_inv n (p\<lparr>p_sock := s'\<rparr>)"
      "control_packets s' = control_packets (p_sock p) @ [reject_answer r]" "data_packets s' = data_packets (p_sock p)" by blast
    then show ?thesis using that[of s'] fast False s by (simp add: served_def)
  next
    case slow: False
    show ?thesis by (rule that[of "p_sock p"]) (use slow False s assms(1) in \<open>simp_all add: served_def\<close>)
  qed
qed

lemma served_trans:
  "served chunks content fast [r] s s' \<Longrightarrow> served chunks content fast rs s' s'' \<Longrightarrow> served chunks content fast (r # rs) s s''"
  by (auto simp: served_def)

lemma handle_loop_law:
  assumes "peer_inv n p" and "loader_ok load content" and "\<forall>i c. chunks i = Some c \<longrightarrow> ch_size c < 2 ^ 32 - 13"
    and "\<forall>r \<in> set rs. unat (rq_off r) + unat (rq_len r) < 2 ^ 32" and "u_requests p = rs"
  shows "\<exists>s. handle_loop load chunks rs p = Some (p\<lparr>p_sock := s, u_requests := []\<rparr>)
     \<and> peer_inv n (p\<lparr>p_sock := s\<rparr>) \<and> served chunks content (p_fast_extensions p) rs (p_sock p) s"
  using assms
proof (induction rs arbitrary: p)
  case Nil
  then show ?case by (intro exI[of _ "p_sock p"]) (simp add: served_def)
next
  case (Cons r rs)
  have "unat (rq_off r) + unat (rq_len r) < 2 ^ 32" using Cons.prems(4) by simp
  from serve_request_law[OF Cons.prems(1-3) this] obtain s where
    s: "serve_request load chunks p r = Some (p\<lparr>p_sock := s\<rparr>)" "peer_inv n (p\<lparr>p_sock := s\<rparr>)"
      "served chunks content (p_fast_extensions p) [r] (p_sock p) s" by blast
  let ?q = "p\<lparr>p_sock := s, u_requests := rs\<rparr>"
  have "peer_inv n ?q" using s(2) by simp
  then obtain s' where "handle_loop load chunks rs ?q = Some (?q\<lparr>p_sock := s', u_requests := []\<rparr>)"
      "peer_inv n (?q\<lparr>p_sock := s'\<rparr>)" "served chunks content (p_fast_extensions ?q) rs (p_sock ?q) s'"
    using Cons.IH[of ?q] Cons.prems(2-4) by auto
  then show ?case using s served_trans[OF s(3), of rs s'] by (intro exI[of _ s']) (simp add: peer_inv_def)
qed

section \<open>The request window\<close>

lemma sendRequest_law:
  assumes "peer_inv n p"
  obtains s where "sendRequest p r = Some (p\<lparr>p_sock := s\<rparr>)" "peer_inv n (p\<lparr>p_sock := s\<rparr>)"
    "control_packets s = control_packets (p_sock p) @ [request_packet r]"
    "data_packets s = data_packets (p_sock p)"
proof -
  have pk: "Packet_request r REQUEST = Some (request_packet r)"
    by (simp add: Packet_request_frame request_packet_def)
  show ?thesis by (rule send_packet_law[OF assms pk request_packet_sendable(1)]) (use that in \<open>simp add: sendRequest_def\<close>)
qed

definition requested :: "nat \<Rightarrow> Request list \<Rightarrow> Request list \<Rightarrow> PacketSocket \<Rightarrow> Peer \<Rightarrow> Peer" where
  "requested now sent later s p = p\<lparr>p_sock := s, d_wait_queue := later, d_reqs := d_reqs p @ map (TimeStampedRequest_new now) sent\<rparr>"

lemma request_loop_law:
  assumes "peer_inv n p" and "d_wait_queue p = rs" and "k = mx - length (d_reqs p)"
  shows "\<exists>s. request_loop now mx rs p = Some (requested now (take k rs) (drop k rs) s p)
     \<and> peer_inv n (p\<lparr>p_sock := s\<rparr>) \<and> control_packets s = control_packets (p_sock p) @ map request_packet (take k rs)
     \<and> data_packets s = data_packets (p_sock p)"
  using assms
proof (induction rs arbitrary: p k)
  case Nil
  then show ?case by (intro exI[of _ "p_sock p"]) (simp add: requested_def)
next
  case (Cons r rs)
  show ?case
  proof (cases "length (d_reqs p) < mx")
    case True
    then obtain j where j: "mx - length (d_reqs p) = Suc j" by (metis Suc_diff_Suc)
    let ?p = "p\<lparr>d_wait_queue := rs, d_reqs := d_reqs p @ [TimeStampedRequest_new now r]\<rparr>"
    have "peer_inv n ?p" using Cons.prems(1) by (simp add: peer_inv_def)
    from sendRequest_law[OF this, of r] obtain s where s: "sendRequest ?p r = Some (?p\<lparr>p_sock := s\<rparr>)" "peer_inv n (?p\<lparr>p_sock := s\<rparr>)"
      "control_packets s = control_packets (p_sock ?p) @ [request_packet r]" "data_packets s = data_packets (p_sock ?p)" by blast
    have "mx - length (d_reqs (?p\<lparr>p_sock := s\<rparr>)) = j" using j by simp
    with Cons.IH[OF s(2), of j] obtain s' where
      "request_loop now mx rs (?p\<lparr>p_sock := s\<rparr>) = Some (requested now (take j rs) (drop j rs) s' (?p\<lparr>p_sock := s\<rparr>))"
      "peer_inv n (?p\<lparr>p_sock := s'\<rparr>)" "control_packets s' = control_packets s @ map request_packet (take j rs)"
      "data_packets s' = data_packets s" by auto
    then show ?thesis using s True j Cons.prems(3) by (intro exI[of _ s']) (auto simp: requested_def peer_inv_def)
  next
    case False
    then show ?thesis using Cons.prems by (intro exI[of _ "p_sock p"]) (simp add: requested_def)
  qed
qed

section \<open>Timeouts\<close>

definition fresh_only :: "Env \<Rightarrow> bool" where
  \<comment> \<open>what the chunk downloads do when a request times out: at most send further requests, now\<close>
  "fresh_only e \<longleftrightarrow> (\<forall>r p. \<exists>new. d_reqs (e_notify e (TimedOut r) p) = d_reqs p @ new \<and> (\<forall>x \<in> set new. tr_time x = e_now e))"

definition expired :: "nat \<Rightarrow> TimeStampedRequest \<Rightarrow> bool" where
  "expired now x \<longleftrightarrow> now - tr_time x > 60 * 1000"

lemma timeout_loop_law:
  assumes "fresh_only e" and "d_reqs p = xs @ fresh" and "\<forall>x \<in> set fresh. tr_time x = e_now e"
    and "sorted (map tr_time xs)" and "\<forall>x \<in> set xs. tr_time x \<le> e_now e" and "e_now e < 2 ^ 64"
  shows "\<exists>p' new. timeout_loop e p = Some p' \<and> d_reqs p' = filter (\<lambda>x. \<not> expired (e_now e) x) xs @ new
     \<and> (\<forall>x \<in> set new. tr_time x = e_now e)"
  using assms(2-5)
proof (induction xs arbitrary: p fresh)
  case Nil
  have "sub64 (e_now e) (tr_time x) = 0" if "x \<in> set fresh" for x
    using Nil.prems(2) that assms(6) by (simp add: sub64_id)
  then have "timeout_loop e p = Some p" using Nil.prems(1)
    by (subst timeout_loop.simps) (auto split: list.splits)
  then show ?case using Nil by auto
next
  case (Cons x xs)
  have sub: "sub64 (e_now e) (tr_time x) = e_now e - tr_time x" using Cons.prems(4) assms(6) by (simp add: sub64_id)
  show ?case
  proof (cases "expired (e_now e) x")
    case True
    let ?q = "e_notify e (TimedOut (tr_req x)) (p\<lparr>d_reqs := xs @ fresh\<rparr>)"
    obtain new where "d_reqs ?q = d_reqs (p\<lparr>d_reqs := xs @ fresh\<rparr>) @ new" and t: "\<forall>x \<in> set new. tr_time x = e_now e"
      using assms(1) unfolding fresh_only_def by blast
    then have n: "d_reqs ?q = xs @ (fresh @ new)" by simp
    have "timeout_loop e p = timeout_loop e ?q"
      using Cons.prems(1) True sub by (subst timeout_loop.simps) (simp add: expired_def)
    then show ?thesis using Cons.IH[OF n] t Cons.prems(2-4) True by auto
  next
    case False
    have "\<not> expired (e_now e) y" if "y \<in> set xs" for y
      using False Cons.prems(3) that by (force simp: expired_def)
    then have f: "filter (\<lambda>x. \<not> expired (e_now e) x) (x # xs) = x # xs" using False by (simp add: filter_id_conv)
    have "timeout_loop e p = Some p"
      using Cons.prems(1) False sub by (subst timeout_loop.simps) (simp add: expired_def)
    then show ?thesis using Cons.prems f by auto
  qed
qed

section \<open>Choking\<close>

lemma removed_queues:
  assumes "ps_wf s"
  shows "control_packets (removed s X R) = control_packets s @ R"
    and "data_packets (removed s X R) = map (\<lambda>i. ps_store s ! i) (filter (\<lambda>i. i \<notin> set X) (ps_data s))"
proof -
  have "map (\<lambda>i. (ps_store s @ R) ! i) [length (ps_store s)..<length (ps_store s) + length R] = R"
    by (rule nth_equalityI) (auto simp: nth_append)
  moreover have "map (\<lambda>i. (ps_store s @ R) ! i) (ps_control s) = control_packets s"
    using assms by (auto simp: control_packets_def ps_wf_def queued_def nth_append)
  ultimately show "control_packets (removed s X R) = control_packets s @ R"
    by (simp add: control_packets_def removed_def)
  show "data_packets (removed s X R) = map (\<lambda>i. ps_store s ! i) (filter (\<lambda>i. i \<notin> set X) (ps_data s))"
    using assms by (auto simp: data_packets_def removed_def ps_wf_def queued_def nth_append)
qed

lemma clearPieces_law:
  assumes "ps_inv s"
  obtains s' where "clearPieces s reject = Some s'" "ps_inv s'"
    "control_packets s' = control_packets s @ (if reject then map (\<lambda>i. reject_of (ps_store s ! i)) (filter (\<lambda>i. ps_curr s \<noteq> Some i) (ps_data s)) else [])"
    "data_packets s' = map (\<lambda>i. ps_store s ! i) (filter (\<lambda>i. ps_curr s = Some i) (ps_data s))"
proof -
  have wf: "ps_wf s" and d: "distinct (ps_data s)" using assms by (auto simp: ps_inv_def ps_wf_def queued_def)
  let ?X = "filter (\<lambda>i. ps_curr s \<noteq> Some i) (ps_data s)"
  have v: "filter (droppable (\<lambda>_. True) s) (ps_data s) = ?X"
    using assms by (intro filter_cong) (auto simp: droppable_def Packet_sending_def ps_inv_def queued_def)
  have c: "clearPieces s reject = Some (removed s ?X (rejects reject s ?X))"
    using clear_loop_law[OF wf d subset_refl, of reject] unfolding clearPieces_def v .
  have i: "ps_inv (removed s ?X (rejects reject s ?X))" by (rule removed_inv(1)[OF assms _ rejects_ok]) simp
  have f: "filter (\<lambda>i. i \<notin> set ?X) (ps_data s) = filter (\<lambda>i. ps_curr s = Some i) (ps_data s)"
    by (intro filter_cong) auto
  show ?thesis by (rule that[OF c i]) (simp_all only: removed_queues[OF wf] f rejects_def)
qed

lemma send_rejects_law:
  assumes "peer_inv n p"
  shows "\<exists>s. send_all sendReject rs p = Some (p\<lparr>p_sock := s\<rparr>) \<and> peer_inv n (p\<lparr>p_sock := s\<rparr>)
     \<and> control_packets s = control_packets (p_sock p) @ map reject_answer rs \<and> data_packets s = data_packets (p_sock p)"
  using assms
proof (induction rs arbitrary: p)
  case Nil
  then show ?case by (intro exI[of _ "p_sock p"]) simp
next
  case (Cons r rs)
  from sendReject_law[OF Cons.prems, of r] obtain s where s: "sendReject p r = Some (p\<lparr>p_sock := s\<rparr>)"
    "peer_inv n (p\<lparr>p_sock := s\<rparr>)" "control_packets s = control_packets (p_sock p) @ [reject_answer r]"
    "data_packets s = data_packets (p_sock p)" by blast
  then show ?case using Cons.IH[OF s(2)] by auto
qed

section \<open>The extended handshake\<close>

definition handshake_tree :: "bytes \<Rightarrow> bool \<Rightarrow> nat \<Rightarrow> nat \<Rightarrow> bool \<Rightarrow> btree" where
  "handshake_tree version pex port metadata_size partial_seed =
     TDict ([(ascii ''m'', TDict [(ascii ''ut_pex'', TInt (if pex then UT_PEX_ID else 0)), (ascii ''ut_metadata'', TInt UT_METADATA_ID)])]
       @ (if port > 0 then [(ascii ''p'', TInt port)] else []) @ [(ascii ''reqq'', TInt 250)]
       @ (if metadata_size \<noteq> 0 then [(ascii ''metadata_size'', TInt metadata_size)] else [])
       @ [(ascii ''upload_only'', TStr (ascii (if partial_seed then ''1'' else ''0''))), (ascii ''v'', TStr version)])"

lemma sendExtProtHandshake_tree:
  assumes "p_extension_protocol p"
  shows "sendExtProtHandshake number version p port metadata_size partial_seed
     = sendExtProtMsg p 0 (tree_bytes number (handshake_tree version (p_pex_allowed p) port metadata_size partial_seed))"
proof -
  have e: "bo_at_end \<lparr>bo_data = [], bo_ptr = 0\<rparr>" by (simp add: bo_at_end_def)
  show ?thesis using assms
    by (cases "port > 0"; cases "metadata_size = 0")
      (simp_all add: sendExtProtHandshake_def Let_def enc_appends e handshake_tree_def)
qed

lemma handshake_tree_ok:
  "length version < 2 ^ 31 \<Longrightarrow> port < 2 ^ 16 \<Longrightarrow> metadata_size < 2 ^ 31 \<Longrightarrow>
   tree_ok (handshake_tree version pex port metadata_size partial_seed)"
  by (auto simp: handshake_tree_def ascii_def UT_PEX_ID_def UT_METADATA_ID_def)

lemma handshake_received:
  assumes q: "\<And>s. e_qstring e (ascii s) = s" and "port < 2 ^ 16" and "metadata_size < 2 ^ 31"
    and dec: "decode (e_toInt e) (e_toLongLong e) packet 2 = Return (Some v, pos)"
    and m: "node_matches (handshake_tree version pex port metadata_size partial_seed) v"
  shows "\<exists>b'. handleExtendedHandshake e b packet = b' \<and> p_max_request_queue b' = 250 \<and> \<not> p_partial_seed b'
     \<and> p_extensions b' UT_METADATA_ID = Some UT_METADATA_ID \<and> (e_pex_enabled e \<longrightarrow> p_ut_pex_id b' = (if pex then UT_PEX_ID else 0))"
proof -
  let ?md = "[(ascii ''ut_pex'', TInt (if pex then UT_PEX_ID else 0)), (ascii ''ut_metadata'', TInt UT_METADATA_ID)]"
  obtain es where t: "handshake_tree version pex port metadata_size partial_seed = TDict es" by (simp add: handshake_tree_def)
  obtain ns off len where v: "v = BDictNode ns off len" and l: "list_all2 (\<lambda>e m. fst e = fst m \<and> node_matches (snd e) (snd m)) es ns"
    using node_matches_dictD m unfolding t by blast
  have lk: "tree_lookup (e_qstring e) es ''m'' = Some (TDict ?md)"
    "tree_lookup (e_qstring e) es ''reqq'' = Some (TInt 250)"
    "tree_lookup (e_qstring e) es ''upload_only'' = Some (TStr (ascii (if partial_seed then ''1'' else ''0'')))"
    "tree_lookup (e_qstring e) es ''metadata_size'' = (if metadata_size \<noteq> 0 then Some (TInt metadata_size) else None)"
    using t by (auto simp: handshake_tree_def q)
  obtain ms where ms: "getDict (e_qstring e) ns ''m'' = Some ms"
      "list_all2 (\<lambda>e m. fst e = fst m \<and> node_matches (snd e) (snd m)) ?md ms"
    using getValue_written(4)[OF l lk(1)] by blast
  have pv: "getValue (e_qstring e) ms ''ut_pex'' = Some (VInt (int (if pex then UT_PEX_ID else 0)))"
    by (rule getValue_written(1)[OF ms(2)]) (auto simp: q UT_PEX_ID_def)
  have mv: "getValue (e_qstring e) ms ''ut_metadata'' = Some (VInt (int UT_METADATA_ID))"
    by (rule getValue_written(1)[OF ms(2)]) (auto simp: q UT_METADATA_ID_def)
  have rv: "getValue (e_qstring e) ns ''reqq'' = Some (VInt 250)" using getValue_written(1)[OF l lk(2)] by simp
  have uv: "getValue (e_qstring e) ns ''upload_only'' = Some (VString (ascii (if partial_seed then ''1'' else ''0'')))"
    by (rule getValue_written(2)[OF l lk(3)])
  have sv: "getValue (e_qstring e) ns ''metadata_size'' = (if metadata_size \<noteq> 0 then Some (VInt (int metadata_size)) else None)"
    using getValue_written(1)[OF l, of "e_qstring e" "''metadata_size''"] getValue_written(3)[OF l, of "e_qstring e" "''metadata_size''"] lk(4) assms(3) by simp
  have md: "\<exists>p'. handshake_metadata e ns ms p = Return p' \<and> p_extensions p' UT_METADATA_ID = Some UT_METADATA_ID \<and> p_ut_pex_id p' = p_ut_pex_id p" for p
    using mv sv by (auto simp: handshake_metadata_def val_toInt_def int_to_u32_def UT_METADATA_ID_def getInt_def value_int_def Let_def)
  have px: "e_pex_enabled e \<longrightarrow> p_ut_pex_id (handshake_pex e ms b) = (if pex then UT_PEX_ID else 0)"
    using pv by (auto simp: handshake_pex_def val_toInt_def int_to_u32_def UT_PEX_ID_def Let_def)
  obtain p2 where p2: "handshake_metadata e ns ms (handshake_pex e ms b) = Return p2" "p_extensions p2 UT_METADATA_ID = Some UT_METADATA_ID"
      "p_ut_pex_id p2 = p_ut_pex_id (handshake_pex e ms b)" using md by blast
  have "handleExtendedHandshake e b packet = handshake_limits e ns p2"
    using dec v ms(1) p2(1) by (simp add: handleExtendedHandshake_def Let_def)
  then show ?thesis using p2(2,3) px rv uv by (auto simp: handshake_limits_def val_toInt_def int_to_u32_def)
qed

lemma tree_bytes_handshake_length:
  assumes "qt_numbers toInt toLL number" and "length version < 2 ^ 20" and "port < 2 ^ 16" and "metadata_size < 2 ^ 31"
  shows "length (tree_bytes number (handshake_tree version pex port metadata_size partial_seed)) < 2 ^ 31"
proof -
  have n: "length (number k) \<le> 20" if "k < 2 ^ 31" for k
    using qt_numbers.number_length[OF assms(1), of k] that by simp
  have a: "length (ascii s) = length s" for s by (simp add: ascii_def)
  have "length version < 2 ^ 31" using assms(2) by simp
  note l = n[OF this] n[of port] n[of metadata_size] n[of 250] n[of UT_PEX_ID] n[of UT_METADATA_ID] n[of 0] n[of "length ''ut_pex''"]
    n[of "length ''ut_metadata''"] n[of "length ''m''"] n[of "length ''reqq''"] n[of "length ''metadata_size''"] n[of "length ''upload_only''"]
  show ?thesis using l assms(2-4)
    by (cases "port > 0"; cases "metadata_size = 0"; cases pex) (simp_all add: handshake_tree_def a UT_PEX_ID_def UT_METADATA_ID_def)
qed

section \<open>Properties\<close>

definition quiet_env :: Env where
  "quiet_env = \<lparr>e_now = 100000, e_down_rate = 0, e_up_rate = 0, e_sock_ok = True, e_torrent_loaded = True, e_pex_enabled = True,
     e_toInt = dec_parse (2 ^ 31), e_toLongLong = dec_parse (2 ^ 63), e_qstring = map (\<lambda>b. char_of (unat b)),
     e_garbage = 0, e_notify = (\<lambda>_ p. p)\<rparr>"

lemma quiet_env_ok [simp]: "env_ok n quiet_env" "fresh_only quiet_env"
  by (simp_all add: env_ok_def fresh_only_def quiet_env_def)

lemma peer_inv_init [simp]: "n < 2 ^ 32 \<Longrightarrow> peer_inv n (PeerInterface_init now n)"
  by (simp add: peer_inv_def PeerInterface_init_def bs_counted_new pr_inv_new)



definition fixed_length :: "u8 \<Rightarrow> nat option" where
  "fixed_length t =
     (if t \<in> {CHOKE, UNCHOKE, INTERESTED, NOT_INTERESTED, HAVE_ALL, HAVE_NONE} then Some 1
      else if t = HAVE then Some 5 else if t \<in> {REQUEST, CANCEL, REJECT_REQUEST} then Some 13
      else if t = PORT then Some 3 else None)"

lemma fixed_length_cases:
  "fixed_length t = Some k \<Longrightarrow>
     t = CHOKE \<and> k = 1 \<or> t = UNCHOKE \<and> k = 1 \<or> t = INTERESTED \<and> k = 1 \<or> t = NOT_INTERESTED \<and> k = 1
     \<or> t = HAVE_ALL \<and> k = 1 \<or> t = HAVE_NONE \<and> k = 1 \<or> t = HAVE \<and> k = 5 \<or> t = REQUEST \<and> k = 13 \<or> t = CANCEL \<and> k = 13
     \<or> t = REJECT_REQUEST \<and> k = 13 \<or> t = PORT \<and> k = 3"
  by (simp add: fixed_length_def split: if_splits)

lemma dispatch:
  assumes "\<not> p_killed p"
  shows "handlePacket e p (CHOKE # b) = Some (handleChoke e p (Suc (length b)))"
    "handlePacket e p (UNCHOKE # b) = Some (handleUnchoke e p (Suc (length b)))"
    "handlePacket e p (INTERESTED # b) = Some (handleInterested e p (Suc (length b)))"
    "handlePacket e p (NOT_INTERESTED # b) = Some (handleNotInterested e p (Suc (length b)))"
    "handlePacket e p (HAVE # b) = handleHave e p (HAVE # b)"
    "handlePacket e p (BITFIELD # b) = handleBitField e p (BITFIELD # b)"
    "handlePacket e p (REQUEST # b) = handleRequest p (REQUEST # b)"
    "handlePacket e p (PIECE # b) = handlePiece e p (PIECE # b)"
    "handlePacket e p (CANCEL # b) = handleCancel p (CANCEL # b)"
    "handlePacket e p (REJECT_REQUEST # b) = handleReject e p (REJECT_REQUEST # b)"
    "handlePacket e p (PORT # b) = handlePort e p (PORT # b)"
    "handlePacket e p (HAVE_ALL # b) = Some (handleHaveAll e p (Suc (length b)))"
    "handlePacket e p (HAVE_NONE # b) = Some (handleHaveNone e p (Suc (length b)))"
    "handlePacket e p (EXTENDED # b) = Some (handleExtendedPacket e p (EXTENDED # b))"
  using assms by (simp_all add: handlePacket_def msg_types)

text \<open>
  A message of fixed size with any other length closes the connection and changes nothing else,
  and a closed connection ignores every further message.
\<close>

theorem Peer_malformed_kills:
  assumes "\<not> p_killed p" and "fixed_length t = Some k" and "length (t # body) \<noteq> k"
  shows "handlePacket e p (t # body) = Some (Peer_kill p) \<and> p_sock_closed (Peer_kill p)
     \<and> (\<forall>packet. handlePacket e (Peer_kill p) packet = Some (Peer_kill p))"
proof -
  have l: "Suc (length body) \<noteq> k" using assms(3) by simp
  have "handlePacket e p (t # body) = Some (Peer_kill p)"
    using fixed_length_cases[OF assms(2)] l
    by (elim disjE conjE)
      (simp_all add: dispatch[OF assms(1)] handleChoke_def handleUnchoke_def handleInterested_def
        handleNotInterested_def handleHaveAll_def handleHaveNone_def handleHave_def handleRequest_def handleCancel_def
        handleReject_def handlePort_def)
  then show ?thesis by (simp add: handlePacket_def Peer_kill_def)
qed

theorem Peer_malformed_kills_witness:
  "handlePacket quiet_env (PeerInterface_init 0 10) [4, 0] = Some (Peer_kill (PeerInterface_init 0 10))"
  using Peer_malformed_kills[of "PeerInterface_init 0 10" 4 5 "[0]" quiet_env]
  by (simp add: PeerInterface_init_def fixed_length_def msg_types)



text \<open>
  C26. The bounds check of \<open>sendChunk\<close> adds offset and length in 32 bits. Any peer that has been
  unchoked can send one well-formed request that passes it and makes the construction of the
  answer write outside its allocation.
\<close>

theorem Peer_request_overflow:
  assumes "\<not> p_killed p" and "p_has_upload_slot p" and "\<not> p_paused p" and "u_requests p = []"
    and "chunks (unat i) = Some c" and "ch_status c = ON_DISK" and "1 < ch_size c"
  shows "\<exists>p'. handlePacket e p (REQUEST # be32 i @ be32 1 @ be32 0xFFFFFFFF) = Some p' \<and> handleRequests load chunks p' = None"
proof -
  let ?packet = "REQUEST # be32 i @ be32 1 @ be32 0xFFFFFFFF" and ?r = "Request_new i 1 0xFFFFFFFF"
  have rd: "read_request ?packet = Some ?r"
    using ReadUint32_enc[of ?packet 1 i] ReadUint32_enc[of ?packet 5 1] ReadUint32_enc[of ?packet 9 "0xFFFFFFFF"]
    by (simp add: read_request_def mem_read_def)
  have len: "length ?packet = 13" by simp
  have "handlePacket e p ?packet = handleRequest p ?packet" using assms(1) by (simp add: handlePacket_def msg_types)
  then have h: "handlePacket e p ?packet = Some (addRequest p ?r)" using assms(2) len rd by (simp add: handleRequest_def)
  have none: "Packet_piece load i 1 0xFFFFFFFF c = None" by (rule Packet_piece_overflow) simp
  have "add32 1 (unat (0xFFFFFFFF :: u32w)) = 0" by (simp add: add32_def)
  then have "sendChunk load q i 1 0xFFFFFFFF c = None" for q using assms(7) none by (simp add: sendChunk_def send_packet_def)
  then have "handleRequests load chunks (addRequest p ?r) = None"
    using assms by (simp add: handleRequests_def addRequest_def areWeChoked_def serve_request_def Request_new_def)
  then show ?thesis using h by blast
qed

theorem Peer_request_overflow_witness:
  "\<exists>p'. handlePacket quiet_env ((PeerInterface_init 0 10)\<lparr>p_has_upload_slot := True\<rparr>) (REQUEST # be32 3 @ be32 1 @ be32 0xFFFFFFFF) = Some p'
     \<and> handleRequests (\<lambda>_ _ _. None) (\<lambda>i. Some ((Chunk_new i 64)\<lparr>ch_status := ON_DISK\<rparr>)) p' = None"
  using Peer_request_overflow[of "(PeerInterface_init 0 10)\<lparr>p_has_upload_slot := True\<rparr>"
      "\<lambda>i. Some ((Chunk_new i 64)\<lparr>ch_status := ON_DISK\<rparr>)" 3 "(Chunk_new (unat (3::u32w)) 64)\<lparr>ch_status := ON_DISK\<rparr>" quiet_env "\<lambda>_ _ _. None"]
  by (simp add: PeerInterface_init_def Chunk_new_def)

text \<open>
  C25. The downloader sends waiting requests in order and exactly as many as the window allows: the
  window is one request plus ten seconds of pieces at the current rate, never more than the limit
  the other side announced, and requests already outstanding are never exceeded by new ones.
\<close>

theorem PeerDownloader_window:
  assumes "peer_inv n p" and "k = max_reqs (e_down_rate e) p - length (d_reqs p)"
  shows "\<exists>p'. downloader_update e p = Some p' \<and> peer_inv n p'
     \<and> d_reqs p' = d_reqs p @ map (TimeStampedRequest_new (e_now e)) (take k (d_wait_queue p))
     \<and> d_wait_queue p' = drop k (d_wait_queue p)
     \<and> control_packets (p_sock p') = control_packets (p_sock p) @ map request_packet (take k (d_wait_queue p))
     \<and> data_packets (p_sock p') = data_packets (p_sock p)
     \<and> length (d_reqs p') \<le> max (length (d_reqs p)) (max_reqs (e_down_rate e) p)
     \<and> (p_max_request_queue p \<noteq> 0 \<longrightarrow> max_reqs (e_down_rate e) p \<le> p_max_request_queue p)"
proof -
  obtain s where s: "request_loop (e_now e) (max_reqs (e_down_rate e) p) (d_wait_queue p) p
        = Some (requested (e_now e) (take k (d_wait_queue p)) (drop k (d_wait_queue p)) s p)"
      "peer_inv n (p\<lparr>p_sock := s\<rparr>)" "control_packets s = control_packets (p_sock p) @ map request_packet (take k (d_wait_queue p))"
      "data_packets s = data_packets (p_sock p)"
    using request_loop_law[OF assms(1) refl assms(2)] by blast
  have "max_reqs (e_down_rate e) p \<le> p_max_request_queue p" if "p_max_request_queue p \<noteq> 0"
    using that by (simp add: max_reqs_def Let_def)
  then show ?thesis using s assms(2)
    by (auto simp: downloader_update_def Let_def requested_def peer_inv_def)
qed

theorem PeerDownloader_window_witness:
  "\<exists>p'. downloader_update quiet_env ((PeerInterface_init 0 10)\<lparr>d_wait_queue := [Request_new 1 0 5, Request_new 2 0 5]\<rparr>) = Some p'
     \<and> d_wait_queue p' = [Request_new 2 0 5]"
proof -
  let ?p = "(PeerInterface_init 0 10)\<lparr>d_wait_queue := [Request_new 1 0 5, Request_new 2 0 5]\<rparr>"
  have m: "max_reqs (e_down_rate quiet_env) ?p = 1"
    by (simp add: max_reqs_def quiet_env_def PeerInterface_init_def MAX_PIECE_LEN_def)
  have "1 = max_reqs (e_down_rate quiet_env) ?p - length (d_reqs ?p)" unfolding m by (simp add: PeerInterface_init_def)
  from PeerDownloader_window[OF _ this, of 10] show ?thesis by auto
qed

text \<open>
  Requests carry the time they were sent and the list is in that order. \<open>checkTimeouts\<close>
  terminates, gives up exactly the requests older than sixty seconds, even when giving one up sends
  new requests, and keeps every other.
\<close>

theorem PeerDownloader_timeouts:
  assumes "fresh_only e" and "sorted (map tr_time (d_reqs p))" and "\<forall>x \<in> set (d_reqs p). tr_time x \<le> e_now e"
    and "e_now e < 2 ^ 64"
  shows "\<exists>p' new. checkTimeouts e p = Some p' \<and> d_reqs p' = filter (\<lambda>x. \<not> expired (e_now e) x) (d_reqs p) @ new
     \<and> (\<forall>x \<in> set new. tr_time x = e_now e)"
  using timeout_loop_law[OF assms(1), of p "d_reqs p" "[]"] assms(2-4) by (simp add: checkTimeouts_def)

theorem PeerDownloader_timeouts_witness:
  "\<exists>p' new. checkTimeouts quiet_env ((PeerInterface_init 0 10)\<lparr>d_reqs := [\<lparr>tr_req = Request_new 1 0 5, tr_time = 10\<rparr>, \<lparr>tr_req = Request_new 2 0 5, tr_time = 90000\<rparr>]\<rparr>) = Some p'
     \<and> d_reqs p' = [\<lparr>tr_req = Request_new 2 0 5, tr_time = 90000\<rparr>] @ new"
proof -
  let ?p = "(PeerInterface_init 0 10)\<lparr>d_reqs := [\<lparr>tr_req = Request_new 1 0 5, tr_time = 10\<rparr>, \<lparr>tr_req = Request_new 2 0 5, tr_time = 90000\<rparr>]\<rparr>"
  have "filter (\<lambda>x. \<not> expired (e_now quiet_env) x) (d_reqs ?p) = [\<lparr>tr_req = Request_new 2 0 5, tr_time = 90000\<rparr>]"
    by (simp add: expired_def quiet_env_def)
  moreover have "sorted (map tr_time (d_reqs ?p))" "\<forall>x \<in> set (d_reqs ?p). tr_time x \<le> e_now quiet_env" "e_now quiet_env < 2 ^ 64"
    by (simp_all add: quiet_env_def)
  ultimately show ?thesis using PeerDownloader_timeouts[OF quiet_env_ok(2), of ?p] by metis
qed

text \<open>
  Choking a peer that has an upload slot queues the choke message first and then, for a peer that
  understands rejections, one for every piece not yet begun and one for every request not yet
  served; the piece on the wire is finished, nothing else is left to upload, and later requests
  are not queued.
\<close>

theorem Peer_choke_answers:
  assumes "peer_inv n p" and "p_has_upload_slot p"
  defines "s \<equiv> p_sock p"
  shows "\<exists>p'. Peer_choke p = Some p' \<and> peer_inv n p' \<and> \<not> p_has_upload_slot p' \<and> u_requests p' = []
     \<and> control_packets (p_sock p') = control_packets s @ [packet_of CHOKE []]
         @ (if p_fast_extensions p then map (\<lambda>i. reject_of (ps_store s ! i)) (filter (\<lambda>i. ps_curr s \<noteq> Some i) (ps_data s))
              @ map reject_answer (u_requests p) else [])
     \<and> data_packets (p_sock p') = map (\<lambda>i. ps_store s ! i) (filter (\<lambda>i. ps_curr s = Some i) (ps_data s))"
proof -
  have "sendable (packet_of CHOKE [])" by (simp add: packet_of_sendable)
  from send_packet_law[OF assms(1) Packet_simple_frame this]
  have c: "send_packet p (Packet_simple CHOKE) = Some (p\<lparr>p_sock := addPacket s (packet_of CHOKE [])\<rparr>)"
    by (simp add: send_packet_def Packet_simple_frame s_def)
  let ?s = "addPacket s (packet_of CHOKE [])"
  have wf: "ps_wf s" and si: "ps_inv ?s" using assms(1) addPacket_inv[of s] \<open>sendable (packet_of CHOKE [])\<close>
    by (auto simp: s_def peer_inv_def ps_inv_def)
  have st: "ps_store ?s ! i = ps_store s ! i" if "i \<in> set (ps_data s)" for i
    using wf that by (auto simp: addPacket_fields nth_append ps_wf_def queued_def)
  have ds: "ps_data ?s = ps_data s" "ps_curr ?s = ps_curr s" by (simp_all add: addPacket_fields)
  have mc: "map (\<lambda>i. reject_of (ps_store ?s ! i)) (filter P (ps_data s)) = map (\<lambda>i. reject_of (ps_store s ! i)) (filter P (ps_data s))"
    "map (\<lambda>i. ps_store ?s ! i) (filter P (ps_data s)) = map (\<lambda>i. ps_store s ! i) (filter P (ps_data s))" for P
    by (rule map_cong; simp add: st)+
  from clearPieces_law[OF si, of "p_fast_extensions p"] obtain s' where s': "clearPieces ?s (p_fast_extensions p) = Some s'" "ps_inv s'"
    "control_packets s' = control_packets ?s @ (if p_fast_extensions p then map (\<lambda>i. reject_of (ps_store s ! i)) (filter (\<lambda>i. ps_curr s \<noteq> Some i) (ps_data s)) else [])"
    "data_packets s' = map (\<lambda>i. ps_store s ! i) (filter (\<lambda>i. ps_curr s = Some i) (ps_data s))"
    unfolding ds mc by blast
  let ?q = "p\<lparr>p_has_upload_slot := False, p_sock := s'\<rparr>"
  have q: "peer_inv n ?q" using assms(1) s'(2) by (simp add: peer_inv_def)
  obtain s'' where s'': "send_all sendReject (u_requests ?q) ?q = Some (?q\<lparr>p_sock := s''\<rparr>)" "peer_inv n (?q\<lparr>p_sock := s''\<rparr>)"
    "control_packets s'' = control_packets (p_sock ?q) @ map reject_answer (u_requests ?q)" "data_packets s'' = data_packets (p_sock ?q)"
    using send_rejects_law[OF q] by blast
  have ch: "Peer_choke p = clearAllRequests (p\<lparr>p_sock := ?s, p_has_upload_slot := False\<rparr>)"
    using assms(2) c by (simp add: Peer_choke_def sendChoke_def)
  have "Peer_choke p = Some (if p_fast_extensions p then ?q\<lparr>p_sock := s'', u_requests := []\<rparr> else ?q\<lparr>u_requests := []\<rparr>)"
    unfolding ch using s'(1) s''(1) by (simp add: clearAllRequests_def clearPendingPieceUploads_def)
  moreover have "control_packets ?s = control_packets s @ [packet_of CHOKE []]"
    using addPacket_queues(1)[OF wf, of "packet_of CHOKE []"] by simp
  moreover have "peer_inv n (?q\<lparr>p_sock := s'', u_requests := []\<rparr>)" "peer_inv n (?q\<lparr>u_requests := []\<rparr>)"
    using q s''(2) by (simp_all add: peer_inv_def)
  ultimately show ?thesis using s''(3,4) s'(3,4) by (cases "p_fast_extensions p") simp_all
qed

theorem Peer_choke_answers_witness:
  "\<exists>p'. Peer_choke ((PeerInterface_init 0 10)\<lparr>p_has_upload_slot := True, p_fast_extensions := True, u_requests := [Request_new 1 0 5]\<rparr>) = Some p'
     \<and> control_packets (p_sock p') = [packet_of CHOKE [], reject_answer (Request_new 1 0 5)]"
proof -
  let ?p = "(PeerInterface_init 0 10)\<lparr>p_has_upload_slot := True, p_fast_extensions := True, u_requests := [Request_new 1 0 5]\<rparr>"
  have "peer_inv 10 ?p" by (simp add: peer_inv_def PeerInterface_init_def bs_counted_new pr_inv_new)
  then show ?thesis using Peer_choke_answers[of 10 ?p]
    by (auto simp: PeerInterface_init_def PacketSocket_new_def control_packets_def)
qed

text \<open>
  C27. The extended handshake one peer sends is understood by another: it learns the request limit, the
  metadata extension and the peer exchange setting. What never arrives is that the sender is a
  partial seed: \<open>upload_only\<close> is written as a string and read as a number.
\<close>

theorem ExtendedHandshake_received:
  assumes "qt_numbers (e_toInt e) (e_toLongLong e) number" and "\<forall>s. e_qstring e (ascii s) = s"
    and "length version < 2 ^ 20" and "port < 2 ^ 16" and "metadata_size < 2 ^ 31"
    and "peer_inv n a" and "p_extension_protocol a" and "\<not> p_killed b" and "p_extensions b 0 = None"
  shows "\<exists>a' x b'. sendExtProtHandshake number version a port metadata_size partial_seed = Some a'
     \<and> control_packets (p_sock a') = control_packets (p_sock a) @ [packet_of EXTENDED (0 # x)]
     \<and> handlePacket e b (EXTENDED # 0 # x) = Some b'
     \<and> p_max_request_queue b' = 250 \<and> p_extensions b' UT_METADATA_ID = Some UT_METADATA_ID
     \<and> (e_pex_enabled e \<longrightarrow> p_ut_pex_id b' = (if p_pex_allowed a then UT_PEX_ID else 0))
     \<and> \<not> p_partial_seed b'"
proof -
  let ?t = "handshake_tree version (p_pex_allowed a) port metadata_size partial_seed"
  let ?x = "tree_bytes number ?t"
  have ok: "tree_ok ?t" using assms(3-5) by (intro handshake_tree_ok) auto
  have len: "length ?x < 2 ^ 31" by (rule tree_bytes_handshake_length[OF assms(1,3-5)])
  have "sendable (packet_of EXTENDED (0 # ?x))" using len by (intro packet_of_sendable) simp_all
  from send_packet_law[OF assms(6) Packet_ext_frame[OF len] this] obtain s where
    s: "send_packet a (Packet_ext 0 ?x) = Some (a\<lparr>p_sock := s\<rparr>)" "control_packets s = control_packets (p_sock a) @ [packet_of EXTENDED (0 # ?x)]"
    by auto
  have send: "sendExtProtHandshake number version a port metadata_size partial_seed = Some (a\<lparr>p_sock := s\<rparr>)"
    using s(1) sendExtProtHandshake_tree[OF assms(7)] by (simp add: sendExtProtMsg_def)
  have "drop 2 (EXTENDED # 0 # ?x) = ?x" by simp
  from decode_tree[OF assms(1) ok this] obtain v where
    v: "decode (e_toInt e) (e_toLongLong e) (EXTENDED # 0 # ?x) 2 = Return (Some v, 2 + length ?x)" "node_matches ?t v" by blast
  obtain c cs where "?x = c # cs" by (rule qt_numbers.tree_bytes_start[OF assms(1)])
  then have h: "handlePacket e b (EXTENDED # 0 # ?x) = Some (handleExtendedHandshake e b (EXTENDED # 0 # ?x))"
    using dispatch(14)[OF assms(8)] assms(9) by (simp add: handleExtendedPacket_def)
  show ?thesis using send s(2) h handshake_received[OF _ assms(4,5) v, of b] assms(2) by auto
qed

theorem ExtendedHandshake_received_witness:
  "\<exists>a' x b'. sendExtProtHandshake dec_number [75] ((PeerInterface_init 0 10)\<lparr>p_extension_protocol := True\<rparr>) 6881 0 True = Some a'
     \<and> handlePacket quiet_env (PeerInterface_init 0 10) (EXTENDED # 0 # x) = Some b' \<and> \<not> p_partial_seed b'"
proof -
  let ?a = "(PeerInterface_init 0 10)\<lparr>p_extension_protocol := True\<rparr>"
  have "qt_numbers (e_toInt quiet_env) (e_toLongLong quiet_env) dec_number" "\<forall>s. e_qstring quiet_env (ascii s) = s"
    using dec.qt_numbers_axioms ascii_qstring by (simp_all add: quiet_env_def)
  moreover have "peer_inv 10 ?a" "p_extension_protocol ?a" "\<not> p_killed (PeerInterface_init 0 10)" "p_extensions (PeerInterface_init 0 10) 0 = None"
    by (simp_all add: peer_inv_def PeerInterface_init_def bs_counted_new pr_inv_new)
  ultimately show ?thesis using ExtendedHandshake_received[of quiet_env dec_number "[75]" 6881 0 10 ?a "PeerInterface_init 0 10" True]
    by auto
qed

lemma handleHave_law:
  assumes "peer_inv n p" and "\<not> p_killed p" and "\<forall>ev q. e_notify e ev q = q" and "unat w < n"
  shows "handlePacket e p (HAVE # be32 w) = Some (p\<lparr>p_received_have := True, p_avail := BitSet_set (p_avail p) (unat w) True\<rparr>)
    \<and> (\<forall>i. BitSet_get (BitSet_set (p_avail p) (unat w) True) i = (i = unat w \<or> BitSet_get (p_avail p) i))"
proof -
  have c: "bs_wf (p_avail p)" "bs_num_bits (p_avail p) = n" using assms(1) bs_countedD(1) by (auto simp: peer_inv_def)
  have r: "ReadUint32 (HAVE # be32 w) 1 = Some w" by (rule ReadUint32_enc) (simp add: mem_read_def)
  show ?thesis using r assms(3,4) c(2) BitSet_get_set[OF c(1), of "unat w" True]
    by (auto simp: dispatch(5)[OF assms(2)] handleHave_def)
qed

text \<open>
  The availability messages have their meaning: a bit field sets exactly the chunks whose bits
  are on, a have message adds exactly its chunk, and have-all makes the peer a seeder.
\<close>

theorem Peer_availability:
  assumes "peer_inv n p" and "\<not> p_killed p" and "\<forall>ev q. e_notify e ev q = q"
  shows "(\<forall>d. length d = numBytes n \<longrightarrow> (\<exists>p'. handlePacket e p (BITFIELD # d) = Some p'
            \<and> (\<forall>i < n. BitSet_get (p_avail p') i = bit (d ! (i div 8)) (7 - i mod 8))))
     \<and> (\<forall>w. unat w < n \<longrightarrow> (\<exists>p'. handlePacket e p (HAVE # be32 w) = Some p'
            \<and> (\<forall>i. BitSet_get (p_avail p') i = (i = unat w \<or> BitSet_get (p_avail p) i))))
     \<and> (\<exists>p'. handlePacket e p [HAVE_ALL] = Some p' \<and> BitSet_allOn (p_avail p'))"
proof (intro conjI allI impI)
  have c: "bs_counted (p_avail p)" "bs_wf (p_avail p)" "bs_num_bits (p_avail p) = n" "n < 2 ^ 32"
    using assms(1) bs_countedD(1) by (auto simp: peer_inv_def bs_wf_def)
  {
    fix d :: bytes
    assume d: "length d = numBytes n"
    obtain bs where bs: "BitSet_from d n = Some bs" "bs_counted bs" "\<forall>i<n. BitSet_get bs i = bit (d ! (i div 8)) (7 - i mod 8)"
      using BitSet_from_law[of n d] d c(4) by auto
    have "bs_num_bytes (p_avail p) = numBytes n" using c(2,3) by (simp add: bs_wf_def)
    then show "\<exists>p'. handlePacket e p (BITFIELD # d) = Some p' \<and> (\<forall>i < n. BitSet_get (p_avail p') i = bit (d ! (i div 8)) (7 - i mod 8))"
      using bs d c(3) assms(3) by (simp add: dispatch(6)[OF assms(2)] handleBitField_def BitSet_assign_wf[OF bs_countedD(1)])
  next
    fix w :: u32w
    assume w: "unat w < n"
    then show "\<exists>p'. handlePacket e p (HAVE # be32 w) = Some p' \<and> (\<forall>i. BitSet_get (p_avail p') i = (i = unat w \<or> BitSet_get (p_avail p) i))"
      using handleHave_law[OF assms w] by simp
  next
    show "\<exists>p'. handlePacket e p [HAVE_ALL] = Some p' \<and> BitSet_allOn (p_avail p')"
      using assms(3) by (simp add: dispatch(12)[OF assms(2)] handleHaveAll_def BitSet_allOn_def BitSet_setAll_def)
  }
qed

theorem Peer_availability_witness:
  "\<exists>p'. handlePacket quiet_env (PeerInterface_init 0 10) [HAVE_ALL] = Some p' \<and> BitSet_allOn (p_avail p')"
  using Peer_availability[of 10 "PeerInterface_init 0 10" quiet_env]
  by (simp add: quiet_env_def) (simp add: PeerInterface_init_def)

end
