(* ===== verification/Chunk_Download.thy ===== *)
theory Chunk_Download
  imports Peer_Protocol
begin

text \<open>
  The class \<open>ChunkDownload\<close> of \<open>src/download/chunkdownload.cpp\<close>: one chunk that is being fetched in
  pieces of 16384 bytes from several downloaders at once.

  The downloaders are other objects, reached through the interface \<open>PieceDownloader\<close>: the record
  \<open>PD_ops\<close> holds its operations on a state type of their own, and the model threads the states of
  all downloaders (\<open>world\<close>, indexed by the pointer). The locale \<open>piece_downloader\<close> states what the
  chunk relies on, and the peers of \<open>Peer.thy\<close> provide it.

  The cache that supplies the buffer of a piece is the parameter \<open>prepare\<close>, the one that loads a
  piece of an earlier session the parameter \<open>load\<close>. The running SHA-1 generator is represented by
  the bytes it has been fed. Saving and loading the state of a download are not modelled.
\<close>

section \<open>The interface of a downloader\<close>

record 'p PD_ops =
  pd_download :: "Request \<Rightarrow> 'p \<Rightarrow> 'p"
  pd_cancel :: "Request \<Rightarrow> 'p \<Rightarrow> 'p"
  pd_grab :: "'p \<Rightarrow> 'p"
  pd_release :: "'p \<Rightarrow> 'p"
  pd_setNearlyDone :: "bool \<Rightarrow> 'p \<Rightarrow> 'p"
  pd_isChoked :: "'p \<Rightarrow> bool"
  pd_canAddRequest :: "'p \<Rightarrow> bool"
  pd_rate :: "'p \<Rightarrow> nat \<Rightarrow> nat"

type_synonym 'p world = "nat \<Rightarrow> 'p"

section \<open>State\<close>

record DownloadStatus =
  ds_timeouts :: nat
  ds_status :: "nat set"

record ChunkDownload =
  cd_chunk :: Chunk
  cd_total :: nat
  cd_downloaded :: nat
  cd_last_size :: nat
  cd_pieces :: BitSet
  cd_piece_data :: "PieceData option list"
  cd_pdown :: "nat list"
  cd_dstatus :: "(nat \<times> DownloadStatus) list"
  cd_providers :: "nat set"
  cd_hashed :: bytes
  cd_num_in_hash :: nat

definition DownloadStatus_new :: DownloadStatus where
  "DownloadStatus_new = \<lparr>ds_timeouts = 0, ds_status = {}\<rparr>"

definition ds_add :: "nat \<Rightarrow> DownloadStatus \<Rightarrow> DownloadStatus" where
  "ds_add i d = d\<lparr>ds_status := insert i (ds_status d)\<rparr>"

definition ds_remove :: "nat \<Rightarrow> DownloadStatus \<Rightarrow> DownloadStatus" where
  "ds_remove i d = d\<lparr>ds_status := ds_status d - {i}\<rparr>"

definition ds_contains :: "DownloadStatus \<Rightarrow> nat \<Rightarrow> bool" where
  "ds_contains d i \<longleftrightarrow> i \<in> ds_status d"

definition ds_timeout :: "DownloadStatus \<Rightarrow> DownloadStatus" where
  "ds_timeout d = d\<lparr>ds_timeouts := add32 (ds_timeouts d) 1\<rparr>"

text \<open>The pointer map: lookup, update of an entry, erasure.\<close>

definition ds_find :: "ChunkDownload \<Rightarrow> nat \<Rightarrow> DownloadStatus option" where
  "ds_find c pd = map_of (cd_dstatus c) pd"

definition ds_update :: "nat \<Rightarrow> (DownloadStatus \<Rightarrow> DownloadStatus) \<Rightarrow> ChunkDownload \<Rightarrow> ChunkDownload" where
  "ds_update pd f c = c\<lparr>cd_dstatus := map (\<lambda>(k, d). if k = pd then (k, f d) else (k, d)) (cd_dstatus c)\<rparr>"

definition piece_len :: "ChunkDownload \<Rightarrow> nat \<Rightarrow> nat" where
  "piece_len c i = (if i = cd_total c - 1 then cd_last_size c else MAX_PIECE_LEN)"

definition ChunkDownload_new :: "Chunk \<Rightarrow> ChunkDownload" where
  "ChunkDownload_new ch =
     (let m = ch_size ch mod MAX_PIECE_LEN; total = ch_size ch div MAX_PIECE_LEN + (if m \<noteq> 0 then 1 else 0)
      in \<lparr>cd_chunk = ch, cd_total = total, cd_downloaded = 0,
          cd_last_size = (if m \<noteq> 0 then m else MAX_PIECE_LEN),
          cd_pieces = BitSet_clear (BitSet_new total), cd_piece_data = replicate total None,
          cd_pdown = [], cd_dstatus = [], cd_providers = {}, cd_hashed = [], cd_num_in_hash = 0\<rparr>)"

section \<open>Requests\<close>

definition times_downloading :: "ChunkDownload \<Rightarrow> nat \<Rightarrow> nat \<Rightarrow> nat" where
  "times_downloading c pd i = length (filter (\<lambda>(k, d). k \<noteq> pd \<and> ds_contains d i) (cd_dstatus c))"

definition requestable :: "ChunkDownload \<Rightarrow> nat \<Rightarrow> nat \<Rightarrow> bool" where
  \<comment> \<open>the two \<open>continue\<close> tests of \<open>bestPiece\<close>\<close>
  "requestable c pd i \<longleftrightarrow> \<not> BitSet_get (cd_pieces c) i \<and>
     (case ds_find c pd of Some d \<Rightarrow> \<not> ds_contains d i | None \<Rightarrow> True)"

fun best_loop :: "ChunkDownload \<Rightarrow> nat \<Rightarrow> nat list \<Rightarrow> nat \<Rightarrow> nat \<Rightarrow> nat" where
  "best_loop c pd [] best best_count = best"
| "best_loop c pd (i # is) best best_count =
     (if \<not> requestable c pd i then best_loop c pd is best best_count
      else
        let t = times_downloading c pd i in
        if t = 0 then i
        else if best = cd_total c \<or> best_count > t then best_loop c pd is i t
        else best_loop c pd is best best_count)"

definition bestPiece :: "ChunkDownload \<Rightarrow> nat \<Rightarrow> nat" where
  "bestPiece c pd = best_loop c pd [0..<cd_total c] (cd_total c) 0"

definition piece_request :: "ChunkDownload \<Rightarrow> nat \<Rightarrow> Request" where
  "piece_request c i = Request_new (word_of_nat (ch_index (cd_chunk c))) (word_of_nat (i * MAX_PIECE_LEN))
     (word_of_nat (if i + 1 < cd_total c then MAX_PIECE_LEN else cd_last_size c))"

definition nearlyDone :: "ChunkDownload \<Rightarrow> bool" where
  "nearlyDone c \<longleftrightarrow> (let left = sub32 (cd_total c) (cd_downloaded c) in left < 2 \<and> left > 0)"

definition sendRequest_to :: "'p PD_ops \<Rightarrow> nat \<Rightarrow> ChunkDownload \<times> 'p world \<Rightarrow> bool \<times> ChunkDownload \<times> 'p world" where
  "sendRequest_to ops pd s =
     (let (c, w) = s in
      if ds_find c pd = None \<or> pd_isChoked ops (w pd) then (False, c, w)
      else
        let bp = bestPiece c pd in
        if bp \<ge> cd_total c then (False, c, w)
        else
          let w = w(pd := pd_download ops (piece_request c bp) (w pd));
              c = ds_update pd (ds_add bp) c;
              w = (if nearlyDone c then w(pd := pd_setNearlyDone ops True (w pd)) else w)
          in (True, c, w))"

fun request_round :: "'p PD_ops \<Rightarrow> nat list \<Rightarrow> ChunkDownload \<times> 'p world \<Rightarrow> nat list \<times> ChunkDownload \<times> 'p world" where
  \<comment> \<open>one pass of the inner loop: the downloaders that took another request stay\<close>
  "request_round ops [] s = ([], s)"
| "request_round ops (pd # pds) s =
     (if \<not> pd_isChoked ops (snd s pd) \<and> pd_canAddRequest ops (snd s pd) then
        let (ok, s') = sendRequest_to ops pd s; (rest, s'') = request_round ops pds s'
        in (if ok then pd # rest else rest, s'')
      else request_round ops pds s)"

partial_function (option) request_rounds :: "'p PD_ops \<Rightarrow> nat list \<Rightarrow> ChunkDownload \<times> 'p world \<Rightarrow> (ChunkDownload \<times> 'p world) option" where
  "request_rounds ops tmp s =
     (if tmp = [] then Some s
      else let (tmp', s') = request_round ops tmp s in request_rounds ops tmp' s')"

definition sendRequests :: "'p PD_ops \<Rightarrow> ChunkDownload \<times> 'p world \<Rightarrow> (ChunkDownload \<times> 'p world) option" where
  "sendRequests ops s = request_rounds ops (cd_pdown (fst s)) s"

definition sendCancels :: "'p PD_ops \<Rightarrow> nat \<Rightarrow> ChunkDownload \<times> 'p world \<Rightarrow> ChunkDownload \<times> 'p world" where
  "sendCancels ops pd s =
     (let (c, w) = s in
      case ds_find c pd of
        None \<Rightarrow> (c, w)
      | Some d \<Rightarrow>
          (ds_update pd (\<lambda>d. d\<lparr>ds_status := {}\<rparr>) c,
           w(pd := fold (\<lambda>i. pd_cancel ops (piece_request c i)) (sorted_list_of_set (ds_status d)) (w pd))))"

definition assign_pd :: "'p PD_ops \<Rightarrow> nat \<Rightarrow> ChunkDownload \<times> 'p world \<Rightarrow> (bool \<times> ChunkDownload \<times> 'p world) option" where
  \<comment> \<open>the pointer is not null\<close>
  "assign_pd ops pd s =
     (let (c, w) = s in
      if pd \<in> set (cd_pdown c) then Some (False, c, w)
      else
        do { s' \<leftarrow> sendRequests ops
                     (c\<lparr>cd_pdown := cd_pdown c @ [pd],
                        cd_dstatus := (pd, DownloadStatus_new) # filter (\<lambda>(k, d). k \<noteq> pd) (cd_dstatus c)\<rparr>,
                      w(pd := pd_grab ops (w pd)));
             Some (True, s') })"

definition release_pd :: "'p PD_ops \<Rightarrow> nat \<Rightarrow> ChunkDownload \<times> 'p world \<Rightarrow> ChunkDownload \<times> 'p world" where
  "release_pd ops pd s =
     (let (c, w) = s in
      if pd \<notin> set (cd_pdown c) then (c, w)
      else
        let (c, w) = sendCancels ops pd (c, w(pd := pd_release ops (w pd)))
        in (c\<lparr>cd_dstatus := filter (\<lambda>(k, d). k \<noteq> pd) (cd_dstatus c), cd_pdown := removeAll pd (cd_pdown c)\<rparr>, w))"

definition releaseAllPDs :: "'p PD_ops \<Rightarrow> ChunkDownload \<times> 'p world \<Rightarrow> ChunkDownload \<times> 'p world" where
  "releaseAllPDs ops s =
     (let (c, w) = fold (\<lambda>pd (c, w). sendCancels ops pd (c, w(pd := pd_release ops (w pd)))) (cd_pdown (fst s)) s
      in (c\<lparr>cd_dstatus := [], cd_pdown := []\<rparr>, w))"

definition notDownloaded :: "'p PD_ops \<Rightarrow> nat \<Rightarrow> Request \<Rightarrow> bool \<Rightarrow> ChunkDownload \<times> 'p world \<Rightarrow> (ChunkDownload \<times> 'p world) option" where
  "notDownloaded ops pd r reject s =
     (let (c, w) = s in
      sendRequests ops
        (case ds_find c pd of
           None \<Rightarrow> (c, w)
         | Some d \<Rightarrow>
             let c = ds_update pd (ds_remove (unat (rq_off r) div MAX_PIECE_LEN)) c in
             if reject then release_pd ops pd (c, w)
             else
               let w = w(pd := pd_cancel ops r (w pd)); c = ds_update pd ds_timeout c in
               if (case ds_find c pd of Some d \<Rightarrow> ds_timeouts d > 0 | None \<Rightarrow> False) \<and> cd_pdown c \<noteq> []
               then release_pd ops pd (c, w) else (c, w)))"

definition onRejected_cd :: "'p PD_ops \<Rightarrow> nat \<Rightarrow> Request \<Rightarrow> ChunkDownload \<times> 'p world \<Rightarrow> (ChunkDownload \<times> 'p world) option" where
  "onRejected_cd ops pd r s =
     (if ch_index (cd_chunk (fst s)) = unat (rq_index r) then notDownloaded ops pd r True s else Some s)"

definition onTimeout_cd :: "'p PD_ops \<Rightarrow> nat \<Rightarrow> Request \<Rightarrow> ChunkDownload \<times> 'p world \<Rightarrow> (ChunkDownload \<times> 'p world) option" where
  "onTimeout_cd ops pd r s =
     (if ch_index (cd_chunk (fst s)) = unat (rq_index r) then notDownloaded ops pd r False s else Some s)"

section \<open>Receiving pieces\<close>

definition pd_bytes :: "PieceData \<Rightarrow> bytes" where
  "pd_bytes d = (case pd_ptr d of Some x \<Rightarrow> take (pd_len d) x | None \<Rightarrow> [])"

fun hash_end :: "BitSet \<Rightarrow> nat \<Rightarrow> nat list \<Rightarrow> nat" where
  \<comment> \<open>the first index from which the pieces are not complete\<close>
  "hash_end bs nn [] = nn"
| "hash_end bs nn (i # is) = (if BitSet_get bs i then hash_end bs (Suc nn) is else nn)"

definition updateHash :: "(nat \<Rightarrow> nat \<Rightarrow> PieceData option) \<Rightarrow> ChunkDownload \<Rightarrow> ChunkDownload" where
  "updateHash load c =
     (let nn = hash_end (cd_pieces c) (cd_num_in_hash c) [cd_num_in_hash c..<cd_total c] in
      c\<lparr>cd_hashed := cd_hashed c @ concat (map (\<lambda>i.
            case (case cd_piece_data c ! i of Some d \<Rightarrow> Some d | None \<Rightarrow> load (i * MAX_PIECE_LEN) (piece_len c i)) of
              Some d \<Rightarrow> if pd_ok d then pd_bytes d else [] | None \<Rightarrow> []) [cd_num_in_hash c..<nn]),
        cd_num_in_hash := nn\<rparr>)"

definition endgameCancel :: "'p PD_ops \<Rightarrow> Request \<Rightarrow> ChunkDownload \<times> 'p world \<Rightarrow> ChunkDownload \<times> 'p world" where
  "endgameCancel ops r s =
     (let pp = unat (rq_off r) div MAX_PIECE_LEN in
      fold (\<lambda>pd (c, w).
        case ds_find c pd of
          Some d \<Rightarrow> if ds_contains d pp then (ds_update pd (ds_remove pp) c, w(pd := pd_cancel ops r (w pd))) else (c, w)
        | None \<Rightarrow> (c, w)) (cd_pdown (fst s)) s)"

definition pieceReceived :: "'p PD_ops \<Rightarrow> (nat \<Rightarrow> nat \<Rightarrow> PieceData option) \<Rightarrow> (nat \<Rightarrow> nat \<Rightarrow> PieceData option) \<Rightarrow> nat \<Rightarrow> Request \<Rightarrow> bytes
    \<Rightarrow> ChunkDownload \<times> 'p world \<Rightarrow> (string + (bool \<times> bool \<times> ChunkDownload \<times> 'p world)) option" where
  \<comment> \<open>the result is (complete, is\_needed, state); \<open>Inl\<close> is an exception of the write, \<open>None\<close> memory corruption\<close>
  "pieceReceived ops prepare load pd r d s =
     (let (c, w) = s; pp = unat (rq_off r) div MAX_PIECE_LEN in
      if pp \<ge> cd_total c \<or> BitSet_get (cd_pieces c) pp \<or> unat (rq_len r) \<noteq> piece_len c pp
      then Some (Inr (False, False, c, w))
      else
        let c = ds_update pd (ds_remove pp) c in
        case prepare (unat (rq_off r)) (unat (rq_len r)) of
          None \<Rightarrow> map_option (\<lambda>s. Inr (False, False, s)) (sendRequests ops (c, w))
        | Some buf \<Rightarrow>
            do { res \<leftarrow> PieceData_write buf d 0;
                 case res of
                   Inl e \<Rightarrow> Some (Inl e)
                 | Inr (n, buf) \<Rightarrow>
                     if n \<noteq> unat (rq_len r) then map_option (\<lambda>s. Inr (False, False, s)) (sendRequests ops (c, w))
                     else
                       let c = c\<lparr>cd_piece_data := (cd_piece_data c)[pp := Some buf], cd_pieces := BitSet_set (cd_pieces c) pp True,
                                 cd_providers := insert pd (cd_providers c), cd_downloaded := add32 (cd_downloaded c) 1\<rparr>;
                           (c, w) = (if length (cd_pdown c) > 1 then endgameCancel ops r (c, w) else (c, w));
                           c = updateHash load c
                       in if cd_downloaded c \<ge> cd_total c then Some (Inr (True, True, releaseAllPDs ops (c, w)))
                          else map_option (\<lambda>s. Inr (False, True, s)) (sendRequests ops (c, w)) })"

section \<open>Queries\<close>

definition bytesDownloaded :: "ChunkDownload \<Rightarrow> nat" where
  "bytesDownloaded c = fold (\<lambda>i n. if BitSet_get (cd_pieces c) i then add64 n (piece_len c i) else n) [0..<cd_total c] 0"

definition bytesLeft :: "ChunkDownload \<Rightarrow> nat" where
  "bytesLeft c = sub64 (ch_size (cd_chunk c)) (bytesDownloaded c)"

definition cancelAll_cd :: "'p PD_ops \<Rightarrow> ChunkDownload \<times> 'p world \<Rightarrow> ChunkDownload \<times> 'p world" where
  "cancelAll_cd ops s = fold (sendCancels ops) (cd_pdown (fst s)) s"

definition getOnlyDownloader :: "ChunkDownload \<Rightarrow> nat option" where
  "getOnlyDownloader c = (if card (cd_providers c) = 1 then Some (Min (cd_providers c)) else None)"

definition isChoked_cd :: "'p PD_ops \<Rightarrow> ChunkDownload \<times> 'p world \<Rightarrow> bool" where
  "isChoked_cd ops s \<longleftrightarrow> list_all (\<lambda>pd. pd_isChoked ops (snd s pd)) (cd_pdown (fst s))"

definition getDownloadSpeed :: "'p PD_ops \<Rightarrow> ChunkDownload \<times> 'p world \<Rightarrow> nat" where
  "getDownloadSpeed ops s = fold (\<lambda>pd r. add32 r (pd_rate ops (snd s pd) (ch_index (cd_chunk (fst s))))) (cd_pdown (fst s)) 0"

section \<open>The best piece\<close>

definition is_best :: "ChunkDownload \<Rightarrow> nat \<Rightarrow> nat set \<Rightarrow> nat \<Rightarrow> bool" where
  "is_best c pd S b \<longleftrightarrow> b \<in> S \<and> requestable c pd b
     \<and> (\<forall>j \<in> S. requestable c pd j \<longrightarrow> times_downloading c pd b \<le> times_downloading c pd j)"

lemma best_loop_law:
  assumes "S \<union> set is \<subseteq> {..<cd_total c}"
    and "best = cd_total c \<and> (\<forall>j \<in> S. \<not> requestable c pd j) \<or> is_best c pd S best \<and> best_count = times_downloading c pd best"
    and "best \<noteq> cd_total c \<longrightarrow> times_downloading c pd best \<noteq> 0"
  shows "best_loop c pd is best best_count = cd_total c \<and> (\<forall>j \<in> S \<union> set is. \<not> requestable c pd j)
     \<or> is_best c pd (S \<union> set is) (best_loop c pd is best best_count)"
  using assms
proof (induction c pd "is" best best_count arbitrary: S rule: best_loop.induct)
  case (1 c pd best best_count)
  then show ?case by auto
next
  case (2 c pd i "is" best best_count)
  have S: "S \<union> set (i # is) = insert i S \<union> set is" by auto
  have i: "i < cd_total c" using "2.prems"(1) by simp
  show ?case
  proof (cases "requestable c pd i")
    case False
    then have "best_loop c pd (i # is) best best_count = best_loop c pd is best best_count" by simp
    moreover have "best = cd_total c \<and> (\<forall>j \<in> insert i S. \<not> requestable c pd j)
        \<or> is_best c pd (insert i S) best \<and> best_count = times_downloading c pd best"
      using "2.prems"(2) False by (auto simp: is_best_def)
    ultimately show ?thesis using 2(1)[OF False, of "insert i S"] "2.prems"(1,3) unfolding S by simp
  next
    case r: True
    let ?t = "times_downloading c pd i"
    show ?thesis
    proof (cases "?t = 0")
      case True
      then have "best_loop c pd (i # is) best best_count = i" using r by simp
      then show ?thesis using r True by (auto simp: is_best_def)
    next
      case t: False
      show ?thesis
      proof (cases "best = cd_total c \<or> best_count > ?t")
        case True
        then have e: "best_loop c pd (i # is) best best_count = best_loop c pd is i ?t" using r t by simp
        have "is_best c pd (insert i S) i"
        proof -
          have "times_downloading c pd i \<le> times_downloading c pd j" if j: "j \<in> S" "requestable c pd j" for j
          proof -
            have "best \<noteq> cd_total c" "times_downloading c pd best \<le> times_downloading c pd j" "best_count = times_downloading c pd best"
              using j "2.prems"(1,2) by (auto simp: is_best_def)
            then show ?thesis using True by simp
          qed
          then show ?thesis using r by (auto simp: is_best_def)
        qed
        then show ?thesis using 2(2)[OF _ refl t True, of "insert i S"] r "2.prems"(1) t unfolding e S by simp
      next
        case False
        then have e: "best_loop c pd (i # is) best best_count = best_loop c pd is best best_count" using r t by simp
        have "is_best c pd (insert i S) best \<and> best_count = times_downloading c pd best"
          using False "2.prems"(2) by (auto simp: is_best_def)
        then show ?thesis using 2(3)[OF _ refl t False, of "insert i S"] r "2.prems"(1,3) unfolding e S by simp
      qed
    qed
  qed
qed

lemma bestPiece_law:
  "bestPiece c pd = cd_total c \<and> (\<forall>j < cd_total c. \<not> requestable c pd j) \<or> is_best c pd {..<cd_total c} (bestPiece c pd)"
  using best_loop_law[of "{}" "[0..<cd_total c]" c "cd_total c" pd 0] by (auto simp: bestPiece_def atLeast0LessThan)

section \<open>Sending requests terminates\<close>

definition keys_ok :: "ChunkDownload \<Rightarrow> bool" where
  "keys_ok c \<longleftrightarrow> distinct (map fst (cd_dstatus c)) \<and> set (map fst (cd_dstatus c)) = set (cd_pdown c) \<and> distinct (cd_pdown c)
     \<and> (\<forall>(k, d) \<in> set (cd_dstatus c). ds_status d \<subseteq> {..<cd_total c})"

text \<open>The requests that are still possible: every successful request takes one away.\<close>

definition room :: "ChunkDownload \<Rightarrow> nat" where
  "room c = sum_list (map (\<lambda>(k, d). card ({..<cd_total c} - ds_status d)) (cd_dstatus c))"

lemma ds_update_fields [simp]:
  "cd_total (ds_update pd f c) = cd_total c" "cd_pdown (ds_update pd f c) = cd_pdown c" "cd_pieces (ds_update pd f c) = cd_pieces c"
  "cd_chunk (ds_update pd f c) = cd_chunk c" "cd_downloaded (ds_update pd f c) = cd_downloaded c"
  "cd_last_size (ds_update pd f c) = cd_last_size c" "cd_piece_data (ds_update pd f c) = cd_piece_data c"
  "cd_hashed (ds_update pd f c) = cd_hashed c" "cd_num_in_hash (ds_update pd f c) = cd_num_in_hash c"
  "cd_providers (ds_update pd f c) = cd_providers c"
  "map fst (cd_dstatus (ds_update pd f c)) = map fst (cd_dstatus c)"
  by (auto simp: ds_update_def split: prod.splits)

lemma ds_find_update: "ds_find (ds_update pd f c) k = (if k = pd then map_option f (ds_find c k) else ds_find c k)"
proof -
  have "map_of (map (\<lambda>(k, d). if k = pd then (k, f d) else (k, d)) xs) k = (if k = pd then map_option f (map_of xs k) else map_of xs k)" for xs
    by (induction xs) auto
  then show ?thesis by (simp add: ds_find_def ds_update_def)
qed

lemma keys_ok_update:
  assumes "keys_ok c" and "\<And>d. ds_find c pd = Some d \<Longrightarrow> ds_status (f d) \<subseteq> {..<cd_total c}"
  shows "keys_ok (ds_update pd f c)"
proof -
  have "ds_status d \<subseteq> {..<cd_total c}" if kd: "(k, d) \<in> set (cd_dstatus (ds_update pd f c))" for k d
  proof -
    obtain a b where x: "(a, b) \<in> set (cd_dstatus c)" "(k, d) = (if a = pd then (a, f b) else (a, b))"
      using kd by (auto simp: ds_update_def)
    obtain d0 where d0: "(k, d0) \<in> set (cd_dstatus c)" "d = (if k = pd then f d0 else d0)"
      using x by (cases "a = pd") auto
    then have "ds_find c k = Some d0" using assms(1) by (simp add: ds_find_def keys_ok_def)
    then show ?thesis using assms d0 by (auto simp: keys_ok_def)
  qed
  moreover have "distinct (map fst (cd_dstatus (ds_update pd f c)))" "set (map fst (cd_dstatus (ds_update pd f c))) = set (cd_pdown c)"
    using assms(1) unfolding ds_update_fields by (auto simp: keys_ok_def)
  ultimately show ?thesis using assms(1) by (auto simp: keys_ok_def)
qed

lemma room_update:
  assumes "keys_ok c" and "ds_find c pd = Some d" and "i < cd_total c" and "i \<notin> ds_status d"
  shows "room (ds_update pd (ds_add i) c) < room c"
proof -
  let ?g = "\<lambda>(k::nat, d). card ({..<cd_total c} - ds_status d)"
  let ?u = "\<lambda>(k, d). if k = pd then (k, ds_add i d) else (k, d)"
  have less: "?g (?u (pd, d)) < ?g (pd, d)"
  proof -
    have "{..<cd_total c} - insert i (ds_status d) \<subset> {..<cd_total c} - ds_status d" using assms(3,4) by auto
    then show ?thesis by (simp add: ds_add_def psubset_card_mono)
  qed
  have "sum_list (map (?g \<circ> ?u) xs) < sum_list (map ?g xs)" if "map_of xs pd = Some d" "distinct (map fst xs)" for xs
    using that
  proof (induction xs)
    case (Cons x xs)
    have le: "(?g \<circ> ?u) y \<le> ?g y" for y
      by (cases y) (auto simp: ds_add_def intro!: card_mono)
    show ?case
    proof (cases "fst x = pd")
      case True
      then have "x = (pd, d)" using Cons.prems by (cases x) auto
      moreover have "sum_list (map (?g \<circ> ?u) xs) \<le> sum_list (map ?g xs)" using le by (intro sum_list_mono)
      ultimately show ?thesis using less by (simp add: o_def)
    next
      case False
      then show ?thesis using Cons le[of x] by (cases x) auto
    qed
  qed simp
  then show ?thesis using assms(1,2) by (simp add: room_def ds_update_def ds_find_def keys_ok_def)
qed

text \<open>What none of the request operations changes.\<close>

definition cd_core :: "ChunkDownload \<Rightarrow> ChunkDownload" where
  "cd_core c = c\<lparr>cd_dstatus := [], cd_pdown := []\<rparr>"

lemma cd_coreD:
  assumes "cd_core c' = cd_core c"
  shows "cd_total c' = cd_total c" "cd_pieces c' = cd_pieces c" "cd_chunk c' = cd_chunk c" "cd_downloaded c' = cd_downloaded c"
    "cd_last_size c' = cd_last_size c" "cd_piece_data c' = cd_piece_data c" "cd_hashed c' = cd_hashed c"
    "cd_num_in_hash c' = cd_num_in_hash c" "cd_providers c' = cd_providers c"
  using assms by (cases c; cases c'; simp add: cd_core_def)+

lemma cd_core_update [simp]:
  "cd_core (ds_update pd f c) = cd_core c" "cd_core (c\<lparr>cd_dstatus := x\<rparr>) = cd_core c" "cd_core (c\<lparr>cd_pdown := y\<rparr>) = cd_core c"
  by (simp_all add: cd_core_def ds_update_def)

text \<open>A downloader that cannot be given another piece of this chunk.\<close>

definition saturated :: "'p PD_ops \<Rightarrow> ChunkDownload \<Rightarrow> 'p world \<Rightarrow> nat \<Rightarrow> bool" where
  "saturated ops c w pd \<longleftrightarrow> pd_isChoked ops (w pd) \<or> \<not> pd_canAddRequest ops (w pd) \<or> (\<forall>i < cd_total c. \<not> requestable c pd i)"

lemma saturated_cong:
  assumes "cd_core c' = cd_core c" and "ds_find c' pd = ds_find c pd" and "w' pd = w pd"
  shows "saturated ops c' w' pd = saturated ops c w pd"
  using cd_coreD(1,2)[OF assms(1)] assms(2,3) by (simp add: saturated_def requestable_def)

text \<open>The requests grow, and only by pieces that are still missing.\<close>

definition grown :: "ChunkDownload \<Rightarrow> ChunkDownload \<Rightarrow> bool" where
  "grown c c' \<longleftrightarrow> cd_core c' = cd_core c \<and> cd_pdown c' = cd_pdown c \<and> (\<forall>k d'. ds_find c' k = Some d' \<longrightarrow> (\<exists>d. ds_find c k = Some d
     \<and> ds_timeouts d' = ds_timeouts d \<and> ds_status d \<subseteq> ds_status d' \<and> (\<forall>i \<in> ds_status d' - ds_status d. \<not> BitSet_get (cd_pieces c) i)))"

lemma grown_refl [simp]: "grown c c"
  by (auto simp: grown_def)

lemma grownD: "grown c c' \<Longrightarrow> cd_core c' = cd_core c \<and> cd_pdown c' = cd_pdown c"
  by (simp add: grown_def)

lemma grown_trans:
  assumes "grown a b" and "grown b c"
  shows "grown a c"
proof -
  have "\<exists>d. ds_find a k = Some d \<and> ds_timeouts d' = ds_timeouts d \<and> ds_status d \<subseteq> ds_status d'
      \<and> (\<forall>i \<in> ds_status d' - ds_status d. \<not> BitSet_get (cd_pieces a) i)"
    if k: "ds_find c k = Some d'" for k d'
  proof -
    obtain d1 where d1: "ds_find b k = Some d1" "ds_timeouts d' = ds_timeouts d1" "ds_status d1 \<subseteq> ds_status d'"
        "\<forall>i \<in> ds_status d' - ds_status d1. \<not> BitSet_get (cd_pieces b) i"
      using assms(2) k unfolding grown_def by blast
    obtain d where d: "ds_find a k = Some d" "ds_timeouts d1 = ds_timeouts d" "ds_status d \<subseteq> ds_status d1"
        "\<forall>i \<in> ds_status d1 - ds_status d. \<not> BitSet_get (cd_pieces a) i"
      using assms(1) d1(1) unfolding grown_def by blast
    have "cd_pieces b = cd_pieces a" using grownD[OF assms(1)] cd_coreD(2) by blast
    then have "\<forall>i \<in> ds_status d' - ds_status d. \<not> BitSet_get (cd_pieces a) i" using d(4) d1(4) by auto
    then show ?thesis using d(1-3) d1(2,3) by (intro exI[of _ d]) auto
  qed
  then show ?thesis using grownD[OF assms(1)] grownD[OF assms(2)] unfolding grown_def by simp
qed

lemma grown_add:
  "ds_find c pd = Some d \<Longrightarrow> \<not> BitSet_get (cd_pieces c) i \<Longrightarrow> grown c (ds_update pd (ds_add i) c)"
  by (auto simp: grown_def ds_find_update ds_add_def)

lemma sendRequest_to_law:
  assumes "keys_ok c" and "sendRequest_to ops pd (c, w) = (ok, c', w')"
  shows "keys_ok c'" "grown c c'" "k \<noteq> pd \<Longrightarrow> ds_find c' k = ds_find c k" "k \<noteq> pd \<Longrightarrow> w' k = w k"
    "ok \<Longrightarrow> room c' < room c" "\<not> ok \<Longrightarrow> c' = c \<and> w' = w"
    "\<not> ok \<Longrightarrow> ds_find c pd \<noteq> None \<Longrightarrow> saturated ops c w pd"
proof -
  have "keys_ok c' \<and> grown c c' \<and> (\<forall>k. k \<noteq> pd \<longrightarrow> ds_find c' k = ds_find c k \<and> w' k = w k) \<and> (ok \<longrightarrow> room c' < room c)
    \<and> (\<not> ok \<longrightarrow> c' = c \<and> w' = w \<and> (ds_find c pd \<noteq> None \<longrightarrow> saturated ops c w pd))"
  proof (cases "ds_find c pd = None \<or> pd_isChoked ops (w pd)")
    case True
    then show ?thesis using assms by (auto simp: sendRequest_to_def saturated_def)
  next
    case False
    then obtain d where d: "ds_find c pd = Some d" and nc: "\<not> pd_isChoked ops (w pd)" by auto
    let ?b = "bestPiece c pd"
    show ?thesis
    proof (cases "?b \<ge> cd_total c")
      case True
      then have "\<forall>j < cd_total c. \<not> requestable c pd j" using bestPiece_law[of c pd] by (auto simp: is_best_def)
      then show ?thesis using assms True False by (auto simp: sendRequest_to_def saturated_def)
    next
      case b: False
      then have r: "requestable c pd ?b" using bestPiece_law[of c pd] by (auto simp: is_best_def)
      then have i: "\<not> BitSet_get (cd_pieces c) ?b" "?b \<notin> ds_status d" using d by (auto simp: requestable_def ds_contains_def)
      have c': "c' = ds_update pd (ds_add ?b) c" and ok: "ok" and w': "\<forall>k. k \<noteq> pd \<longrightarrow> w' k = w k"
        using assms(2) b False by (auto simp: sendRequest_to_def Let_def split: if_splits)
      have "ds_status d \<subseteq> {..<cd_total c}"
        using assms(1) d map_of_SomeD[of "cd_dstatus c" pd d] by (fastforce simp: keys_ok_def ds_find_def)
      then have "keys_ok c'" unfolding c' using keys_ok_update[OF assms(1), of pd "ds_add ?b"] b d by (simp add: ds_add_def)
      then show ?thesis
        using ok w' grown_add[OF d i(1)] room_update[OF assms(1) d _ i(2)] b by (simp add: c' ds_find_update)
    qed
  qed
  then show "keys_ok c'" "grown c c'" "k \<noteq> pd \<Longrightarrow> ds_find c' k = ds_find c k" "k \<noteq> pd \<Longrightarrow> w' k = w k"
    "ok \<Longrightarrow> room c' < room c" "\<not> ok \<Longrightarrow> c' = c \<and> w' = w"
    "\<not> ok \<Longrightarrow> ds_find c pd \<noteq> None \<Longrightarrow> saturated ops c w pd"
    by auto
qed

definition round_post :: "'p PD_ops \<Rightarrow> nat set \<Rightarrow> nat list \<Rightarrow> ChunkDownload \<times> 'p world \<Rightarrow> ChunkDownload \<times> 'p world \<Rightarrow> bool" where
  "round_post ops P rest s s' \<longleftrightarrow> keys_ok (fst s') \<and> grown (fst s) (fst s') \<and> distinct rest \<and> set rest \<subseteq> P
     \<and> (\<forall>k. k \<notin> P \<longrightarrow> ds_find (fst s') k = ds_find (fst s) k \<and> snd s' k = snd s k)
     \<and> room (fst s') \<le> room (fst s) \<and> (rest \<noteq> [] \<longrightarrow> room (fst s') < room (fst s))
     \<and> (\<forall>pd \<in> P - set rest. saturated ops (fst s') (snd s') pd)"

lemma ds_find_assigned: "keys_ok c \<Longrightarrow> pd \<in> set (cd_pdown c) \<Longrightarrow> ds_find c pd \<noteq> None"
  by (auto simp: keys_ok_def ds_find_def map_of_eq_None_iff)

lemma request_round_law:
  assumes "keys_ok (fst s)" and "distinct pds" and "set pds \<subseteq> set (cd_pdown (fst s))" and "request_round ops pds s = (rest, s')"
  shows "round_post ops (set pds) rest s s'"
  using assms
proof (induction ops pds s arbitrary: rest s' rule: request_round.induct)
  case (1 ops s)
  then show ?case by (auto simp: round_post_def)
next
  case (2 ops pd pds s)
  obtain c w where s: "s = (c, w)" by (cases s)
  show ?case
  proof (cases "\<not> pd_isChoked ops (snd s pd) \<and> pd_canAddRequest ops (snd s pd)")
    case False
    have "round_post ops (set pds) rest s s'" using "2.IH"(2)[OF False] "2.prems" False by simp
    moreover from this have "saturated ops (fst s') (snd s') pd"
      using False "2.prems"(2) by (auto simp: round_post_def saturated_def)
    ultimately show ?thesis by (auto simp: round_post_def)
  next
    case True
    obtain ok c1 w1 where r: "sendRequest_to ops pd (c, w) = (ok, c1, w1)" by (metis prod_cases3)
    obtain rest2 s2 where r2: "request_round ops pds (c1, w1) = (rest2, s2)" by (cases "request_round ops pds (c1, w1)")
    note l = sendRequest_to_law[OF _ r]
    have k: "keys_ok c" "pd \<in> set (cd_pdown c)" using "2.prems" by (auto simp: s)
    have g: "grown c c1" using l(2) k by simp
    have post: "round_post ops (set pds) rest2 (c1, w1) s2"
      using "2.IH"(1)[OF True r[folded s, symmetric] refl, of rest2 s2] l(1)[OF k(1)] "2.prems"(2,3) r2 grownD[OF g] by (simp add: s)
    have out: "rest = (if ok then pd # rest2 else rest2)" "s' = s2" using "2.prems"(4) True r r2 by (auto simp: s)
    have keep: "saturated ops (fst s2) (snd s2) pd = saturated ops c1 w1 pd"
      using post "2.prems"(2) grownD by (intro saturated_cong) (auto simp: round_post_def)
    have "room c1 \<le> room c" using l(5,6)[OF k(1)] by (cases ok) auto
    moreover have "\<not> ok \<longrightarrow> saturated ops (fst s2) (snd s2) pd"
      using l(6,7)[OF k(1)] ds_find_assigned[OF k] unfolding keep by auto
    ultimately show ?thesis
      using post grown_trans[OF g] l(3,4,5)[OF k(1)] "2.prems"(2) by (auto simp: round_post_def out s)
  qed
qed

lemma request_rounds_law:
  assumes "keys_ok (fst s)" and "distinct tmp" and "set tmp \<subseteq> set (cd_pdown (fst s))"
  shows "\<exists>s'. request_rounds ops tmp s = Some s' \<and> round_post ops (set tmp) [] s s'"
  using assms
proof (induction "room (fst s)" arbitrary: s tmp rule: less_induct)
  case less
  show ?case
  proof (cases "tmp = []")
    case True
    then show ?thesis using less.prems by (simp add: request_rounds.simps round_post_def)
  next
    case False
    obtain rest s1 where r: "request_round ops tmp s = (rest, s1)" by (cases "request_round ops tmp s")
    have unf: "request_rounds ops tmp s = request_rounds ops rest s1" using False r by (simp add: request_rounds.simps)
    have p: "round_post ops (set tmp) rest s s1" using request_round_law[OF less.prems r] .
    show ?thesis
    proof (cases "rest = []")
      case True
      then show ?thesis using p unf by (simp add: request_rounds.simps)
    next
      case rest: False
      have pd: "cd_pdown (fst s1) = cd_pdown (fst s)" using p grownD by (auto simp: round_post_def)
      obtain s' where s': "request_rounds ops rest s1 = Some s'" "round_post ops (set rest) [] s1 s'"
      proof -
        have "set rest \<subseteq> set (cd_pdown (fst s1))" "keys_ok (fst s1)" "room (fst s1) < room (fst s)" "distinct rest"
          using p rest less.prems(3) unfolding pd by (auto simp: round_post_def)
        then show ?thesis using less.hyps[of s1 rest] that by blast
      qed
      have "saturated ops (fst s') (snd s') pd" if "pd \<in> set tmp" for pd
      proof (cases "pd \<in> set rest")
        case False
        then have "saturated ops (fst s') (snd s') pd = saturated ops (fst s1) (snd s1) pd"
          using s'(2) grownD by (intro saturated_cong) (auto simp: round_post_def)
        then show ?thesis using p that False by (simp add: round_post_def)
      qed (use s'(2) in \<open>simp add: round_post_def\<close>)
      moreover have "grown (fst s) (fst s')" using p s'(2) grown_trans by (auto simp: round_post_def)
      ultimately have "round_post ops (set tmp) [] s s'" using p s'(2) by (auto simp: round_post_def)
      then show ?thesis using unf s'(1) by simp
    qed
  qed
qed

lemma sendRequests_law:
  assumes "keys_ok c"
  obtains c' w' where "sendRequests ops (c, w) = Some (c', w')" "keys_ok c'" "grown c c'"
    "\<forall>pd \<in> set (cd_pdown c). saturated ops c' w' pd" "\<forall>k. k \<notin> set (cd_pdown c) \<longrightarrow> w' k = w k"
proof -
  have "distinct (cd_pdown c)" using assms by (simp add: keys_ok_def)
  then obtain s' where "request_rounds ops (cd_pdown c) (c, w) = Some s'" "round_post ops (set (cd_pdown c)) [] (c, w) s'"
    using request_rounds_law[of "(c, w)" "cd_pdown c" ops] assms by auto
  then show ?thesis using that[of "fst s'" "snd s'"] by (simp add: sendRequests_def round_post_def)
qed

text \<open>
  C28. Handing out requests always ends, and it ends only when nothing more can be asked for: every
  assigned downloader is choked, has a full queue, or has been asked for every missing piece of
  the chunk. Nothing but the request sets changes, and they grow only by missing pieces.
\<close>

theorem sendRequests_saturates:
  assumes "keys_ok c"
  shows "\<exists>c' w'. sendRequests ops (c, w) = Some (c', w') \<and> keys_ok c' \<and> grown c c'
    \<and> (\<forall>pd \<in> set (cd_pdown c). saturated ops c' w' pd) \<and> (\<forall>k. k \<notin> set (cd_pdown c) \<longrightarrow> w' k = w k)"
  by (rule sendRequests_law[OF assms, of ops w]) blast

theorem sendRequests_saturates_witness:
  "\<exists>c' w'. sendRequests \<lparr>pd_download = (\<lambda>r q. q @ [r]), pd_cancel = (\<lambda>r q. removeAll r q), pd_grab = id, pd_release = id,
      pd_setNearlyDone = (\<lambda>b. id), pd_isChoked = (\<lambda>q. False), pd_canAddRequest = (\<lambda>q. length q < 2), pd_rate = (\<lambda>q i. 0)\<rparr>
      ((ChunkDownload_new (Chunk_new 0 40000))\<lparr>cd_pdown := [7], cd_dstatus := [(7, DownloadStatus_new)]\<rparr>, \<lambda>_. [])
    = Some (c', w') \<and> keys_ok c'"
  using sendRequests_saturates[of "(ChunkDownload_new (Chunk_new 0 40000))\<lparr>cd_pdown := [7], cd_dstatus := [(7, DownloadStatus_new)]\<rparr>"
      "\<lparr>pd_download = (\<lambda>r q. q @ [r]), pd_cancel = (\<lambda>r q. removeAll r q), pd_grab = id, pd_release = id,
      pd_setNearlyDone = (\<lambda>b. id), pd_isChoked = (\<lambda>q. False), pd_canAddRequest = (\<lambda>q. length q < 2), pd_rate = (\<lambda>q i. 0)\<rparr>" "\<lambda>_. []"]
  by (auto simp: keys_ok_def DownloadStatus_new_def)

text \<open>
  The piece that is chosen for a downloader is a missing piece it has not been asked for, and no
  other such piece is being fetched from fewer of the other downloaders; the result \<open>total\<close> means
  that there is none.
\<close>

theorem bestPiece_optimal:
  "bestPiece c pd = cd_total c \<and> (\<forall>j < cd_total c. \<not> requestable c pd j)
    \<or> bestPiece c pd < cd_total c \<and> requestable c pd (bestPiece c pd)
      \<and> (\<forall>j. j < cd_total c \<and> requestable c pd j \<longrightarrow> times_downloading c pd (bestPiece c pd) \<le> times_downloading c pd j)"
  using bestPiece_law[of c pd] by (auto simp: is_best_def)

end
