(* ===== verification/Chunk_Assembly.thy ===== *)
theory Chunk_Assembly
  imports Chunk_Download
begin

text \<open>
  What a \<open>ChunkDownload\<close> keeps true while pieces arrive in any order and from any downloader, and what
  the running hash has seen when the chunk is complete.
\<close>

section \<open>The invariant\<close>

definition piece_bytes :: "ChunkDownload \<Rightarrow> nat \<Rightarrow> bytes" where
  "piece_bytes c i = (case cd_piece_data c ! i of Some d \<Rightarrow> pd_bytes d | None \<Rightarrow> [])"

definition shape_ok :: "ChunkDownload \<Rightarrow> bool" where
  "shape_ok c \<longleftrightarrow> 0 < cd_total c \<and> 0 < cd_last_size c \<and> cd_last_size c \<le> MAX_PIECE_LEN \<and> ch_size (cd_chunk c) < 2 ^ 32
     \<and> ch_size (cd_chunk c) = (cd_total c - 1) * MAX_PIECE_LEN + cd_last_size c"

definition have_ok :: "ChunkDownload \<Rightarrow> bool" where
  "have_ok c \<longleftrightarrow> bs_counted (cd_pieces c) \<and> bs_num_bits (cd_pieces c) = cd_total c \<and> cd_downloaded c = bs_num_on (cd_pieces c)
     \<and> length (cd_piece_data c) = cd_total c
     \<and> (\<forall>i. BitSet_get (cd_pieces c) i \<longrightarrow> (\<exists>d. cd_piece_data c ! i = Some d \<and> pd_ok d \<and> length (pd_bytes d) = piece_len c i))"

definition hash_ok :: "ChunkDownload \<Rightarrow> bool" where
  "hash_ok c \<longleftrightarrow> cd_num_in_hash c \<le> cd_total c \<and> (\<forall>i < cd_num_in_hash c. BitSet_get (cd_pieces c) i)
     \<and> (cd_num_in_hash c < cd_total c \<longrightarrow> \<not> BitSet_get (cd_pieces c) (cd_num_in_hash c))
     \<and> cd_hashed c = concat (map (piece_bytes c) [0..<cd_num_in_hash c])"

definition cd_inv :: "ChunkDownload \<Rightarrow> bool" where
  "cd_inv c \<longleftrightarrow> shape_ok c \<and> have_ok c \<and> hash_ok c \<and> keys_ok c"

lemma cd_inv_core:
  assumes "cd_core c' = cd_core c" and "keys_ok c'" and "cd_inv c"
  shows "cd_inv c'"
proof -
  note d = cd_coreD[OF assms(1)]
  have "piece_len c' = piece_len c" "piece_bytes c' = piece_bytes c"
    by (simp_all add: fun_eq_iff d piece_len_def piece_bytes_def)
  then show ?thesis using assms(2,3) by (simp add: cd_inv_def shape_ok_def have_ok_def hash_ok_def d)
qed

lemma total_bound: "shape_ok c \<Longrightarrow> cd_total c * MAX_PIECE_LEN < 2 ^ 32 + MAX_PIECE_LEN"
  by (cases "cd_total c") (auto simp: shape_ok_def)

lemma BitSet_clear_new: "BitSet_clear (BitSet_new n) = BitSet_new n"
  by (simp add: BitSet_clear_def BitSet_setAll_def BitSet_new_def map_replicate_const)

lemma ChunkDownload_new_inv:
  assumes "0 < ch_size ch" and "ch_size ch < 2 ^ 32"
  shows "cd_inv (ChunkDownload_new ch)"
proof -
  let ?c = "ChunkDownload_new ch" and ?q = "ch_size ch div MAX_PIECE_LEN" and ?m = "ch_size ch mod MAX_PIECE_LEN"
  have L: "0 < MAX_PIECE_LEN" by (simp add: MAX_PIECE_LEN_def)
  have split: "ch_size ch = ?q * MAX_PIECE_LEN + ?m" by simp
  have t: "cd_total ?c = ?q + (if ?m \<noteq> 0 then 1 else 0)" by (simp add: ChunkDownload_new_def Let_def)
  have q: "?m = 0 \<Longrightarrow> 0 < ?q" using assms(1) split by (metis add_0 gr0I mult_0)
  have "?q < 2 ^ 32 div MAX_PIECE_LEN + 1" using assms(2) by (simp add: MAX_PIECE_LEN_def less_mult_imp_div_less)
  then have n: "0 < cd_total ?c" "cd_total ?c < 2 ^ 32" using q by (auto simp: t MAX_PIECE_LEN_def)
  have "shape_ok ?c"
  proof (cases "?m = 0")
    case True
    then have "ch_size ch = (?q - 1) * MAX_PIECE_LEN + MAX_PIECE_LEN" using q split by (cases ?q) auto
    then show ?thesis using True assms(2) n L by (simp add: shape_ok_def ChunkDownload_new_def Let_def)
  next
    case False
    then show ?thesis using assms(2) n L split by (simp add: shape_ok_def ChunkDownload_new_def Let_def less_imp_le)
  qed
  moreover have "cd_pieces ?c = BitSet_new (cd_total ?c)" "cd_downloaded ?c = 0" "cd_piece_data ?c = replicate (cd_total ?c) None"
      "cd_num_in_hash ?c = 0" "cd_hashed ?c = []" "cd_dstatus ?c = []" "cd_pdown ?c = []"
    by (simp_all add: ChunkDownload_new_def Let_def BitSet_clear_new)
  ultimately show ?thesis
    using n bs_counted_new by (simp add: cd_inv_def have_ok_def hash_ok_def keys_ok_def) (simp add: BitSet_new_def)
qed

lemma hash_end_law:
  "nn \<le> n \<Longrightarrow> nn \<le> hash_end bs nn [nn..<n] \<and> hash_end bs nn [nn..<n] \<le> n
   \<and> (\<forall>i. nn \<le> i \<and> i < hash_end bs nn [nn..<n] \<longrightarrow> BitSet_get bs i)
   \<and> (hash_end bs nn [nn..<n] < n \<longrightarrow> \<not> BitSet_get bs (hash_end bs nn [nn..<n]))"
proof (induction "n - nn" arbitrary: nn)
  case (Suc k)
  then have nn: "nn < n" "Suc nn \<le> n" "k = n - Suc nn" by auto
  have u: "hash_end bs nn [nn..<n] = (if BitSet_get bs nn then hash_end bs (Suc nn) [Suc nn..<n] else nn)"
    using nn by (simp add: upt_conv_Cons)
  show ?case
  proof (cases "BitSet_get bs nn")
    case True
    have "nn \<le> i \<longleftrightarrow> i = nn \<or> Suc nn \<le> i" for i by auto
    then show ?thesis using Suc.hyps(1)[OF nn(3,2)] True unfolding u by auto
  qed (use nn u in auto)
qed auto

lemma updateHash_fields [simp]:
  "cd_total (updateHash load c) = cd_total c" "cd_pieces (updateHash load c) = cd_pieces c" "cd_chunk (updateHash load c) = cd_chunk c"
  "cd_downloaded (updateHash load c) = cd_downloaded c" "cd_last_size (updateHash load c) = cd_last_size c"
  "cd_piece_data (updateHash load c) = cd_piece_data c" "cd_pdown (updateHash load c) = cd_pdown c"
  "cd_dstatus (updateHash load c) = cd_dstatus c" "cd_providers (updateHash load c) = cd_providers c"
  "piece_len (updateHash load c) = piece_len c"
  by (simp_all add: updateHash_def Let_def fun_eq_iff piece_len_def)

text \<open>The running hash resumes where it stopped, as far as the pieces are complete.\<close>

lemma updateHash_law:
  assumes "shape_ok c" and "have_ok c" and "cd_num_in_hash c \<le> cd_total c" and "\<forall>i < cd_num_in_hash c. BitSet_get (cd_pieces c) i"
    and "cd_hashed c = concat (map (piece_bytes c) [0..<cd_num_in_hash c])"
  shows "hash_ok (updateHash load c)"
proof -
  let ?n = "hash_end (cd_pieces c) (cd_num_in_hash c) [cd_num_in_hash c..<cd_total c]"
  let ?f = "\<lambda>i. case (case cd_piece_data c ! i of Some d \<Rightarrow> Some d | None \<Rightarrow> load (i * MAX_PIECE_LEN) (piece_len c i)) of
              Some d \<Rightarrow> if pd_ok d then pd_bytes d else [] | None \<Rightarrow> []"
  note h = hash_end_law[OF assms(3), of "cd_pieces c"]
  have "?f i = piece_bytes c i" if "i \<in> set [cd_num_in_hash c..<?n]" for i
  proof -
    have "BitSet_get (cd_pieces c) i" using h that by auto
    then show ?thesis using assms(2) by (auto simp: have_ok_def piece_bytes_def)
  qed
  then have "map ?f [cd_num_in_hash c..<?n] = map (piece_bytes c) [cd_num_in_hash c..<?n]" by (rule map_cong[OF refl])
  then have "cd_hashed (updateHash load c) = concat (map (piece_bytes c) [0..<cd_num_in_hash c] @ map (piece_bytes c) [cd_num_in_hash c..<?n])"
    unfolding updateHash_def Let_def assms(5)
    by (simp only: concat_append) simp
  also have "\<dots> = concat (map (piece_bytes c) [0..<?n])"
    using h upt_add_eq_append[of 0 "cd_num_in_hash c" "?n - cd_num_in_hash c"] by (simp flip: map_append)
  finally have "cd_hashed (updateHash load c) = concat (map (piece_bytes c) [0..<?n])" .
  moreover have "cd_num_in_hash (updateHash load c) = ?n" by (simp add: updateHash_def Let_def)
  moreover have "piece_bytes (updateHash load c) = piece_bytes c" by (simp add: fun_eq_iff piece_bytes_def)
  moreover have "BitSet_get (cd_pieces c) i" if "i < ?n" for i using h assms(4) that by (cases "i < cd_num_in_hash c") auto
  ultimately show ?thesis using h by (simp add: hash_ok_def)
qed

section \<open>A piece arrives\<close>

text \<open>What the cache promises of the buffer it prepares for a piece.\<close>

definition buffer_ok :: "nat \<Rightarrow> PieceData \<Rightarrow> bool" where
  "buffer_ok len buf \<longleftrightarrow> pd_len buf = len \<and> \<not> pd_read_only buf \<and> (\<forall>p. pd_ptr buf = Some p \<longrightarrow> len \<le> length p)"

lemma PieceData_write_law:
  assumes "buffer_ok (length d) buf" and "length d < 2 ^ 32"
  shows "PieceData_write buf d 0 = Some (Inr (case pd_ptr buf of None \<Rightarrow> (0, buf)
     | Some p \<Rightarrow> (length d, buf\<lparr>pd_ptr := Some (d @ drop (length d) p)\<rparr>)))"
  using assms by (auto simp: buffer_ok_def PieceData_write_def add32_id mem_simps split: option.splits)

lemma keys_ok_shrink:
  assumes "keys_ok c" and "\<And>d. ds_status (f d) \<subseteq> ds_status d"
  shows "keys_ok (ds_update pd f c)"
proof (rule keys_ok_update[OF assms(1)])
  fix d assume "ds_find c pd = Some d"
  then have "(pd, d) \<in> set (cd_dstatus c)" by (simp add: ds_find_def map_of_SomeD)
  then show "ds_status (f d) \<subseteq> {..<cd_total c}" using assms(1) assms(2)[of d] by (fastforce simp: keys_ok_def)
qed

lemma keys_ok_remove: "keys_ok c \<Longrightarrow> keys_ok (ds_update pd (ds_remove i) c)"
  by (erule keys_ok_shrink) (auto simp: ds_remove_def)

lemma keys_ok_clear: "keys_ok c \<Longrightarrow> keys_ok (ds_update pd (\<lambda>d. d\<lparr>ds_status := {}\<rparr>) c)"
  by (erule keys_ok_shrink) simp

lemma endgameCancel_law:
  assumes "keys_ok c" and "endgameCancel ops r (c, w) = (c', w')"
  shows "keys_ok c' \<and> cd_core c' = cd_core c \<and> cd_pdown c' = cd_pdown c"
proof -
  let ?pp = "unat (rq_off r) div MAX_PIECE_LEN"
  let ?g = "\<lambda>pd (c, w). case ds_find c pd of
          Some d \<Rightarrow> if ds_contains d ?pp then (ds_update pd (ds_remove ?pp) c, w(pd := pd_cancel ops r (w pd))) else (c, w)
        | None \<Rightarrow> (c, w)"
  have "keys_ok (fst (fold ?g pds s)) \<and> cd_core (fst (fold ?g pds s)) = cd_core (fst s) \<and> cd_pdown (fst (fold ?g pds s)) = cd_pdown (fst s)"
    if "keys_ok (fst s)" for pds s
    using that
  proof (induction pds arbitrary: s)
    case (Cons pd pds)
    have "keys_ok (fst (?g pd s))" "cd_core (fst (?g pd s)) = cd_core (fst s)" "cd_pdown (fst (?g pd s)) = cd_pdown (fst s)"
      using Cons.prems keys_ok_remove by (cases s; auto split: option.splits)+
    then show ?case using Cons.IH[of "?g pd s"] by simp
  qed simp
  from this[of "(c, w)" "cd_pdown c"] show ?thesis using assms by (simp add: endgameCancel_def Let_def)
qed

lemma sendCancels_law:
  assumes "keys_ok c" and "sendCancels ops pd (c, w) = (c', w')"
  shows "keys_ok c' \<and> cd_core c' = cd_core c \<and> cd_pdown c' = cd_pdown c"
  using assms keys_ok_clear by (auto simp: sendCancels_def split: option.splits)

lemma releaseAllPDs_law:
  assumes "keys_ok c" and "releaseAllPDs ops (c, w) = (c', w')"
  shows "keys_ok c' \<and> cd_core c' = cd_core c \<and> cd_pdown c' = []"
proof -
  let ?g = "\<lambda>pd (c, w). sendCancels ops pd (c, w(pd := pd_release ops (w pd)))"
  have "keys_ok (fst (fold ?g pds s)) \<and> cd_core (fst (fold ?g pds s)) = cd_core (fst s)" if "keys_ok (fst s)" for pds s
    using that
  proof (induction pds arbitrary: s)
    case (Cons pd pds)
    obtain a b where s: "s = (a, b)" by (cases s)
    obtain c1 w1 where g: "sendCancels ops pd (a, b(pd := pd_release ops (b pd))) = (c1, w1)" by fastforce
    then have "keys_ok c1 \<and> cd_core c1 = cd_core a"
      using sendCancels_law[OF _ g] Cons.prems by (simp add: s)
    then show ?case using Cons.IH[of "(c1, w1)"] g by (simp add: s fun_upd_def)
  qed simp
  from this[of "(c, w)" "cd_pdown c"] show ?thesis using assms
    by (auto simp: releaseAllPDs_def keys_ok_def cd_core_def split: prod.splits)
qed

text \<open>The state right after a piece has been stored.\<close>

definition stored :: "nat \<Rightarrow> nat \<Rightarrow> PieceData \<Rightarrow> ChunkDownload \<Rightarrow> ChunkDownload" where
  "stored pd pp buf c = c\<lparr>cd_piece_data := (cd_piece_data c)[pp := Some buf], cd_pieces := BitSet_set (cd_pieces c) pp True,
     cd_providers := insert pd (cd_providers c), cd_downloaded := add32 (cd_downloaded c) 1\<rparr>"

lemma stored_fields [simp]:
  "cd_total (stored pd pp buf c) = cd_total c" "cd_chunk (stored pd pp buf c) = cd_chunk c" "cd_last_size (stored pd pp buf c) = cd_last_size c"
  "cd_pdown (stored pd pp buf c) = cd_pdown c" "cd_dstatus (stored pd pp buf c) = cd_dstatus c"
  "cd_hashed (stored pd pp buf c) = cd_hashed c" "cd_num_in_hash (stored pd pp buf c) = cd_num_in_hash c"
  "piece_len (stored pd pp buf c) = piece_len c" "ds_find (stored pd pp buf c) = ds_find c"
  by (simp_all add: stored_def piece_len_def fun_eq_iff ds_find_def)

lemma stored_get:
  assumes "have_ok c" and "pp < cd_total c"
  shows "BitSet_get (cd_pieces (stored pd pp buf c)) i \<longleftrightarrow> i = pp \<or> BitSet_get (cd_pieces c) i"
  using assms BitSet_get_set[of "cd_pieces c" pp] bs_countedD(1) by (auto simp: stored_def have_ok_def)

lemma stored_bytes:
  assumes "have_ok c" and "pp < cd_total c"
  shows "piece_bytes (stored pd pp buf c) i = (if i = pp then pd_bytes buf else piece_bytes c i)"
  using assms by (simp add: stored_def piece_bytes_def have_ok_def nth_list_update)

lemma stored_have:
  assumes "have_ok c" and "pp < cd_total c" and "\<not> BitSet_get (cd_pieces c) pp" and "pd_ok buf" and "length (pd_bytes buf) = piece_len c pp"
    and "cd_total c < 2 ^ 32"
  shows "have_ok (stored pd pp buf c)"
proof -
  let ?c = "stored pd pp buf c"
  have cnt: "bs_counted (cd_pieces ?c)" using assms(1) BitSet_set_counted by (simp add: stored_def have_ok_def)
  have "{i. BitSet_get (cd_pieces ?c) i} = insert pp {i. BitSet_get (cd_pieces c) i}" using stored_get[OF assms(1,2)] by auto
  then have num: "bs_num_on (cd_pieces ?c) = Suc (bs_num_on (cd_pieces c))"
    using bs_countedD(2)[OF cnt] bs_countedD(2) assms(1,3) by (simp add: have_ok_def)
  have "bs_num_on (cd_pieces ?c) \<le> bs_num_bits (cd_pieces ?c)"
    using bs_countedD(2)[OF cnt] on_bits_card on_bits_le by metis
  then have "Suc (bs_num_on (cd_pieces c)) \<le> cd_total c"
    unfolding num using assms(1) by (simp add: stored_def have_ok_def)
  then have "cd_downloaded ?c = bs_num_on (cd_pieces ?c)"
    unfolding num using assms(1,6) by (simp add: stored_def have_ok_def add32_id)
  moreover have "\<exists>d. cd_piece_data ?c ! i = Some d \<and> pd_ok d \<and> length (pd_bytes d) = piece_len c i"
    if "BitSet_get (cd_pieces ?c) i" for i
    using that assms stored_get[OF assms(1,2), of pd buf i] by (cases "i = pp") (auto simp: stored_def have_ok_def)
  ultimately show ?thesis using cnt assms(1) by (simp add: have_ok_def) (simp add: stored_def)
qed

text \<open>What happens once the piece is in place.\<close>

definition after_piece :: "'p PD_ops \<Rightarrow> (nat \<Rightarrow> nat \<Rightarrow> PieceData option) \<Rightarrow> Request \<Rightarrow> ChunkDownload \<times> 'p world \<Rightarrow> ChunkDownload \<times> 'p world" where
  "after_piece ops load r s =
     (let (c, w) = (if length (cd_pdown (fst s)) > 1 then endgameCancel ops r s else s) in (updateHash load c, w))"

lemma pieceReceived_eq:
  assumes "\<forall>off len buf. prepare off len = Some buf \<longrightarrow> buffer_ok len buf" and "unat (rq_len r) = length d"
    and pp: "pp = unat (rq_off r) div MAX_PIECE_LEN" and "shape_ok c"
  shows "pieceReceived ops prepare load pd r d (c, w) =
    (if pp \<ge> cd_total c \<or> BitSet_get (cd_pieces c) pp \<or> length d \<noteq> piece_len c pp then Some (Inr (False, False, c, w))
     else
       let c = ds_update pd (ds_remove pp) c in
       case do { buf \<leftarrow> prepare (unat (rq_off r)) (length d); p \<leftarrow> pd_ptr buf; Some (buf\<lparr>pd_ptr := Some (d @ drop (length d) p)\<rparr>) } of
         None \<Rightarrow> map_option (\<lambda>s. Inr (False, False, s)) (sendRequests ops (c, w))
       | Some buf \<Rightarrow>
           let s = after_piece ops load r (stored pd pp buf c, w) in
           if cd_downloaded (fst s) \<ge> cd_total (fst s) then Some (Inr (True, True, releaseAllPDs ops s))
           else map_option (\<lambda>s. Inr (False, True, s)) (sendRequests ops s))"
proof -
  have len: "length d < 2 ^ 32" using unsigned_less[of "rq_len r"] by (simp flip: assms(2))
  show ?thesis
  proof (cases "pp \<ge> cd_total c \<or> BitSet_get (cd_pieces c) pp \<or> length d \<noteq> piece_len c pp")
    case True
    then show ?thesis by (simp add: pieceReceived_def assms(2) pp)
  next
    case go: False
    then have d0: "length d \<noteq> 0" using assms(4) by (auto simp: piece_len_def shape_ok_def MAX_PIECE_LEN_def)
    let ?c = "ds_update pd (ds_remove pp) c"
    show ?thesis
    proof (cases "prepare (unat (rq_off r)) (length d)")
      case None
      then show ?thesis using go by (simp add: pieceReceived_def assms(2) pp Let_def)
    next
      case (Some buf)
      then have w: "buffer_ok (length d) buf" using assms(1) by blast
      show ?thesis
        using go d0 Some PieceData_write_law[OF w len]
        by (simp add: pieceReceived_def assms(2) Let_def after_piece_def stored_def pp[symmetric] split: option.split prod.split)
    qed
  qed
qed

lemma keys_ok_hash: "keys_ok (updateHash load c) = keys_ok c"
  by (simp add: keys_ok_def)

lemma after_piece_law:
  assumes "shape_ok c" "have_ok c" "keys_ok c" "cd_num_in_hash c \<le> cd_total c" "\<forall>i < cd_num_in_hash c. BitSet_get (cd_pieces c) i"
    "cd_hashed c = concat (map (piece_bytes c) [0..<cd_num_in_hash c])" and a: "after_piece ops load r (c, w) = (c', w')"
  shows "cd_inv c' \<and> cd_total c' = cd_total c \<and> cd_pieces c' = cd_pieces c \<and> cd_downloaded c' = cd_downloaded c
    \<and> cd_piece_data c' = cd_piece_data c \<and> cd_chunk c' = cd_chunk c"
proof -
  obtain c1 w1 where e: "(if length (cd_pdown c) > 1 then endgameCancel ops r (c, w) else (c, w)) = (c1, w1)" by fastforce
  have c1: "keys_ok c1 \<and> cd_core c1 = cd_core c"
    using e endgameCancel_law[OF assms(3), of ops r w c1 w1] assms(3) by (auto split: if_splits)
  note d = cd_coreD[OF conjunct2[OF c1]]
  have p: "piece_len c1 = piece_len c" "piece_bytes c1 = piece_bytes c" by (simp_all add: fun_eq_iff d piece_len_def piece_bytes_def)
  have "shape_ok c1" "have_ok c1" using assms(1,2) by (simp_all add: shape_ok_def have_ok_def d p)
  then have h: "hash_ok (updateHash load c1)" using assms(4-6) by (intro updateHash_law) (simp_all add: d p)
  have c': "c' = updateHash load c1" using a e by (simp add: after_piece_def split: if_splits prod.splits)
  have "shape_ok c'" "have_ok c'" using \<open>shape_ok c1\<close> \<open>have_ok c1\<close>
    by (simp_all add: shape_ok_def have_ok_def c')
  then show ?thesis using h c1 by (simp add: c' cd_inv_def keys_ok_hash d)
qed

lemma sum_piece_len:
  assumes "shape_ok c"
  shows "sum_list (map (piece_len c) [0..<cd_total c]) = ch_size (cd_chunk c)"
proof -
  obtain n where n: "cd_total c = Suc n" using assms by (cases "cd_total c") (auto simp: shape_ok_def)
  have "map (piece_len c) [0..<n] = replicate n MAX_PIECE_LEN"
    by (rule nth_equalityI) (auto simp: piece_len_def n)
  then show ?thesis using assms by (simp add: shape_ok_def n sum_list_replicate) (simp add: piece_len_def n)
qed

lemma all_pieces_bytes:
  assumes "shape_ok c" and "have_ok c" and "\<forall>i < cd_total c. BitSet_get (cd_pieces c) i"
  shows "length (concat (map (piece_bytes c) [0..<cd_total c])) = ch_size (cd_chunk c)"
proof -
  have "length (piece_bytes c i) = piece_len c i" if "i < cd_total c" for i
    using assms(2,3) that by (force simp: have_ok_def piece_bytes_def)
  then have "map (length \<circ> piece_bytes c) [0..<cd_total c] = map (piece_len c) [0..<cd_total c]" by simp
  then show ?thesis using sum_piece_len[OF assms(1)] by (simp only: length_concat map_map)
qed

lemma complete_iff:
  assumes "shape_ok c" and "have_ok c"
  shows "cd_downloaded c \<ge> cd_total c \<longleftrightarrow> (\<forall>i < cd_total c. BitSet_get (cd_pieces c) i)"
proof -
  let ?on = "{i. BitSet_get (cd_pieces c) i}"
  have "bs_num_bits (cd_pieces c) = cd_total c" "bs_counted (cd_pieces c)" and dn: "cd_downloaded c = bs_num_on (cd_pieces c)"
    using assms(2) unfolding have_ok_def by blast+
  then have sub: "?on \<subseteq> {..<cd_total c}" and card: "cd_downloaded c = card ?on"
    by (auto simp: BitSet_get_def bs_countedD(2))
  have "cd_total c \<le> card ?on \<longleftrightarrow> ?on = {..<cd_total c}"
    using card_seteq[OF finite_lessThan sub] by (metis card_lessThan le_refl)
  also have "\<dots> \<longleftrightarrow> (\<forall>i < cd_total c. BitSet_get (cd_pieces c) i)" using sub by blast
  finally show ?thesis unfolding card .
qed

text \<open>The outcome of a received piece, as a relation between the state before and after.\<close>

definition piece_post :: "ChunkDownload \<Rightarrow> nat \<Rightarrow> bytes \<Rightarrow> bool \<Rightarrow> bool \<Rightarrow> ChunkDownload \<Rightarrow> bool" where
  "piece_post c pp d complete needed c' \<longleftrightarrow>
     cd_inv c' \<and> cd_chunk c' = cd_chunk c \<and> cd_total c' = cd_total c
     \<and> (\<forall>i. BitSet_get (cd_pieces c') i \<longleftrightarrow> BitSet_get (cd_pieces c) i \<or> needed \<and> i = pp)
     \<and> (needed \<longrightarrow> pp < cd_total c \<and> \<not> BitSet_get (cd_pieces c) pp \<and> piece_bytes c' pp = d)
     \<and> (\<forall>i. BitSet_get (cd_pieces c) i \<longrightarrow> piece_bytes c' i = piece_bytes c i)
     \<and> (complete \<longleftrightarrow> needed \<and> (\<forall>i < cd_total c. BitSet_get (cd_pieces c') i))
     \<and> (complete \<longrightarrow> cd_hashed c' = concat (map (piece_bytes c') [0..<cd_total c]) \<and> length (cd_hashed c') = ch_size (cd_chunk c)
          \<and> cd_pdown c' = [])"

lemma piece_post_core:
  assumes "cd_core c' = cd_core c" and "keys_ok c'" and "cd_inv c" and "piece_post c0 pp d complete needed c \<or> \<not> needed \<and> \<not> complete \<and> c0 = c"
    and "complete \<longrightarrow> cd_pdown c' = []"
  shows "piece_post c0 pp d complete needed c'"
proof -
  note e = cd_coreD[OF assms(1)]
  have "piece_bytes c' = piece_bytes c" by (simp add: fun_eq_iff e piece_bytes_def)
  then show ?thesis using assms(4,5) cd_inv_core[OF assms(1-3)] unfolding piece_post_def by (auto simp: e)
qed

lemma stored_post:
  assumes inv: "cd_inv c" and pp: "pp < cd_total c" "\<not> BitSet_get (cd_pieces c) pp"
    and buf: "pd_ok buf" "pd_bytes buf = d" "length d = piece_len c pp"
    and a: "after_piece ops load r (stored pd pp buf c, w) = (c', w')"
  shows "cd_inv c' \<and> cd_chunk c' = cd_chunk c \<and> cd_total c' = cd_total c
     \<and> (\<forall>i. BitSet_get (cd_pieces c') i \<longleftrightarrow> BitSet_get (cd_pieces c) i \<or> i = pp)
     \<and> piece_bytes c' pp = d \<and> (\<forall>i. BitSet_get (cd_pieces c) i \<longrightarrow> piece_bytes c' i = piece_bytes c i)"
proof -
  let ?s = "stored pd pp buf c"
  have ok: "shape_ok c" "have_ok c" "hash_ok c" "keys_ok c" using inv by (auto simp: cd_inv_def)
  have "cd_total c < 2 ^ 32" using total_bound[OF ok(1)] by (simp add: MAX_PIECE_LEN_def)
  then have hv: "have_ok ?s" using stored_have[OF ok(2) pp buf(1)] buf(2,3) by simp
  have on: "BitSet_get (cd_pieces ?s) i \<longleftrightarrow> i = pp \<or> BitSet_get (cd_pieces c) i" for i using stored_get[OF ok(2) pp(1)] .
  have pb: "piece_bytes ?s i = (if i = pp then d else piece_bytes c i)" for i using stored_bytes[OF ok(2) pp(1)] buf(2) by simp
  have "map (piece_bytes ?s) [0..<cd_num_in_hash c] = map (piece_bytes c) [0..<cd_num_in_hash c]"
    using ok(3) pp(2) by (auto simp: pb hash_ok_def)
  then have h: "cd_hashed ?s = concat (map (piece_bytes ?s) [0..<cd_num_in_hash ?s])"
    using ok(3) unfolding hash_ok_def stored_fields by metis
  have "shape_ok ?s" "keys_ok ?s" using ok(1,4) by (simp_all add: shape_ok_def keys_ok_def)
  then have l: "cd_inv c' \<and> cd_total c' = cd_total ?s \<and> cd_pieces c' = cd_pieces ?s \<and> cd_downloaded c' = cd_downloaded ?s
      \<and> cd_piece_data c' = cd_piece_data ?s \<and> cd_chunk c' = cd_chunk ?s"
    using after_piece_law[OF _ hv _ _ _ h a] ok(3) on by (simp add: hash_ok_def)
  then have "piece_bytes c' i = piece_bytes ?s i" for i by (simp add: piece_bytes_def)
  then show ?thesis using l on pb pp(2) by auto
qed

lemma pieceReceived_law:
  assumes inv: "cd_inv c" and prep: "\<forall>off len buf. prepare off len = Some buf \<longrightarrow> buffer_ok len buf" and len: "unat (rq_len r) = length d"
    and pp: "pp = unat (rq_off r) div MAX_PIECE_LEN"
    and needed: "needed \<longleftrightarrow> pp < cd_total c \<and> \<not> BitSet_get (cd_pieces c) pp \<and> length d = piece_len c pp
      \<and> (\<exists>buf. prepare (unat (rq_off r)) (length d) = Some buf \<and> pd_ok buf)"
  shows "\<exists>complete c' w'. pieceReceived ops prepare load pd r d (c, w) = Some (Inr (complete, needed, c', w')) \<and> piece_post c pp d complete needed c'"
proof -
  have sh: "shape_ok c" and k: "keys_ok c" using inv by (auto simp: cd_inv_def)
  note eq = pieceReceived_eq[OF prep len pp sh, of ops load pd w]
  let ?c = "ds_update pd (ds_remove pp) c"
  have k1: "keys_ok ?c" using keys_ok_remove[OF k] .
  have inv1: "cd_inv ?c" using cd_inv_core[OF _ k1 inv] by simp
  show ?thesis
  proof (cases "pp \<ge> cd_total c \<or> BitSet_get (cd_pieces c) pp \<or> length d \<noteq> piece_len c pp")
    case True
    then show ?thesis using needed inv unfolding eq by (auto simp: piece_post_def)
  next
    case go: False
    show ?thesis
    proof (cases "do { buf \<leftarrow> prepare (unat (rq_off r)) (length d); p \<leftarrow> pd_ptr buf; Some (buf\<lparr>pd_ptr := Some (d @ drop (length d) p)\<rparr>) }")
      case None
      then have n: "\<not> needed" using needed by (auto simp: pd_ok_def split: Option.bind_splits)
      obtain c' w' where s: "sendRequests ops (?c, w) = Some (c', w')" "keys_ok c'" "grown ?c c'" by (rule sendRequests_law[OF k1])
      have "cd_core c' = cd_core c" using grownD[OF s(3)] by simp
      then have "piece_post c pp d False False c'" using piece_post_core[OF _ s(2) inv] by simp
      then show ?thesis using go None n s(1) unfolding eq by auto
    next
      case (Some buf)
      then have n: needed and b: "pd_ok buf" "pd_bytes buf = d"
        using needed go prep by (auto simp: pd_ok_def pd_bytes_def buffer_ok_def split: Option.bind_splits)
      obtain c2 w2 where a: "after_piece ops load r (stored pd pp buf ?c, w) = (c2, w2)" by fastforce
      have pl: "length d = piece_len ?c pp" using go by (simp add: piece_len_def)
      have p2: "cd_inv c2" "cd_chunk c2 = cd_chunk c" "cd_total c2 = cd_total c"
          "\<forall>i. BitSet_get (cd_pieces c2) i \<longleftrightarrow> BitSet_get (cd_pieces c) i \<or> i = pp" "piece_bytes c2 pp = d"
          "\<forall>i. BitSet_get (cd_pieces c) i \<longrightarrow> piece_bytes c2 i = piece_bytes c i"
        using stored_post[OF inv1 _ _ b pl a] go by (simp_all add: piece_bytes_def)
      have i2: "shape_ok c2" "have_ok c2" "hash_ok c2" "keys_ok c2" using p2(1) by (auto simp: cd_inv_def)
      note ci = complete_iff[OF i2(1,2)]
      show ?thesis
      proof (cases "cd_downloaded c2 \<ge> cd_total c2")
        case True
        obtain c3 w3 where r: "releaseAllPDs ops (c2, w2) = (c3, w3)" by fastforce
        note l = releaseAllPDs_law[OF i2(4) r]
        have all: "\<forall>i < cd_total c. BitSet_get (cd_pieces c2) i" using True ci p2(3) by simp
        then have "cd_num_in_hash c2 = cd_total c" using i2(3) p2(3) by (auto simp: hash_ok_def le_less)
        then have h: "cd_hashed c2 = concat (map (piece_bytes c2) [0..<cd_total c])" using i2(3) by (simp add: hash_ok_def)
        moreover have "length (cd_hashed c2) = ch_size (cd_chunk c)"
          using all_pieces_bytes[OF i2(1,2)] all p2(2,3) unfolding h by simp
        moreover note e = cd_coreD[of c3 c2]
        moreover have "piece_bytes c3 = piece_bytes c2" using l e(6) by (simp add: fun_eq_iff piece_bytes_def)
        ultimately have "piece_post c pp d True True c3"
          using l cd_inv_core[of c3 c2] p2 all go unfolding piece_post_def by auto
        then show ?thesis using go Some n a True r unfolding eq by auto
      next
        case False
        obtain c3 w3 where s: "sendRequests ops (c2, w2) = Some (c3, w3)" "keys_ok c3" "grown c2 c3" by (rule sendRequests_law[OF i2(4)])
        have "piece_post c pp d False True c2" using p2 go False ci unfolding piece_post_def by auto
        then have "piece_post c pp d False True c3" using piece_post_core[OF _ s(2) p2(1)] grownD[OF s(3)] by simp
        then show ?thesis using go Some n a False s(1) unfolding eq by auto
      qed
    qed
  qed
qed

section \<open>Properties\<close>



text \<open>
  A download starts empty, with as many pieces as the chunk needs: all of 16384 bytes but the last
  one, whose size is what is left and never zero.
\<close>

theorem ChunkDownload_new_correct:
  assumes "0 < ch_size ch" and "ch_size ch < 2 ^ 32"
  shows "cd_inv (ChunkDownload_new ch) \<and> (\<forall>i. \<not> BitSet_get (cd_pieces (ChunkDownload_new ch)) i)
    \<and> sum_list (map (piece_len (ChunkDownload_new ch)) [0..<cd_total (ChunkDownload_new ch)]) = ch_size ch"
proof -
  let ?c = "ChunkDownload_new ch"
  have inv: "cd_inv ?c" using ChunkDownload_new_inv[OF assms] .
  have f: "cd_chunk ?c = ch" "cd_pieces ?c = BitSet_new (cd_total ?c)" by (simp_all add: ChunkDownload_new_def Let_def BitSet_clear_new)
  show ?thesis using inv sum_piece_len[of ?c] by (simp add: f cd_inv_def)
qed

theorem ChunkDownload_new_correct_witness:
  "cd_inv (ChunkDownload_new (Chunk_new 2 40000))"
  using ChunkDownload_new_correct[of "Chunk_new 2 40000"] by (simp add: Chunk_new_def)

text \<open>
  The offset of a piece is only divided by the piece size, never checked to be a multiple of it.
  While the last piece of a chunk is missing, a piece of its length at any offset inside it is
  accepted, and the buffer that is requested for it reaches beyond the end of the chunk.
\<close>

theorem pieceReceived_misaligned:
  assumes "cd_inv c" and "\<not> BitSet_get (cd_pieces c) (cd_total c - 1)" and "0 < k" and "k < MAX_PIECE_LEN"
    and "unat (rq_off r) = (cd_total c - 1) * MAX_PIECE_LEN + k" and "unat (rq_len r) = cd_last_size c" and "length d = cd_last_size c"
    and "\<forall>off len. \<exists>buf. prepare off len = Some buf \<and> buffer_ok len buf \<and> pd_ok buf"
  shows "(\<exists>complete c' w'. pieceReceived ops prepare load pd r d (c, w) = Some (Inr (complete, True, c', w')))
    \<and> unat (rq_off r) + unat (rq_len r) > ch_size (cd_chunk c)"
proof -
  have sh: "shape_ok c" using assms(1) by (simp add: cd_inv_def)
  have pp: "cd_total c - 1 = unat (rq_off r) div MAX_PIECE_LEN" using assms(4,5) by simp
  have prep: "\<forall>off len buf. prepare off len = Some buf \<longrightarrow> buffer_ok len buf" using assms(8) by (metis option.inject)
  have "\<exists>buf. prepare (unat (rq_off r)) (length d) = Some buf \<and> pd_ok buf" using assms(8) by blast
  then have n: "True \<longleftrightarrow> cd_total c - 1 < cd_total c \<and> \<not> BitSet_get (cd_pieces c) (cd_total c - 1) \<and> length d = piece_len c (cd_total c - 1)
      \<and> (\<exists>buf. prepare (unat (rq_off r)) (length d) = Some buf \<and> pd_ok buf)"
    using assms(2,7) sh by (simp add: piece_len_def shape_ok_def)
  have "unat (rq_len r) = length d" using assms(6,7) by simp
  from pieceReceived_law[OF assms(1) prep this pp n, of ops load pd w]
  have "\<exists>complete c' w'. pieceReceived ops prepare load pd r d (c, w) = Some (Inr (complete, True, c', w'))" by blast
  then show ?thesis using assms(3,5,6) sh by (simp add: shape_ok_def)
qed

theorem pieceReceived_misaligned_witness:
  "\<exists>complete c' w'. pieceReceived \<lparr>pd_download = (\<lambda>r q. q), pd_cancel = (\<lambda>r q. q), pd_grab = id, pd_release = id,
      pd_setNearlyDone = (\<lambda>b. id), pd_isChoked = (\<lambda>q. True), pd_canAddRequest = (\<lambda>q. True), pd_rate = (\<lambda>q i. 0)\<rparr>
      (\<lambda>off len. Some \<lparr>pd_len = len, pd_ptr = Some (replicate len 0), pd_read_only = False\<rparr>) (\<lambda>_ _. None) 1
      (Request_new 0 100 3) [1, 2, 3] (ChunkDownload_new (Chunk_new 0 3), \<lambda>_. 0 :: nat) = Some (Inr (complete, True, c', w'))"
proof -
  have c: "cd_inv (ChunkDownload_new (Chunk_new 0 3))" by (intro ChunkDownload_new_inv) (simp_all add: Chunk_new_def)
  have f: "cd_total (ChunkDownload_new (Chunk_new 0 3)) = 1" "cd_last_size (ChunkDownload_new (Chunk_new 0 3)) = 3"
      "cd_pieces (ChunkDownload_new (Chunk_new 0 3)) = BitSet_new 1"
    by (simp_all add: ChunkDownload_new_def Chunk_new_def MAX_PIECE_LEN_def Let_def BitSet_clear_new)
  show ?thesis
    by (rule conjunct1[OF pieceReceived_misaligned[OF c, where k = 100]])
      (simp_all add: f Request_new_def MAX_PIECE_LEN_def buffer_ok_def pd_ok_def)
qed

end
