(* ===== verification/Chunk_Requests.thy ===== *)
theory Chunk_Requests
  imports Chunk_Assembly
begin

text \<open>
  The interface between a chunk download and its downloaders: the locale \<open>piece_downloader\<close>, what the
  request operations of \<open>ChunkDownload\<close> guarantee under it, and its interpretation on the peers of
  \<open>Peer.thy\<close>.
\<close>

lemma request_rounds_preserves:
  "request_rounds ops tmp s = Some s' \<Longrightarrow> (\<forall>pds s. P s \<longrightarrow> P (snd (request_round ops pds s))) \<longrightarrow> P s \<longrightarrow> P s'"
proof (erule request_rounds.raw_induct[rotated], intro impI, goal_cases)
  case (1 rec ops tmp s s')
  obtain tmp1 s1 where r: "request_round ops tmp s = (tmp1, s1)" by (cases "request_round ops tmp s")
  then have "P s1" using 1(3,4) by (metis snd_conv)
  then show ?case using 1 r by (auto split: if_splits)
qed

lemma map_of_erase: "k \<noteq> pd \<Longrightarrow> map_of (filter (\<lambda>(k, d). k \<noteq> pd) xs) k = map_of xs k"
  by (induction xs) auto

lemma assign_keys_ok:
  assumes "keys_ok c" and "pd \<notin> set (cd_pdown c)"
  shows "keys_ok (c\<lparr>cd_pdown := cd_pdown c @ [pd], cd_dstatus := (pd, DownloadStatus_new) # filter (\<lambda>(k, d). k \<noteq> pd) (cd_dstatus c)\<rparr>)"
proof -
  have "pd \<notin> fst ` set (cd_dstatus c)" using assms by (simp add: keys_ok_def)
  then have "filter (\<lambda>(k, d). k \<noteq> pd) (cd_dstatus c) = cd_dstatus c" by (intro filter_True) force
  then show ?thesis using assms unfolding keys_ok_def by (auto simp: DownloadStatus_new_def)
qed

lemma keys_ok_erase:
  assumes "keys_ok c"
  shows "keys_ok (c\<lparr>cd_dstatus := filter (\<lambda>(k, d). k \<noteq> pd) (cd_dstatus c), cd_pdown := removeAll pd (cd_pdown c)\<rparr>)"
proof -
  have "map fst (filter (\<lambda>(k, d). k \<noteq> pd) xs) = filter (\<lambda>k. k \<noteq> pd) (map fst xs)" for xs :: "(nat \<times> DownloadStatus) list"
    by (induction xs) auto
  then show ?thesis using assms unfolding keys_ok_def by (auto simp: removeAll_filter_not_eq)
qed

section \<open>Requests at the downloaders\<close>

text \<open>
  What a chunk download relies on: a downloader holds a set of pending requests; a new request joins
  it, a cancelled one leaves it, and the other calls leave it alone.
\<close>

locale piece_downloader =
  fixes ops :: "'p PD_ops"
    and pd_inv :: "'p \<Rightarrow> bool"
    and pending :: "'p \<Rightarrow> Request set"
  assumes download_law: "pd_inv p \<Longrightarrow> r \<notin> pending p \<Longrightarrow> pd_inv (pd_download ops r p) \<and> pending (pd_download ops r p) \<subseteq> insert r (pending p)"
    and cancel_law: "pd_inv p \<Longrightarrow> pd_inv (pd_cancel ops r p) \<and> pending (pd_cancel ops r p) \<subseteq> pending p - {r}"
    and grab_law: "pd_inv (pd_grab ops p) = pd_inv p" "pending (pd_grab ops p) = pending p"
    and release_law: "pd_inv (pd_release ops p) = pd_inv p" "pending (pd_release ops p) = pending p"
    and nearly_law: "pd_inv (pd_setNearlyDone ops b p) = pd_inv p" "pending (pd_setNearlyDone ops b p) = pending p"
begin

text \<open>Every pending request of the chunk is in the request set the chunk keeps for the downloader.\<close>

definition tracked_at :: "ChunkDownload \<Rightarrow> nat \<Rightarrow> 'p \<Rightarrow> bool" where
  "tracked_at c pd p \<longleftrightarrow> pd_inv p \<and> (\<forall>r \<in> pending p. rq_index r = word_of_nat (ch_index (cd_chunk c)) \<longrightarrow>
     (\<exists>d. ds_find c pd = Some d \<and> (\<exists>i \<in> ds_status d. r = piece_request c i)))"

definition tracked :: "ChunkDownload \<Rightarrow> 'p world \<Rightarrow> bool" where
  "tracked c w \<longleftrightarrow> (\<forall>pd \<in> set (cd_pdown c). tracked_at c pd (w pd))"

definition no_pending :: "ChunkDownload \<Rightarrow> 'p \<Rightarrow> bool" where
  "no_pending c p \<longleftrightarrow> pd_inv p \<and> (\<forall>r \<in> pending p. rq_index r \<noteq> word_of_nat (ch_index (cd_chunk c)))"

lemma cancel_list:
  assumes "pd_inv p"
  shows "pd_inv (fold (\<lambda>i. pd_cancel ops (g i)) is p) \<and> pending (fold (\<lambda>i. pd_cancel ops (g i)) is p) \<subseteq> pending p - g ` set is"
  using assms
proof (induction "is" arbitrary: p)
  case (Cons i "is")
  then show ?case using cancel_law[OF Cons.prems, of "g i"] Cons.IH[of "pd_cancel ops (g i) p"] by auto
qed simp

lemma piece_request_inj:
  assumes "shape_ok c" and "i < cd_total c" and "j < cd_total c" and "piece_request c i = piece_request c j"
  shows "i = j"
proof -
  have b: "k * MAX_PIECE_LEN < 2 ^ 32" if "k < cd_total c" for k
  proof -
    have "k * MAX_PIECE_LEN \<le> (cd_total c - 1) * MAX_PIECE_LEN" using that by (intro mult_le_mono1) auto
    then show ?thesis using assms(1) unfolding shape_ok_def by linarith
  qed
  have u: "unat (word_of_nat x :: u32w) = x" if "x < 2 ^ 32" for x
    using that by (simp add: unsigned_of_nat take_bit_nat_eq_self)
  have "(word_of_nat (i * MAX_PIECE_LEN) :: u32w) = word_of_nat (j * MAX_PIECE_LEN)" using assms(4) by (simp add: piece_request_def Request_new_def)
  then have "i * MAX_PIECE_LEN = j * MAX_PIECE_LEN"
    using b[OF assms(2)] b[OF assms(3)] by (metis u)
  then show ?thesis by (simp add: MAX_PIECE_LEN_def)
qed

lemma ds_find_range: "keys_ok c \<Longrightarrow> ds_find c pd = Some d \<Longrightarrow> ds_status d \<subseteq> {..<cd_total c}"
  using map_of_SomeD[of "cd_dstatus c" pd d] by (fastforce simp: keys_ok_def ds_find_def)

lemma piece_request_core: "cd_core c' = cd_core c \<Longrightarrow> piece_request c' = piece_request c"
  using cd_coreD[of c' c] by (simp add: fun_eq_iff piece_request_def)

lemma tracked_at_cong:
  assumes "cd_core c' = cd_core c" and "ds_find c' pd = ds_find c pd"
  shows "tracked_at c' pd p = tracked_at c pd p"
  using assms piece_request_core[OF assms(1)] cd_coreD(3)[OF assms(1)] by (simp add: tracked_at_def)

lemma sendRequest_to_tracked:
  assumes k: "keys_ok c" and sh: "shape_ok c" and t: "tracked c w" and s: "sendRequest_to ops pd (c, w) = (ok, c', w')"
  shows "tracked c' w'"
proof (cases ok)
  case False
  then show ?thesis using sendRequest_to_law(6)[OF k s] t by simp
next
  case True
  let ?b = "bestPiece c pd" and ?r = "piece_request c (bestPiece c pd)"
  have b: "?b < cd_total c" and d0: "ds_find c pd \<noteq> None" and c': "c' = ds_update pd (ds_add ?b) c"
    and w': "w' = (let w1 = w(pd := pd_download ops ?r (w pd)) in if nearlyDone c' then w1(pd := pd_setNearlyDone ops True (w1 pd)) else w1)"
    using s True by (auto simp: sendRequest_to_def Let_def split: if_splits)
  obtain d where d: "ds_find c pd = Some d" using d0 by auto
  have "requestable c pd ?b" using bestPiece_law[of c pd] b by (auto simp: is_best_def)
  then have nb: "?b \<notin> ds_status d" using d by (simp add: requestable_def ds_contains_def)
  have "tracked_at c' k (w' k)" if kin: "k \<in> set (cd_pdown c)" for k
  proof (cases "k = pd")
    case False
    then have "ds_find c' k = ds_find c k" "w' k = w k" by (simp_all add: c' w' ds_find_update Let_def)
    then show ?thesis using tracked_at_cong[of c' c k] t kin by (simp add: tracked_def c')
  next
    case True
    then have at: "tracked_at c pd (w pd)" using t kin by (simp add: tracked_def)
    have fresh: "?r \<notin> pending (w pd)"
    proof
      assume "?r \<in> pending (w pd)"
      moreover have "rq_index ?r = word_of_nat (ch_index (cd_chunk c))" by (simp add: piece_request_def Request_new_def)
      ultimately obtain i where i: "i \<in> ds_status d" "?r = piece_request c i" using at d unfolding tracked_at_def by auto
      then have "?b = i" using piece_request_inj[OF sh b] ds_find_range[OF k d] by auto
      then show False using nb i by simp
    qed
    have p: "pd_inv (w' pd) \<and> pending (w' pd) \<subseteq> insert ?r (pending (w pd))"
      using download_law[OF _ fresh] at by (simp add: tracked_at_def w' nearly_law Let_def)
    have f: "ds_find c' pd = Some (ds_add ?b d)" using d by (simp add: c' ds_find_update)
    have core: "cd_chunk c' = cd_chunk c" "piece_request c' = piece_request c" using piece_request_core[of c' c] by (simp_all add: c')
    have "\<exists>i \<in> ds_status (ds_add ?b d). r = piece_request c i"
      if r: "r \<in> pending (w' pd)" "rq_index r = word_of_nat (ch_index (cd_chunk c))" for r
    proof (cases "r = ?r")
      case False
      then have "r \<in> pending (w pd)" using p r(1) by auto
      then show ?thesis using at d r(2) unfolding tracked_at_def by (auto simp: ds_add_def)
    qed (auto simp: ds_add_def)
    then show ?thesis using p f core True by (simp add: tracked_at_def)
  qed
  then show ?thesis by (simp add: tracked_def c')
qed

definition tracked_state :: "ChunkDownload \<times> 'p world \<Rightarrow> bool" where
  "tracked_state s \<longleftrightarrow> keys_ok (fst s) \<and> shape_ok (fst s) \<and> tracked (fst s) (snd s)"

lemma shape_ok_core: "cd_core c' = cd_core c \<Longrightarrow> shape_ok c' = shape_ok c"
  using cd_coreD[of c' c] by (simp add: shape_ok_def)

lemma tracked_sendRequest_to: "tracked_state s \<Longrightarrow> tracked_state (snd (sendRequest_to ops pd s))"
proof -
  assume t: "tracked_state s"
  obtain c w where s: "s = (c, w)" by (cases s)
  obtain ok c' w' where r: "sendRequest_to ops pd (c, w) = (ok, c', w')" by (metis prod_cases3)
  then show ?thesis
    using t sendRequest_to_law(1,2)[OF _ r] sendRequest_to_tracked[OF _ _ _ r] shape_ok_core[of c' c] grownD[of c c']
    by (simp add: tracked_state_def s)
qed

lemma tracked_request_round: "tracked_state s \<Longrightarrow> tracked_state (snd (request_round ops pds s))"
proof (induction pds arbitrary: s)
  case (Cons pd pds)
  obtain ok s1 where r: "sendRequest_to ops pd s = (ok, s1)" by (cases "sendRequest_to ops pd s")
  have "tracked_state s1" using tracked_sendRequest_to[OF Cons.prems, of pd] r by simp
  then have "tracked_state (snd (request_round ops pds s1))" by (rule Cons.IH)
  then show ?case using Cons.IH[OF Cons.prems] r by (auto split: prod.splits)
qed simp

lemma tracked_sendRequests: "tracked_state s \<Longrightarrow> sendRequests ops s = Some s' \<Longrightarrow> tracked_state s'"
  using request_rounds_preserves[of ops _ s s' tracked_state] tracked_request_round by (auto simp: sendRequests_def)

lemma sendCancels_tracked:
  assumes "keys_ok c" and "tracked c w" and "pd \<in> set (cd_pdown c)" and "sendCancels ops pd (c, w) = (c', w')"
  shows "tracked c' w' \<and> no_pending c (w' pd) \<and> (\<forall>k. k \<noteq> pd \<longrightarrow> w' k = w k)"
proof -
  obtain d where d: "ds_find c pd = Some d" using ds_find_assigned[OF assms(1,3)] by auto
  let ?l = "sorted_list_of_set (ds_status d)"
  have "finite (ds_status d)" using ds_find_range[OF assms(1) d] finite_subset by blast
  then have set_l: "set ?l = ds_status d" by simp
  have c': "c' = ds_update pd (\<lambda>d. d\<lparr>ds_status := {}\<rparr>) c" and w': "w' = w(pd := fold (\<lambda>i. pd_cancel ops (piece_request c i)) ?l (w pd))"
    using assms(4) d by (auto simp: sendCancels_def)
  have at: "tracked_at c pd (w pd)" using assms(2,3) by (simp add: tracked_def)
  have "pd_inv (w' pd) \<and> pending (w' pd) \<subseteq> pending (w pd) - piece_request c ` ds_status d"
    using cancel_list[of "w pd" "piece_request c" ?l] at set_l by (simp add: w' tracked_at_def)
  then have np: "no_pending c (w' pd)" using at d unfolding no_pending_def tracked_at_def by fastforce
  have "tracked_at c' k (w' k)" if k: "k \<in> set (cd_pdown c)" for k
  proof (cases "k = pd")
    case True
    then show ?thesis using np by (simp add: tracked_at_def no_pending_def c')
  next
    case False
    then show ?thesis using tracked_at_cong[of c' c k] k assms(2) by (simp add: c' w' ds_find_update tracked_def)
  qed
  then show ?thesis using np by (simp add: tracked_def c' w')
qed

lemma tracked_at_release: "tracked_at c pd (pd_release ops p) = tracked_at c pd p"
  by (simp add: tracked_at_def release_law)

lemma release_pd_tracked:
  assumes "keys_ok c" and "tracked c w" and "pd \<in> set (cd_pdown c)" and "release_pd ops pd (c, w) = (c', w')"
  shows "keys_ok c' \<and> tracked c' w' \<and> no_pending c (w' pd) \<and> cd_core c' = cd_core c \<and> pd \<notin> set (cd_pdown c')"
proof -
  let ?w = "w(pd := pd_release ops (w pd))"
  obtain c1 w1 where s: "sendCancels ops pd (c, ?w) = (c1, w1)" by fastforce
  have "tracked c ?w" using assms(2) tracked_at_release by (simp add: tracked_def)
  then have t: "tracked c1 w1" "no_pending c (w1 pd)" using sendCancels_tracked[OF assms(1) _ assms(3) s] by auto
  have l: "keys_ok c1" "cd_core c1 = cd_core c" "cd_pdown c1 = cd_pdown c" using sendCancels_law[OF assms(1) s] by auto
  have c': "c' = c1\<lparr>cd_dstatus := filter (\<lambda>(k, d). k \<noteq> pd) (cd_dstatus c1), cd_pdown := removeAll pd (cd_pdown c1)\<rparr>" and w': "w' = w1"
    using assms(3,4) s by (auto simp: release_pd_def)
  have core: "cd_core c' = cd_core c1" by (simp add: c')
  have "keys_ok c'" using keys_ok_erase[OF l(1)] by (simp add: c')
  moreover have "tracked_at c' k (w' k)" if k: "k \<in> set (cd_pdown c')" for k
  proof -
    have "k \<noteq> pd" "k \<in> set (cd_pdown c1)" using k by (auto simp: c')
    moreover from this have "ds_find c' k = ds_find c1 k" by (simp add: ds_find_def c' map_of_erase)
    ultimately show ?thesis using tracked_at_cong[OF core] t(1) by (simp add: tracked_def w')
  qed
  ultimately show ?thesis using t core l by (simp add: tracked_def w') (simp add: c')
qed

lemma releaseAllPDs_tracked:
  assumes "keys_ok c" and "tracked c w" and "releaseAllPDs ops (c, w) = (c', w')"
  shows "\<forall>pd \<in> set (cd_pdown c). no_pending c (w' pd)"
proof -
  let ?g = "\<lambda>pd (c, w). sendCancels ops pd (c, w(pd := pd_release ops (w pd)))"
  have "\<forall>pd \<in> set pds \<union> D. no_pending c (snd (fold ?g pds s) pd)"
    if "keys_ok (fst s)" "tracked (fst s) (snd s)" "set pds \<subseteq> set (cd_pdown (fst s))" "cd_core (fst s) = cd_core c"
      "\<forall>pd \<in> D. no_pending c (snd s pd)" for pds s D
    using that
  proof (induction pds arbitrary: s D)
    case (Cons pd pds)
    obtain a b where s: "s = (a, b)" by (cases s)
    let ?b = "b(pd := pd_release ops (b pd))"
    obtain c1 w1 where g: "sendCancels ops pd (a, ?b) = (c1, w1)" by fastforce
    have "tracked a ?b" using Cons.prems(2) tracked_at_release by (simp add: tracked_def s)
    then have t: "tracked c1 w1" "no_pending a (w1 pd)" "\<forall>k. k \<noteq> pd \<longrightarrow> w1 k = ?b k"
      using sendCancels_tracked[OF _ _ _ g] Cons.prems(1,3) by (auto simp: s)
    have l: "keys_ok c1" "cd_core c1 = cd_core a" "cd_pdown c1 = cd_pdown a" using sendCancels_law[OF _ g] Cons.prems(1) by (auto simp: s)
    have ch: "cd_chunk a = cd_chunk c" using cd_coreD(3)[of a c] Cons.prems(4) by (simp add: s)
    have "\<forall>k \<in> insert pd D. no_pending c (w1 k)" using t Cons.prems(5) ch by (auto simp: s no_pending_def)
    then have "\<forall>k \<in> set pds \<union> insert pd D. no_pending c (snd (fold ?g pds (c1, w1)) k)"
      using Cons.IH[of "(c1, w1)" "insert pd D"] t(1) l Cons.prems(3,4) by (simp add: s fun_upd_def)
    then show ?case using g by (simp add: s fun_upd_def)
  qed simp
  from this[of "(c, w)" "cd_pdown c" "{}"] show ?thesis using assms
    by (simp add: releaseAllPDs_def split: prod.splits)
qed

text \<open>Dropping a piece from the request set of a downloader that does not hold the request.\<close>

lemma tracked_remove:
  assumes "tracked c w" and "piece_request c pp \<notin> pending (w' pd)" and "pd_inv (w' pd) \<and> pending (w' pd) \<subseteq> pending (w pd)"
    and "\<forall>k. k \<noteq> pd \<longrightarrow> w' k = w k"
  shows "tracked (ds_update pd (ds_remove pp) c) w'"
proof -
  let ?c = "ds_update pd (ds_remove pp) c"
  have core: "piece_request ?c = piece_request c" using piece_request_core[of ?c c] by simp
  have "tracked_at ?c k (w' k)" if k: "k \<in> set (cd_pdown c)" for k
  proof (cases "k = pd")
    case False
    then show ?thesis using tracked_at_cong[of ?c c k] assms(1,4) k by (simp add: ds_find_update tracked_def)
  next
    case True
    then have "tracked_at c pd (w pd)" using assms(1) k by (simp add: tracked_def)
    then show ?thesis using assms(2,3) True core unfolding tracked_at_def
      by (fastforce simp: ds_find_update ds_remove_def)
  qed
  then show ?thesis by (simp add: tracked_def)
qed

lemma endgameCancel_tracked:
  assumes "keys_ok c" and "tracked c w" and "r = piece_request c (unat (rq_off r) div MAX_PIECE_LEN)"
    and "endgameCancel ops r (c, w) = (c', w')"
  shows "tracked c' w'"
proof -
  let ?pp = "unat (rq_off r) div MAX_PIECE_LEN"
  let ?g = "\<lambda>pd (c, w). case ds_find c pd of
          Some d \<Rightarrow> if ds_contains d ?pp then (ds_update pd (ds_remove ?pp) c, w(pd := pd_cancel ops r (w pd))) else (c, w)
        | None \<Rightarrow> (c, w)"
  have "tracked (fst (fold ?g pds s)) (snd (fold ?g pds s))"
    if "tracked (fst s) (snd s)" "cd_core (fst s) = cd_core c" "set pds \<subseteq> set (cd_pdown (fst s))" for pds s
    using that
  proof (induction pds arbitrary: s)
    case (Cons pd pds)
    obtain a b where s: "s = (a, b)" by (cases s)
    have at: "tracked_at a pd (b pd)" using Cons.prems(1,3) by (simp add: tracked_def s)
    have r: "piece_request a ?pp = r" using assms(3) piece_request_core[of a c] Cons.prems(2) by (simp add: s)
    have "tracked (ds_update pd (ds_remove ?pp) a) (b(pd := pd_cancel ops r (b pd)))"
      using Cons.prems(1) at cancel_law[of "b pd" r] r by (intro tracked_remove[of a b]) (auto simp: s tracked_at_def)
    then have "tracked (fst (?g pd s)) (snd (?g pd s))" using Cons.prems(1) by (auto simp: s split: option.split)
    moreover have "cd_core (fst (?g pd s)) = cd_core a \<and> cd_pdown (fst (?g pd s)) = cd_pdown a" by (auto simp: s split: option.split)
    ultimately show ?case using Cons.IH[of "?g pd s"] Cons.prems(2,3) by (simp add: s)
  qed simp
  from this[of "(c, w)" "cd_pdown c"] show ?thesis using assms(2,4) by (simp add: endgameCancel_def Let_def)
qed

lemma tracked_fields:
  assumes "cd_chunk c' = cd_chunk c" "cd_pdown c' = cd_pdown c" "cd_dstatus c' = cd_dstatus c" "cd_total c' = cd_total c"
    "cd_last_size c' = cd_last_size c"
  shows "tracked c' w = tracked c w" "piece_request c' = piece_request c"
proof -
  show "piece_request c' = piece_request c" using assms by (simp add: fun_eq_iff piece_request_def)
  then show "tracked c' w = tracked c w" using assms by (simp add: tracked_def tracked_at_def ds_find_def)
qed

lemma after_piece_tracked:
  assumes "keys_ok c" and "tracked c w" and "r = piece_request c (unat (rq_off r) div MAX_PIECE_LEN)" and "after_piece ops load r (c, w) = (c', w')"
  shows "keys_ok c' \<and> tracked c' w' \<and> cd_pdown c' = cd_pdown c \<and> cd_chunk c' = cd_chunk c \<and> cd_total c' = cd_total c \<and> cd_last_size c' = cd_last_size c"
proof (cases "length (cd_pdown c) > 1")
  case True
  obtain c1 w1 where e: "endgameCancel ops r (c, w) = (c1, w1)" by fastforce
  then have c': "c' = updateHash load c1" "w' = w1" using assms(4) True by (auto simp: after_piece_def)
  have l: "keys_ok c1" "cd_core c1 = cd_core c" "cd_pdown c1 = cd_pdown c" using endgameCancel_law[OF assms(1) e] by auto
  show ?thesis using endgameCancel_tracked[OF assms(1-3) e] tracked_fields(1)[of "updateHash load c1" c1] l cd_coreD[OF l(2)]
    by (simp add: c' keys_ok_hash)
next
  case False
  then show ?thesis using assms tracked_fields(1)[of "updateHash load c" c] by (auto simp: after_piece_def keys_ok_hash)
qed

lemma pieceReceived_tracked:
  assumes inv: "cd_inv c" and prep: "\<forall>off len buf. prepare off len = Some buf \<longrightarrow> buffer_ok len buf" and len: "unat (rq_len r) = length d"
    and t: "tracked c w" and r: "r = piece_request c (unat (rq_off r) div MAX_PIECE_LEN)"
    and sender: "pd \<in> set (cd_pdown c) \<longrightarrow> r \<notin> pending (w pd)"
    and res: "pieceReceived ops prepare load pd r d (c, w) = Some (Inr (complete, needed, c', w'))"
  shows "tracked c' w' \<and> (complete \<longrightarrow> (\<forall>k \<in> set (cd_pdown c). no_pending c (w' k)))"
proof -
  let ?pp = "unat (rq_off r) div MAX_PIECE_LEN"
  let ?c = "ds_update pd (ds_remove ?pp) c"
  have sh: "shape_ok c" and k: "keys_ok c" using inv by (auto simp: cd_inv_def)
  have k1: "keys_ok ?c" using keys_ok_remove[OF k] .
  have t1: "tracked ?c w"
  proof (cases "pd \<in> set (cd_pdown c)")
    case True
    then show ?thesis using t sender r by (intro tracked_remove[OF t]) (auto simp: tracked_def tracked_at_def)
  next
    case False
    then show ?thesis using t tracked_at_cong[of ?c c] unfolding tracked_def by (metis cd_core_update(1) ds_find_update ds_update_fields(2))
  qed
  have s1: "shape_ok ?c" using sh by (simp add: shape_ok_def)
  have after: "keys_ok c2 \<and> tracked c2 w2 \<and> cd_pdown c2 = cd_pdown c \<and> cd_chunk c2 = cd_chunk c \<and> cd_total c2 = cd_total c \<and> cd_last_size c2 = cd_last_size c"
    if a: "after_piece ops load r (stored pd ?pp buf ?c, w) = (c2, w2)" for buf c2 w2
  proof -
    let ?s = "stored pd ?pp buf ?c"
    have "keys_ok ?s" using k1 by (simp add: keys_ok_def)
    moreover have "tracked ?s w" "piece_request ?s = piece_request ?c" using t1 tracked_fields[of ?s ?c] by simp_all
    moreover have "piece_request ?c = piece_request c" using piece_request_core[of ?c c] by simp
    ultimately show ?thesis using after_piece_tracked[OF _ _ _ a] r by simp
  qed
  note eq = pieceReceived_eq[OF prep len refl sh, of ops load pd w]
  consider (old) "complete = False" "c' = c" "w' = w" | (again) "complete = False" "sendRequests ops (?c, w) = Some (c', w')"
    | (complete) buf where "releaseAllPDs ops (after_piece ops load r (stored pd ?pp buf ?c, w)) = (c', w')"
    | (more) buf where "complete = False" "sendRequests ops (after_piece ops load r (stored pd ?pp buf ?c, w)) = Some (c', w')"
    using res unfolding eq Let_def by (auto split: if_splits option.splits)
  then show ?thesis
  proof cases
    case old
    then show ?thesis using t by simp
  next
    case again
    then show ?thesis using tracked_sendRequests[OF _ again(2)] k1 t1 s1 by (simp add: tracked_state_def)
  next
    case complete
    obtain c2 w2 where a: "after_piece ops load r (stored pd ?pp buf ?c, w) = (c2, w2)" by fastforce
    then have "releaseAllPDs ops (c2, w2) = (c', w')" using complete by simp
    then show ?thesis using releaseAllPDs_tracked[of c2 w2 c' w'] releaseAllPDs_law[of c2 ops w2 c' w'] after[OF a]
      by (simp add: tracked_def no_pending_def)
  next
    case more
    obtain c2 w2 where a: "after_piece ops load r (stored pd ?pp buf ?c, w) = (c2, w2)" by fastforce
    have "shape_ok c2" using sh after[OF a] by (simp add: shape_ok_def)
    then show ?thesis using more a tracked_sendRequests[of "(c2, w2)" "(c', w')"] after[OF a] by (simp add: tracked_state_def)
  qed
qed

lemma release_then_request:
  assumes "keys_ok c" and "shape_ok c" and "tracked c w" and "pd \<in> set (cd_pdown c)"
    and "sendRequests ops (release_pd ops pd (c, w)) = Some (c', w')"
  shows "tracked c' w' \<and> no_pending c (w' pd) \<and> pd \<notin> set (cd_pdown c')"
proof -
  obtain c1 w1 where e: "release_pd ops pd (c, w) = (c1, w1)" by fastforce
  note l = release_pd_tracked[OF assms(1,3,4) e]
  have "shape_ok c1" using shape_ok_core[of c1 c] l assms(2) by simp
  then have "tracked_state (c', w')" using tracked_sendRequests[OF _ assms(5)] l by (simp add: e tracked_state_def)
  moreover obtain c2 w2 where "sendRequests ops (c1, w1) = Some (c2, w2)" "grown c1 c2" "\<forall>k. k \<notin> set (cd_pdown c1) \<longrightarrow> w2 k = w1 k"
    by (rule sendRequests_law[of c1 ops w1]) (use l in auto)
  ultimately show ?thesis using l assms(5) grownD[of c1 c2] by (simp add: e tracked_state_def)
qed

lemma tracked_timeout: "tracked (ds_update pd ds_timeout c) w = tracked c w"
proof -
  let ?c = "ds_update pd ds_timeout c"
  have "piece_request ?c = piece_request c" using piece_request_core[of ?c c] by simp
  moreover have "(\<exists>d. ds_find ?c k = Some d \<and> i \<in> ds_status d) = (\<exists>d. ds_find c k = Some d \<and> i \<in> ds_status d)" for k i
    by (auto simp: ds_find_update ds_timeout_def)
  ultimately show ?thesis unfolding tracked_def tracked_at_def ds_update_fields by (simp add: Bex_def) blast
qed

lemma notDownloaded_tracked:
  assumes k: "keys_ok c" and sh: "shape_ok c" and t: "tracked c w" and r: "r = piece_request c (unat (rq_off r) div MAX_PIECE_LEN)"
    and sender: "pd \<in> set (cd_pdown c)" "r \<notin> pending (w pd)" and to: "\<forall>d. ds_find c pd = Some d \<longrightarrow> ds_timeouts d < 2 ^ 32 - 1"
    and res: "notDownloaded ops pd r reject (c, w) = Some (c', w')"
  shows "tracked c' w' \<and> no_pending c (w' pd) \<and> pd \<notin> set (cd_pdown c')"
proof -
  let ?c = "ds_update pd (ds_remove (unat (rq_off r) div MAX_PIECE_LEN)) c"
  obtain d where d: "ds_find c pd = Some d" using ds_find_assigned[OF k sender(1)] by auto
  have inv: "pd_inv (w pd)" using t sender(1) by (simp add: tracked_def tracked_at_def)
  have k1: "keys_ok ?c" using keys_ok_remove[OF k] .
  show ?thesis
  proof (cases reject)
    case True
    have "tracked ?c w" using sender(2) r inv by (intro tracked_remove[OF t]) auto
    moreover have "sendRequests ops (release_pd ops pd (?c, w)) = Some (c', w')" using res d True by (simp add: notDownloaded_def Let_def)
    ultimately show ?thesis using release_then_request[OF k1, of w pd c' w'] sh sender(1) by (simp add: shape_ok_def no_pending_def)
  next
    case False
    let ?w = "w(pd := pd_cancel ops r (w pd))" and ?t = "ds_update pd ds_timeout ?c"
    have "tracked ?c ?w" using cancel_law[OF inv, of r] r by (intro tracked_remove[OF t]) auto
    then have "tracked ?t ?w" by (simp add: tracked_timeout)
    moreover have "keys_ok ?t" using keys_ok_shrink[OF k1, of ds_timeout] by (simp add: ds_timeout_def)
    moreover have "sendRequests ops (release_pd ops pd (?t, ?w)) = Some (c', w')"
      using res d False sender(1) to add32_id[of "ds_timeouts d" 1]
      by (auto simp: notDownloaded_def Let_def ds_find_update ds_timeout_def ds_remove_def split: if_splits)
    ultimately show ?thesis using release_then_request[of ?t ?w pd c' w'] sh sender(1) by (simp add: shape_ok_def no_pending_def)
  qed
qed

lemma assign_tracked:
  assumes k: "keys_ok c" and sh: "shape_ok c" and t: "tracked c w" and pd: "pd \<notin> set (cd_pdown c)" "no_pending c (w pd)"
    and res: "assign_pd ops pd (c, w) = Some (ok, c', w')"
  shows "ok \<and> tracked c' w' \<and> keys_ok c' \<and> cd_pdown c' = cd_pdown c @ [pd]"
proof -
  let ?c = "c\<lparr>cd_pdown := cd_pdown c @ [pd], cd_dstatus := (pd, DownloadStatus_new) # filter (\<lambda>(k, d). k \<noteq> pd) (cd_dstatus c)\<rparr>"
  let ?w = "w(pd := pd_grab ops (w pd))"
  have k1: "keys_ok ?c" using assign_keys_ok[OF k pd(1)] .
  have core: "cd_core ?c = cd_core c" by simp
  have "tracked_at ?c j (?w j)" if "j \<in> insert pd (set (cd_pdown c))" for j
  proof (cases "j = pd")
    case True
    then show ?thesis using pd(2) by (simp add: tracked_at_def no_pending_def grab_law)
  next
    case False
    then show ?thesis using tracked_at_cong[OF core, of j] t that by (simp add: ds_find_def map_of_erase tracked_def)
  qed
  then have "tracked_state (?c, ?w)" using k1 sh by (simp add: tracked_state_def tracked_def shape_ok_def)
  moreover have s: "sendRequests ops (?c, ?w) = Some (c', w')" and ok: ok using res pd(1) by (auto simp: assign_pd_def split: Option.bind_splits)
  ultimately have ts: "tracked_state (c', w')" using tracked_sendRequests by blast
  obtain c2 w2 where "sendRequests ops (?c, ?w) = Some (c2, w2)" "grown ?c c2" by (rule sendRequests_law[OF k1])
  then show ?thesis using ts ok s grownD[of ?c c2] by (simp add: tracked_state_def)
qed

end

lemma assign_pd_total:
  assumes "keys_ok c" and "pd \<notin> set (cd_pdown c)"
  shows "\<exists>ok c' w'. assign_pd ops pd (c, w) = Some (ok, c', w')"
  by (rule sendRequests_law[OF assign_keys_ok[OF assms], of ops "w(pd := pd_grab ops (w pd))"]) (use assms(2) in \<open>auto simp: assign_pd_def\<close>)

lemma release_pd_keys:
  assumes "keys_ok c" and "release_pd ops pd (c, w) = (c', w')"
  shows "keys_ok c'"
proof (cases "pd \<in> set (cd_pdown c)")
  case True
  obtain c1 w1 where s: "sendCancels ops pd (c, w(pd := pd_release ops (w pd))) = (c1, w1)" by fastforce
  have "c' = c1\<lparr>cd_dstatus := filter (\<lambda>(k, d). k \<noteq> pd) (cd_dstatus c1), cd_pdown := removeAll pd (cd_pdown c1)\<rparr>"
    using assms(2) s True by (auto simp: release_pd_def)
  then show ?thesis using sendCancels_law[OF assms(1) s] keys_ok_erase[of c1 pd] by simp
qed (use assms in \<open>simp add: release_pd_def\<close>)

text \<open>Giving up a request never gets stuck either.\<close>

lemma notDownloaded_total:
  assumes "cd_inv c"
  shows "\<exists>c' w'. notDownloaded ops pd r reject (c, w) = Some (c', w')"
proof -
  have go: "\<exists>c' w'. sendRequests ops s = Some (c', w')" if "keys_ok (fst s)" for s
    using that by (cases s) (metis fst_conv sendRequests_law)
  have k: "keys_ok c" "\<And>i. keys_ok (ds_update pd (ds_remove i) c)" using assms keys_ok_remove by (auto simp: cd_inv_def)
  then have "keys_ok (ds_update pd ds_timeout (ds_update pd (ds_remove i) c))" for i
    using keys_ok_shrink[of _ ds_timeout] by (simp add: ds_timeout_def)
  moreover have "keys_ok (fst (release_pd ops pd (a, w)))" if "keys_ok a" for a w
    using release_pd_keys[OF that, of ops pd w] by (cases "release_pd ops pd (a, w)") auto
  ultimately show ?thesis unfolding notDownloaded_def Let_def prod.case
    using k by (intro go) (auto split: option.split)
qed

section \<open>The peers provide the interface\<close>

definition peer_setNearlyDone :: "bool \<Rightarrow> Peer \<Rightarrow> Peer" where
  "peer_setNearlyDone b p = p\<lparr>d_nearly_done := b\<rparr>"

definition peer_pd_ops :: "Env \<Rightarrow> Peer PD_ops" where
  \<comment> \<open>the request and cancel messages are built in buffers of their size, so the calls have a result\<close>
  "peer_pd_ops e =
     \<lparr>pd_download = (\<lambda>r p. case download e p r of Some p' \<Rightarrow> p' | None \<Rightarrow> p),
      pd_cancel = (\<lambda>r p. case cancel p r of Some p' \<Rightarrow> p' | None \<Rightarrow> p),
      pd_grab = (\<lambda>p. snd (grab p)), pd_release = release, pd_setNearlyDone = peer_setNearlyDone,
      pd_isChoked = downloader_isChoked, pd_canAddRequest = canAddRequest, pd_rate = getDownloadRate_chunk (e_down_rate e)\<rparr>"

definition peer_requests :: "Peer \<Rightarrow> Request list" where
  "peer_requests p = (if d_alive p then map tr_req (d_reqs p) @ d_wait_queue p else [])"

lemma send_request_packet: "\<exists>s. send_packet p (Packet_request r ty) = Some (p\<lparr>p_sock := s\<rparr>)"
  by (auto simp: send_packet_def Packet_request_frame)

lemma request_loop_requests:
  assumes "d_alive p" and "d_wait_queue p = rs"
  shows "\<exists>p'. request_loop now mx rs p = Some p' \<and> peer_requests p' = peer_requests p"
  using assms
proof (induction rs arbitrary: p)
  case (Cons r rs)
  let ?p = "p\<lparr>d_wait_queue := rs, d_reqs := d_reqs p @ [TimeStampedRequest_new now r]\<rparr>"
  obtain s where "sendRequest ?p r = Some (?p\<lparr>p_sock := s\<rparr>)" using send_request_packet[of ?p r REQUEST] by (auto simp: sendRequest_def)
  then show ?case using Cons.IH[of "?p\<lparr>p_sock := s\<rparr>"] Cons.prems by (auto simp: peer_requests_def TimeStampedRequest_new_def)
qed simp

lemma peer_download_requests:
  "peer_requests (pd_download (peer_pd_ops e) r p) = (if d_alive p then peer_requests p @ [r] else [])"
proof (cases "d_alive p")
  case True
  let ?p = "p\<lparr>d_wait_queue := d_wait_queue p @ [r]\<rparr>"
  obtain p' where "request_loop (e_now e) (max_reqs (e_down_rate e) ?p) (d_wait_queue ?p) ?p = Some p'" "peer_requests p' = peer_requests ?p"
    using request_loop_requests[of ?p "d_wait_queue ?p" "e_now e" "max_reqs (e_down_rate e) ?p"] True by auto
  then show ?thesis using True by (simp add: peer_pd_ops_def download_def downloader_update_def Let_def peer_requests_def split: if_splits)
qed (simp add: peer_pd_ops_def download_def peer_requests_def)

lemma filter_same_set: "filter P xs \<noteq> xs \<longleftrightarrow> (\<exists>x \<in> set xs. \<not> P x)"
  by (metis filter_True filter_id_conv)

lemma peer_cancel_requests:
  assumes "distinct (peer_requests p)"
  shows "peer_requests (pd_cancel (peer_pd_ops e) r p) = filter (\<lambda>x. x \<noteq> r) (peer_requests p)"
proof (cases "d_alive p")
  case True
  obtain s where s: "sendCancel (p\<lparr>d_reqs := without_ts r (d_reqs p)\<rparr>) r = Some (p\<lparr>d_reqs := without_ts r (d_reqs p), p_sock := s\<rparr>)"
    using send_request_packet[of "p\<lparr>d_reqs := without_ts r (d_reqs p)\<rparr>" r CANCEL] by (auto simp: sendCancel_def)
  have m: "map tr_req (without_ts r xs) = filter (\<lambda>x. x \<noteq> r) (map tr_req xs)" for xs by (induction xs) (auto simp: without_ts_def)
  have id: "filter (\<lambda>x. x \<noteq> r) xs = xs" if "r \<notin> set xs" for xs :: "Request list" using that by (auto simp: filter_id_conv)
  show ?thesis
  proof (cases "r \<in> set (d_wait_queue p)")
    case w: True
    then have "r \<notin> set (map tr_req (d_reqs p))" using assms True by (auto simp: peer_requests_def)
    moreover have "without r (d_wait_queue p) \<noteq> d_wait_queue p" unfolding without_def filter_same_set using w by auto
    ultimately show ?thesis using True id by (simp add: peer_pd_ops_def cancel_def peer_requests_def without_def)
  next
    case False
    then have "without r (d_wait_queue p) = d_wait_queue p" using id by (simp add: without_def)
    then show ?thesis using True False s m id by (simp add: peer_pd_ops_def cancel_def peer_requests_def)
  qed
qed (simp add: peer_pd_ops_def cancel_def peer_requests_def)

interpretation peers: piece_downloader "peer_pd_ops e" "\<lambda>p. distinct (peer_requests p)" "\<lambda>p. set (peer_requests p)"
proof unfold_locales
  fix p r
  show "distinct (peer_requests p) \<Longrightarrow> r \<notin> set (peer_requests p) \<Longrightarrow>
      distinct (peer_requests (pd_download (peer_pd_ops e) r p)) \<and> set (peer_requests (pd_download (peer_pd_ops e) r p)) \<subseteq> insert r (set (peer_requests p))"
    by (auto simp: peer_download_requests)
  show "distinct (peer_requests p) \<Longrightarrow>
      distinct (peer_requests (pd_cancel (peer_pd_ops e) r p)) \<and> set (peer_requests (pd_cancel (peer_pd_ops e) r p)) \<subseteq> set (peer_requests p) - {r}"
    by (auto simp: peer_cancel_requests)
qed (simp_all add: peer_pd_ops_def peer_requests_def grab_def release_def peer_setNearlyDone_def)

definition peers_tracked :: "ChunkDownload \<Rightarrow> Peer world \<Rightarrow> bool" where
  "peers_tracked c w \<longleftrightarrow> (\<forall>pd \<in> set (cd_pdown c). distinct (peer_requests (w pd)) \<and>
     (\<forall>r \<in> set (peer_requests (w pd)). rq_index r = word_of_nat (ch_index (cd_chunk c)) \<longrightarrow>
       (\<exists>d. ds_find c pd = Some d \<and> (\<exists>i \<in> ds_status d. r = piece_request c i))))"

definition no_requests :: "ChunkDownload \<Rightarrow> Peer \<Rightarrow> bool" where
  "no_requests c p \<longleftrightarrow> distinct (peer_requests p) \<and> (\<forall>r \<in> set (peer_requests p). rq_index r \<noteq> word_of_nat (ch_index (cd_chunk c)))"

lemma peers_tracked_eq: "peers_tracked c w \<longleftrightarrow> peers.tracked c w" "no_requests c p \<longleftrightarrow> peers.no_pending c p"
  by (simp_all add: peers_tracked_def no_requests_def peers.tracked_def peers.tracked_at_def peers.no_pending_def)

text \<open>A chunk of three bytes that one idle peer has been assigned to.\<close>

definition sample_cd :: ChunkDownload where
  "sample_cd = (ChunkDownload_new (Chunk_new 0 3))\<lparr>cd_pdown := [1], cd_dstatus := [(1, DownloadStatus_new)]\<rparr>"

definition sample_prepare :: "nat \<Rightarrow> nat \<Rightarrow> PieceData option" where
  "sample_prepare off len = Some \<lparr>pd_len = len, pd_ptr = Some (replicate len 0), pd_read_only = False\<rparr>"

lemma sample_fields:
  "cd_total sample_cd = 1" "cd_last_size sample_cd = 3" "cd_chunk sample_cd = Chunk_new 0 3" "cd_pdown sample_cd = [1]"
  "cd_pieces sample_cd = BitSet_new 1" "ds_find sample_cd (Suc 0) = Some DownloadStatus_new"
  by (simp_all add: sample_cd_def ChunkDownload_new_def Chunk_new_def MAX_PIECE_LEN_def Let_def ds_find_def BitSet_clear_new)

lemma sample_ok:
  "cd_inv sample_cd" "peers_tracked sample_cd (\<lambda>_. PeerInterface_init 0 8)" "no_requests sample_cd (PeerInterface_init 0 8)"
  "\<forall>off len buf. sample_prepare off len = Some buf \<longrightarrow> buffer_ok len buf"
proof -
  have "cd_inv (ChunkDownload_new (Chunk_new 0 3))" by (intro ChunkDownload_new_inv) (simp_all add: Chunk_new_def)
  moreover have "keys_ok sample_cd" by (simp add: keys_ok_def sample_cd_def DownloadStatus_new_def)
  ultimately show "cd_inv sample_cd" using cd_inv_core[of sample_cd "ChunkDownload_new (Chunk_new 0 3)"] by (simp add: sample_cd_def)
  show "\<forall>off len buf. sample_prepare off len = Some buf \<longrightarrow> buffer_ok len buf" by (simp add: sample_prepare_def buffer_ok_def)
qed (simp_all add: peers_tracked_def no_requests_def peer_requests_def PeerInterface_init_def)

text \<open>
  A chunk knows every request for its pieces that its peers still hold, and it loses none of this
  knowledge when a piece arrives: requests that became pointless are cancelled at every peer, and
  when the chunk is complete no peer holds a request for it any more.
\<close>

theorem ChunkDownload_cancels_all:
  assumes "cd_inv c" and "\<forall>off len buf. prepare off len = Some buf \<longrightarrow> buffer_ok len buf" and "unat (rq_len r) = length d"
    and "peers_tracked c w" and "r = piece_request c (unat (rq_off r) div MAX_PIECE_LEN)"
    and "pd \<in> set (cd_pdown c) \<longrightarrow> r \<notin> set (peer_requests (w pd))"
    and "pieceReceived (peer_pd_ops e) prepare load pd r d (c, w) = Some (Inr (complete, needed, c', w'))"
  shows "peers_tracked c' w' \<and> (complete \<longrightarrow> (\<forall>k \<in> set (cd_pdown c). no_requests c (w' k)))"
  using peers.pieceReceived_tracked[OF assms(1-3) _ assms(5,6,7)] assms(4) unfolding peers_tracked_eq by blast

theorem ChunkDownload_cancels_all_witness:
  "\<exists>complete needed c' w'. pieceReceived (peer_pd_ops quiet_env) sample_prepare (\<lambda>_ _. None) 1 (piece_request sample_cd 0) [1, 2, 3]
       (sample_cd, \<lambda>_. PeerInterface_init 0 8) = Some (Inr (complete, needed, c', w')) \<and> peers_tracked c' w'"
proof -
  let ?r = "piece_request sample_cd 0" and ?w = "\<lambda>_. PeerInterface_init 0 8"
  have r: "unat (rq_len ?r) = length [1, 2, 3 :: u8]" "?r = piece_request sample_cd (unat (rq_off ?r) div MAX_PIECE_LEN)"
    by (simp_all add: piece_request_def Request_new_def sample_fields)
  obtain complete needed c' w' where p: "pieceReceived (peer_pd_ops quiet_env) sample_prepare (\<lambda>_ _. None) 1 ?r [1, 2, 3] (sample_cd, ?w)
      = Some (Inr (complete, needed, c', w'))"
    using pieceReceived_law[OF sample_ok(1,4) r(1) refl refl, of "peer_pd_ops quiet_env" "\<lambda>_ _. None" 1 ?w] by blast
  moreover have "1 \<in> set (cd_pdown sample_cd) \<longrightarrow> ?r \<notin> set (peer_requests (?w 1))" by (simp add: peer_requests_def PeerInterface_init_def)
  ultimately show ?thesis using ChunkDownload_cancels_all[OF sample_ok(1,4) r(1) sample_ok(2) r(2)] by blast
qed

text \<open>
  A peer that rejects a request or lets it time out is released at once: it keeps no request of the
  chunk, and the other peers' requests stay known to the chunk.
\<close>

theorem ChunkDownload_failed_request:
  assumes "cd_inv c" and "peers_tracked c w" and "r = piece_request c (unat (rq_off r) div MAX_PIECE_LEN)"
    and "pd \<in> set (cd_pdown c)" and "r \<notin> set (peer_requests (w pd))" and "\<forall>d. ds_find c pd = Some d \<longrightarrow> ds_timeouts d < 2 ^ 32 - 1"
    and "ch_index (cd_chunk c) < 2 ^ 32"
    and "(if reject then onRejected_cd (peer_pd_ops e) pd r (c, w) else onTimeout_cd (peer_pd_ops e) pd r (c, w)) = Some (c', w')"
  shows "peers_tracked c' w' \<and> no_requests c (w' pd) \<and> pd \<notin> set (cd_pdown c')"
proof -
  have "rq_index r = word_of_nat (ch_index (cd_chunk c))" by (subst assms(3)) (simp add: piece_request_def Request_new_def)
  then have "ch_index (cd_chunk c) = unat (rq_index r)" using assms(7) by (simp add: unsigned_of_nat take_bit_nat_eq_self)
  then have "notDownloaded (peer_pd_ops e) pd r reject (c, w) = Some (c', w')"
    using assms(8) by (cases reject) (auto simp: onRejected_cd_def onTimeout_cd_def)
  then show ?thesis using peers.notDownloaded_tracked[of c w r pd e reject c' w', OF _ _ _ assms(3-6)] assms(1,2) unfolding peers_tracked_eq cd_inv_def by blast
qed

theorem ChunkDownload_failed_request_witness:
  "\<exists>c' w'. onRejected_cd (peer_pd_ops quiet_env) 1 (piece_request sample_cd 0) (sample_cd, \<lambda>_. PeerInterface_init 0 8) = Some (c', w')
     \<and> no_requests sample_cd (w' 1) \<and> 1 \<notin> set (cd_pdown c')"
proof -
  let ?r = "piece_request sample_cd 0" and ?w = "\<lambda>_. PeerInterface_init 0 8"
  have r: "?r = piece_request sample_cd (unat (rq_off ?r) div MAX_PIECE_LEN)" "rq_index ?r = 0" "rq_off ?r = 0"
    by (simp_all add: piece_request_def Request_new_def sample_fields Chunk_new_def)
  have "\<exists>c' w'. onRejected_cd (peer_pd_ops quiet_env) 1 ?r (sample_cd, ?w) = Some (c', w')"
    using notDownloaded_total[OF sample_ok(1), of "peer_pd_ops quiet_env" 1 ?r True ?w] by (simp add: onRejected_cd_def)
  then obtain c' w' where o: "onRejected_cd (peer_pd_ops quiet_env) 1 ?r (sample_cd, ?w) = Some (c', w')" by blast
  have "peers_tracked c' w' \<and> no_requests sample_cd (w' 1) \<and> 1 \<notin> set (cd_pdown c')"
    by (rule ChunkDownload_failed_request[OF sample_ok(1,2) r(1), where reject = True and e = quiet_env])
      (use o in \<open>simp_all add: sample_fields peer_requests_def PeerInterface_init_def DownloadStatus_new_def Chunk_new_def\<close>)
  then show ?thesis using o by blast
qed

text \<open>
  Whether the peer is already assigned or not, it is assigned at most once; a new peer that holds
  no request of the chunk joins the list and its requests are known.
\<close>

theorem ChunkDownload_assign:
  assumes "cd_inv c" and "peers_tracked c w" and "no_requests c (w pd)"
  shows "\<exists>c' w'. assign_pd (peer_pd_ops e) pd (c, w) = Some (pd \<notin> set (cd_pdown c), c', w') \<and> peers_tracked c' w' \<and> keys_ok c'
    \<and> set (cd_pdown c') = insert pd (set (cd_pdown c))"
proof -
  have k: "keys_ok c" and sh: "shape_ok c" using assms(1) by (simp_all add: cd_inv_def)
  show ?thesis
  proof (cases "pd \<in> set (cd_pdown c)")
    case True
    then show ?thesis using assms(2) k by (auto simp: assign_pd_def insert_absorb)
  next
    case False
    have np: "peers.no_pending c (w pd)" using assms(3) by (simp add: peers_tracked_eq)
    obtain ok c' w' where a: "assign_pd (peer_pd_ops e) pd (c, w) = Some (ok, c', w')"
      using assign_pd_total[OF k False] by blast
    then show ?thesis using peers.assign_tracked[OF k sh _ False np a] assms(2) False unfolding peers_tracked_eq by auto
  qed
qed

theorem ChunkDownload_assign_witness:
  "\<exists>c' w'. assign_pd (peer_pd_ops quiet_env) 2 (sample_cd, \<lambda>_. PeerInterface_init 0 8) = Some (True, c', w') \<and> set (cd_pdown c') = {1, 2}"
  using ChunkDownload_assign[OF sample_ok(1,2,3), of quiet_env 2] by (auto simp: sample_fields)

end
