(* ===== verification/Chunk_Counter.thy ===== *)
theory Chunk_Counter
  imports Bit_Set
begin

text \<open>
  The class \<open>ChunkCounter\<close> of \<open>src/peer/chunkcounter.cpp\<close>: how many peers have each chunk. The counters
  are 32-bit and indexed by chunk.
\<close>

type_synonym ChunkCounter = "nat list"

definition ChunkCounter_new :: "nat \<Rightarrow> ChunkCounter" where
  "ChunkCounter_new n = replicate n 0"

definition cc_reset :: "ChunkCounter \<Rightarrow> ChunkCounter" where
  "cc_reset cc = map (\<lambda>_. 0) cc"

definition cc_get :: "ChunkCounter \<Rightarrow> nat \<Rightarrow> nat" where
  "cc_get cc i = (if i < length cc then cc ! i else 0)"

definition cc_inc :: "ChunkCounter \<Rightarrow> nat \<Rightarrow> ChunkCounter" where
  "cc_inc cc i = (if i < length cc then cc[i := add32 (cc ! i) 1] else cc)"

definition cc_dec :: "ChunkCounter \<Rightarrow> nat \<Rightarrow> ChunkCounter" where
  "cc_dec cc i = (if i < length cc \<and> cc ! i > 0 then cc[i := cc ! i - 1] else cc)"

definition cc_incBitSet :: "ChunkCounter \<Rightarrow> BitSet \<Rightarrow> ChunkCounter" where
  "cc_incBitSet cc bs = fold (\<lambda>i cc. if BitSet_get bs i then cc[i := add32 (cc ! i) 1] else cc) [0..<length cc] cc"

definition cc_decBitSet :: "ChunkCounter \<Rightarrow> BitSet \<Rightarrow> ChunkCounter" where
  "cc_decBitSet cc bs = fold (\<lambda>i cc. if BitSet_get bs i then cc_dec cc i else cc) [0..<length cc] cc"

section \<open>What the counters count\<close>

text \<open>A loop that rewrites each index once, from what is there.\<close>

lemma index_loop:
  "fold (\<lambda>i cc. if P i then cc[i := f (cc ! i)] else cc) [0..<n] cc
   = map (\<lambda>i. if i < n \<and> P i then f (cc ! i) else cc ! i) [0..<length cc]"
proof (induction n)
  case 0
  show ?case by (simp add: map_nth)
next
  case (Suc n)
  let ?m = "\<lambda>n. map (\<lambda>i. if i < n \<and> P i then f (cc ! i) else cc ! i) [0..<length cc]"
  have "(if P n then (?m n)[n := f (?m n ! n)] else ?m n) = ?m (Suc n)"
    by (cases "n < length cc"; cases "P n"; rule nth_equalityI) (auto simp: nth_list_update less_Suc_eq)
  then show ?case by (simp only: Suc upt_Suc_append zero_le fold_append fold.simps o_apply id_apply)
qed

lemma cc_dec_if: "cc_dec cc i = (if i < length cc then cc[i := cc ! i - 1] else cc)"
  by (cases "i < length cc") (auto simp: cc_dec_def intro: list_update_same_conv[THEN iffD2, symmetric])

lemma cc_incBitSet_eq: "cc_incBitSet cc bs = map (\<lambda>i. if BitSet_get bs i then add32 (cc ! i) 1 else cc ! i) [0..<length cc]"
  using index_loop[of "BitSet_get bs" "\<lambda>x. add32 x 1" "length cc" cc] by (simp add: cc_incBitSet_def cong: map_cong)

lemma cc_decBitSet_eq: "cc_decBitSet cc bs = map (\<lambda>i. if BitSet_get bs i then cc ! i - 1 else cc ! i) [0..<length cc]"
proof -
  have step: "fold (\<lambda>i cc. if BitSet_get bs i then cc_dec cc i else cc) is c
      = fold (\<lambda>i cc. if BitSet_get bs i then cc[i := cc ! i - 1] else cc) is c" if "\<forall>i \<in> set is. i < length c" for "is" c
    using that
  proof (induction "is" arbitrary: c)
    case (Cons i "is")
    then show ?case by (simp add: cc_dec_if)
  qed simp
  show ?thesis
    using index_loop[of "BitSet_get bs" "\<lambda>x. x - 1" "length cc" cc] step[of "[0..<length cc]" cc] by (simp add: cc_decBitSet_def cong: map_cong)
qed

text \<open>The counter of a chunk is the number of peers, out of those that were added, that have it.\<close>

definition counts :: "nat \<Rightarrow> BitSet list \<Rightarrow> ChunkCounter \<Rightarrow> bool" where
  "counts n peers cc \<longleftrightarrow> length cc = n \<and> (\<forall>i < n. cc ! i = length (filter (\<lambda>bs. BitSet_get bs i) peers))"

lemma counts_new: "counts n [] (ChunkCounter_new n)"
  by (simp add: counts_def ChunkCounter_new_def)

lemma counts_add:
  assumes "counts n peers cc" and "length peers < 2 ^ 32 - 1"
  shows "counts n (bs # peers) (cc_incBitSet cc bs)"
proof -
  have "cc ! i + 1 < 2 ^ 32" if "i < n" for i
    using assms that le_less_trans[OF length_filter_le[of "\<lambda>bs. BitSet_get bs i" peers] assms(2)] by (simp add: counts_def)
  then show ?thesis using assms(1) by (auto simp: counts_def cc_incBitSet_eq add32_id)
qed

lemma length_filter_remove1:
  "x \<in> set xs \<Longrightarrow> length (filter P (remove1 x xs)) = length (filter P xs) - (if P x then 1 else 0)"
  by (simp add: filter_remove1 length_remove1)

lemma counts_remove: "counts n peers cc \<Longrightarrow> bs \<in> set peers \<Longrightarrow> counts n (remove1 bs peers) (cc_decBitSet cc bs)"
  by (auto simp: counts_def cc_decBitSet_eq length_filter_remove1)

end
