(* ===== verification/Chunk_Selector.thy ===== *)
theory Chunk_Selector
  imports Chunk_Counter Chunk_Download
begin

text \<open>
  The class \<open>ChunkSelector\<close> of \<open>src/download/chunkselector.cpp\<close>: which chunk a downloader is given next.
  The list of candidate chunks and the time of its last sorting are its state; what it reads of the
  chunk manager, of the downloader (\<open>src/download/downloader.cpp\<close>) and of the piece downloader that
  asks is the record \<open>SelEnv\<close>. The random shuffle of the initial list is a parameter.
\<close>

record ChunkSelector =
  cs_chunks :: "nat list"
  cs_sorted_at :: nat

record SelEnv =
  se_num_chunks :: nat
  se_chunk :: "nat \<Rightarrow> Chunk"
  se_bitset :: BitSet
  se_chunks_left :: nat
  se_counter :: ChunkCounter
  se_now :: nat
  se_downloads :: "(nat \<times> ChunkDownload) list"
  se_speed :: "nat \<Rightarrow> nat"
  se_hasChunk :: "nat \<Rightarrow> bool"
  se_isChoked :: bool
  se_webseed_endgame :: bool
  se_webseed_ranges :: "(bool \<times> nat \<times> nat) list"

section \<open>What the downloader answers\<close>

definition getChunkDownload :: "SelEnv \<Rightarrow> nat \<Rightarrow> ChunkDownload option" where
  "getChunkDownload e i = map_of (se_downloads e) i"

definition isChunkDownloading :: "SelEnv \<Rightarrow> nat \<Rightarrow> bool" where
  "isChunkDownloading e i \<longleftrightarrow> getChunkDownload e i \<noteq> None"

definition getNumDownloaders :: "ChunkDownload \<Rightarrow> nat" where
  "getNumDownloaders cd = length (cd_pdown cd)"

definition numDownloadersForChunk :: "SelEnv \<Rightarrow> nat \<Rightarrow> nat" where
  "numDownloadersForChunk e i = (case getChunkDownload e i of None \<Rightarrow> 0 | Some cd \<Rightarrow> getNumDownloaders cd)"

definition endgameMode :: "SelEnv \<Rightarrow> bool" where
  "endgameMode e \<longleftrightarrow> length (se_downloads e) \<ge> se_chunks_left e"

definition canDownloadFromWebSeed :: "SelEnv \<Rightarrow> nat \<Rightarrow> bool" where
  \<comment> \<open>a web seed is busy or not and has a current range\<close>
  "canDownloadFromWebSeed e i \<longleftrightarrow>
     (if se_webseed_endgame e then True
      else if list_ex (\<lambda>(busy, a, b). busy \<and> a \<le> i \<and> i \<le> b) (se_webseed_ranges e) then False
      else \<not> isChunkDownloading e i)"

section \<open>Sorting\<close>

definition normalCmp :: "SelEnv \<Rightarrow> bool \<Rightarrow> nat \<Rightarrow> nat \<Rightarrow> bool" where
  "normalCmp e warmup a b \<longleftrightarrow>
     (if \<not> warmup then cc_get (se_counter e) a < cc_get (se_counter e) b else cc_get (se_counter e) a > cc_get (se_counter e) b)"

definition RareCmp :: "SelEnv \<Rightarrow> bool \<Rightarrow> nat \<Rightarrow> nat \<Rightarrow> bool" where
  "RareCmp e warmup a b \<longleftrightarrow>
     (if a \<ge> se_num_chunks e \<or> b \<ge> se_num_chunks e then False
      else
        let pa = ch_priority (se_chunk e a); pb = ch_priority (se_chunk e b)
        in if pa = pb then normalCmp e warmup a b else pa > pb)"

text \<open>\<open>std::list::sort\<close> is a stable sort; an insertion sort from the right is one.\<close>

fun stable_insert :: "('a \<Rightarrow> 'a \<Rightarrow> bool) \<Rightarrow> 'a \<Rightarrow> 'a list \<Rightarrow> 'a list" where
  "stable_insert lt x [] = [x]"
| "stable_insert lt x (y # ys) = (if lt y x then y # stable_insert lt x ys else x # y # ys)"

definition stable_sort :: "('a \<Rightarrow> 'a \<Rightarrow> bool) \<Rightarrow> 'a list \<Rightarrow> 'a list" where
  "stable_sort lt xs = foldr (stable_insert lt) xs []"

section \<open>Operations\<close>

definition ChunkSelector_init :: "(nat list \<Rightarrow> nat list) \<Rightarrow> SelEnv \<Rightarrow> ChunkSelector" where
  "ChunkSelector_init shuffle e =
     \<lparr>cs_chunks = shuffle (filter (\<lambda>i. \<not> BitSet_get (se_bitset e) i) [0..<se_num_chunks e]), cs_sorted_at = se_now e\<rparr>"

fun least_loop :: "SelEnv \<Rightarrow> nat list \<Rightarrow> nat \<Rightarrow> nat \<Rightarrow> nat" where
  "least_loop e [] sel cnt = sel"
| "least_loop e (i # is) sel cnt =
     (let cnt_i = numDownloadersForChunk e i in
      if cnt_i < cnt then least_loop e is i cnt_i else least_loop e is sel cnt)"

definition leastPeers :: "SelEnv \<Rightarrow> nat list \<Rightarrow> nat \<Rightarrow> nat \<Rightarrow> nat" where
  "leastPeers e lp alternative max_peers =
     (let sel = least_loop e lp (hd lp) (numDownloadersForChunk e (hd lp)) in
      if \<not> endgameMode e \<and> numDownloadersForChunk e sel \<ge> max_peers then
        (case getChunkDownload e sel of
           None \<Rightarrow> alternative
         | Some cd \<Rightarrow> if se_speed e sel < 100 then sel else alternative)
      else sel)"

fun existing_loop :: "SelEnv \<Rightarrow> (nat \<times> ChunkDownload) list \<Rightarrow> ChunkDownload option \<Rightarrow> nat \<Rightarrow> ChunkDownload option" where
  "existing_loop e [] sel sel_left = sel"
| "existing_loop e ((k, cd) # cds) sel sel_left =
     (if se_isChoked e \<or> \<not> se_hasChunk e (ch_index (cd_chunk cd)) then existing_loop e cds sel sel_left
      else
        let left = sub32 (cd_total cd) (cd_downloaded cd) in
        if getNumDownloaders cd = 0 \<and> (sel = None \<or> left < sel_left) then existing_loop e cds (Some cd) left
        else existing_loop e cds sel sel_left)"

definition selectExisting :: "SelEnv \<Rightarrow> nat option" where
  "selectExisting e = map_option (\<lambda>cd. ch_index (cd_chunk cd)) (existing_loop e (se_downloads e) None (2 ^ 32 - 1))"

record Scan =
  sc_sel :: nat
  sc_preview :: "nat list"
  sc_first :: "nat list"
  sc_normal :: "nat list"

definition unwanted :: "SelEnv \<Rightarrow> nat \<Rightarrow> bool" where
  "unwanted e i \<longleftrightarrow> isExcludedForDownloading (se_chunk e i) \<or> isExcluded (se_chunk e i) \<or> BitSet_get (se_bitset e) i"

definition push_chunk :: "SelEnv \<Rightarrow> nat \<Rightarrow> Scan \<Rightarrow> Scan" where
  "push_chunk e i r =
     (case ch_priority (se_chunk e i) of
        PREVIEW_PRIORITY \<Rightarrow> r\<lparr>sc_preview := sc_preview r @ [i]\<rparr>
      | FIRST_PRIORITY \<Rightarrow> r\<lparr>sc_first := sc_first r @ [i]\<rparr>
      | NORMAL_PRIORITY \<Rightarrow> r\<lparr>sc_normal := sc_normal r @ [i]\<rparr>
      | _ \<Rightarrow> r)"

fun scan_chunks :: "SelEnv \<Rightarrow> nat list \<Rightarrow> Scan \<Rightarrow> nat list \<times> Scan" where
  \<comment> \<open>the list that is left and what was found in it\<close>
  "scan_chunks e [] r = ([], r)"
| "scan_chunks e (i # is) r =
     (if unwanted e i then scan_chunks e is r
      else if se_hasChunk e i then
        (if \<not> isChunkDownloading e i then (i # is, r\<lparr>sc_sel := i\<rparr>)
         else let (rest, r') = scan_chunks e is (push_chunk e i r) in (i # rest, r'))
      else let (rest, r') = scan_chunks e is r in (i # rest, r'))"

definition choose_chunk :: "SelEnv \<Rightarrow> Scan \<Rightarrow> nat" where
  "choose_chunk e r =
     (let sel = sc_sel r; p = ch_priority (se_chunk e sel) in
      if p \<in> {FIRST_PRIORITY, NORMAL_PRIORITY, LAST_PRIORITY} \<and> sc_preview r \<noteq> [] then leastPeers e (sc_preview r) sel 3
      else if p \<in> {NORMAL_PRIORITY, LAST_PRIORITY} \<and> sc_first r \<noteq> [] then leastPeers e (sc_first r) sel 2
      else if p = LAST_PRIORITY \<and> sc_normal r \<noteq> [] then leastPeers e (sc_normal r) sel 2
      else sel)"

definition select_chunk :: "SelEnv \<Rightarrow> ChunkSelector \<Rightarrow> nat option \<times> ChunkSelector" where
  "select_chunk e s =
     (case selectExisting e of
        Some i \<Rightarrow> (Some i, s)
      | None \<Rightarrow>
          let warmup = (sub32 (se_num_chunks e) (se_chunks_left e) \<le> 4);
              s = (if sub64 (se_now e) (cs_sorted_at s) > 2000
                   then s\<lparr>cs_chunks := stable_sort (RareCmp e warmup) (cs_chunks s), cs_sorted_at := se_now e\<rparr> else s);
              (rest, r) = scan_chunks e (cs_chunks s) \<lparr>sc_sel = se_num_chunks e + 1, sc_preview = [], sc_first = [], sc_normal = []\<rparr>;
              s = s\<lparr>cs_chunks := rest\<rparr>
          in if sc_sel r \<ge> se_num_chunks e then (None, s) else (Some (choose_chunk e r), s))"

definition cs_dataChecked :: "BitSet \<Rightarrow> nat \<Rightarrow> nat \<Rightarrow> ChunkSelector \<Rightarrow> ChunkSelector" where
  "cs_dataChecked ok from to s =
     s\<lparr>cs_chunks := fold (\<lambda>i cs.
         if i \<in> set cs \<and> BitSet_get ok i then removeAll i cs
         else if i \<notin> set cs \<and> \<not> BitSet_get ok i then cs @ [i] else cs)
       [from..<min (bs_num_bits ok) (Suc to)] (cs_chunks s)\<rparr>"

definition cs_reincluded :: "SelEnv \<Rightarrow> nat \<Rightarrow> nat \<Rightarrow> ChunkSelector \<Rightarrow> ChunkSelector" where
  "cs_reincluded e from to s =
     (if from \<ge> se_num_chunks e \<or> to \<ge> se_num_chunks e then s
      else s\<lparr>cs_chunks := fold (\<lambda>i cs. if i \<notin> set cs \<and> ch_status (se_chunk e i) \<noteq> ON_DISK then cs @ [i] else cs)
               [from..<Suc to] (cs_chunks s)\<rparr>)"

definition cs_reinsert :: "nat \<Rightarrow> ChunkSelector \<Rightarrow> ChunkSelector" where
  "cs_reinsert i s = (if i \<notin> set (cs_chunks s) then s\<lparr>cs_chunks := cs_chunks s @ [i]\<rparr> else s)"

record ChunkRange =
  cr_start :: nat
  cr_len :: nat

fun range_loop :: "SelEnv \<Rightarrow> nat \<Rightarrow> nat list \<Rightarrow> ChunkRange \<Rightarrow> ChunkRange \<Rightarrow> ChunkRange" where
  "range_loop e max_len [] cur best = best"
| "range_loop e max_len (i # is) cur best =
     (if \<not> BitSet_get (se_bitset e) i \<and> canDownloadFromWebSeed e i then
        let cur = (if cr_start cur = 0 \<and> cr_len cur = 0 then \<lparr>cr_start = i, cr_len = 1\<rparr> else cur\<lparr>cr_len := cr_len cur + 1\<rparr>)
        in if cr_len cur \<ge> max_len then cur
           else
             let best = (if i = se_num_chunks e - 1 \<and> cr_start cur > 0 \<and> cr_len cur > cr_len best then cur else best)
             in range_loop e max_len is cur best
      else
        let best = (if cr_start cur > 0 \<and> cr_len cur > cr_len best then cur else best)
        in range_loop e max_len is \<lparr>cr_start = 0, cr_len = 0\<rparr> best)"

definition selectRange :: "SelEnv \<Rightarrow> nat \<Rightarrow> (nat \<times> nat) option" where
  "selectRange e max_len =
     (let best = range_loop e max_len [0..<se_num_chunks e] \<lparr>cr_start = 0, cr_len = 0\<rparr> \<lparr>cr_start = 0, cr_len = 0\<rparr> in
      if cr_len best \<noteq> 0 then Some (cr_start best, cr_start best + cr_len best - 1) else None)"

section \<open>The candidate list\<close>

definition wanted_ok :: "SelEnv \<Rightarrow> ChunkSelector \<Rightarrow> bool" where
  \<comment> \<open>no chunk twice, and every chunk that is still to be fetched is there\<close>
  "wanted_ok e s \<longleftrightarrow> distinct (cs_chunks s) \<and> set (cs_chunks s) \<subseteq> {..<se_num_chunks e} \<and> (\<forall>i < se_num_chunks e. \<not> unwanted e i \<longrightarrow> i \<in> set (cs_chunks s))"

definition fetchable :: "SelEnv \<Rightarrow> nat \<Rightarrow> bool" where
  "fetchable e i \<longleftrightarrow> \<not> unwanted e i \<and> se_hasChunk e i"

definition available :: "SelEnv \<Rightarrow> nat \<Rightarrow> bool" where
  "available e i \<longleftrightarrow> fetchable e i \<and> \<not> isChunkDownloading e i"

lemma stable_insert_mset: "mset (stable_insert lt x ys) = add_mset x (mset ys)"
  by (induction ys) auto

lemma stable_sort_mset: "mset (stable_sort lt xs) = mset xs"
  by (induction xs) (auto simp: stable_sort_def stable_insert_mset)

lemma stable_sort_set [simp]: "set (stable_sort lt xs) = set xs" "distinct (stable_sort lt xs) = distinct xs"
  using stable_sort_mset[of lt xs] by (metis set_mset_mset, metis mset_eq_imp_distinct_iff)

text \<open>For a strict weak order the result is sorted.\<close>

lemma stable_insert_sorted:
  assumes "\<forall>a \<in> A. \<forall>b \<in> A. lt a b \<longrightarrow> \<not> lt b a" and "\<forall>a \<in> A. \<forall>b \<in> A. \<forall>c \<in> A. \<not> lt b a \<and> \<not> lt c b \<longrightarrow> \<not> lt c a"
    and "insert x (set ys) \<subseteq> A" and "sorted_wrt (\<lambda>a b. \<not> lt b a) ys"
  shows "sorted_wrt (\<lambda>a b. \<not> lt b a) (stable_insert lt x ys)"
  using assms(3,4)
proof (induction ys)
  case (Cons y ys)
  have set_ins: "set (stable_insert lt x ys) = insert x (set ys)" using stable_insert_mset[of lt x ys] by (metis set_mset_add_mset_insert set_mset_mset)
  show ?case
  proof (cases "lt y x")
    case True
    then have "\<not> lt x y" using assms(1) Cons.prems(1) by auto
    then show ?thesis using True Cons set_ins by auto
  next
    case False
    have "\<not> lt z x" if z: "z \<in> set ys" for z
    proof -
      have "\<not> lt z y" "x \<in> A" "y \<in> A" "z \<in> A" using Cons.prems z by auto
      then show ?thesis using assms(2) False by blast
    qed
    then show ?thesis using False Cons.prems by auto
  qed
qed simp

lemma stable_sort_sorted:
  assumes "\<forall>a \<in> set xs. \<forall>b \<in> set xs. lt a b \<longrightarrow> \<not> lt b a"
    and "\<forall>a \<in> set xs. \<forall>b \<in> set xs. \<forall>c \<in> set xs. \<not> lt b a \<and> \<not> lt c b \<longrightarrow> \<not> lt c a"
  shows "sorted_wrt (\<lambda>a b. \<not> lt b a) (stable_sort lt xs)"
proof -
  have "sorted_wrt (\<lambda>a b. \<not> lt b a) (stable_sort lt ys)" if "set ys \<subseteq> set xs" for ys
    using that
  proof (induction ys)
    case (Cons y ys)
    have "stable_sort lt (y # ys) = stable_insert lt y (stable_sort lt ys)" by (simp add: stable_sort_def)
    moreover have "sorted_wrt (\<lambda>a b. \<not> lt b a) (stable_insert lt y (stable_sort lt ys))"
      using Cons by (intro stable_insert_sorted[OF assms]) auto
    ultimately show ?case by simp
  qed (simp add: stable_sort_def)
  then show ?thesis by simp
qed

lemma RareCmp_in: "a < se_num_chunks e \<Longrightarrow> b < se_num_chunks e \<Longrightarrow>
  RareCmp e w a b \<longleftrightarrow> ch_priority (se_chunk e a) > ch_priority (se_chunk e b)
    \<or> ch_priority (se_chunk e a) = ch_priority (se_chunk e b) \<and> normalCmp e w a b"
  by (auto simp: RareCmp_def Let_def)

lemma lex_not_less_trans:
  fixes pa pb pc :: "'a :: linorder"
  assumes "\<not> (pb > pa \<or> pb = pa \<and> R b a)" and "\<not> (pc > pb \<or> pc = pb \<and> R c b)" and "\<not> R b a \<Longrightarrow> \<not> R c b \<Longrightarrow> \<not> R c a"
  shows "\<not> (pc > pa \<or> pc = pa \<and> R c a)"
  using assms by (cases "pa = pb"; cases "pb = pc") auto

lemma RareCmp_sorted:
  assumes "set xs \<subseteq> {..<se_num_chunks e}"
  shows "sorted_wrt (\<lambda>a b. \<not> RareCmp e w b a) (stable_sort (RareCmp e w) xs)"
proof (rule stable_sort_sorted)
  have "\<not> RareCmp e w b a" if "a < se_num_chunks e" "b < se_num_chunks e" "RareCmp e w a b" for a b
    using that by (auto simp: RareCmp_in normalCmp_def split: if_splits)
  then show "\<forall>a \<in> set xs. \<forall>b \<in> set xs. RareCmp e w a b \<longrightarrow> \<not> RareCmp e w b a" using assms by blast
  have "\<not> RareCmp e w c a" if "a < se_num_chunks e" "b < se_num_chunks e" "c < se_num_chunks e" "\<not> RareCmp e w b a" "\<not> RareCmp e w c b" for a b c
  proof -
    have "\<not> (ch_priority (se_chunk e c) > ch_priority (se_chunk e a) \<or> ch_priority (se_chunk e c) = ch_priority (se_chunk e a) \<and> normalCmp e w c a)"
      by (rule lex_not_less_trans[of _ "ch_priority (se_chunk e b)" _ b]) (use that in \<open>auto simp: RareCmp_in normalCmp_def split: if_splits\<close>)
    then show ?thesis using that(1,3) by (simp add: RareCmp_in)
  qed
  then show "\<forall>a \<in> set xs. \<forall>b \<in> set xs. \<forall>c \<in> set xs. \<not> RareCmp e w b a \<and> \<not> RareCmp e w c b \<longrightarrow> \<not> RareCmp e w c a"
    using assms by blast
qed

section \<open>Scanning the list\<close>

lemma scan_rest:
  assumes "scan_chunks e cs r = (rest, r')"
  shows "set rest \<subseteq> set cs \<and> (\<forall>i \<in> set cs. \<not> unwanted e i \<longrightarrow> i \<in> set rest) \<and> (distinct cs \<longrightarrow> distinct rest)"
  using assms
proof (induction e cs r arbitrary: rest r' rule: scan_chunks.induct)
  case (2 e i "is" r)
  consider "unwanted e i" | "\<not> unwanted e i" "se_hasChunk e i" "\<not> isChunkDownloading e i"
    | r0 rest0 r1 where "\<not> unwanted e i" "scan_chunks e is r0 = (rest0, r1)" "rest = i # rest0"
        "r0 = (if se_hasChunk e i then push_chunk e i r else r)" "se_hasChunk e i \<longrightarrow> isChunkDownloading e i"
    using "2.prems" by (auto split: if_splits prod.splits)
  then show ?case
  proof cases
    case 1
    then show ?thesis using "2.IH"(1) "2.prems" by auto
  next
    case 2
    then show ?thesis using "2.prems" by auto
  next
    case 3
    then have "set rest0 \<subseteq> set is \<and> (\<forall>i \<in> set is. \<not> unwanted e i \<longrightarrow> i \<in> set rest0) \<and> (distinct is \<longrightarrow> distinct rest0)"
      using "2.IH"(2,3) by (auto split: if_splits)
    then show ?thesis using 3(3) by auto
  qed
qed simp

text \<open>What the scan finds: the first available chunk, and only fetchable chunks of the right priority before it.\<close>

definition lists_ok :: "SelEnv \<Rightarrow> nat set \<Rightarrow> Scan \<Rightarrow> bool" where
  "lists_ok e A r \<longleftrightarrow>
     (\<forall>j \<in> set (sc_preview r). j \<in> A \<and> fetchable e j \<and> isChunkDownloading e j \<and> ch_priority (se_chunk e j) = PREVIEW_PRIORITY)
     \<and> (\<forall>j \<in> set (sc_first r). j \<in> A \<and> fetchable e j \<and> isChunkDownloading e j \<and> ch_priority (se_chunk e j) = FIRST_PRIORITY)
     \<and> (\<forall>j \<in> set (sc_normal r). j \<in> A \<and> fetchable e j \<and> isChunkDownloading e j \<and> ch_priority (se_chunk e j) = NORMAL_PRIORITY)"

lemma lists_ok_push:
  "lists_ok e A r \<Longrightarrow> i \<in> A \<Longrightarrow> fetchable e i \<Longrightarrow> isChunkDownloading e i \<Longrightarrow> lists_ok e A (push_chunk e i r)"
  by (auto simp: lists_ok_def push_chunk_def split: Priority.splits)

lemma push_chunk_sel [simp]: "sc_sel (push_chunk e i r) = sc_sel r"
  by (simp add: push_chunk_def split: Priority.splits)

definition found :: "SelEnv \<Rightarrow> nat list \<Rightarrow> nat \<Rightarrow> bool" where
  "found e cs sel \<longleftrightarrow> (\<exists>pre suf. cs = pre @ sel # suf \<and> available e sel \<and> (\<forall>j \<in> set pre. \<not> available e j))"

lemma found_here: "available e i \<Longrightarrow> found e (i # is) i"
  unfolding found_def by (intro exI[of _ "[]"] exI[of _ "is"]) simp

lemma found_in: "found e cs sel \<Longrightarrow> sel \<in> set cs"
  by (auto simp: found_def)

lemma found_later: "\<not> available e i \<Longrightarrow> found e is sel \<Longrightarrow> found e (i # is) sel"
  unfolding found_def by (metis append_Cons set_ConsD)

lemma scan_found:
  assumes "scan_chunks e cs r = (rest, r')" and "lists_ok e A r" and "set cs \<subseteq> A"
  shows "lists_ok e A r' \<and> (sc_sel r' = sc_sel r \<and> (\<forall>j \<in> set cs. \<not> available e j)
    \<or> found e cs (sc_sel r'))"
  using assms
proof (induction e cs r arbitrary: rest r' rule: scan_chunks.induct)
  case (2 e i "is" r)
  consider (take) "available e i" "r' = r\<lparr>sc_sel := i\<rparr>"
    | (skip) r0 rest0 where "\<not> available e i" "scan_chunks e is r0 = (rest0, r')"
        "r0 = (if fetchable e i then push_chunk e i r else r)"
    using "2.prems"(1) by (auto simp: available_def fetchable_def split: if_splits prod.splits)
  then show ?case
  proof cases
    case take
    then have "lists_ok e A r'" using "2.prems"(2) by (simp add: lists_ok_def)
    then show ?thesis using take found_here by simp
  next
    case skip
    have A: "i \<in> A" "set is \<subseteq> A" using "2.prems"(3) by auto
    have l: "lists_ok e A r0" using skip(1,3) lists_ok_push[OF "2.prems"(2) A(1)] "2.prems"(2) by (auto simp: available_def)
    have "lists_ok e A r' \<and> (sc_sel r' = sc_sel r0 \<and> (\<forall>j \<in> set is. \<not> available e j)
      \<or> found e is (sc_sel r'))"
    proof (cases "unwanted e i")
      case True
      then show ?thesis using "2.IH"(1)[OF True, of rest0 r'] skip l A by (simp add: fetchable_def)
    next
      case nu: False
      show ?thesis
      proof (cases "se_hasChunk e i")
        case True
        then show ?thesis using "2.IH"(2)[of rest0 r'] nu skip l A by (simp add: fetchable_def available_def)
      next
        case False
        then show ?thesis using "2.IH"(3)[of rest0 r'] nu skip l A by (simp add: fetchable_def)
      qed
    qed
    then show ?thesis using skip(1,3) found_later[OF skip(1)] by (auto split: if_splits)
  qed
qed simp

lemma least_loop_in: "least_loop e lp sel cnt \<in> insert sel (set lp)"
  by (induction e lp sel cnt rule: least_loop.induct) (auto simp: Let_def)

lemma leastPeers_in: "lp \<noteq> [] \<Longrightarrow> leastPeers e lp alt m \<in> insert alt (set lp)"
  using least_loop_in[of e lp "hd lp" "numDownloadersForChunk e (hd lp)"] hd_in_set[of lp]
  by (auto simp: leastPeers_def Let_def split: option.split)

text \<open>The choice is the available chunk that was found, or one of strictly higher priority.\<close>

lemma choose_chunk_law:
  assumes "lists_ok e A r"
  shows "choose_chunk e r = sc_sel r \<or> choose_chunk e r \<in> A \<and> fetchable e (choose_chunk e r) \<and> \<not> available e (choose_chunk e r)
    \<and> ch_priority (se_chunk e (choose_chunk e r)) > ch_priority (se_chunk e (sc_sel r))"
proof -
  note m = leastPeers_in[of "sc_preview r" e "sc_sel r" 3] leastPeers_in[of "sc_first r" e "sc_sel r" 2] leastPeers_in[of "sc_normal r" e "sc_sel r" 2]
  show ?thesis
    using assms m unfolding choose_chunk_def Let_def lists_ok_def
    by (auto simp: available_def less_Priority_def)
qed

section \<open>Properties\<close>

lemma scan_start: "lists_ok e A \<lparr>sc_sel = n, sc_preview = [], sc_first = [], sc_normal = []\<rparr>"
  by (simp add: lists_ok_def)



lemma dataChecked_loop:
  assumes "distinct cs"
  shows "distinct (fold (\<lambda>i cs. if i \<in> set cs \<and> P i then removeAll i cs else if i \<notin> set cs \<and> \<not> P i then cs @ [i] else cs) is cs)
    \<and> set (fold (\<lambda>i cs. if i \<in> set cs \<and> P i then removeAll i cs else if i \<notin> set cs \<and> \<not> P i then cs @ [i] else cs) is cs)
      = set cs - {i \<in> set is. P i} \<union> {i \<in> set is. \<not> P i}"
  using assms
proof (induction "is" arbitrary: cs)
  case (Cons i "is")
  let ?c = "if i \<in> set cs \<and> P i then removeAll i cs else if i \<notin> set cs \<and> \<not> P i then cs @ [i] else cs"
  have "distinct ?c" "set ?c = set cs - {j. j = i \<and> P j} \<union> {j. j = i \<and> \<not> P j}" using Cons.prems by (auto simp: distinct_removeAll)
  then show ?case using Cons.IH[of ?c] by auto
qed auto

lemma reincluded_loop:
  assumes "distinct cs"
  shows "distinct (fold (\<lambda>i cs. if i \<notin> set cs \<and> P i then cs @ [i] else cs) is cs)
    \<and> set (fold (\<lambda>i cs. if i \<notin> set cs \<and> P i then cs @ [i] else cs) is cs) = set cs \<union> {i \<in> set is. P i}"
  using assms
proof (induction "is" arbitrary: cs)
  case (Cons i "is")
  let ?c = "if i \<notin> set cs \<and> P i then cs @ [i] else cs"
  have "distinct ?c" "set ?c = set cs \<union> {j. j = i \<and> P j}" using Cons.prems by auto
  then show ?case using Cons.IH[of ?c] by auto
qed auto

lemma select_chunk_rest:
  "\<exists>cs rest r. mset cs = mset (cs_chunks s) \<and> cs_chunks (snd (select_chunk e s)) \<in> {cs_chunks s, rest}
     \<and> scan_chunks e cs \<lparr>sc_sel = se_num_chunks e + 1, sc_preview = [], sc_first = [], sc_normal = []\<rparr> = (rest, r)"
proof -
  let ?w = "sub32 (se_num_chunks e) (se_chunks_left e) \<le> 4"
  let ?cs = "if sub64 (se_now e) (cs_sorted_at s) > 2000 then stable_sort (RareCmp e ?w) (cs_chunks s) else cs_chunks s"
  obtain rest r where sc: "scan_chunks e ?cs \<lparr>sc_sel = se_num_chunks e + 1, sc_preview = [], sc_first = [], sc_normal = []\<rparr> = (rest, r)" by fastforce
  moreover have "cs_chunks (snd (select_chunk e s)) \<in> {cs_chunks s, rest}"
    using sc by (auto simp: select_chunk_def Let_def split: option.splits if_splits)
  moreover have "mset ?cs = mset (cs_chunks s)" by (simp add: stable_sort_mset)
  ultimately show ?thesis by blast
qed

lemma wanted_ok_init:
  assumes "\<And>xs. mset (shuffle xs) = mset xs"
  shows "wanted_ok e (ChunkSelector_init shuffle e)"
proof -
  let ?xs = "filter (\<lambda>i. \<not> BitSet_get (se_bitset e) i) [0..<se_num_chunks e]"
  have "set (shuffle ?xs) = set ?xs" "distinct (shuffle ?xs) = distinct ?xs"
    using assms[of ?xs] by (metis set_mset_mset, metis mset_eq_imp_distinct_iff)
  then show ?thesis by (auto simp: wanted_ok_def ChunkSelector_init_def unwanted_def)
qed

lemma wanted_ok_select:
  assumes "wanted_ok e s"
  shows "wanted_ok e (snd (select_chunk e s))"
proof -
  obtain cs rest r where sc: "mset cs = mset (cs_chunks s)" "cs_chunks (snd (select_chunk e s)) \<in> {cs_chunks s, rest}"
      "scan_chunks e cs \<lparr>sc_sel = se_num_chunks e + 1, sc_preview = [], sc_first = [], sc_normal = []\<rparr> = (rest, r)"
    using select_chunk_rest by blast
  have "set cs = set (cs_chunks s)" "distinct cs = distinct (cs_chunks s)"
    using sc(1) by (metis set_mset_mset, metis mset_eq_imp_distinct_iff)
  then show ?thesis using scan_rest[OF sc(3)] sc(2) assms by (auto simp: wanted_ok_def)
qed

lemma wanted_ok_dataChecked:
  assumes "wanted_ok e s" and "bs_num_bits ok = se_num_chunks e"
    and "\<forall>i. \<not> (from \<le> i \<and> i \<le> to) \<longrightarrow> BitSet_get ok i = BitSet_get (se_bitset e) i"
  shows "wanted_ok (e\<lparr>se_bitset := ok\<rparr>) (cs_dataChecked ok from to s)"
proof -
  have "distinct (cs_chunks s)" using assms(1) by (simp add: wanted_ok_def)
  note l = dataChecked_loop[OF this, of "BitSet_get ok" "[from..<min (bs_num_bits ok) (Suc to)]"]
  then show ?thesis using assms by (auto simp: wanted_ok_def cs_dataChecked_def unwanted_def)
qed

lemma wanted_ok_reincluded:
  assumes "wanted_ok e s" and "to < se_num_chunks e" and "from \<le> to" and "\<forall>i. \<not> (from \<le> i \<and> i \<le> to) \<longrightarrow> chunk' i = se_chunk e i"
    and "\<forall>i < se_num_chunks e. \<not> BitSet_get (se_bitset e) i \<longrightarrow> ch_status (chunk' i) \<noteq> ON_DISK"
  shows "wanted_ok (e\<lparr>se_chunk := chunk'\<rparr>) (cs_reincluded (e\<lparr>se_chunk := chunk'\<rparr>) from to s)"
proof -
  have "distinct (cs_chunks s)" using assms(1) by (simp add: wanted_ok_def)
  note l = reincluded_loop[OF this, of "\<lambda>i. ch_status (chunk' i) \<noteq> ON_DISK" "[from..<Suc to]"]
  then show ?thesis using assms by (auto simp: wanted_ok_def cs_reincluded_def unwanted_def simp del: upt_Suc)
qed

text \<open>
  The histories of a selector, with the world around it: chunks are completed or excluded (and
  anything else the selector reads may change), data is checked, chunks are included again, a chunk
  that turned out corrupt is put back.
\<close>

inductive cs_run :: "(nat list \<Rightarrow> nat list) \<Rightarrow> SelEnv \<Rightarrow> ChunkSelector \<Rightarrow> bool" for shuffle where
  start: "cs_run shuffle e (ChunkSelector_init shuffle e)"
| select: "cs_run shuffle e s \<Longrightarrow> cs_run shuffle e (snd (select_chunk e s))"
| world: "cs_run shuffle e s \<Longrightarrow> se_num_chunks e' = se_num_chunks e \<Longrightarrow> (\<And>i. unwanted e i \<Longrightarrow> unwanted e' i) \<Longrightarrow> cs_run shuffle e' s"
| checked: "cs_run shuffle e s \<Longrightarrow> bs_num_bits ok = se_num_chunks e \<Longrightarrow>
    (\<And>i. \<not> (from \<le> i \<and> i \<le> to) \<Longrightarrow> BitSet_get ok i = BitSet_get (se_bitset e) i) \<Longrightarrow>
    cs_run shuffle (e\<lparr>se_bitset := ok\<rparr>) (cs_dataChecked ok from to s)"
| reinclude: "cs_run shuffle e s \<Longrightarrow> to < se_num_chunks e \<Longrightarrow> from \<le> to \<Longrightarrow>
    (\<And>i. \<not> (from \<le> i \<and> i \<le> to) \<Longrightarrow> chunk' i = se_chunk e i) \<Longrightarrow>
    (\<And>i. i < se_num_chunks e \<Longrightarrow> \<not> BitSet_get (se_bitset e) i \<Longrightarrow> ch_status (chunk' i) \<noteq> ON_DISK) \<Longrightarrow>
    cs_run shuffle (e\<lparr>se_chunk := chunk'\<rparr>) (cs_reincluded (e\<lparr>se_chunk := chunk'\<rparr>) from to s)"
| corrupt: "cs_run shuffle e s \<Longrightarrow> i < se_num_chunks e \<Longrightarrow> (\<And>j. j \<noteq> i \<Longrightarrow> BitSet_get bs j = BitSet_get (se_bitset e) j) \<Longrightarrow>
    cs_run shuffle (e\<lparr>se_bitset := bs\<rparr>) (cs_reinsert i s)"

text \<open>
  C30. No chunk is ever forgotten: after any history of selections, completed and excluded chunks, data
  checks, re-included and corrupt chunks, the candidate list holds every chunk that is wanted and
  missing, and none twice.
\<close>

theorem ChunkSelector_never_forgets:
  assumes "\<And>xs. mset (shuffle xs) = mset xs" and "cs_run shuffle e s"
  shows "wanted_ok e s"
  using assms(2)
proof (induction rule: cs_run.induct)
  case (world e s e')
  then show ?case by (auto simp: wanted_ok_def)
next
  case (corrupt e s i bs)
  have "j \<in> set (cs_chunks s)" if "j < se_num_chunks e" "\<not> unwanted (e\<lparr>se_bitset := bs\<rparr>) j" "j \<noteq> i" for j
    using that corrupt.hyps(3)[OF that(3)] corrupt.IH by (simp add: wanted_ok_def unwanted_def)
  then show ?case using corrupt by (auto simp: wanted_ok_def cs_reinsert_def)
qed (simp_all add: assms(1) wanted_ok_init wanted_ok_select wanted_ok_dataChecked wanted_ok_reincluded)

theorem ChunkSelector_never_forgets_witness:
  "wanted_ok \<lparr>se_num_chunks = 2, se_chunk = (\<lambda>i. Chunk_new i 64), se_bitset = BitSet_new 2, se_chunks_left = 2, se_counter = [3, 1],
      se_now = 5000, se_downloads = [], se_speed = (\<lambda>_. 0), se_hasChunk = (\<lambda>_. True), se_isChoked = False, se_webseed_endgame = False,
      se_webseed_ranges = []\<rparr>
    (ChunkSelector_init rev \<lparr>se_num_chunks = 2, se_chunk = (\<lambda>i. Chunk_new i 64), se_bitset = BitSet_new 2, se_chunks_left = 2, se_counter = [3, 1],
      se_now = 5000, se_downloads = [], se_speed = (\<lambda>_. 0), se_hasChunk = (\<lambda>_. True), se_isChoked = False, se_webseed_endgame = False,
      se_webseed_ranges = []\<rparr>)"
  by (rule ChunkSelector_never_forgets[OF _ cs_run.start]) simp

section \<open>Ranges for web seeds\<close>

definition seedable :: "SelEnv \<Rightarrow> nat \<Rightarrow> bool" where
  "seedable e i \<longleftrightarrow> \<not> BitSet_get (se_bitset e) i \<and> canDownloadFromWebSeed e i"

definition range_ok :: "SelEnv \<Rightarrow> nat \<Rightarrow> ChunkRange \<Rightarrow> bool" where
  "range_ok e n r \<longleftrightarrow> cr_start r + cr_len r \<le> n \<and> (\<forall>i. cr_start r \<le> i \<and> i < cr_start r + cr_len r \<longrightarrow> seedable e i)"

lemma range_loop_Cons:
  "range_loop e max_len (i # is) cur best =
     (if seedable e i then
        let cur = (if cr_start cur = 0 \<and> cr_len cur = 0 then \<lparr>cr_start = i, cr_len = 1\<rparr> else cur\<lparr>cr_len := cr_len cur + 1\<rparr>)
        in if cr_len cur \<ge> max_len then cur
           else
             let best = (if i = se_num_chunks e - 1 \<and> cr_start cur > 0 \<and> cr_len cur > cr_len best then cur else best)
             in range_loop e max_len is cur best
      else
        let best = (if cr_start cur > 0 \<and> cr_len cur > cr_len best then cur else best)
        in range_loop e max_len is \<lparr>cr_start = 0, cr_len = 0\<rparr> best)"
  unfolding seedable_def by (rule range_loop.simps)

lemma range_loop_law:
  assumes "range_ok e k cur" and "range_ok e k best" and "cr_len cur \<noteq> 0 \<longrightarrow> cr_start cur + cr_len cur = k"
    and "cr_len cur < max_len" and "cr_len best < max_len" and "k \<le> n" and "cr_len cur = 0 \<longrightarrow> cr_start cur = 0"
  shows "range_ok e n (range_loop e max_len [k..<n] cur best) \<and> cr_len (range_loop e max_len [k..<n] cur best) \<le> max_len"
  using assms
proof (induction "n - k" arbitrary: k cur best)
  case 0
  then show ?case by simp
next
  case (Suc m)
  then have k: "k < n" "m = n - Suc k" by auto
  then have u: "[k..<n] = k # [Suc k..<n]" by (simp add: upt_conv_Cons)
  have mono: "range_ok e (Suc k) best" using Suc.prems(2) by (simp add: range_ok_def)
  have curk: "range_ok e (Suc k) cur" using Suc.prems(1) by (simp add: range_ok_def)
  let ?z = "\<lparr>cr_start = 0, cr_len = 0\<rparr>"
  show ?case
  proof (cases "seedable e k")
    case False
    let ?b = "if cr_start cur > 0 \<and> cr_len cur > cr_len best then cur else best"
    have "range_loop e max_len [k..<n] cur best = range_loop e max_len [Suc k..<n] ?z ?b"
      using False unfolding u by (simp only: range_loop_Cons Let_def if_False)
    moreover have "range_ok e (Suc k) ?z" by (simp add: range_ok_def)
    ultimately show ?thesis using Suc.hyps(1)[OF k(2), of ?z ?b] mono curk Suc.prems k(1) by simp
  next
    case True
    define c where "c = (if cr_start cur = 0 \<and> cr_len cur = 0 then \<lparr>cr_start = k, cr_len = 1\<rparr> else cur\<lparr>cr_len := cr_len cur + 1\<rparr>)"
    let ?b = "if k = se_num_chunks e - 1 \<and> cr_start c > 0 \<and> cr_len c > cr_len best then c else best"
    have l: "cr_start c + cr_len c = Suc k" "cr_len c \<noteq> 0" "cr_len c \<le> max_len" using Suc.prems(3,4,7) by (auto simp: c_def)
    have "seedable e i" if "cr_start c \<le> i" "i < Suc k" for i
      using that True Suc.prems(1,3,7) by (cases "i = k") (auto simp: range_ok_def c_def split: if_splits)
    then have c: "range_ok e (Suc k) c" unfolding range_ok_def l(1) by simp
    have e: "range_loop e max_len [k..<n] cur best = (if cr_len c \<ge> max_len then c else range_loop e max_len [Suc k..<n] c ?b)"
      using True unfolding u c_def by (simp only: range_loop_Cons Let_def if_True)
    show ?thesis
    proof (cases "cr_len c \<ge> max_len")
      case True
      then show ?thesis using c l k(1) unfolding e by (simp add: range_ok_def)
    next
      case False
      have "range_ok e (Suc k) (if P then c else best) \<and> cr_len (if P then c else best) < max_len" for P
        using c mono Suc.prems(5) False by simp
      then have "range_ok e (Suc k) ?b" "cr_len ?b < max_len" by blast+
      then show ?thesis using Suc.hyps(1)[OF k(2), of c ?b] c l False k(1) unfolding e by simp
    qed
  qed
qed

text \<open>
  A range that is handed to a web seed is a run of existing chunks, each of them missing and not
  being fetched from elsewhere, and it is never longer than was asked for.
\<close>

theorem selectRange_sound:
  assumes "0 < max_len" and "selectRange e max_len = Some (from, to)"
  shows "from \<le> to \<and> to < se_num_chunks e \<and> to - from < max_len \<and> (\<forall>i. from \<le> i \<and> i \<le> to \<longrightarrow> seedable e i)"
proof -
  let ?z = "\<lparr>cr_start = 0, cr_len = 0\<rparr>" and ?n = "se_num_chunks e"
  let ?r = "range_loop e max_len [0..<?n] ?z ?z"
  have "range_ok e ?n ?r \<and> cr_len ?r \<le> max_len" using assms(1) by (intro range_loop_law) (auto simp: range_ok_def)
  moreover have "cr_len ?r \<noteq> 0" "from = cr_start ?r" "to = cr_start ?r + cr_len ?r - 1"
    using assms(2) by (auto simp: selectRange_def Let_def split: if_splits)
  ultimately show ?thesis by (auto simp: range_ok_def)
qed

theorem selectRange_sound_witness:
  "seedable \<lparr>se_num_chunks = 3, se_chunk = (\<lambda>i. Chunk_new i 64), se_bitset = BitSet_set (BitSet_new 3) 0 True, se_chunks_left = 2, se_counter = [3, 1],
      se_now = 5000, se_downloads = [], se_speed = (\<lambda>_. 0), se_hasChunk = (\<lambda>_. True), se_isChoked = False, se_webseed_endgame = False,
      se_webseed_ranges = []\<rparr> 2"
proof -
  let ?e = "\<lparr>se_num_chunks = 3, se_chunk = (\<lambda>i. Chunk_new i 64), se_bitset = BitSet_set (BitSet_new 3) 0 True, se_chunks_left = 2, se_counter = [3, 1],
      se_now = 5000, se_downloads = [], se_speed = (\<lambda>_. 0), se_hasChunk = (\<lambda>_. True), se_isChoked = False, se_webseed_endgame = False,
      se_webseed_ranges = []\<rparr>"
  have "canDownloadFromWebSeed ?e i" for i by (simp add: canDownloadFromWebSeed_def isChunkDownloading_def getChunkDownload_def)
  then have "selectRange ?e 10 = Some (1, 2)"
    by (simp add: selectRange_def Let_def BitSet_get_set upt_conv_Cons)
  then show ?thesis using selectRange_sound[of 10 ?e 1 2] by auto
qed

lemma range_from_zero:
  assumes "\<forall>i < n. seedable e i" and "k \<le> n" and "n < max_len"
  shows "range_loop e max_len [k..<n] \<lparr>cr_start = 0, cr_len = k\<rparr> \<lparr>cr_start = 0, cr_len = 0\<rparr> = \<lparr>cr_start = 0, cr_len = 0\<rparr>"
  using assms(2)
proof (induction "n - k" arbitrary: k)
  case (Suc m)
  then have k: "k < n" "m = n - Suc k" by auto
  have "range_loop e max_len [k..<n] \<lparr>cr_start = 0, cr_len = k\<rparr> \<lparr>cr_start = 0, cr_len = 0\<rparr>
      = range_loop e max_len [Suc k..<n] \<lparr>cr_start = 0, cr_len = Suc k\<rparr> \<lparr>cr_start = 0, cr_len = 0\<rparr>"
    using assms(1,3) k by (cases k) (simp_all add: upt_conv_Cons range_loop_Cons Let_def del: range_loop.simps)
  then show ?case using Suc.hyps(1)[OF k(2)] k(1) by simp
qed simp

text \<open>
  The test \<open>curr.start > 0\<close> takes a run that begins at the first chunk for no run at all: when every
  chunk is missing and free and there are fewer of them than the limit, no range is selected.
\<close>

theorem selectRange_misses_first:
  assumes "\<forall>i < se_num_chunks e. seedable e i" and "se_num_chunks e < max_len"
  shows "selectRange e max_len = None"
  using range_from_zero[OF assms(1) _ assms(2), of 0] by (simp add: selectRange_def Let_def)

theorem selectRange_misses_first_witness:
  "selectRange \<lparr>se_num_chunks = 2, se_chunk = (\<lambda>i. Chunk_new i 64), se_bitset = BitSet_new 2, se_chunks_left = 2, se_counter = [3, 1],
      se_now = 5000, se_downloads = [], se_speed = (\<lambda>_. 0), se_hasChunk = (\<lambda>_. True), se_isChoked = False, se_webseed_endgame = False,
      se_webseed_ranges = []\<rparr> 10 = None"
  by (rule selectRange_misses_first) (simp_all add: seedable_def canDownloadFromWebSeed_def isChunkDownloading_def getChunkDownload_def)

end
