(* ===== verification/Super_Seeder.thy ===== *)
theory Super_Seeder
  imports Chunk_Counter
begin

text \<open>
  The class \<open>SuperSeeder\<close> of \<open>src/peer/superseeder.cpp\<close>: every peer is offered one chunk at a time, and
  the next one when the chunk has shown up at somebody else. A peer is a number; what a peer has is
  the parameter \<open>avail\<close>, the results of the calls of \<open>qrand\<close> the parameter \<open>qrand\<close>, indexed by a counter
  of the calls. The \<open>chunkAllowed\<close> calls are recorded in order. \<open>QMultiMap\<close> keeps the newest entry of a
  key first.
\<close>

record SuperSeeder =
  ss_counter :: ChunkCounter
  ss_active_chunks :: "(nat \<times> nat) list"
  ss_active_peers :: "nat \<rightharpoonup> nat"
  ss_num_seeders :: nat
  ss_calls :: nat
  ss_allowed :: "(nat \<times> nat) list"

definition SuperSeeder_new :: "nat \<Rightarrow> SuperSeeder" where
  "SuperSeeder_new n = \<lparr>ss_counter = ChunkCounter_new n, ss_active_chunks = [], ss_active_peers = Map.empty, ss_num_seeders = 0,
     ss_calls = 0, ss_allowed = []\<rparr>"

partial_function (option) ss_search :: "(nat \<Rightarrow> bool) \<Rightarrow> (nat \<Rightarrow> bool) \<Rightarrow> nat \<Rightarrow> nat \<Rightarrow> nat \<Rightarrow> nat \<Rightarrow> (nat + nat \<times> nat) option" where
  \<comment> \<open>\<open>Inl\<close>: a chunk nobody has; \<open>Inr\<close>: where the loop ended and the alternative\<close>
  "ss_search has free n start chunk alternative =
     (if chunk = start then Some (Inr (chunk, alternative))
      else
        let chunk = (chunk + 1) mod n in
        if has chunk then ss_search has free n start chunk alternative
        else if free chunk then Some (Inl chunk)
        else ss_search has free n start chunk (if alternative = n then chunk else alternative))"

definition ss_allow :: "nat \<Rightarrow> nat \<Rightarrow> SuperSeeder \<Rightarrow> SuperSeeder" where
  "ss_allow peer chunk s = s\<lparr>ss_allowed := ss_allowed s @ [(peer, chunk)], ss_active_chunks := (chunk, peer) # ss_active_chunks s,
     ss_active_peers := (ss_active_peers s)(peer \<mapsto> chunk)\<rparr>"

definition ss_sendChunk :: "(nat \<Rightarrow> BitSet) \<Rightarrow> (nat \<Rightarrow> nat) \<Rightarrow> nat \<Rightarrow> SuperSeeder \<Rightarrow> SuperSeeder option" where
  \<comment> \<open>\<open>None\<close>: the division by zero of a torrent without chunks\<close>
  "ss_sendChunk avail qrand peer s =
     (if ss_active_peers s peer \<noteq> None \<or> BitSet_allOn (avail peer) then Some s
      else
        let n = length (ss_counter s); start = qrand (ss_calls s) mod n; s = s\<lparr>ss_calls := ss_calls s + 1\<rparr> in
        if n = 0 then None
        else
          do { res \<leftarrow> ss_search (BitSet_get (avail peer)) (\<lambda>c. sub32 (cc_get (ss_counter s) c) (ss_num_seeders s) = 0) n start ((start + 1) mod n) n;
               case res of
                 Inl chunk \<Rightarrow> Some (ss_allow peer chunk s)
               | Inr (chunk, alternative) \<Rightarrow> Some (if alternative < n then ss_allow peer chunk s else s) })"

fun ss_send_all :: "(nat \<Rightarrow> BitSet) \<Rightarrow> (nat \<Rightarrow> nat) \<Rightarrow> nat list \<Rightarrow> SuperSeeder \<Rightarrow> SuperSeeder option" where
  "ss_send_all avail qrand [] s = Some s"
| "ss_send_all avail qrand (p # ps) s = do { s' \<leftarrow> ss_sendChunk avail qrand p s; ss_send_all avail qrand ps s' }"

definition ss_have :: "(nat \<Rightarrow> BitSet) \<Rightarrow> (nat \<Rightarrow> nat) \<Rightarrow> nat \<Rightarrow> nat \<Rightarrow> SuperSeeder \<Rightarrow> SuperSeeder option" where
  "ss_have avail qrand peer chunk s =
     (let s = s\<lparr>ss_counter := cc_inc (ss_counter s) chunk,
                ss_num_seeders := (if BitSet_allOn (avail peer) then add32 (ss_num_seeders s) 1 else ss_num_seeders s)\<rparr>;
          peers = map snd (filter (\<lambda>(c, p). c = chunk \<and> p \<noteq> peer) (ss_active_chunks s));
          s = s\<lparr>ss_active_chunks := filter (\<lambda>(c, p). \<not> (c = chunk \<and> p \<noteq> peer)) (ss_active_chunks s),
                ss_active_peers := fold (\<lambda>p m. m(p := None)) peers (ss_active_peers s)\<rparr>
      in ss_send_all avail qrand peers s)"

definition ss_forget :: "nat \<Rightarrow> SuperSeeder \<Rightarrow> SuperSeeder" where
  "ss_forget peer s =
     (case ss_active_peers s peer of
        None \<Rightarrow> s
      | Some chunk \<Rightarrow> s\<lparr>ss_active_chunks := removeAll (chunk, peer) (ss_active_chunks s), ss_active_peers := (ss_active_peers s)(peer := None)\<rparr>)"

definition ss_haveAll :: "nat \<Rightarrow> SuperSeeder \<Rightarrow> SuperSeeder" where
  "ss_haveAll peer s = (let s = ss_forget peer s in s\<lparr>ss_num_seeders := add32 (ss_num_seeders s) 1\<rparr>)"

fun ss_have_loop :: "(nat \<Rightarrow> BitSet) \<Rightarrow> (nat \<Rightarrow> nat) \<Rightarrow> nat \<Rightarrow> BitSet \<Rightarrow> nat list \<Rightarrow> SuperSeeder \<Rightarrow> SuperSeeder option" where
  "ss_have_loop avail qrand peer bs [] s = Some s"
| "ss_have_loop avail qrand peer bs (i # is) s =
     (if BitSet_get bs i then do { s' \<leftarrow> ss_have avail qrand peer i s; ss_have_loop avail qrand peer bs is s' }
      else ss_have_loop avail qrand peer bs is s)"

definition ss_bitset :: "(nat \<Rightarrow> BitSet) \<Rightarrow> (nat \<Rightarrow> nat) \<Rightarrow> nat \<Rightarrow> BitSet \<Rightarrow> SuperSeeder \<Rightarrow> SuperSeeder option" where
  "ss_bitset avail qrand peer bs s =
     (if BitSet_allOn bs then Some (ss_haveAll peer s) else ss_have_loop avail qrand peer bs [0..<bs_num_bits bs] s)"

definition ss_peerAdded :: "(nat \<Rightarrow> BitSet) \<Rightarrow> (nat \<Rightarrow> nat) \<Rightarrow> nat \<Rightarrow> SuperSeeder \<Rightarrow> SuperSeeder option" where
  "ss_peerAdded avail qrand peer s =
     (if BitSet_allOn (avail peer) then Some (s\<lparr>ss_num_seeders := add32 (ss_num_seeders s) 1\<rparr>)
      else ss_sendChunk avail qrand peer (s\<lparr>ss_counter := cc_incBitSet (ss_counter s) (avail peer)\<rparr>))"

definition ss_peerRemoved :: "(nat \<Rightarrow> BitSet) \<Rightarrow> nat \<Rightarrow> SuperSeeder \<Rightarrow> SuperSeeder" where
  "ss_peerRemoved avail peer s =
     (let s = ss_forget peer s;
          s = (if BitSet_allOn (avail peer) \<and> ss_num_seeders s > 0 then s\<lparr>ss_num_seeders := ss_num_seeders s - 1\<rparr> else s)
      in s\<lparr>ss_counter := cc_decBitSet (ss_counter s) (avail peer)\<rparr>)"

section \<open>The search ends\<close>

text \<open>The positions the search looks at: all but the one after the start.\<close>

lemma ss_search_law:
  assumes "start < n" and "1 \<le> k" and "k \<le> n" and "alternative < n \<longrightarrow> \<not> has alternative" and "alternative \<le> n"
  shows "(\<exists>c. ss_search has free n start ((start + k) mod n) alternative = Some (Inl c) \<and> c < n \<and> \<not> has c \<and> free c)
    \<or> (\<exists>a. ss_search has free n start ((start + k) mod n) alternative = Some (Inr (start, a))
        \<and> (\<forall>j. k < j \<and> j \<le> n \<longrightarrow> has ((start + j) mod n) \<or> \<not> free ((start + j) mod n))
        \<and> (a < n \<longleftrightarrow> alternative < n \<or> (\<exists>j. k < j \<and> j \<le> n \<and> \<not> has ((start + j) mod n))))"
  using assms(2-5)
proof (induction "n - k" arbitrary: k alternative)
  case 0
  then have "k = n" by simp
  then have "(start + k) mod n = start" using assms(1) by simp
  then have "ss_search has free n start ((start + k) mod n) alternative = Some (Inr (start, alternative))" by (simp add: ss_search.simps)
  then show ?case using \<open>k = n\<close> by auto
next
  case (Suc m)
  then have k: "k < n" "m = n - Suc k" by auto
  let ?c = "(start + k) mod n" and ?d = "(start + Suc k) mod n"
  have "?c \<noteq> start"
  proof (cases "start + k < n")
    case False
    then have "?c = start + k - n" using k(1) assms(1) by (simp add: mod_if)
    then show ?thesis using k(1) False Suc.prems(1) by auto
  qed (use Suc.prems(1) in auto)
  moreover have d: "(?c + 1) mod n = ?d" by (simp add: mod_Suc_eq)
  ultimately have u: "ss_search has free n start ?c alternative = (if has ?d then ss_search has free n start ?d alternative
      else if free ?d then Some (Inl ?d) else ss_search has free n start ?d (if alternative = n then ?d else alternative))"
    by (subst ss_search.simps) (simp add: Let_def)
  have "k < j \<and> j \<le> n \<longleftrightarrow> j = Suc k \<or> Suc k < j \<and> j \<le> n" for j using k(1) by auto
  then have split: "(\<forall>j. k < j \<and> j \<le> n \<longrightarrow> P j) \<longleftrightarrow> P (Suc k) \<and> (\<forall>j. Suc k < j \<and> j \<le> n \<longrightarrow> P j)"
      "(\<exists>j. k < j \<and> j \<le> n \<and> P j) \<longleftrightarrow> P (Suc k) \<or> (\<exists>j. Suc k < j \<and> j \<le> n \<and> P j)" for P
    by metis+
  have dn: "?d < n" using assms(1) by simp
  show ?case
  proof (cases "has ?d")
    case True
    then show ?thesis using Suc.hyps(1)[OF k(2), of alternative] Suc.prems k(1) unfolding u split by auto
  next
    case nh: False
    show ?thesis
    proof (cases "free ?d")
      case True
      then show ?thesis using nh dn unfolding u by auto
    next
      case False
      let ?a = "if alternative = n then ?d else alternative"
      have "?a < n" "\<not> has ?a" using dn nh Suc.prems(3,4) by auto
      then show ?thesis using Suc.hyps(1)[OF k(2), of ?a] k(1) nh False unfolding u split by auto
    qed
  qed
qed

section \<open>Consistency\<close>

text \<open>The two indexes describe the same assignment of at most one chunk to a peer.\<close>

definition ss_ok :: "nat \<Rightarrow> SuperSeeder \<Rightarrow> bool" where
  "ss_ok n s \<longleftrightarrow> length (ss_counter s) = n \<and> 0 < n \<and> distinct (ss_active_chunks s)
     \<and> (\<forall>c p. (c, p) \<in> set (ss_active_chunks s) \<longleftrightarrow> ss_active_peers s p = Some c) \<and> (\<forall>p c. ss_active_peers s p = Some c \<longrightarrow> c < n)"

lemma ss_ok_allow: "ss_ok n s \<Longrightarrow> ss_active_peers s p = None \<Longrightarrow> c < n \<Longrightarrow> ss_ok n (ss_allow p c s)"
  by (auto simp: ss_ok_def ss_allow_def)

lemma ss_ok_fields:
  "length c' = length (ss_counter s) \<Longrightarrow> ss_ok n s \<Longrightarrow> ss_ok n (s\<lparr>ss_counter := c'\<rparr>)"
  "ss_ok n (s\<lparr>ss_num_seeders := k\<rparr>) = ss_ok n s" "ss_ok n (s\<lparr>ss_calls := j\<rparr>) = ss_ok n s"
  by (simp_all add: ss_ok_def)

lemma length_cc [simp]: "length (cc_inc cc i) = length cc" "length (cc_incBitSet cc bs) = length cc" "length (cc_decBitSet cc bs) = length cc"
  by (simp_all add: cc_inc_def cc_incBitSet_eq cc_decBitSet_eq)

lemma ss_sendChunk_ok:
  assumes "ss_ok n s"
  shows "\<exists>s'. ss_sendChunk avail qrand p s = Some s' \<and> ss_ok n s' \<and> ss_counter s' = ss_counter s \<and> ss_num_seeders s' = ss_num_seeders s"
proof (cases "ss_active_peers s p \<noteq> None \<or> BitSet_allOn (avail p)")
  case False
  let ?start = "qrand (ss_calls s) mod n" and ?s = "s\<lparr>ss_calls := ss_calls s + 1\<rparr>"
  let ?free = "\<lambda>c. sub32 (cc_get (ss_counter s) c) (ss_num_seeders s) = 0"
  have n: "length (ss_counter s) = n" "0 < n" and st: "?start < n" using assms by (auto simp: ss_ok_def)
  have ok: "ss_ok n ?s" and free: "ss_active_peers ?s p = None" using assms False by (auto simp: ss_ok_fields)
  obtain res where r: "ss_search (BitSet_get (avail p)) ?free n ?start ((?start + 1) mod n) n = Some res"
      "case res of Inl c \<Rightarrow> c < n | Inr (c, a) \<Rightarrow> c = ?start"
    using ss_search_law[OF st, of 1 n "BitSet_get (avail p)" ?free] n by auto
  then show ?thesis using False n ss_ok_allow[OF ok free] ok st
    by (auto simp: ss_sendChunk_def Let_def ss_allow_def split: sum.splits prod.splits)
qed (use assms in \<open>auto simp: ss_sendChunk_def\<close>)

lemma ss_send_all_ok: "ss_ok n s \<Longrightarrow> \<exists>s'. ss_send_all avail qrand ps s = Some s' \<and> ss_ok n s'"
proof (induction ps arbitrary: s)
  case (Cons p ps)
  then show ?case using ss_sendChunk_ok[OF Cons.prems, of avail qrand p] by auto
qed simp

lemma fold_erase: "fold (\<lambda>p m. m(p := None)) ps m q = (if q \<in> set ps then None else m q)"
  by (induction ps arbitrary: m) auto

lemma ss_ok_release:
  assumes "ss_ok n s"
  shows "ss_ok n (s\<lparr>ss_active_chunks := filter (\<lambda>(c, p). \<not> (c = chunk \<and> p \<noteq> peer)) (ss_active_chunks s),
     ss_active_peers := fold (\<lambda>p m. m(p := None)) (map snd (filter (\<lambda>(c, p). c = chunk \<and> p \<noteq> peer) (ss_active_chunks s))) (ss_active_peers s)\<rparr>)"
proof -
  have u: "c = c'" if "(c, p) \<in> set (ss_active_chunks s)" "(c', p) \<in> set (ss_active_chunks s)" for c c' p
    using assms that unfolding ss_ok_def by (metis option.inject)
  have "(p \<in> set (map snd (filter (\<lambda>(c, p). c = chunk \<and> p \<noteq> peer) (ss_active_chunks s)))) \<longleftrightarrow> (chunk, p) \<in> set (ss_active_chunks s) \<and> p \<noteq> peer" for p
    by force
  then show ?thesis using assms u unfolding ss_ok_def by (auto simp: fold_erase simp del: set_map)
qed

lemma ss_have_ok: "ss_ok n s \<Longrightarrow> \<exists>s'. ss_have avail qrand p c s = Some s' \<and> ss_ok n s'"
  unfolding ss_have_def Let_def
  by (intro ss_send_all_ok ss_ok_release) (simp add: ss_ok_def)

lemma ss_forget_ok: "ss_ok n s \<Longrightarrow> ss_ok n (ss_forget p s) \<and> ss_active_peers (ss_forget p s) p = None"
  by (auto simp: ss_ok_def ss_forget_def distinct_removeAll split: option.splits)

lemma ss_have_loop_ok: "ss_ok n s \<Longrightarrow> \<exists>s'. ss_have_loop avail qrand p bs is s = Some s' \<and> ss_ok n s'"
proof (induction "is" arbitrary: s)
  case (Cons i "is")
  then show ?case using ss_have_ok[OF Cons.prems, of avail qrand p i] by auto
qed simp

text \<open>What a super seeder is told, with what the peers have at that time.\<close>

datatype SSEvent = SSHave nat nat | SSHaveAll nat | SSBitset nat BitSet | SSAdded nat | SSRemoved nat

fun ss_event :: "(nat \<Rightarrow> nat) \<Rightarrow> (nat \<Rightarrow> BitSet) \<times> SSEvent \<Rightarrow> SuperSeeder \<Rightarrow> SuperSeeder option" where
  "ss_event qrand (avail, SSHave p c) s = ss_have avail qrand p c s"
| "ss_event qrand (avail, SSHaveAll p) s = Some (ss_haveAll p s)"
| "ss_event qrand (avail, SSBitset p bs) s = ss_bitset avail qrand p bs s"
| "ss_event qrand (avail, SSAdded p) s = ss_peerAdded avail qrand p s"
| "ss_event qrand (avail, SSRemoved p) s = Some (ss_peerRemoved avail p s)"

fun ss_events :: "(nat \<Rightarrow> nat) \<Rightarrow> ((nat \<Rightarrow> BitSet) \<times> SSEvent) list \<Rightarrow> SuperSeeder \<Rightarrow> SuperSeeder option" where
  "ss_events qrand [] s = Some s"
| "ss_events qrand (ev # evs) s = do { s' \<leftarrow> ss_event qrand ev s; ss_events qrand evs s' }"

lemma ss_event_ok:
  assumes "ss_ok n s"
  shows "\<exists>s'. ss_event qrand ev s = Some s' \<and> ss_ok n s'"
proof (cases ev)
  case (Pair avail x)
  show ?thesis
  proof (cases x)
    case (SSHave p c)
    then show ?thesis using ss_have_ok[OF assms] Pair by simp
  next
    case (SSHaveAll p)
    then show ?thesis using ss_forget_ok[OF assms] Pair by (simp add: ss_haveAll_def Let_def ss_ok_fields)
  next
    case (SSBitset p bs)
    then show ?thesis using ss_forget_ok[OF assms] ss_have_loop_ok[OF assms] Pair
      by (simp add: ss_bitset_def ss_haveAll_def Let_def ss_ok_fields)
  next
    case (SSAdded p)
    have "ss_ok n (s\<lparr>ss_counter := cc_incBitSet (ss_counter s) (avail p)\<rparr>)" using ss_ok_fields(1)[OF _ assms] by simp
    then show ?thesis using ss_sendChunk_ok[of n "s\<lparr>ss_counter := cc_incBitSet (ss_counter s) (avail p)\<rparr>" avail qrand p] assms Pair SSAdded
      by (auto simp: ss_peerAdded_def ss_ok_fields)
  next
    case (SSRemoved p)
    then show ?thesis using ss_forget_ok[OF assms, of p] Pair by (simp add: ss_peerRemoved_def Let_def ss_ok_def)
  qed
qed

lemma ss_events_ok: "ss_ok n s \<Longrightarrow> \<exists>s'. ss_events qrand evs s = Some s' \<and> ss_ok n s'"
proof (induction evs arbitrary: s)
  case (Cons ev evs)
  then show ?case using ss_event_ok[OF Cons.prems, of qrand ev] by auto
qed simp

section \<open>Properties\<close>

text \<open>
  C31. Whatever the peers announce, every search of the super seeder ends, and its two indexes stay
  in step: a peer has at most one chunk it was offered and has not passed on, the index by chunk
  lists exactly these, none twice, and only chunks of the torrent are offered.
\<close>

theorem SuperSeeder_consistent:
  assumes "0 < n"
  shows "\<exists>s. ss_events qrand evs (SuperSeeder_new n) = Some s \<and> distinct (ss_active_chunks s)
    \<and> (\<forall>p c. ss_active_peers s p = Some c \<longleftrightarrow> (c, p) \<in> set (ss_active_chunks s)) \<and> (\<forall>(c, p) \<in> set (ss_active_chunks s). c < n)"
proof -
  have "ss_ok n (SuperSeeder_new n)" using assms by (simp add: ss_ok_def SuperSeeder_new_def ChunkCounter_new_def)
  from ss_events_ok[OF this, of qrand evs] show ?thesis by (fastforce simp: ss_ok_def)
qed

theorem SuperSeeder_consistent_witness:
  "\<exists>s. ss_events (\<lambda>i. i) [(\<lambda>_. BitSet_new 4, SSAdded 1), (\<lambda>_. BitSet_new 4, SSHave 2 3)] (SuperSeeder_new 4) = Some s
    \<and> distinct (ss_active_chunks s)"
  using SuperSeeder_consistent[of 4 "\<lambda>i. i" "[(\<lambda>_. BitSet_new 4, SSAdded 1), (\<lambda>_. BitSet_new 4, SSHave 2 3)]"] by auto

text \<open>
  When every chunk the peer lacks is held by somebody already, the loop remembers an alternative
  but the code then offers the chunk at which the loop stopped, the random start: a chunk the peer
  may have itself.
\<close>

theorem SuperSeeder_offers_start:
  assumes "ss_ok n s" and "ss_active_peers s p = None" and "\<not> BitSet_allOn (avail p)" and "start = qrand (ss_calls s) mod n"
    and "\<forall>c < n. \<not> BitSet_get (avail p) c \<longrightarrow> sub32 (cc_get (ss_counter s) c) (ss_num_seeders s) \<noteq> 0"
    and "2 \<le> k" and "k \<le> n" and "\<not> BitSet_get (avail p) ((start + k) mod n)" and "BitSet_get (avail p) start"
  shows "\<exists>s'. ss_sendChunk avail qrand p s = Some s' \<and> ss_allowed s' = ss_allowed s @ [(p, start)]"
proof -
  let ?free = "\<lambda>c. sub32 (cc_get (ss_counter s) c) (ss_num_seeders s) = 0"
  have n: "length (ss_counter s) = n" "0 < n" and st: "start < n" using assms(1,4) by (auto simp: ss_ok_def)
  have "\<exists>j. 1 < j \<and> j \<le> n \<and> \<not> BitSet_get (avail p) ((start + j) mod n)" using assms(6-8) by (intro exI[of _ k]) auto
  then obtain a where "ss_search (BitSet_get (avail p)) ?free n start ((start + 1) mod n) n = Some (Inr (start, a))" "a < n"
    using ss_search_law[OF st, of 1 n "BitSet_get (avail p)" ?free] n assms(5) by auto
  then show ?thesis using n assms(2-4) by (simp add: ss_sendChunk_def Let_def ss_allow_def)
qed

theorem SuperSeeder_offers_start_witness:
  "\<exists>s'. ss_sendChunk (\<lambda>_. BitSet_set (BitSet_new 3) 0 True) (\<lambda>_. 0) 7 ((SuperSeeder_new 3)\<lparr>ss_counter := [1, 1, 1]\<rparr>) = Some s'
    \<and> ss_allowed s' = [(7, 0)]"
proof -
  have g: "BitSet_get (BitSet_set (BitSet_new 3) 0 True) i \<longleftrightarrow> i = 0" for i by (simp add: BitSet_get_set)
  have on: "\<not> BitSet_allOn (BitSet_set (BitSet_new 3) 0 True)"
    by (simp add: BitSet_allOn_def BitSet_set_def BitSet_get_def BitSet_new_def numBytes_def Let_def add32_def)
  have "\<exists>s'. ss_sendChunk (\<lambda>_. BitSet_set (BitSet_new 3) 0 True) (\<lambda>_. 0) 7 ((SuperSeeder_new 3)\<lparr>ss_counter := [1, 1, 1]\<rparr>) = Some s'
    \<and> ss_allowed s' = ss_allowed ((SuperSeeder_new 3)\<lparr>ss_counter := [1, 1, 1]\<rparr>) @ [(7, 0)]"
    by (rule SuperSeeder_offers_start[where n = 3 and k = 2])
      (simp_all add: ss_ok_def SuperSeeder_new_def g on cc_get_def sub32_def nth_Cons')
  then show ?thesis by (simp add: SuperSeeder_new_def)
qed

end
