(* ===== verification/Connection_Limit.thy ===== *)
theory Connection_Limit
  imports Prelude "HOL-Library.Multiset"
begin

text \<open>
  The class \<open>ConnectionLimit\<close> of \<open>src/peer/connectionlimit.cpp\<close>: how many connections may be open in all
  and per torrent. A token is a value that carries the info hash; the destructor of a token
  releases it. The limit the operating system sets is a parameter.
\<close>

type_synonym infohash = "nat list"

record ConnectionLimit =
  cl_global_limit :: nat
  cl_global_total :: nat
  cl_torrent_limit :: nat
  cl_torrent_totals :: "infohash \<rightharpoonup> nat"

definition SystemConnectionLimit :: "nat \<Rightarrow> nat" where
  "SystemConnectionLimit max_open_files = sub32 max_open_files 50"

definition ConnectionLimit_new :: "nat \<Rightarrow> ConnectionLimit" where
  "ConnectionLimit_new files =
     \<lparr>cl_global_limit = SystemConnectionLimit files, cl_global_total = 0, cl_torrent_limit = 0, cl_torrent_totals = Map.empty\<rparr>"

definition setLimits :: "nat \<Rightarrow> nat \<Rightarrow> nat \<Rightarrow> ConnectionLimit \<Rightarrow> ConnectionLimit" where
  "setLimits files global torrent l =
     l\<lparr>cl_global_limit := (if global > SystemConnectionLimit files then SystemConnectionLimit files else global),
       cl_torrent_limit := torrent\<rparr>"

definition acquire :: "infohash \<Rightarrow> ConnectionLimit \<Rightarrow> infohash option \<times> ConnectionLimit" where
  \<comment> \<open>the token, if one is granted\<close>
  "acquire hash l =
     (if cl_global_limit l \<noteq> 0 \<and> cl_global_total l \<ge> cl_global_limit l then (None, l)
      else
        case cl_torrent_totals l hash of
          None \<Rightarrow> (Some hash, l\<lparr>cl_torrent_totals := (cl_torrent_totals l)(hash \<mapsto> 1), cl_global_total := add32 (cl_global_total l) 1\<rparr>)
        | Some n \<Rightarrow>
            if cl_torrent_limit l = 0 \<or> n < cl_torrent_limit l
            then (Some hash, l\<lparr>cl_torrent_totals := (cl_torrent_totals l)(hash \<mapsto> add32 n 1), cl_global_total := add32 (cl_global_total l) 1\<rparr>)
            else (None, l))"

definition release_token :: "infohash \<Rightarrow> ConnectionLimit \<Rightarrow> ConnectionLimit" where
  "release_token hash l =
     (case cl_torrent_totals l hash of
        None \<Rightarrow> l
      | Some n \<Rightarrow>
          let n' = (if n > 0 then n - 1 else n)
          in l\<lparr>cl_torrent_totals := (if n' = 0 then (cl_torrent_totals l)(hash := None) else (cl_torrent_totals l)(hash \<mapsto> n')),
               cl_global_total := (if cl_global_total l > 0 then cl_global_total l - 1 else cl_global_total l)\<rparr>)"

section \<open>The counters count the tokens\<close>

definition cl_counts :: "infohash multiset \<Rightarrow> ConnectionLimit \<Rightarrow> bool" where
  "cl_counts T l \<longleftrightarrow> cl_global_total l = size T
     \<and> (\<forall>h. cl_torrent_totals l h = (if h \<in># T then Some (count T h) else None))"

lemma cl_counts_acquire:
  assumes "cl_counts T l" and "size T < 2 ^ 32 - 1"
  shows "cl_counts (case fst (acquire h l) of None \<Rightarrow> T | Some t \<Rightarrow> add_mset t T) (snd (acquire h l))"
proof -
  have "count T h < 2 ^ 32 - 1" using count_le_size[of T h] assms(2) by linarith
  then have "add32 (count T h) 1 = Suc (count T h)" "add32 (size T) 1 = Suc (size T)" using assms(2) by (simp_all add: add32_id)
  then show ?thesis using assms(1) by (auto simp: acquire_def cl_counts_def count_eq_zero_iff split: option.splits)
qed

lemma cl_counts_release:
  assumes "cl_counts (add_mset h T) l"
  shows "cl_counts T (release_token h l)"
  using assms by (auto simp: release_token_def cl_counts_def Let_def count_eq_zero_iff)

text \<open>The histories of the limit, with the tokens that are alive.\<close>

inductive cl_run :: "infohash multiset \<Rightarrow> ConnectionLimit \<Rightarrow> bool" where
  start: "cl_run {#} (ConnectionLimit_new files)"
| limits: "cl_run T l \<Longrightarrow> cl_run T (setLimits files g t l)"
| granted: "cl_run T l \<Longrightarrow> size T < 2 ^ 32 - 1 \<Longrightarrow> acquire h l = (Some h', l') \<Longrightarrow> cl_run (add_mset h' T) l'"
| denied: "cl_run T l \<Longrightarrow> acquire h l = (None, l') \<Longrightarrow> cl_run T l'"
| dropped: "cl_run (add_mset h T) l \<Longrightarrow> cl_run T (release_token h l)"

lemma acquire_denied: "acquire h l = (None, l') \<Longrightarrow> l' = l"
  by (auto simp: acquire_def split: if_splits option.splits)

lemma cl_run_counts: "cl_run T l \<Longrightarrow> cl_counts T l"
proof (induction rule: cl_run.induct)
  case (granted T l h h' l')
  then show ?case using cl_counts_acquire[of T l h] by simp
next
  case (denied T l h l')
  then show ?case using acquire_denied by blast
next
  case (dropped h T l)
  then show ?case using cl_counts_release by blast
qed (auto simp: cl_counts_def ConnectionLimit_new_def setLimits_def)

text \<open>
  C32. In every history the totals are the numbers of tokens that are alive, and a token is granted
  exactly when both limits leave room: zero means no limit, and the first connection of a torrent
  needs room in the global limit only.
\<close>

theorem ConnectionLimit_exact:
  assumes "cl_run T l"
  shows "cl_global_total l = size T \<and> (\<forall>h. cl_torrent_totals l h = (if h \<in># T then Some (count T h) else None))
    \<and> (fst (acquire h l) = (if (cl_global_limit l = 0 \<or> size T < cl_global_limit l)
          \<and> (h \<notin># T \<or> cl_torrent_limit l = 0 \<or> count T h < cl_torrent_limit l) then Some h else None))"
  using cl_run_counts[OF assms] by (auto simp: cl_counts_def acquire_def)

theorem ConnectionLimit_exact_witness:
  "cl_global_total (snd (acquire [1] (ConnectionLimit_new 100))) = 1"
proof -
  have "acquire [1] (ConnectionLimit_new 100) = (Some [1], snd (acquire [1] (ConnectionLimit_new 100)))"
    by (simp add: acquire_def ConnectionLimit_new_def SystemConnectionLimit_def sub32_def)
  then have "cl_run {#[1]#} (snd (acquire [1] (ConnectionLimit_new 100)))"
    using cl_run.granted[OF cl_run.start, of "[1]" 100 "[1]" "snd (acquire [1] (ConnectionLimit_new 100))"] by simp
  then show ?thesis using ConnectionLimit_exact[of "{#[1]#}"] by simp
qed

end
