(* ===== verification/Utp_Protocol.thy ===== *)
theory Utp_Protocol
  imports Bytes
begin

text \<open>
  The packet format of the uTP transport, \<open>src/utp/utpprotocol.h\<close> and \<open>utpprotocol.cpp\<close>: the
  fixed header with its \<open>read\<close> and \<open>write\<close>, the selective acknowledgement bit mask (\<open>Acked\<close>,
  \<open>Ack\<close>), the \<open>PacketParser\<close> that walks over the header extensions, and the comparison and
  difference of 16-bit sequence numbers that wrap around (\<open>SeqNrCmpSE\<close>, \<open>SeqNrCmpS\<close>,
  \<open>SeqNrDiff\<close>). A pointer into a datagram is an offset; a read or write outside it is \<open>None\<close>.
  The lemmas show that the comparisons are those of the unbounded packet numbers as long as two
  numbers are less than 32768 apart, that a header survives writing and reading, and what the
  parser makes of a packet built by a connection.
\<close>

section \<open>Constants\<close>

type_synonym u4 = "4 word"

definition Header_size :: nat where
  "Header_size = 20"

definition SELECTIVE_ACK_ID :: u8 where
  "SELECTIVE_ACK_ID = 1"

text \<open>The packet types, at the width of the header's bit field.\<close>

definition ST_DATA :: u4 where
  "ST_DATA = 0"

definition ST_FIN :: u4 where
  "ST_FIN = 1"

definition ST_STATE :: u4 where
  "ST_STATE = 2"

definition ST_RESET :: u4 where
  "ST_RESET = 3"

definition ST_SYN :: u4 where
  "ST_SYN = 4"

lemmas ST_defs = ST_DATA_def ST_FIN_def ST_STATE_def ST_RESET_def ST_SYN_def

definition TypeToString :: "u4 \<Rightarrow> string" where
  "TypeToString t =
     (if t = ST_DATA then ''DATA'' else if t = ST_FIN then ''FIN'' else if t = ST_STATE then ''STATE''
      else if t = ST_RESET then ''RESET'' else if t = ST_SYN then ''SYN'' else ''UNKNOWN'')"

definition MIN_PACKET_SIZE :: nat where
  "MIN_PACKET_SIZE = 150"

definition DELAY_WINDOW_SIZE :: nat where
  "DELAY_WINDOW_SIZE = 2 * 60 * 1000"

definition CCONTROL_TARGET :: int where
  "CCONTROL_TARGET = 100"

definition MAX_CWND_INCREASE_PACKETS_PER_RTT :: nat where
  "MAX_CWND_INCREASE_PACKETS_PER_RTT = 500"

definition MAX_TIMEOUT :: nat where
  "MAX_TIMEOUT = 30000"

definition CONNECT_TIMEOUT :: nat where
  "CONNECT_TIMEOUT = 30000"

definition KEEP_ALIVE_TIMEOUT :: int where
  "KEEP_ALIVE_TIMEOUT = 30000"

definition IP_AND_UDP_OVERHEAD :: nat where
  "IP_AND_UDP_OVERHEAD = 28"

section \<open>The header\<close>

record Header =
  h_version :: u4
  h_type :: u4
  h_extension :: u8
  h_connection_id :: u16
  h_timestamp :: u32w        \<comment> \<open>\<open>timestamp_microseconds\<close>\<close>
  h_timediff :: u32w         \<comment> \<open>\<open>timestamp_difference_microseconds\<close>\<close>
  h_wnd_size :: u32w
  h_seq_nr :: u16
  h_ack_nr :: u16

definition Header_read :: "bytes \<Rightarrow> Header option" where
  "Header_read data = do {
     b0 \<leftarrow> (if 0 < length data then Some (data ! 0) else None);
     b1 \<leftarrow> (if 1 < length data then Some (data ! 1) else None);
     cid \<leftarrow> ReadUint16 data 2;
     ts \<leftarrow> ReadUint32 data 4;
     td \<leftarrow> ReadUint32 data 8;
     ws \<leftarrow> ReadUint32 data 12;
     sq \<leftarrow> ReadUint16 data 16;
     ac \<leftarrow> ReadUint16 data 18;
     Some \<lparr>h_version = ucast (b0 AND 0x0F), h_type = ucast (drop_bit 4 (b0 AND 0xF0)), h_extension = b1,
           h_connection_id = cid, h_timestamp = ts, h_timediff = td, h_wnd_size = ws,
           h_seq_nr = sq, h_ack_nr = ac\<rparr> }"

text \<open>\<open>write\<close> gets a pointer into a buffer, here the buffer and the offset.\<close>

definition Header_write :: "Header \<Rightarrow> bytes \<Rightarrow> nat \<Rightarrow> bytes option" where
  "Header_write h data p = do {
     d0 \<leftarrow> memcpy_at data p [(push_bit 4 (ucast (h_type h)) AND 0xF0) OR (ucast (h_version h) AND 0x0F)];
     d1 \<leftarrow> memcpy_at d0 (p + 1) [h_extension h];
     d2 \<leftarrow> WriteUint16 d1 (p + 2) (h_connection_id h);
     d3 \<leftarrow> WriteUint32 d2 (p + 4) (h_timestamp h);
     d4 \<leftarrow> WriteUint32 d3 (p + 8) (h_timediff h);
     d5 \<leftarrow> WriteUint32 d4 (p + 12) (h_wnd_size h);
     d6 \<leftarrow> WriteUint16 d5 (p + 16) (h_seq_nr h);
     WriteUint16 d6 (p + 18) (h_ack_nr h) }"

section \<open>Selective acknowledgements\<close>

record SelectiveAck =
  sk_extension :: u8
  sk_length :: u8
  sk_bitmask :: bytes

definition Acked :: "SelectiveAck \<Rightarrow> u16 \<Rightarrow> bool option" where
  "Acked sack b =
     (if unat b < 2 \<or> unat b > 8 * unat (sk_length sack) + 1 then Some False
      else let byte = (unat b - 2) div 8; bit_off = (unat b - 2) mod 8 in
           if byte < length (sk_bitmask sack)
           then Some (sk_bitmask sack ! byte AND push_bit bit_off 1 \<noteq> 0) else None)"

definition Ack :: "SelectiveAck \<Rightarrow> u16 \<Rightarrow> SelectiveAck option" where
  "Ack sack b =
     (if unat b < 2 \<or> unat b > 8 * unat (sk_length sack) + 1 then Some sack
      else let byte = (unat b - 2) div 8; bit_off = (unat b - 2) mod 8 in
           if byte < length (sk_bitmask sack)
           then Some (sack\<lparr>sk_bitmask := (sk_bitmask sack)[byte := sk_bitmask sack ! byte OR push_bit bit_off 1]\<rparr>)
           else None)"

section \<open>Sequence numbers\<close>

definition seq_near :: "u16 \<Rightarrow> u16 \<Rightarrow> bool" where
  \<comment> \<open>\<open>qAbs(b - a) < 32768\<close>, computed in \<open>int\<close>\<close>
  "seq_near a b \<longleftrightarrow> \<bar>int (unat b) - int (unat a)\<bar> < 32768"

definition SeqNrCmpSE :: "u16 \<Rightarrow> u16 \<Rightarrow> bool" where
  "SeqNrCmpSE a b = (if seq_near a b then a \<le> b else a > b)"

definition SeqNrCmpS :: "u16 \<Rightarrow> u16 \<Rightarrow> bool" where
  "SeqNrCmpS a b = (if seq_near a b then a < b else a > b)"

definition SeqNrDiff :: "u16 \<Rightarrow> u16 \<Rightarrow> u16" where
  \<comment> \<open>the \<open>int\<close> result is converted to \<open>Uint16\<close>\<close>
  "SeqNrDiff a b =
     (if seq_near a b then word_of_int (int (unat b) - int (unat a))
      else if b > a then word_of_int (int (unat a) + (65536 - int (unat b)))
      else word_of_int (int (unat b) + (65536 - int (unat a))))"

section \<open>The packet parser\<close>

record PacketParser =
  pp_packet :: bytes
  pp_hdr :: Header
  pp_sack :: "SelectiveAck option"   \<comment> \<open>\<open>None\<close> while \<open>sack_found\<close> is false\<close>
  pp_data_off :: nat
  pp_data_size :: nat

text \<open>The constructor reads the header before the size of the packet is looked at.\<close>

definition PacketParser_new :: "bytes \<Rightarrow> PacketParser option" where
  "PacketParser_new pkt = do {
     h \<leftarrow> Header_read pkt;
     Some \<lparr>pp_packet = pkt, pp_hdr = h, pp_sack = None, pp_data_off = 0, pp_data_size = 0\<rparr> }"

text \<open>
  The loop over the extensions. \<open>ptr[0]\<close> lies inside the packet because \<open>data_off < size\<close>, but
  \<open>ptr[1]\<close> need not. The offset is a natural number: it stays below \<open>size + 258\<close>, and the size of
  a datagram is far from the 32-bit limit.
\<close>

function parse_extensions :: "PacketParser \<Rightarrow> u8 \<Rightarrow> (bool \<times> PacketParser) option" where
  "parse_extensions pp ext_id =
     (let packet = pp_packet pp; off = pp_data_off pp in
      if off < length packet \<and> ext_id \<noteq> 0 then
        if off + 1 < length packet then
          let ext = packet ! off; len = packet ! (off + 1);
              sack = \<lparr>sk_extension = ext, sk_length = len, sk_bitmask = take (unat len) (drop (off + 2) packet)\<rparr>;
              pp' = (if ext_id = SELECTIVE_ACK_ID then pp\<lparr>pp_sack := Some sack\<rparr> else pp)
          in if ext_id = SELECTIVE_ACK_ID \<and> off + 2 + unat len > length packet then Some (False, pp')
             else parse_extensions (pp'\<lparr>pp_data_off := off + (2 + unat len)\<rparr>) ext
        else None
      else Some (True, pp\<lparr>pp_data_size := sub32 (length packet) off\<rparr>))"
  by pat_completeness auto

termination
  by (relation "measure (\<lambda>(pp, e). length (pp_packet pp) - pp_data_off pp)") auto

declare parse_extensions.simps [simp del]

definition parse :: "PacketParser \<Rightarrow> (bool \<times> PacketParser) option" where
  "parse pp = (if length (pp_packet pp) < Header_size then Some (False, pp)
               else parse_extensions (pp\<lparr>pp_data_off := Header_size\<rparr>) (h_extension (pp_hdr pp)))"

section \<open>Sequence numbers as windows of the packet numbers\<close>

lemma unat_of_nat16: "unat (of_nat n :: u16) = n mod 65536"
  by (simp add: unat_of_nat)

lemma seq_ahead:
  fixes a b :: u16
  assumes "unat b = unat a + d \<or> unat b + 65536 = unat a + d" and "d < 32768"
  shows "SeqNrCmpSE a b" "SeqNrCmpS a b \<longleftrightarrow> 0 < d" "SeqNrCmpSE b a \<longleftrightarrow> d = 0" "\<not> SeqNrCmpS b a"
    "unat (SeqNrDiff a b) = d"
proof -
  obtain x y where xy: "unat a = x" "unat b = y" by blast
  have b: "y = x + d \<or> y + 65536 = x + d" "x < 65536" "y < 65536"
    using assms(1) unsigned_less[of a, where ?'a=nat] unsigned_less[of b, where ?'a=nat] xy by simp_all
  show "SeqNrCmpSE a b" "SeqNrCmpS a b \<longleftrightarrow> 0 < d" "SeqNrCmpSE b a \<longleftrightarrow> d = 0" "\<not> SeqNrCmpS b a"
    unfolding SeqNrCmpSE_def SeqNrCmpS_def seq_near_def word_le_nat_alt word_less_nat_alt xy
    using assms(2) b by (auto split: if_splits)
  have "SeqNrDiff a b = word_of_int (int d)"
    unfolding SeqNrDiff_def seq_near_def word_less_nat_alt xy
    unfolding if_distrib[of word_of_int, symmetric] by (rule arg_cong[where f=word_of_int]) (use assms(2) b in auto)
  then show "unat (SeqNrDiff a b) = d" using assms(2) by (simp add: unat_of_nat16)
qed

lemma seq_nat_ahead:
  assumes "m \<le> n" "n - m < 32768"
  shows "unat (of_nat n :: u16) = unat (of_nat m :: u16) + (n - m)
       \<or> unat (of_nat n :: u16) + 65536 = unat (of_nat m :: u16) + (n - m)"
proof -
  obtain d where d: "n = m + d" "d < 32768" using assms by (metis le_iff_add add_diff_cancel_left')
  have "(m + d) mod 65536 = (m mod 65536 + d) mod 65536" by (simp add: mod_add_left_eq)
  moreover have "m mod 65536 < 65536" by simp
  ultimately show ?thesis using d(2) unfolding unat_of_nat16 d(1)
    by (cases "m mod 65536 + d < 65536") (simp_all add: le_mod_geq)
qed

lemma seq_nr_order:
  assumes "\<bar>int n - int m\<bar> < 32768"
  shows "SeqNrCmpSE (of_nat m) (of_nat n) \<longleftrightarrow> m \<le> n"
    and "SeqNrCmpS (of_nat m) (of_nat n) \<longleftrightarrow> m < n"
proof -
  consider "m \<le> n" "n - m < 32768" | "n \<le> m" "m - n < 32768" using assms by linarith
  then have "(SeqNrCmpSE (of_nat m) (of_nat n) \<longleftrightarrow> m \<le> n) \<and> (SeqNrCmpS (of_nat m) (of_nat n) \<longleftrightarrow> m < n)"
  proof cases
    case 1
    then show ?thesis using seq_ahead(1,2)[OF seq_nat_ahead[OF 1] 1(2)] by simp
  next
    case 2
    then show ?thesis using seq_ahead(3,4)[OF seq_nat_ahead[OF 2] 2(2)] by simp
  qed
  then show "SeqNrCmpSE (of_nat m) (of_nat n) \<longleftrightarrow> m \<le> n" "SeqNrCmpS (of_nat m) (of_nat n) \<longleftrightarrow> m < n" by simp_all
qed

lemma seq_nr_diff:
  assumes "m \<le> n" "n - m < 32768"
  shows "unat (SeqNrDiff (of_nat m) (of_nat n)) = n - m"
  using seq_ahead(5)[OF seq_nat_ahead[OF assms] assms(2)] .

section \<open>The header on the wire\<close>

definition header_bytes :: "Header \<Rightarrow> bytes" where
  "header_bytes h =
     [(push_bit 4 (ucast (h_type h)) AND 0xF0) OR (ucast (h_version h) AND 0x0F), h_extension h] @
     be16 (h_connection_id h) @ be32 (h_timestamp h) @ be32 (h_timediff h) @ be32 (h_wnd_size h) @
     be16 (h_seq_nr h) @ be16 (h_ack_nr h)"

lemma length_header_bytes [simp]: "length (header_bytes h) = 20"
  by (simp add: header_bytes_def)

lemma Header_write_eq: "Header_write h data p = memcpy_at data p (header_bytes h)"
  by (simp add: Header_write_def WriteUint16_def WriteUint32_def mem_simps header_bytes_def)

lemma nibble_masks: "(0xF0 :: u8) = push_bit 4 (mask 4)" "(0x0F :: u8) = mask 4"
  by (simp_all add: mask_eq_exp_minus_1)

lemma nibbles:
  fixes t v :: u4
  defines "b \<equiv> (push_bit 4 (ucast t) AND 0xF0) OR (ucast v AND 0x0F) :: u8"
  shows "ucast (drop_bit 4 (b AND 0xF0)) = t" "ucast (b AND 0x0F) = v"
proof -
  show "ucast (drop_bit 4 (b AND 0xF0)) = t"
    unfolding b_def nibble_masks by (rule bit_word_eqI) (auto simp: bit_simps dest: bit_imp_le_length)
  show "ucast (b AND 0x0F) = v"
    unfolding b_def nibble_masks by (rule bit_word_eqI) (auto simp: bit_simps dest: bit_imp_le_length)
qed

lemma Header_read_bytes: "Header_read (header_bytes h @ rest) = Some h"
proof -
  have "ReadUint16 (header_bytes h @ rest) 2 = Some (h_connection_id h)"
    "ReadUint32 (header_bytes h @ rest) 4 = Some (h_timestamp h)"
    "ReadUint32 (header_bytes h @ rest) 8 = Some (h_timediff h)"
    "ReadUint32 (header_bytes h @ rest) 12 = Some (h_wnd_size h)"
    "ReadUint16 (header_bytes h @ rest) 16 = Some (h_seq_nr h)"
    "ReadUint16 (header_bytes h @ rest) 18 = Some (h_ack_nr h)"
    by (intro ReadUint16_enc ReadUint32_enc; simp add: mem_read_def header_bytes_def)+
  moreover obtain b where "(header_bytes h @ rest) ! 0 = b" "ucast (drop_bit 4 (b AND 0xF0)) = h_type h"
      "ucast (b AND 0x0F) = h_version h"
    using nibbles[of "h_type h" "h_version h"] by (simp add: header_bytes_def)
  moreover have "(header_bytes h @ rest) ! 1 = h_extension h" by (simp add: header_bytes_def)
  ultimately show ?thesis by (simp add: Header_read_def)
qed

lemma Header_read_None: "Header_read data = None \<longleftrightarrow> length data < Header_size"
  by (auto simp: Header_read_def Header_size_def ReadUint16_def ReadUint32_def split: bind_splits)

section \<open>Packets built by a connection\<close>

text \<open>A packet with an optional selective acknowledgement as its only extension.\<close>

definition sack_bytes :: "bytes option \<Rightarrow> bytes" where
  "sack_bytes m = (case m of None \<Rightarrow> [] | Some bm \<Rightarrow> [0, of_nat (length bm)] @ bm)"

definition sack_of :: "bytes option \<Rightarrow> SelectiveAck option" where
  "sack_of m = map_option (\<lambda>bm. \<lparr>sk_extension = 0, sk_length = of_nat (length bm), sk_bitmask = bm\<rparr>) m"

lemma parse_built:
  assumes "h_extension h = (case m of None \<Rightarrow> 0 | Some bm \<Rightarrow> SELECTIVE_ACK_ID)"
    and "\<And>bm. m = Some bm \<Longrightarrow> length bm < 256" and "length payload < 2 ^ 31"
  defines "pkt \<equiv> header_bytes h @ sack_bytes m @ payload"
  shows "PacketParser_new pkt \<bind> parse = Some (True, \<lparr>pp_packet = pkt, pp_hdr = h, pp_sack = sack_of m,
           pp_data_off = 20 + length (sack_bytes m), pp_data_size = length payload\<rparr>)"
proof (cases m)
  case None
  then show ?thesis using assms(1,3)
    by (simp add: PacketParser_new_def pkt_def Header_read_bytes parse_def Header_size_def parse_extensions.simps
        sack_of_def sack_bytes_def sub32_id)
next
  case (Some bm)
  have l: "unat (of_nat (length bm) :: u8) = length bm" using assms(2)[OF Some] by (simp add: unat_of_nat)
  have n: "pkt ! 20 = 0" "pkt ! 21 = of_nat (length bm)" "drop 22 pkt = bm @ payload"
    "length pkt = 22 + length bm + length payload"
    by (simp_all add: pkt_def sack_bytes_def Some nth_append)
  show ?thesis using assms(1,3) assms(2)[OF Some] l n unfolding PacketParser_new_def parse_def
    by (subst pkt_def, subst Header_read_bytes)
       (simp add: Some Header_size_def SELECTIVE_ACK_ID_def parse_extensions.simps Let_def
        sack_of_def sack_bytes_def sub32_id)
qed


section \<open>The bit mask\<close>

definition sack_wf :: "SelectiveAck \<Rightarrow> bool" where
  "sack_wf s \<longleftrightarrow> length (sk_bitmask s) = unat (sk_length s)"

definition sack_bit :: "SelectiveAck \<Rightarrow> nat \<Rightarrow> bool" where
  "sack_bit s k \<longleftrightarrow> 2 \<le> k \<and> k < 8 * unat (sk_length s) + 2 \<and> bit (sk_bitmask s ! ((k - 2) div 8)) ((k - 2) mod 8)"

lemma Acked_law: "sack_wf s \<Longrightarrow> Acked s b = Some (sack_bit s (unat b))"
  by (auto simp: Acked_def sack_wf_def sack_bit_def Let_def and_exp_eq_0_iff_not_bit)

lemma mask_index:
  assumes "2 \<le> i" "2 \<le> k"
  shows "(i - 2) div 8 = (k - 2) div 8 \<and> (i - 2) mod 8 = (k - 2) mod 8 \<longleftrightarrow> i = (k :: nat)"
  using assms by (metis div_mult_mod_eq eq_diff_iff)

lemma Ack_law:
  assumes "sack_wf s"
  shows "\<exists>s'. Ack s b = Some s' \<and> sack_wf s' \<and> sk_length s' = sk_length s
    \<and> (\<forall>k. sack_bit s' k \<longleftrightarrow> sack_bit s k \<or> k = unat b \<and> 2 \<le> k \<and> k < 8 * unat (sk_length s) + 2)"
proof (cases "unat b < 2 \<or> unat b > 8 * unat (sk_length s) + 1")
  case True
  then show ?thesis using assms by (auto simp: Ack_def)
next
  case False
  let ?y = "(unat b - 2) div 8" and ?o = "(unat b - 2) mod 8"
  let ?s = "s\<lparr>sk_bitmask := (sk_bitmask s)[?y := sk_bitmask s ! ?y OR push_bit ?o 1]\<rparr>"
  have y: "?y < length (sk_bitmask s)" using False assms by (auto simp: sack_wf_def)
  then have a: "Ack s b = Some ?s" using False by (simp add: Ack_def Let_def)
  have "sack_bit ?s k \<longleftrightarrow> sack_bit s k \<or> k = unat b \<and> 2 \<le> k \<and> k < 8 * unat (sk_length s) + 2" for k
    using False y mask_index[of k "unat b"]
    by (cases "(k - 2) div 8 = ?y") (auto simp: sack_bit_def bit_simps)
  then show ?thesis using a assms by (auto simp: sack_wf_def)
qed


section \<open>Properties\<close>

text \<open>
  C35. Comparing two sequence numbers, and taking their difference, agrees with the packet numbers
  they stand for whenever these are less than 32768 apart, wherever the 16-bit counters have wrapped
  around in between.
\<close>

theorem SeqNr_wraparound:
  assumes "\<bar>int n - int m\<bar> < 32768"
  shows "(SeqNrCmpSE (of_nat m) (of_nat n) \<longleftrightarrow> m \<le> n) \<and> (SeqNrCmpS (of_nat m) (of_nat n) \<longleftrightarrow> m < n)
    \<and> (m \<le> n \<longrightarrow> unat (SeqNrDiff (of_nat m) (of_nat n)) = n - m)"
  using seq_nr_order[OF assms] seq_nr_diff[of m n] assms by auto

theorem SeqNr_wraparound_witness:
  "SeqNrCmpS 65534 3 \<and> \<not> SeqNrCmpSE 3 65534 \<and> unat (SeqNrDiff 65534 3) = 5"
proof -
  have "(65539 :: u16) = 3" by simp
  note this [simp]
  show ?thesis using SeqNr_wraparound[of 65539 65534] SeqNr_wraparound[of 65534 65539] by simp
qed

text \<open>
  C36. A packet that consists of a written header, an optional selective acknowledgement and a payload is
  parsed back into exactly these parts.
\<close>

theorem PacketParser_roundtrip:
  assumes "h_extension h = (case m of None \<Rightarrow> 0 | Some bm \<Rightarrow> SELECTIVE_ACK_ID)"
    and "\<And>bm. m = Some bm \<Longrightarrow> length bm < 256" and "length payload < 2 ^ 31"
    and "length buf = 20" and "Header_write h buf 0 = Some hb"
  shows "\<exists>pp. PacketParser_new (hb @ sack_bytes m @ payload) \<bind> parse = Some (True, pp) \<and> pp_hdr pp = h
    \<and> pp_sack pp = sack_of m \<and> drop (pp_data_off pp) (hb @ sack_bytes m @ payload) = payload
    \<and> pp_data_size pp = length payload"
proof -
  have "hb = header_bytes h" using assms(4,5) by (auto simp: Header_write_eq memcpy_at_def)
  then show ?thesis using parse_built[OF assms(1,2,3)] by simp
qed

theorem PacketParser_roundtrip_witness:
  "\<exists>hb pp. Header_write \<lparr>h_version = 1, h_type = ST_STATE, h_extension = 1, h_connection_id = 7, h_timestamp = 8, h_timediff = 9,
       h_wnd_size = 10, h_seq_nr = 11, h_ack_nr = 12\<rparr> (replicate 20 0) 0 = Some hb
     \<and> PacketParser_new (hb @ [0, 1, 0x55] @ [1, 2, 3]) \<bind> parse = Some (True, pp) \<and> h_ack_nr (pp_hdr pp) = 12
     \<and> pp_data_size pp = 3"
proof -
  let ?h = "\<lparr>h_version = 1, h_type = ST_STATE, h_extension = 1, h_connection_id = 7, h_timestamp = 8, h_timediff = 9,
       h_wnd_size = 10, h_seq_nr = 11, h_ack_nr = 12\<rparr>"
  obtain hb where "Header_write ?h (replicate 20 0) 0 = Some hb" by (auto simp: Header_write_eq memcpy_at_def)
  then show ?thesis using PacketParser_roundtrip[of ?h "Some [0x55]" "[1, 2, 3]" "replicate 20 0" hb]
    by (auto simp: SELECTIVE_ACK_ID_def sack_bytes_def)
qed

text \<open>
  The parser trusts the extension chain. A header that announces an extension of which only the
  first byte arrived is read one byte past the end of the packet; an extension of an unknown kind whose
  length field reaches beyond the packet is accepted, with a data offset outside the packet and a data size
  that has wrapped around.
\<close>

theorem PacketParser_trusts_lengths:
  assumes "h_extension h \<noteq> 0" and "0 < unat len" and "h_extension h \<noteq> SELECTIVE_ACK_ID"
  shows "PacketParser_new (header_bytes h @ [e]) \<bind> parse = None
    \<and> (\<exists>pp. PacketParser_new (header_bytes h @ [0, len]) \<bind> parse = Some (True, pp)
        \<and> pp_data_off pp = 22 + unat len \<and> pp_data_size pp = 2 ^ 32 - unat len)"
proof -
  have l: "unat len < 256" using unsigned_less[of len, where ?'a=nat] by simp
  then have w: "sub32 22 (22 + unat len) = 4294967296 - unat len" using assms(2) by (simp add: sub32_def)
  show ?thesis using assms l w
    by (simp add: PacketParser_new_def Header_read_bytes parse_def Header_size_def parse_extensions.simps Let_def nth_append)
qed

theorem PacketParser_trusts_lengths_witness:
  "\<exists>pp. PacketParser_new (header_bytes \<lparr>h_version = 1, h_type = ST_DATA, h_extension = 2, h_connection_id = 7, h_timestamp = 8,
      h_timediff = 9, h_wnd_size = 10, h_seq_nr = 11, h_ack_nr = 12\<rparr> @ [0, 255]) \<bind> parse = Some (True, pp)
      \<and> pp_data_off pp = 277"
  using PacketParser_trusts_lengths[of "\<lparr>h_version = 1, h_type = ST_DATA, h_extension = 2, h_connection_id = 7, h_timestamp = 8,
      h_timediff = 9, h_wnd_size = 10, h_seq_nr = 11, h_ack_nr = 12\<rparr>" 255]
  by (auto simp: SELECTIVE_ACK_ID_def)

end
