(* ===== verification/Utp_Local_Window.thy ===== *)
theory Utp_Local_Window
  imports Utp_Protocol
begin

text \<open>
  The receiving side of a uTP connection, \<open>src/utp/localwindow.cpp\<close>: packets arrive in any order,
  possibly more than once, and are kept in a vector of slots with consecutive sequence numbers until
  the application has read them. \<open>last_seq_nr\<close> is the last number up to which everything arrived (it
  is the cumulative acknowledgement), \<open>first_seq_nr\<close> the next packet to be read. A vector access
  outside the vector, \<open>front()\<close> of an empty vector and the use of a null packet are \<open>None\<close>.

  What is shown: whatever the order, the repetitions and the reads in between, the bytes read are
  the sender's bytes in order, and the cumulative and selective acknowledgements name exactly the
  packets that were accepted.
\<close>

section \<open>Slots\<close>

record WindowPacket =
  wp_seq_nr :: u16
  wp_packet :: "bytes option"   \<comment> \<open>the shared buffer, or the null pointer\<close>
  wp_bytes_read :: nat

definition WindowPacket_empty :: "u16 \<Rightarrow> WindowPacket" where
  "WindowPacket_empty seq = \<lparr>wp_seq_nr = seq, wp_packet = None, wp_bytes_read = 0\<rparr>"

definition WindowPacket_new :: "u16 \<Rightarrow> bytes \<Rightarrow> nat \<Rightarrow> WindowPacket" where
  "WindowPacket_new seq packet data_off = \<lparr>wp_seq_nr = seq, wp_packet = Some packet, wp_bytes_read = data_off\<rparr>"

text \<open>\<open>read\<close> returns the bytes copied to \<open>dst\<close>; their number is the C++ result.\<close>

definition WindowPacket_read :: "WindowPacket \<Rightarrow> nat \<Rightarrow> (bytes \<times> WindowPacket) option" where
  "WindowPacket_read p max_len = do {
     buf \<leftarrow> wp_packet p;
     let to_read = min (sub32 (length buf) (wp_bytes_read p)) max_len;
     if to_read = 0 then Some ([], p)
     else do { bs \<leftarrow> mem_read buf (wp_bytes_read p) to_read;
               Some (bs, p\<lparr>wp_bytes_read := add32 (wp_bytes_read p) to_read\<rparr>) } }"

definition fullyRead :: "WindowPacket \<Rightarrow> bool option" where
  "fullyRead p = map_option (\<lambda>buf. wp_bytes_read p = length buf) (wp_packet p)"

definition WindowPacket_set :: "bytes \<Rightarrow> nat \<Rightarrow> WindowPacket \<Rightarrow> WindowPacket" where
  "WindowPacket_set packet data_off p = p\<lparr>wp_packet := Some packet, wp_bytes_read := data_off\<rparr>"

section \<open>The window\<close>

record LocalWindow =
  lw_last_seq_nr :: u16
  lw_first_seq_nr :: u16
  lw_capacity :: nat
  lw_incoming :: "WindowPacket list"
  lw_window_space :: nat
  lw_bytes_available :: nat

definition LocalWindow_new :: "nat \<Rightarrow> LocalWindow" where
  "LocalWindow_new cap = \<lparr>lw_last_seq_nr = 0, lw_first_seq_nr = 0, lw_capacity = cap, lw_incoming = [],
     lw_window_space = cap, lw_bytes_available = 0\<rparr>"

definition lw_availableSpace :: "LocalWindow \<Rightarrow> nat" where
  "lw_availableSpace w = lw_window_space w"

definition lw_currentWindow :: "LocalWindow \<Rightarrow> nat" where
  "lw_currentWindow w = sub32 (lw_capacity w) (lw_window_space w)"

definition lw_isEmpty :: "LocalWindow \<Rightarrow> bool" where
  "lw_isEmpty w \<longleftrightarrow> lw_incoming w = []"

definition lw_isReadable :: "LocalWindow \<Rightarrow> bool" where
  "lw_isReadable w \<longleftrightarrow> lw_bytes_available w > 0"

definition setLastSeqNr :: "u16 \<Rightarrow> LocalWindow \<Rightarrow> LocalWindow" where
  "setLastSeqNr lsn w = w\<lparr>lw_last_seq_nr := lsn, lw_first_seq_nr := lsn\<rparr>"

text \<open>
  The loop of \<open>read\<close>. Every round clears a packet or ends the loop, so it ends; \<open>written\<close> is the length
  of what was copied so far.
\<close>

definition slot_readable :: "LocalWindow \<Rightarrow> u16 \<Rightarrow> bool" where
  "slot_readable w off \<longleftrightarrow> unat off < length (lw_incoming w) \<and> wp_packet (lw_incoming w ! unat off) \<noteq> None
     \<and> SeqNrCmpSE (wp_seq_nr (lw_incoming w ! unat off)) (lw_last_seq_nr w)"

definition lw_take :: "LocalWindow \<Rightarrow> u16 \<Rightarrow> WindowPacket \<Rightarrow> nat \<Rightarrow> LocalWindow" where
  \<comment> \<open>the bookkeeping after \<open>pkt.read\<close>\<close>
  "lw_take w off pkt ret = w\<lparr>lw_incoming := (lw_incoming w)[unat off := pkt],
     lw_window_space := add32 (lw_window_space w) ret, lw_bytes_available := sub32 (lw_bytes_available w) ret\<rparr>"

definition lw_release :: "LocalWindow \<Rightarrow> u16 \<Rightarrow> WindowPacket \<Rightarrow> LocalWindow" where
  \<comment> \<open>\<open>pkt.packet.clear(); first_seq_nr++\<close>\<close>
  "lw_release w off pkt = w\<lparr>lw_incoming := (lw_incoming w)[unat off := pkt\<lparr>wp_packet := None\<rparr>],
     lw_first_seq_nr := lw_first_seq_nr w + 1\<rparr>"

function lw_read_loop :: "LocalWindow \<Rightarrow> u16 \<Rightarrow> bytes \<Rightarrow> nat \<Rightarrow> (bytes \<times> LocalWindow) option" where
  "lw_read_loop w off out max_len =
     (if slot_readable w off \<and> length out < max_len then
        (case WindowPacket_read (lw_incoming w ! unat off) (sub32 max_len (length out)) of
           None \<Rightarrow> None
         | Some (ret, pkt) \<Rightarrow>
             if fullyRead pkt = Some True
             then lw_read_loop (lw_release (lw_take w off pkt (length ret)) off pkt) (off + 1) (out @ ret) max_len
             else Some (out @ ret, lw_take w off pkt (length ret)))
      else Some (out, w))"
  by pat_completeness auto

lemma WindowPacket_read_packet: "WindowPacket_read p n = Some (bs, p') \<Longrightarrow> wp_packet p' = wp_packet p \<and> wp_seq_nr p' = wp_seq_nr p"
  by (auto simp: WindowPacket_read_def Let_def split: bind_splits if_splits)

lemma length_filter_update_less:
  assumes "i < length xs" and "P (xs ! i)" and "\<not> P y"
  shows "length (filter P (xs[i := y])) < length (filter P xs)"
  using assms
proof (induction xs arbitrary: i)
  case (Cons a xs)
  then show ?case by (cases i) auto
qed simp

termination lw_read_loop
  by (relation "measure (\<lambda>(w, off, out, n). length (filter (\<lambda>p. wp_packet p \<noteq> None) (lw_incoming w)))")
    (auto simp: slot_readable_def lw_release_def lw_take_def intro!: length_filter_update_less)

declare lw_read_loop.simps [simp del]

definition lw_read :: "LocalWindow \<Rightarrow> nat \<Rightarrow> (bytes \<times> LocalWindow) option" where
  "lw_read w max_len =
     (case lw_incoming w of
        [] \<Rightarrow> None     \<comment> \<open>\<open>front()\<close> of an empty vector\<close>
      | p # _ \<Rightarrow> do {
          (out, w1) \<leftarrow> lw_read_loop w (SeqNrDiff (wp_seq_nr p) (lw_first_seq_nr w)) [] max_len;
          let off = unat (SeqNrDiff (wp_seq_nr (hd (lw_incoming w1))) (lw_first_seq_nr w1));
          if off > 20 then
            if off \<le> length (lw_incoming w1) then Some (out, w1\<lparr>lw_incoming := drop off (lw_incoming w1)\<rparr>) else None
          else Some (out, w1) })"

text \<open>The two loops that push empty slots up to the packet that arrived.\<close>

function push_empties :: "u16 \<Rightarrow> u16 \<Rightarrow> WindowPacket list" where
  "push_empties i seq = (if SeqNrCmpS i seq then WindowPacket_empty i # push_empties (i + 1) seq else [])"
  by pat_completeness auto

lemma SeqNrCmpS_neq: "SeqNrCmpS a b \<Longrightarrow> a \<noteq> b"
  by (auto simp: SeqNrCmpS_def seq_near_def)

termination push_empties
proof (relation "measure (\<lambda>(i, s). unat (s - i))", goal_cases)
  case (2 i s)
  then have "s - i \<noteq> 0" by (auto dest: SeqNrCmpS_neq)
  then show ?case using measure_unat[of "s - i"] by (simp add: diff_diff_eq)
qed simp

declare push_empties.simps [simp del]

text \<open>
  The loop that moves \<open>last_seq_nr\<close> over packets that were waiting. The index has 16 bits and would
  wrap around in a vector of 65536 waiting packets, so the loop is not known to end by itself.
\<close>

partial_function (option) lw_advance :: "LocalWindow \<Rightarrow> u16 \<Rightarrow> u16 \<Rightarrow> LocalWindow option" where
  "lw_advance w off next_seq_nr =
     (if unat off < length (lw_incoming w) then
        (case wp_packet (lw_incoming w ! unat off) of
           Some buf \<Rightarrow>
             lw_advance (w\<lparr>lw_bytes_available := add32 (lw_bytes_available w)
                              (sub32 (length buf) (wp_bytes_read (lw_incoming w ! unat off))),
                           lw_last_seq_nr := next_seq_nr\<rparr>) (off + 1) (next_seq_nr + 1)
         | None \<Rightarrow> Some w)
      else Some w)"

text \<open>Where the packet goes: \<open>None\<close> for an access outside the vector, \<open>Some None\<close> for ``already got this one''.\<close>

definition lw_place :: "LocalWindow \<Rightarrow> u16 \<Rightarrow> bytes \<Rightarrow> nat \<Rightarrow> LocalWindow option option" where
  "lw_place w seq packet data_off =
     (if lw_incoming w = [] then
        Some (Some (w\<lparr>lw_first_seq_nr := lw_last_seq_nr w + 1,
                      lw_incoming := push_empties (lw_last_seq_nr w + 1) seq @ [WindowPacket_new seq packet data_off]\<rparr>))
      else if SeqNrCmpS (wp_seq_nr (last (lw_incoming w))) seq then
        Some (Some (w\<lparr>lw_incoming := lw_incoming w @ push_empties (wp_seq_nr (last (lw_incoming w)) + 1) seq
                        @ [WindowPacket_new seq packet data_off]\<rparr>))
      else
        let off = unat (SeqNrDiff (wp_seq_nr (hd (lw_incoming w))) seq) in
        if off < length (lw_incoming w) then
          if wp_packet (lw_incoming w ! off) \<noteq> None then Some None
          else Some (Some (w\<lparr>lw_incoming := (lw_incoming w)[off := WindowPacket_set packet data_off (lw_incoming w ! off)]\<rparr>))
        else None)"

definition lw_packetReceived :: "LocalWindow \<Rightarrow> Header \<Rightarrow> bytes \<Rightarrow> nat \<Rightarrow> (bool \<times> LocalWindow) option" where
  "lw_packetReceived w hdr packet data_off =
     (if SeqNrCmpSE (h_seq_nr hdr) (lw_last_seq_nr w) then Some (True, w)
      else
        let data_size = sub32 (length packet) data_off in
        if lw_availableSpace w < data_size then Some (False, w)
        else
          case lw_place w (h_seq_nr hdr) packet data_off of
            None \<Rightarrow> None
          | Some None \<Rightarrow> Some (True, w)
          | Some (Some w1) \<Rightarrow> do {
              w2 \<leftarrow> (if h_seq_nr hdr = lw_last_seq_nr w1 + 1 then
                      let w' = w1\<lparr>lw_bytes_available := add32 (lw_bytes_available w1) data_size,
                                  lw_last_seq_nr := h_seq_nr hdr\<rparr>;
                          next_seq_nr = h_seq_nr hdr + 1
                      in lw_advance w' (SeqNrDiff (wp_seq_nr (hd (lw_incoming w'))) next_seq_nr) next_seq_nr
                    else Some w1);
              Some (True, w2\<lparr>lw_window_space := sub32 (lw_window_space w2) data_size\<rparr>) })"

section \<open>Selective acknowledgement\<close>

definition selectiveAckBits :: "LocalWindow \<Rightarrow> nat" where
  "selectiveAckBits w =
     (if lw_incoming w \<noteq> [] \<and> SeqNrCmpS (lw_last_seq_nr w) (wp_seq_nr (last (lw_incoming w)))
      then sub32 (unat (SeqNrDiff (lw_last_seq_nr w) (wp_seq_nr (last (lw_incoming w))))) 1 else 0)"

primrec fill_loop :: "u16 \<Rightarrow> WindowPacket list \<Rightarrow> SelectiveAck \<Rightarrow> SelectiveAck option" where
  "fill_loop lsn [] sack = Some sack"
| "fill_loop lsn (p # ps) sack = do {
     sack' \<leftarrow> (if wp_packet p \<noteq> None then Ack sack (SeqNrDiff lsn (wp_seq_nr p)) else Some sack);
     fill_loop lsn ps sack' }"

text \<open>
  \<open>std::upper_bound\<close> on a range that is partitioned by the comparison returns its first element behind the
  value; \<open>memset\<close> needs \<open>length\<close> bytes behind \<open>bitmask\<close>.
\<close>

definition upper_bound :: "WindowPacket list \<Rightarrow> u16 \<Rightarrow> WindowPacket list" where
  "upper_bound ps v = dropWhile (\<lambda>p. \<not> SeqNrCmpS v (wp_seq_nr p)) ps"

definition fillSelectiveAck :: "LocalWindow \<Rightarrow> SelectiveAck \<Rightarrow> SelectiveAck option" where
  "fillSelectiveAck w sack = do {
     bm \<leftarrow> memcpy_at (sk_bitmask sack) 0 (replicate (unat (sk_length sack)) 0);
     fill_loop (lw_last_seq_nr w) (upper_bound (lw_incoming w) (lw_last_seq_nr w + 1)) (sack\<lparr>sk_bitmask := bm\<rparr>) }"

section \<open>What the window holds\<close>

text \<open>
  The sender's packet number \<open>n\<close> carries the payload \<open>d n\<close> and the sequence number \<open>n\<close> modulo \<open>2 ^ 16\<close>.
  \<open>lw_ok d N w L R B F r\<close>: with \<open>N\<close> the number before the first packet, the window \<open>w\<close> has accepted the
  packets \<open>R\<close>, everything up to \<open>L\<close> among them; slot \<open>i\<close> stands for packet \<open>B + i\<close>; \<open>F\<close> is the packet to be
  read next, of which \<open>r\<close> bytes have been read.
\<close>

definition slot_ok :: "(nat \<Rightarrow> bytes) \<Rightarrow> nat \<Rightarrow> nat \<Rightarrow> nat \<Rightarrow> WindowPacket \<Rightarrow> bool" where
  "slot_ok d F r n p \<longleftrightarrow> wp_seq_nr p = of_nat n \<and>
     (\<forall>buf. wp_packet p = Some buf \<longrightarrow> wp_bytes_read p \<le> length buf \<and> length buf < 2 ^ 31
        \<and> drop (wp_bytes_read p) buf = (if n = F then drop r (d n) else d n))"

definition slot_rest :: "WindowPacket \<Rightarrow> nat" where
  "slot_rest p = (case wp_packet p of None \<Rightarrow> 0 | Some buf \<Rightarrow> length buf - wp_bytes_read p)"

definition pending :: "(nat \<Rightarrow> bytes) \<Rightarrow> nat \<Rightarrow> nat \<Rightarrow> nat \<Rightarrow> bytes" where
  "pending d F r L = drop r (concat (map d [F..<Suc L]))"

definition slots_ok :: "(nat \<Rightarrow> bytes) \<Rightarrow> WindowPacket list \<Rightarrow> nat set \<Rightarrow> nat \<Rightarrow> nat \<Rightarrow> nat \<Rightarrow> bool" where
  "slots_ok d ps R B F r \<longleftrightarrow> (\<forall>i < length ps. slot_ok d F r (B + i) (ps ! i)
     \<and> (wp_packet (ps ! i) \<noteq> None \<longleftrightarrow> F \<le> B + i \<and> B + i \<in> R))"

definition lw_pre :: "(nat \<Rightarrow> bytes) \<Rightarrow> nat \<Rightarrow> LocalWindow \<Rightarrow> nat \<Rightarrow> nat set \<Rightarrow> nat \<Rightarrow> nat \<Rightarrow> nat \<Rightarrow> bool" where
  "lw_pre d N w L R B F r \<longleftrightarrow> slots_ok d (lw_incoming w) R B F r
     \<and> lw_last_seq_nr w = of_nat L \<and> (lw_incoming w \<noteq> [] \<longrightarrow> lw_first_seq_nr w = of_nat F)
     \<and> N < F \<and> B \<le> F \<and> F \<le> Suc L \<and> Suc L \<le> B + length (lw_incoming w) \<and> length (lw_incoming w) < 32768
     \<and> R \<subseteq> {N<..<B + length (lw_incoming w)} \<and> {N<..L} \<subseteq> R
     \<and> r \<le> length (concat (map d [F..<Suc L])) \<and> (F \<le> L \<longrightarrow> r \<le> length (d F))
     \<and> lw_bytes_available w = length (pending d F r L)
     \<and> sum_list (map slot_rest (lw_incoming w)) \<le> lw_capacity w \<and> lw_capacity w < 2 ^ 31"

definition lw_ok :: "(nat \<Rightarrow> bytes) \<Rightarrow> nat \<Rightarrow> LocalWindow \<Rightarrow> nat \<Rightarrow> nat set \<Rightarrow> nat \<Rightarrow> nat \<Rightarrow> nat \<Rightarrow> bool" where
  "lw_ok d N w L R B F r \<longleftrightarrow> lw_pre d N w L R B F r \<and> Suc L \<notin> R
     \<and> lw_window_space w + sum_list (map slot_rest (lw_incoming w)) = lw_capacity w"

lemma slots_ok_nth:
  assumes "slots_ok d ps R B F r" "i < length ps"
  shows "wp_seq_nr (ps ! i) = of_nat (B + i)" "slot_ok d F r (B + i) (ps ! i)"
    "wp_packet (ps ! i) \<noteq> None \<longleftrightarrow> F \<le> B + i \<and> B + i \<in> R"
  using assms by (auto simp: slots_ok_def slot_ok_def)

lemma pending_Suc: "F \<le> Suc L \<Longrightarrow> r \<le> length (concat (map d [F..<Suc L])) \<Longrightarrow>
    pending d F r (Suc L) = pending d F r L @ d (Suc L)"
  by (simp add: pending_def)

lemma slot_rest_eq:
  assumes "slot_ok d F r n p" "wp_packet p = Some buf"
  shows "slot_rest p = length (if n = F then drop r (d n) else d n)" "slot_rest p < 2 ^ 31"
    "sub32 (length buf) (wp_bytes_read p) = slot_rest p"
proof -
  from assms have b: "wp_bytes_read p \<le> length buf" "length buf < 2 ^ 31"
      "drop (wp_bytes_read p) buf = (if n = F then drop r (d n) else d n)" by (auto simp: slot_ok_def)
  show "slot_rest p = length (if n = F then drop r (d n) else d n)"
    unfolding b(3)[symmetric] by (simp add: slot_rest_def assms(2))
  show "slot_rest p < 2 ^ 31" using b assms(2) by (simp add: slot_rest_def)
  show "sub32 (length buf) (wp_bytes_read p) = slot_rest p" using b assms(2) by (simp add: slot_rest_def sub32_id)
qed

text \<open>The bytes that can be read are those of the slots up to \<open>L\<close>.\<close>

lemma sum_cleared:
  assumes "slots_ok d ps R B F r" "B \<le> F"
  shows "sum_list (map slot_rest (take (F - B) ps)) = 0"
proof -
  have "slot_rest p = 0" if "p \<in> set (take (F - B) ps)" for p
  proof -
    from that obtain i where "i < length ps" "i < F - B" "p = ps ! i" by (auto simp: in_set_conv_nth)
    then show ?thesis using slots_ok_nth(3)[OF assms(1), of i] by (auto simp: slot_rest_def)
  qed
  then show ?thesis by (simp add: sum_list_eq_0_iff)
qed

lemma pending_sum:
  assumes "slots_ok d ps R B F r" "B \<le> F" "F + k \<le> B + length ps" "{F..<F + k} \<subseteq> R" "0 < k \<Longrightarrow> r \<le> length (d F)"
  shows "length (drop r (concat (map d [F..<F + k]))) = sum_list (map slot_rest (take (F + k - B) ps))"
  using assms(3,4,5)
proof (induction k)
  case 0
  then show ?case using sum_cleared[OF assms(1,2)] by simp
next
  case (Suc k)
  let ?i = "F + k - B"
  have i: "?i < length ps" "B + ?i = F + k" "F + Suc k - B = Suc ?i" using Suc.prems assms(2) by auto
  then have "wp_packet (ps ! ?i) \<noteq> None" using slots_ok_nth(3)[OF assms(1) i(1)] Suc.prems(2) by auto
  then have rest: "slot_rest (ps ! ?i) = length (if k = 0 then drop r (d (F + k)) else d (F + k))"
    using slots_ok_nth(2)[OF assms(1) i(1)] slot_rest_eq(1)[of d F r "B + ?i" "ps ! ?i"] i(2) by auto
  have IH: "length (drop r (concat (map d [F..<F + k]))) = sum_list (map slot_rest (take ?i ps))"
  proof (rule Suc.IH)
    show "{F..<F + k} \<subseteq> R" using Suc.prems(2) by (auto simp: subset_iff)
  qed (use Suc.prems in auto)
  have "r \<le> length (concat (map d [F..<F + k]))" if "0 < k"
    using Suc.prems(3) that by (simp add: upt_conv_Cons)
  then have "length (drop r (concat (map d [F..<F + Suc k])))
      = length (drop r (concat (map d [F..<F + k]))) + slot_rest (ps ! ?i)"
    using rest by (cases "k = 0") auto
  then show ?case using IH i by (simp only: i(3) take_Suc_conv_app_nth[OF i(1)]) simp
qed

lemma slots_sum_le: "sum_list (map slot_rest (take k ps)) \<le> sum_list (map slot_rest ps)"
  using sum_list_append[of "map slot_rest (take k ps)" "map slot_rest (drop k ps)"]
  by (metis append_take_drop_id le_add1 map_append)


section \<open>Placing a packet\<close>

lemma push_empties_eq:
  assumes "m \<le> n" "n - m < 32768"
  shows "push_empties (of_nat m) (of_nat n) = map (\<lambda>k. WindowPacket_empty (of_nat k)) [m..<n]"
  using assms
proof (induction "n - m" arbitrary: m)
  case 0
  then show ?case using seq_nr_order(2)[of n m] by (subst push_empties.simps) simp
next
  case (Suc k)
  then have "SeqNrCmpS (of_nat m) (of_nat n)" using seq_nr_order(2)[of n m] by simp
  moreover have "push_empties (of_nat (Suc m)) (of_nat n) = map (\<lambda>k. WindowPacket_empty (of_nat k)) [Suc m..<n]"
    using Suc by (intro Suc.hyps) auto
  ultimately show ?case using Suc.hyps(2) by (subst push_empties.simps) (simp add: upt_conv_Cons add.commute)
qed

lemma slots_ok_append:
  "slots_ok d (ps @ qs) R B F r \<longleftrightarrow> slots_ok d ps R B F r \<and> slots_ok d qs R (B + length ps) F r"
proof -
  have "(\<forall>i < length ps + length qs. P i) \<longleftrightarrow> (\<forall>i < length ps. P i) \<and> (\<forall>i < length qs. P (length ps + i))" for P
    by (metis (no_types) add_less_cancel_left le_add_diff_inverse not_le_imp_less trans_less_add1)
  then show ?thesis by (auto simp: slots_ok_def nth_append add.assoc)
qed

lemma slots_ok_insert: "slots_ok d ps R B F r \<Longrightarrow> B + length ps \<le> n \<Longrightarrow> slots_ok d ps (insert n R) B F r"
  by (auto simp: slots_ok_def)

lemma slots_ok_empties:
  "R \<inter> {m..<n} = {} \<Longrightarrow> slots_ok d (map (\<lambda>k. WindowPacket_empty (of_nat k)) [m..<n]) R m F r"
  by (auto simp: slots_ok_def slot_ok_def WindowPacket_empty_def)

lemma slots_ok_new:
  assumes "F \<le> n" "n = F \<Longrightarrow> r = 0" "data_off \<le> length pkt" "length pkt < 2 ^ 31" "drop data_off pkt = d n"
  shows "slots_ok d [WindowPacket_new (of_nat n) pkt data_off] (insert n R) n F r"
  using assms by (auto simp: slots_ok_def slot_ok_def WindowPacket_new_def)

lemma slots_ok_pushed:
  assumes ok: "slots_ok d ps R B F r" and n: "B + length ps \<le> n" "R \<subseteq> {N<..<B + length ps}"
    and p: "F \<le> n" "n = F \<Longrightarrow> r = 0" "data_off \<le> length pkt" "length pkt < 2 ^ 31" "drop data_off pkt = d n"
  defines "qs \<equiv> map (\<lambda>k. WindowPacket_empty (of_nat k)) [B + length ps..<n] @ [WindowPacket_new (of_nat n) pkt data_off]"
  shows "slots_ok d (ps @ qs) (insert n R) B F r"
    "sum_list (map slot_rest (ps @ qs)) = sum_list (map slot_rest ps) + length (d n)"
    "B + length (ps @ qs) = Suc n"
proof -
  have "slots_ok d (map (\<lambda>k. WindowPacket_empty (of_nat k)) [B + length ps..<n]) (insert n R) (B + length ps) F r"
    using n(2) by (intro slots_ok_empties) auto
  then show "slots_ok d (ps @ qs) (insert n R) B F r"
    using slots_ok_insert[OF ok n(1)] slots_ok_new[of F n r data_off pkt d R, OF p] n(1) by (simp add: qs_def slots_ok_append)
  have "slot_rest (WindowPacket_empty q) = 0" for q by (simp add: slot_rest_def WindowPacket_empty_def)
  moreover have "slot_rest (WindowPacket_new (of_nat n) pkt data_off) = length (d n)"
    using p by (simp add: slot_rest_def WindowPacket_new_def flip: p(5))
  ultimately show "sum_list (map slot_rest (ps @ qs)) = sum_list (map slot_rest ps) + length (d n)"
    by (simp add: qs_def)
  show "B + length (ps @ qs) = Suc n" using n(1) by (simp add: qs_def)
qed

lemma slots_ok_set:
  assumes ok: "slots_ok d ps R B F r" and n: "B \<le> n" "n < B + length ps" "n \<notin> R"
    and p: "F \<le> n" "n = F \<Longrightarrow> r = 0" "data_off \<le> length pkt" "length pkt < 2 ^ 31" "drop data_off pkt = d n"
  defines "qs \<equiv> ps[n - B := WindowPacket_set pkt data_off (ps ! (n - B))]"
  shows "slots_ok d qs (insert n R) B F r"
    "sum_list (map slot_rest qs) = sum_list (map slot_rest ps) + length (d n)"
proof -
  let ?p = "ps ! (n - B)"
  have i: "n - B < length ps" "B + (n - B) = n" using n by auto
  show "slots_ok d qs (insert n R) B F r"
    using ok n p i by (auto simp: slots_ok_def slot_ok_def qs_def WindowPacket_set_def nth_list_update)
  have "wp_packet ?p = None" using slots_ok_nth(3)[OF ok i(1)] i(2) n(3) by simp
  then have 0: "slot_rest ?p = 0" by (simp add: slot_rest_def)
  moreover have "slot_rest (WindowPacket_set pkt data_off ?p) = length (d n)"
    using p by (simp add: slot_rest_def WindowPacket_set_def flip: p(5))
  moreover have "?p = ps ! (n - B)" ..
  ultimately show "sum_list (map slot_rest qs) = sum_list (map slot_rest ps) + length (d n)"
    using i(1) elem_le_sum_list[of "n - B" "map slot_rest ps"] by (simp add: qs_def map_update sum_list_update)
qed

definition packet_for :: "(nat \<Rightarrow> bytes) \<Rightarrow> nat \<Rightarrow> bytes \<Rightarrow> nat \<Rightarrow> bool" where
  "packet_for d n pkt data_off \<longleftrightarrow> data_off \<le> length pkt \<and> length pkt < 2 ^ 31 \<and> drop data_off pkt = d n"

lemma lw_preD:
  assumes "lw_pre d N w L R B F r"
  shows "slots_ok d (lw_incoming w) R B F r" "lw_last_seq_nr w = of_nat L"
    "N < F" "B \<le> F" "F \<le> Suc L" "Suc L \<le> B + length (lw_incoming w)" "length (lw_incoming w) < 32768"
    "R \<subseteq> {N<..<B + length (lw_incoming w)}" "{N<..L} \<subseteq> R" "F = Suc L \<Longrightarrow> r = 0" "F \<le> L \<Longrightarrow> r \<le> length (d F)"
    "lw_bytes_available w = length (pending d F r L)" "sum_list (map slot_rest (lw_incoming w)) \<le> lw_capacity w"
    "lw_capacity w < 2 ^ 31"
  using assms by (auto simp: lw_pre_def)

lemma front_back:
  assumes "slots_ok d ps R B F r" "ps \<noteq> []"
  shows "wp_seq_nr (hd ps) = of_nat B" "wp_seq_nr (last ps) = of_nat (B + length ps - 1)"
  using slots_ok_nth(1)[OF assms(1), of 0] slots_ok_nth(1)[OF assms(1), of "length ps - 1"] assms(2)
  by (simp_all add: hd_conv_nth last_conv_nth Nat.add_diff_assoc Suc_le_eq del: of_nat_add of_nat_diff)

definition placed :: "(nat \<Rightarrow> bytes) \<Rightarrow> LocalWindow \<Rightarrow> LocalWindow \<Rightarrow> nat \<Rightarrow> nat set \<Rightarrow> nat \<Rightarrow> nat \<Rightarrow> nat \<Rightarrow> bool" where
  "placed d w w1 n R B F r \<longleftrightarrow> slots_ok d (lw_incoming w1) (insert n R) B F r
     \<and> sum_list (map slot_rest (lw_incoming w1)) = sum_list (map slot_rest (lw_incoming w)) + length (d n)
     \<and> n < B + length (lw_incoming w1) \<and> length (lw_incoming w) \<le> length (lw_incoming w1)
     \<and> length (lw_incoming w1) < 32768 \<and> lw_incoming w1 \<noteq> []
     \<and> (\<exists>ps. w1 = w\<lparr>lw_incoming := ps, lw_first_seq_nr := of_nat F\<rparr>)"

lemma place_law:
  assumes ok: "lw_ok d N w L R B F r" and n: "L < n" "n + length (lw_incoming w) < L + 32768"
    and pkt: "packet_for d n pkt data_off"
  shows "if n \<in> R then lw_place w (of_nat n) pkt data_off = Some None
    else \<exists>w1. lw_place w (of_nat n) pkt data_off = Some (Some w1) \<and> placed d w w1 n R B F r"
proof -
  let ?ps = "lw_incoming w"
  have pre: "lw_pre d N w L R B F r" using ok by (simp add: lw_ok_def)
  note I = lw_preD[OF pre]
  have first: "?ps \<noteq> [] \<Longrightarrow> lw_first_seq_nr w = of_nat F" using pre by (simp add: lw_pre_def)
  have p: "F \<le> n" "n = F \<Longrightarrow> r = 0" "data_off \<le> length pkt" "length pkt < 2 ^ 31" "drop data_off pkt = d n"
    using pkt n I(5,10) by (auto simp: packet_for_def)
  have dist: "n - B < 32767" "B \<le> n" using n(2) I(4,5,6) n(1) by auto
  show ?thesis
  proof (cases "B + length ?ps \<le> n")
    case True
    then have nR: "n \<notin> R" using I(8) by auto
    let ?qs = "map (\<lambda>k. WindowPacket_empty (of_nat k)) [B + length ?ps..<n] @ [WindowPacket_new (of_nat n) pkt data_off]"
    note P = slots_ok_pushed[OF I(1) True I(8) p]
    have push: "push_empties (of_nat (B + length ?ps)) (of_nat n)
        = map (\<lambda>k. WindowPacket_empty (of_nat k)) [B + length ?ps..<n]"
      using True dist by (intro push_empties_eq) auto
    have "lw_place w (of_nat n) pkt data_off = Some (Some (w\<lparr>lw_incoming := ?ps @ ?qs, lw_first_seq_nr := of_nat F\<rparr>))"
    proof (cases "?ps = []")
      case e: True
      then have "B = Suc L" "F = Suc L" using I(4,5,6) by auto
      then show ?thesis using push e I(2) by (simp add: lw_place_def add.commute)
    next
      case False
      then have b: "wp_seq_nr (last ?ps) = of_nat (B + length ?ps - 1)" "0 < length ?ps" using front_back(2)[OF I(1)] by auto
      then have l: "wp_seq_nr (last ?ps) + 1 = of_nat (B + length ?ps)" by (cases "length ?ps") (auto simp: add.commute)
      have "SeqNrCmpS (of_nat (B + length ?ps - 1)) (of_nat n)"
        using True dist b(2) by (subst seq_nr_order(2)) (arith, arith)
      then show ?thesis using False push l b(1) first[OF False] by (simp add: lw_place_def)
    qed
    moreover have "placed d w (w\<lparr>lw_incoming := ?ps @ ?qs, lw_first_seq_nr := of_nat F\<rparr>) n R B F r"
      using P dist unfolding placed_def by (auto simp: le_diff_conv)
    ultimately show ?thesis using nR by auto
  next
    case False
    then have ne: "?ps \<noteq> []" and in_range: "n < B + length ?ps" using dist by auto
    have nb: "\<not> SeqNrCmpS (wp_seq_nr (last ?ps)) (of_nat n)"
      unfolding front_back(2)[OF I(1) ne] using False dist I(7) by (subst seq_nr_order(2)) auto
    have off: "unat (SeqNrDiff (wp_seq_nr (hd ?ps)) (of_nat n)) = n - B"
      using seq_nr_diff[of B n] dist front_back(1)[OF I(1) ne] by simp
    have i: "n - B < length ?ps" "B + (n - B) = n" using in_range dist by auto
    have held: "wp_packet (?ps ! (n - B)) \<noteq> None \<longleftrightarrow> n \<in> R" using slots_ok_nth(3)[OF I(1) i(1)] i(2) p(1) by simp
    let ?qs = "?ps[n - B := WindowPacket_set pkt data_off (?ps ! (n - B))]"
    have "placed d w (w\<lparr>lw_incoming := ?qs, lw_first_seq_nr := of_nat F\<rparr>) n R B F r" if "n \<notin> R"
      using slots_ok_set[OF I(1) dist(2) in_range that p] in_range I(7) ne unfolding placed_def by auto
    moreover have "w\<lparr>lw_incoming := ?qs\<rparr> = w\<lparr>lw_incoming := ?qs, lw_first_seq_nr := of_nat F\<rparr>" using first[OF ne] by simp
    ultimately show ?thesis using ne nb off i held by (auto simp: lw_place_def Let_def)
  qed
qed


section \<open>Advancing the acknowledged number\<close>

lemma pending_bound:
  assumes "lw_pre d N w L R B F r" "Suc L \<in> R" "Suc L < B + length (lw_incoming w)"
  shows "length (pending d F r (Suc L)) < 2 ^ 31"
proof -
  note I = lw_preD[OF assms(1)]
  have sub: "{F..<F + (Suc (Suc L) - F)} \<subseteq> R"
  proof
    fix x assume "x \<in> {F..<F + (Suc (Suc L) - F)}"
    then have "x \<in> {N<..L} \<or> x = Suc L" using I(3,5) by auto
    then show "x \<in> R" using I(9) assms(2) by auto
  qed
  have r: "r \<le> length (d F)" using I(5,10,11) by (cases "F = Suc L") auto
  have "length (pending d F r (Suc L)) = sum_list (map slot_rest (take (F + (Suc (Suc L) - F) - B) (lw_incoming w)))"
    using pending_sum[OF I(1,4) _ sub r] I(5) assms(3) by (simp add: pending_def)
  then show ?thesis using slots_sum_le[of "F + (Suc (Suc L) - F) - B" "lw_incoming w"] I(13,14) by simp
qed

definition moved :: "LocalWindow \<Rightarrow> LocalWindow \<Rightarrow> bool" where
  \<comment> \<open>only the acknowledged number and the readable bytes may differ\<close>
  "moved w w' \<longleftrightarrow> (\<exists>a b. w' = w\<lparr>lw_bytes_available := a, lw_last_seq_nr := b\<rparr>)"

lemma lw_pre_step:
  assumes pre: "lw_pre d N w L R B F r" and ne: "lw_incoming w \<noteq> []" and more: "Suc L \<in> R"
  shows "lw_pre d N (w\<lparr>lw_bytes_available := add32 (lw_bytes_available w) (length (d (Suc L))),
       lw_last_seq_nr := of_nat (Suc L)\<rparr>) (Suc L) R B F r"
proof -
  note I = lw_preD[OF pre]
  have lt: "Suc L < B + length (lw_incoming w)" using I(8) more by auto
  have r: "r \<le> length (concat (map d [F..<Suc L]))" using pre by (simp add: lw_pre_def)
  have "length (pending d F r (Suc L)) = length (pending d F r L) + length (d (Suc L))"
    using pending_Suc[OF I(5) r] by simp
  then have "add32 (lw_bytes_available w) (length (d (Suc L))) = length (pending d F r (Suc L))"
    using pending_bound[OF pre more lt] I(12) by (simp add: add32_id)
  moreover have "{N<..Suc L} \<subseteq> R" using I(9) more by (auto simp: le_Suc_eq subset_iff)
  ultimately show ?thesis using pre lt ne r I(5,10,11)
    by (auto simp: lw_pre_def le_Suc_eq simp del: of_nat_Suc)
qed

lemma advance_law:
  assumes "lw_pre d N w L R B F r" and "lw_incoming w \<noteq> []"
  shows "\<exists>L' w'. lw_advance w (of_nat (Suc L - B)) (of_nat (Suc L)) = Some w' \<and> lw_pre d N w' L' R B F r
    \<and> L \<le> L' \<and> Suc L' \<notin> R \<and> moved w w'"
  using assms
proof (induction "B + length (lw_incoming w) - Suc L" arbitrary: w L)
  case 0
  note I = lw_preD[OF 0(2)]
  have e: "unat (of_nat (Suc L - B) :: u16) = Suc L - B" using I(6,7) 0(1) by (subst unat_of_nat16) auto
  have "Suc L \<notin> R" using I(8) 0(1) by auto
  moreover have "lw_advance w (of_nat (Suc L - B)) (of_nat (Suc L)) = Some w"
  proof -
    have "\<not> Suc L - B < length (lw_incoming w)" using 0(1) I(6) by arith
    then show ?thesis unfolding lw_advance.simps[of w] e by simp
  qed
  moreover have "moved w w" unfolding moved_def by (intro exI[of _ "lw_bytes_available w"] exI[of _ "lw_last_seq_nr w"]) simp
  ultimately show ?case using 0(2) by blast
next
  case (Suc k)
  note I = lw_preD[OF Suc.prems(1)]
  have B: "B \<le> Suc L" using I(4,5) by simp
  have e: "unat (of_nat (Suc L - B) :: u16) = Suc L - B" using I(6,7) by (subst unat_of_nat16) auto
  let ?p = "lw_incoming w ! (Suc L - B)"
  have lt: "Suc L - B < length (lw_incoming w)" "B + (Suc L - B) = Suc L" using Suc(2) B by auto
  have held: "wp_packet ?p \<noteq> None \<longleftrightarrow> Suc L \<in> R" using slots_ok_nth(3)[OF I(1) lt(1)] lt(2) I(5) by simp
  show ?case
  proof (cases "Suc L \<in> R")
    case False
    then have "lw_advance w (of_nat (Suc L - B)) (of_nat (Suc L)) = Some w"
      unfolding lw_advance.simps[of w] e using held lt by simp
    moreover have "moved w w" unfolding moved_def by (intro exI[of _ "lw_bytes_available w"] exI[of _ "lw_last_seq_nr w"]) simp
    ultimately show ?thesis using Suc.prems(1) False by blast
  next
    case True
    then obtain buf where buf: "wp_packet ?p = Some buf" using held by auto
    have "slot_rest ?p = length (d (Suc L))"
      using slot_rest_eq(1)[OF slots_ok_nth(2)[OF I(1) lt(1)] buf] lt(2) I(10) by (auto split: if_splits)
    then have rest: "sub32 (length buf) (wp_bytes_read ?p) = length (d (Suc L))"
      using slot_rest_eq(3)[OF slots_ok_nth(2)[OF I(1) lt(1)] buf] by simp
    define w1 where "w1 = w\<lparr>lw_bytes_available := add32 (lw_bytes_available w) (length (d (Suc L))),
       lw_last_seq_nr := of_nat (Suc L)\<rparr>"
    have pre1: "lw_pre d N w1 (Suc L) R B F r" unfolding w1_def by (rule lw_pre_step[OF Suc.prems True])
    have "lw_advance w (of_nat (Suc L - B)) (of_nat (Suc L)) = lw_advance w1 (of_nat (Suc L - B) + 1) (of_nat (Suc L) + 1)"
      unfolding lw_advance.simps[of w] e using lt buf rest by (simp add: w1_def)
    moreover have "(of_nat (Suc L - B) + 1 :: u16) = of_nat (Suc (Suc L) - B)" "(of_nat (Suc L) + 1 :: u16) = of_nat (Suc (Suc L))"
      using B by (simp_all add: Suc_diff_le add.commute)
    moreover have k: "k = B + length (lw_incoming w1) - Suc (Suc L)" "lw_incoming w1 \<noteq> []"
      using Suc(2) Suc.prems(2) by (auto simp: w1_def)
    moreover obtain L' w' where "lw_advance w1 (of_nat (Suc (Suc L) - B)) (of_nat (Suc (Suc L))) = Some w'"
        "lw_pre d N w' L' R B F r" "Suc L \<le> L'" "Suc L' \<notin> R" "moved w1 w'"
      using Suc.hyps(1)[OF k(1) pre1 k(2)] by blast
    moreover have "moved w w'" using \<open>moved w1 w'\<close> by (auto simp: moved_def w1_def)
    ultimately show ?thesis by (metis Suc_leD)
  qed
qed


lemma lw_pre_placed:
  assumes "lw_ok d N w L R B F r" "L < n" "placed d w w1 n R B F r" "length (d n) \<le> lw_window_space w"
  shows "lw_pre d N w1 L (insert n R) B F r"
    "lw_window_space w + sum_list (map slot_rest (lw_incoming w1)) = lw_capacity w1 + length (d n)"
proof -
  have pre: "lw_pre d N w L R B F r" and sp: "lw_window_space w + sum_list (map slot_rest (lw_incoming w)) = lw_capacity w"
    using assms(1) by (auto simp: lw_ok_def)
  note I = lw_preD[OF pre]
  obtain ps where w1: "w1 = w\<lparr>lw_incoming := ps, lw_first_seq_nr := of_nat F\<rparr>" using assms(3) by (auto simp: placed_def)
  then show "lw_window_space w + sum_list (map slot_rest (lw_incoming w1)) = lw_capacity w1 + length (d n)"
    using assms(3) sp by (simp add: placed_def)
  have "insert n R \<subseteq> {N<..<B + length ps}" using assms(2,3) I(3,5,8) w1 by (fastforce simp: placed_def)
  moreover have "{N<..L} \<subseteq> insert n R" using I(9) by auto
  ultimately show "lw_pre d N w1 L (insert n R) B F r"
    using assms(3,4) pre sp w1 by (auto simp: lw_pre_def placed_def)
qed

lemma lw_okI:
  assumes "lw_pre d N w L R B F r" "Suc L \<notin> R" "space + sum_list (map slot_rest (lw_incoming w)) = lw_capacity w + k"
    "k \<le> space" "space \<le> lw_capacity w" "lw_window_space w = space"
  shows "lw_ok d N (w\<lparr>lw_window_space := sub32 (lw_window_space w) k\<rparr>) L R B F r"
proof -
  have "sub32 space k = space - k" using assms(4,5) lw_preD(14)[OF assms(1)] by (intro sub32_id) auto
  then show ?thesis using assms by (auto simp: lw_ok_def lw_pre_def)
qed

lemma seq_nr_diff_word:
  assumes "m \<le> n" "n - m < 32768"
  shows "SeqNrDiff (of_nat m) (of_nat n) = of_nat (n - m)"
proof -
  have "unat (of_nat (n - m) :: u16) = n - m" using assms(2) by (subst unat_of_nat16) simp
  then show ?thesis unfolding word_unat_eq_iff using seq_nr_diff[OF assms] by simp
qed

lemma seq_nat_eq:
  assumes "m \<le> n" "n - m < 32768"
  shows "(of_nat n :: u16) = of_nat m \<longleftrightarrow> n = m"
  using seq_nat_ahead[OF assms] assms by auto

lemma advance_placed:
  assumes ok: "lw_ok d N w L R B F r" and n: "L < n" "n + length (lw_incoming w) < L + 32768" and h: "h_seq_nr hdr = of_nat n"
    and w1: "placed d w w1 n R B F r" and pre1: "lw_pre d N w1 L (insert n R) B F r"
  shows "\<exists>w2 L'. (if h_seq_nr hdr = lw_last_seq_nr w1 + 1 then
             let w' = w1\<lparr>lw_bytes_available := add32 (lw_bytes_available w1) (length (d n)), lw_last_seq_nr := h_seq_nr hdr\<rparr>;
                 next_seq_nr = h_seq_nr hdr + 1
             in lw_advance w' (SeqNrDiff (wp_seq_nr (hd (lw_incoming w'))) next_seq_nr) next_seq_nr
           else Some w1) = Some w2
    \<and> lw_pre d N w2 L' (insert n R) B F r \<and> L \<le> L' \<and> Suc L' \<notin> insert n R \<and> moved w1 w2"
proof -
  have pre: "lw_pre d N w L R B F r" "Suc L \<notin> R" using ok by (auto simp: lw_ok_def)
  note I = lw_preD[OF pre(1)]
  have f1: "lw_incoming w1 \<noteq> []" "lw_last_seq_nr w1 + 1 = of_nat (Suc L)" using w1 I(2) by (auto simp: placed_def)
  have moved_refl: "moved w1 w1" unfolding moved_def by (intro exI[of _ "lw_bytes_available w1"] exI[of _ "lw_last_seq_nr w1"]) simp
  have eq: "h_seq_nr hdr = lw_last_seq_nr w1 + 1 \<longleftrightarrow> n = Suc L" unfolding f1(2) h using n by (intro seq_nat_eq) auto
  show ?thesis
  proof (cases "n = Suc L")
    case False
    then show ?thesis using eq pre(2) pre1 moved_refl by auto
  next
    case True
    define w' where "w' = w1\<lparr>lw_bytes_available := add32 (lw_bytes_available w1) (length (d (Suc L))), lw_last_seq_nr := of_nat (Suc L)\<rparr>"
    have pre': "lw_pre d N w' (Suc L) (insert n R) B F r" unfolding w'_def using pre1 f1(1) True by (intro lw_pre_step) auto
    have inc: "lw_incoming w' = lw_incoming w1" "lw_incoming w' \<noteq> []" using f1(1) by (simp_all add: w'_def)
    have "Suc (Suc L) - B < 32768" "B \<le> Suc (Suc L)" using n True I(4,5,6) by auto
    then have "SeqNrDiff (wp_seq_nr (hd (lw_incoming w'))) (of_nat (Suc (Suc L))) = of_nat (Suc (Suc L) - B)"
      unfolding front_back(1)[OF lw_preD(1)[OF pre'] inc(2)] by (intro seq_nr_diff_word)
    moreover obtain L' w2 where "lw_advance w' (of_nat (Suc (Suc L) - B)) (of_nat (Suc (Suc L))) = Some w2"
        "lw_pre d N w2 L' (insert n R) B F r" "Suc L \<le> L'" "Suc L' \<notin> insert n R" "moved w' w2"
      using advance_law[OF pre' inc(2)] by blast
    moreover have "moved w1 w2" using \<open>moved w' w2\<close> by (auto simp: moved_def w'_def)
    moreover have "h_seq_nr hdr + 1 = of_nat (Suc (Suc L))" using h True by simp
    moreover have "w1\<lparr>lw_bytes_available := add32 (lw_bytes_available w1) (length (d n)), lw_last_seq_nr := h_seq_nr hdr\<rparr> = w'"
      using True h by (simp add: w'_def)
    ultimately show ?thesis using eq True by (auto simp: Let_def simp del: of_nat_Suc intro: Suc_leD)
  qed
qed

lemma packetReceived_law:
  assumes ok: "lw_ok d N w L R B F r" and n: "N < n" "n + length (lw_incoming w) < L + 32768" "L < n + 32768"
    and pkt: "packet_for d n pkt data_off" and h: "h_seq_nr hdr = of_nat n"
  shows "if n \<le> L \<or> length (d n) \<le> lw_window_space w
    then \<exists>w' L'. lw_packetReceived w hdr pkt data_off = Some (True, w') \<and> L \<le> L' \<and> lw_ok d N w' L' (insert n R) B F r
      \<and> lw_capacity w' = lw_capacity w
    else lw_packetReceived w hdr pkt data_off = Some (False, w)"
proof -
  have pre: "lw_pre d N w L R B F r" using ok by (simp add: lw_ok_def)
  note I = lw_preD[OF pre]
  have cmp: "SeqNrCmpSE (of_nat n) (of_nat L) \<longleftrightarrow> n \<le> L" using n by (intro seq_nr_order(1)) arith
  have size: "sub32 (length pkt) data_off = length (d n)" using pkt by (auto simp: packet_for_def sub32_id dest: arg_cong[where f=length])
  show ?thesis
  proof (cases "n \<le> L \<or> lw_window_space w < length (d n)")
    case True
    moreover have "insert n R = R" if "n \<le> L" using that n(1) I(9) by auto
    ultimately show ?thesis using ok cmp h size I(2) by (auto simp: lw_packetReceived_def lw_availableSpace_def Let_def)
  next
    case False
    then have nL: "L < n" and sp: "length (d n) \<le> lw_window_space w" by auto
    note P = place_law[OF ok nL n(2) pkt]
    show ?thesis
    proof (cases "n \<in> R")
      case True
      then show ?thesis using P False ok cmp h size I(2)
        by (auto simp: lw_packetReceived_def lw_availableSpace_def Let_def insert_absorb)
    next
      case new: False
      then obtain w1 where w1: "lw_place w (of_nat n) pkt data_off = Some (Some w1)" "placed d w w1 n R B F r"
        using P by auto
      note pre1 = lw_pre_placed[OF ok nL w1(2) sp]
      have f1: "lw_window_space w1 = lw_window_space w" "lw_capacity w1 = lw_capacity w" "lw_incoming w1 \<noteq> []"
          "lw_last_seq_nr w1 = of_nat L"
        using w1(2) I(2) by (auto simp: placed_def)
      have cap: "lw_window_space w \<le> lw_capacity w" using ok by (auto simp: lw_ok_def)
      obtain w2 L' where w2: "(if h_seq_nr hdr = lw_last_seq_nr w1 + 1 then
             let w' = w1\<lparr>lw_bytes_available := add32 (lw_bytes_available w1) (length (d n)), lw_last_seq_nr := h_seq_nr hdr\<rparr>;
                 next_seq_nr = h_seq_nr hdr + 1
             in lw_advance w' (SeqNrDiff (wp_seq_nr (hd (lw_incoming w'))) next_seq_nr) next_seq_nr
           else Some w1) = Some w2" "lw_pre d N w2 L' (insert n R) B F r" "L \<le> L'" "Suc L' \<notin> insert n R" "moved w1 w2"
        using advance_placed[OF ok nL n(2) h w1(2) pre1(1)] by blast
      have "lw_ok d N (w2\<lparr>lw_window_space := sub32 (lw_window_space w2) (length (d n))\<rparr>) L' (insert n R) B F r"
        using w2(2,4,5) pre1(2) f1 cap sp by (intro lw_okI[where space = "lw_window_space w"]) (auto simp: moved_def)
      moreover have "lw_capacity w2 = lw_capacity w" using w2(5) f1(2) by (auto simp: moved_def)
      ultimately show ?thesis using w1(1) w2(1,3) False cmp h size I(2)
        by (auto simp: lw_packetReceived_def lw_availableSpace_def Let_def)
    qed
  qed
qed


section \<open>Reading\<close>

lemma WindowPacket_read_law:
  assumes ok: "slot_ok d F r F p" and p: "wp_packet p \<noteq> None" and r: "r \<le> length (d F)" and m: "m < 2 ^ 32"
  defines "k \<equiv> min (length (d F) - r) m"
  shows "\<exists>p'. WindowPacket_read p m = Some (take m (drop r (d F)), p') \<and> slot_ok d F (r + k) F p'
    \<and> wp_packet p' = wp_packet p \<and> fullyRead p' = Some (length (d F) - r \<le> m) \<and> slot_rest p' + k = slot_rest p
    \<and> k \<le> length (d F) - r \<and> slot_rest p < 2 ^ 31"
proof -
  obtain buf where buf: "wp_packet p = Some buf" using p by auto
  then have b: "wp_bytes_read p \<le> length buf" "length buf < 2 ^ 31" "drop (wp_bytes_read p) buf = drop r (d F)"
    using ok by (auto simp: slot_ok_def)
  have l: "length buf - wp_bytes_read p = length (d F) - r" using arg_cong[OF b(3), of length] by simp
  have s: "sub32 (length buf) (wp_bytes_read p) = length (d F) - r" using b l by (simp add: sub32_id)
  let ?p = "p\<lparr>wp_bytes_read := wp_bytes_read p + k\<rparr>"
  have "k \<le> length buf - wp_bytes_read p" by (simp add: k_def l)
  then have k: "wp_bytes_read p + k \<le> length buf" using b(1) by simp
  have t: "take m (drop r (d F)) = take k (drop (wp_bytes_read p) buf)" by (simp add: k_def b(3) min_def)
  have rd: "WindowPacket_read p m = Some (take m (drop r (d F)), ?p)"
    using buf k b by (auto simp: WindowPacket_read_def s Let_def mem_read_def add32_id t simp flip: k_def)
  have ok': "slot_ok d F (r + k) F ?p"
  proof -
    have "drop (wp_bytes_read p + k) buf = drop (r + k) (d F)"
      using arg_cong[OF b(3), of "drop k"] by (simp add: add.commute)
    then show ?thesis using ok buf k b(2) by (auto simp: slot_ok_def)
  qed
  have full: "fullyRead ?p = Some (length (d F) - r \<le> m)" using buf b(1) l by (auto simp: fullyRead_def k_def min_def)
  have rest: "slot_rest ?p + k = slot_rest p" "slot_rest p < 2 ^ 31" using buf k b(2) by (auto simp: slot_rest_def)
  show ?thesis using rd ok' full rest by (intro exI[of _ ?p]) (auto simp: k_def)
qed

lemma slots_ok_read:
  assumes "slots_ok d ps R B F r" "B \<le> F" "F - B < length ps" "slot_ok d F r' F p'" "wp_packet p' = wp_packet (ps ! (F - B))"
  shows "slots_ok d (ps[F - B := p']) R B F r'"
  using assms unfolding slots_ok_def by (auto simp: nth_list_update slot_ok_def)

lemma slots_ok_clear:
  assumes "slots_ok d ps R B F r" "B \<le> F" "F - B < length ps"
  shows "slots_ok d (ps[F - B := (ps ! (F - B))\<lparr>wp_packet := None\<rparr>]) R B (Suc F) 0"
  using assms unfolding slots_ok_def by (auto simp: nth_list_update slot_ok_def)

lemma sum_update:
  assumes "i < length ps" "slot_rest p' + k = slot_rest (ps ! i)"
  shows "sum_list (map slot_rest (ps[i := p'])) + k = sum_list (map slot_rest ps)"
  using assms elem_le_sum_list[of i "map slot_rest ps"] by (simp add: map_update sum_list_update)

lemma pending_split:
  assumes "F \<le> L" "r \<le> length (d F)"
  shows "pending d F r L = drop r (d F) @ concat (map d [Suc F..<Suc L])"
  using assms by (simp add: pending_def upt_conv_Cons del: upt_Suc)

lemma pending_shift: "pending d F (r + k) L = drop k (pending d F r L)"
  by (simp add: pending_def add.commute)

lemma lw_pre_avail_bound:
  assumes "lw_pre d N w L R B F r"
  shows "length (pending d F r L) < 2 ^ 31" "length (pending d F r L) \<le> sum_list (map slot_rest (lw_incoming w))"
proof -
  note I = lw_preD[OF assms]
  have "{F..<F + (Suc L - F)} \<subseteq> R" using I(3,5,9) by auto
  moreover have "r \<le> length (d F)" if "0 < Suc L - F" using that I(11) by auto
  ultimately have "length (pending d F r L) = sum_list (map slot_rest (take (F + (Suc L - F) - B) (lw_incoming w)))"
    using pending_sum[OF I(1,4), of "Suc L - F"] I(5,6) by (simp add: pending_def)
  then show "length (pending d F r L) \<le> sum_list (map slot_rest (lw_incoming w))" by (simp add: slots_sum_le)
  then show "length (pending d F r L) < 2 ^ 31" using I(13,14) by simp
qed

lemma slot_readable_iff:
  assumes ok: "lw_ok d N w L R B F r"
  shows "slot_readable w (of_nat (F - B)) \<longleftrightarrow> F \<le> L" "unat (of_nat (F - B) :: u16) = F - B"
proof -
  have pre: "lw_pre d N w L R B F r" "Suc L \<notin> R" using ok by (auto simp: lw_ok_def)
  note I = lw_preD[OF pre(1)]
  show u: "unat (of_nat (F - B) :: u16) = F - B" using I(5,6,7) by (subst unat_of_nat16) auto
  show "slot_readable w (of_nat (F - B)) \<longleftrightarrow> F \<le> L"
  proof (cases "F \<le> L")
    case True
    then have i: "F - B < length (lw_incoming w)" "B + (F - B) = F" using I(4,6) by auto
    have "F \<in> R" using True I(3,9) by auto
    moreover have "SeqNrCmpSE (of_nat F) (of_nat L)" using True I(4,6,7) by (subst seq_nr_order(1)) auto
    ultimately show ?thesis using True i slots_ok_nth(1,3)[OF I(1) i(1)] I(2)
      unfolding slot_readable_def u by simp
  next
    case False
    then have "F = Suc L" using I(5) by simp
    then show ?thesis using slots_ok_nth(3)[OF I(1), of "F - B"] I(4) pre(2)
      unfolding slot_readable_def u by auto
  qed
qed

text \<open>One round of the loop: the bookkeeping after the bytes of a packet were copied.\<close>

lemma lw_take_ok:
  assumes ok: "lw_ok d N w L R B F r" and F: "F \<le> L"
    and p': "slot_ok d F (r + k) F p'" "wp_packet p' = wp_packet (lw_incoming w ! (F - B))"
      "slot_rest p' + k = slot_rest (lw_incoming w ! (F - B))" "k \<le> length (d F) - r"
  shows "lw_ok d N (lw_take w (of_nat (F - B)) p' k) L R B F (r + k)"
proof -
  have pre: "lw_pre d N w L R B F r" using ok by (simp add: lw_ok_def)
  note I = lw_preD[OF pre]
  have i: "F - B < length (lw_incoming w)" using F I(4,6) by auto
  have rk: "r + k \<le> length (d F)" using p'(4) I(11)[OF F] by simp
  have sum: "sum_list (map slot_rest ((lw_incoming w)[F - B := p'])) + k = sum_list (map slot_rest (lw_incoming w))"
    using i p'(3) by (rule sum_update)
  have sp: "lw_window_space w + sum_list (map slot_rest (lw_incoming w)) = lw_capacity w" using ok by (simp add: lw_ok_def)
  then have sp': "add32 (lw_window_space w) k = lw_window_space w + k" using sum I(14) by (intro add32_id) simp
  have len: "length (pending d F (r + k) L) = length (pending d F r L) - k" by (simp add: pending_shift)
  have "k \<le> length (pending d F r L)" using p'(4) by (simp add: pending_split[of F L r d, OF F I(11)[OF F]])
  then have av: "sub32 (lw_bytes_available w) k = length (pending d F (r + k) L)"
    using lw_pre_avail_bound(1)[OF pre] I(12) len by (simp add: sub32_id)
  have cc: "r + k \<le> length (concat (map d [F..<Suc L]))" using F rk by (simp add: upt_conv_Cons del: upt_Suc)
  show ?thesis
    using ok slots_ok_read[OF I(1,4) i p'(1,2)] sum sp sp' av rk cc i
    unfolding lw_take_def slot_readable_iff(2)[OF ok] by (auto simp: lw_ok_def lw_pre_def)
qed

lemma lw_release_ok:
  assumes ok: "lw_ok d N w L R B F r" and F: "F \<le> L" and r: "r = length (d F)"
  shows "lw_ok d N (lw_release w (of_nat (F - B)) (lw_incoming w ! (F - B))) L R B (Suc F) 0"
    "pending d (Suc F) 0 L = pending d F r L"
proof -
  have pre: "lw_pre d N w L R B F r" using ok by (simp add: lw_ok_def)
  note I = lw_preD[OF pre]
  have i: "F - B < length (lw_incoming w)" "B + (F - B) = F" using F I(4,6) by auto
  let ?p = "lw_incoming w ! (F - B)"
  have "F \<in> R" using F I(3,9) by auto
  then obtain buf where "wp_packet ?p = Some buf" using slots_ok_nth(3)[OF I(1) i(1)] i(2) by auto
  then have "slot_rest ?p = 0" using slot_rest_eq(1)[OF slots_ok_nth(2)[OF I(1) i(1)], of buf] i(2) r by simp
  then have sum: "sum_list (map slot_rest ((lw_incoming w)[F - B := ?p\<lparr>wp_packet := None\<rparr>])) = sum_list (map slot_rest (lw_incoming w))"
    using sum_update[OF i(1), of "?p\<lparr>wp_packet := None\<rparr>" 0] by (simp add: slot_rest_def)
  show p: "pending d (Suc F) 0 L = pending d F r L" using pending_split[of F L r d] F r by (simp add: pending_def)
  have "lw_first_seq_nr w + 1 = of_nat (Suc F)" using pre i(1) by (auto simp: lw_pre_def)
  then show "lw_ok d N (lw_release w (of_nat (F - B)) ?p) L R B (Suc F) 0"
    using ok slots_ok_clear[OF I(1,4) i(1)] sum p F
    unfolding lw_release_def slot_readable_iff(2)[OF ok] by (auto simp: lw_ok_def lw_pre_def)
qed


lemma read_round:
  assumes ok: "lw_ok d N w L R B F r" and F: "F \<le> L" and m: "length out < m" "m < 2 ^ 32"
  shows "if length (d F) - r \<le> m - length out
    then \<exists>w'. lw_read_loop w (of_nat (F - B)) out m = lw_read_loop w' (of_nat (Suc F - B)) (out @ drop r (d F)) m
      \<and> lw_ok d N w' L R B (Suc F) 0 \<and> length (lw_incoming w') = length (lw_incoming w)
      \<and> pending d F r L = drop r (d F) @ pending d (Suc F) 0 L
    else \<exists>w'. lw_read_loop w (of_nat (F - B)) out m = Some (out @ take (m - length out) (drop r (d F)), w')
      \<and> lw_ok d N w' L R B F (r + (m - length out)) \<and> length (lw_incoming w') = length (lw_incoming w)"
proof -
  have pre: "lw_pre d N w L R B F r" using ok by (simp add: lw_ok_def)
  note I = lw_preD[OF pre]
  have i: "F - B < length (lw_incoming w)" "B + (F - B) = F" using F I(4,6) by auto
  have u: "unat (of_nat (F - B) :: u16) = F - B" by (rule slot_readable_iff(2)[OF ok])
  let ?p = "lw_incoming w ! (F - B)" and ?m = "m - length out" and ?off = "of_nat (F - B) :: u16"
  let ?k = "min (length (d F) - r) ?m"
  have m': "sub32 m (length out) = ?m" using m by (simp add: sub32_id)
  have "F \<in> R" using F I(3,9) by auto
  then have ne: "wp_packet ?p \<noteq> None" using slots_ok_nth(3)[OF I(1) i(1)] i(2) by auto
  have sl: "slot_ok d F r F ?p" using slots_ok_nth(2)[OF I(1) i(1)] i(2) by simp
  obtain p' where p': "WindowPacket_read ?p ?m = Some (take ?m (drop r (d F)), p')" "slot_ok d F (r + ?k) F p'"
      "wp_packet p' = wp_packet ?p" "fullyRead p' = Some (length (d F) - r \<le> ?m)" "slot_rest p' + ?k = slot_rest ?p"
      "?k \<le> length (d F) - r"
    using WindowPacket_read_law[of d F r ?p ?m, OF sl ne I(11)[OF F]] m(2) less_imp_diff_less[of m "2 ^ 32" "length out"] by blast
  let ?w1 = "lw_take w ?off p' ?k"
  have ok1: "lw_ok d N ?w1 L R B F (r + ?k)" by (rule lw_take_ok[OF ok F p'(2,3,5,6)])
  have k: "length (take ?m (drop r (d F))) = ?k" by simp
  have inc1: "lw_incoming ?w1 ! (F - B) = p'" "length (lw_incoming ?w1) = length (lw_incoming w)"
    using i(1) unfolding lw_take_def u by simp_all
  have loop: "lw_read_loop w ?off out m = (if length (d F) - r \<le> ?m
      then lw_read_loop (lw_release ?w1 ?off p') (?off + 1) (out @ take ?m (drop r (d F))) m
      else Some (out @ take ?m (drop r (d F)), ?w1))"
    unfolding lw_read_loop.simps[of w] u m' p'(1) using slot_readable_iff(1)[OF ok] F m(1) p'(4) k by simp
  show ?thesis
  proof (cases "length (d F) - r \<le> ?m")
    case True
    then have kk: "r + ?k = length (d F)" "take ?m (drop r (d F)) = drop r (d F)" using I(11)[OF F] by auto
    have off: "?off + 1 = of_nat (Suc F - B)" using I(4) by (simp add: Suc_diff_le add.commute)
    note rel = lw_release_ok[OF ok1 F kk(1), unfolded inc1(1)]
    have "pending d F r L = drop r (d F) @ pending d (Suc F) 0 L"
      using pending_split[of F L r d, OF F I(11)[OF F]] by (simp add: pending_def)
    moreover have "length (lw_incoming (lw_release ?w1 ?off p')) = length (lw_incoming w)"
      using inc1(2) by (simp add: lw_release_def)
    ultimately show ?thesis using loop True rel(1) kk(2) off by (intro if_P[THEN iffD2] exI[of _ "lw_release ?w1 ?off p'"]) auto
  next
    case False
    then have "?k = ?m" by simp
    then show ?thesis using loop False ok1 inc1(2) by (auto simp: min_def)
  qed
qed

lemma read_loop_law:
  assumes "lw_ok d N w L R B F r" and "m < 2 ^ 32" and "length out \<le> m"
  shows "\<exists>w' F' r'. lw_read_loop w (of_nat (F - B)) out m = Some (out @ take (m - length out) (pending d F r L), w')
    \<and> lw_ok d N w' L R B F' r' \<and> F \<le> F' \<and> length (lw_incoming w') = length (lw_incoming w)
    \<and> pending d F' r' L = drop (m - length out) (pending d F r L)"
  using assms
proof (induction "Suc L - F" arbitrary: w F r out)
  case 0
  have ok: "lw_ok d N w L R B F r" by fact
  have "\<not> F \<le> L" using 0(1) by simp
  then have "lw_read_loop w (of_nat (F - B)) out m = Some (out, w)" "pending d F r L = []"
    using slot_readable_iff(1)[OF ok] by (auto simp: lw_read_loop.simps[of w] pending_def)
  then show ?case using ok by (intro exI[of _ w] exI[of _ F] exI[of _ r]) simp
next
  case (Suc k)
  have ok: "lw_ok d N w L R B F r" by fact
  have F: "F \<le> L" using Suc.hyps(2) by simp
  have r: "r \<le> length (d F)" using ok F lw_preD(11) by (auto simp: lw_ok_def)
  show ?case
  proof (cases "length out < m")
    case False
    then have "lw_read_loop w (of_nat (F - B)) out m = Some (out, w)" by (simp add: lw_read_loop.simps[of w])
    then show ?thesis using ok False Suc.prems(3) by (intro exI[of _ w] exI[of _ F] exI[of _ r]) simp
  next
    case lt: True
    note rr = read_round[OF ok F lt Suc.prems(2)]
    show ?thesis
    proof (cases "length (d F) - r \<le> m - length out")
      case True
      then obtain w' where w': "lw_read_loop w (of_nat (F - B)) out m = lw_read_loop w' (of_nat (Suc F - B)) (out @ drop r (d F)) m"
          "lw_ok d N w' L R B (Suc F) 0" "length (lw_incoming w') = length (lw_incoming w)"
          "pending d F r L = drop r (d F) @ pending d (Suc F) 0 L" using rr by auto
      have "k = Suc L - Suc F" "length (out @ drop r (d F)) \<le> m" using Suc.hyps(2) True lt by auto
      from Suc.hyps(1)[OF this(1) w'(2) Suc.prems(2) this(2)] obtain w2 F' r' where
          w2: "lw_read_loop w' (of_nat (Suc F - B)) (out @ drop r (d F)) m
             = Some ((out @ drop r (d F)) @ take (m - length (out @ drop r (d F))) (pending d (Suc F) 0 L), w2)"
          "lw_ok d N w2 L R B F' r'" "Suc F \<le> F'" "length (lw_incoming w2) = length (lw_incoming w')"
          "pending d F' r' L = drop (m - length (out @ drop r (d F))) (pending d (Suc F) 0 L)" by blast
      have "take (m - length out) (pending d F r L) = drop r (d F) @ take (m - length (out @ drop r (d F))) (pending d (Suc F) 0 L)"
          "drop (m - length out) (pending d F r L) = drop (m - length (out @ drop r (d F))) (pending d (Suc F) 0 L)"
        using True by (simp_all add: w'(4))
      then show ?thesis using w2 w'(1,3) by (intro exI[of _ w2] exI[of _ F'] exI[of _ r']) simp
    next
      case False
      then obtain w' where w': "lw_read_loop w (of_nat (F - B)) out m = Some (out @ take (m - length out) (drop r (d F)), w')"
          "lw_ok d N w' L R B F (r + (m - length out))" "length (lw_incoming w') = length (lw_incoming w)"
        using rr by auto
      moreover have "take (m - length out) (pending d F r L) = take (m - length out) (drop r (d F))"
        using False by (simp add: pending_split[of F L r d, OF F r])
      ultimately show ?thesis by (intro exI[of _ w'] exI[of _ F] exI[of _ "r + (m - length out)"]) (simp add: pending_shift)
    qed
  qed
qed

lemma lw_ok_erase:
  assumes ok: "lw_ok d N w L R B F r"
  shows "lw_ok d N (w\<lparr>lw_incoming := drop (F - B) (lw_incoming w)\<rparr>) L R F F r"
proof -
  have pre: "lw_pre d N w L R B F r" using ok by (simp add: lw_ok_def)
  note I = lw_preD[OF pre]
  let ?q = "drop (F - B) (lw_incoming w)"
  have sp: "take (F - B) (lw_incoming w) @ ?q = lw_incoming w" by simp
  have len: "length (take (F - B) (lw_incoming w)) = F - B" using I(5,6) by simp
  have ok': "slots_ok d ?q R F F r"
    using I(1,4) slots_ok_append[of d "take (F - B) (lw_incoming w)" ?q R B F r] len by simp
  have "sum_list (map slot_rest (lw_incoming w)) = sum_list (map slot_rest ?q)"
    using sum_cleared[OF I(1,4)] by (metis sp add_0 map_append sum_list_append)
  moreover have "F + length ?q = B + length (lw_incoming w)" using I(4,5,6) by simp
  moreover have "?q \<noteq> [] \<Longrightarrow> lw_incoming w \<noteq> []" by auto
  ultimately show ?thesis using ok ok' by (auto simp: lw_ok_def lw_pre_def)
qed

lemma lw_read_law:
  assumes ok: "lw_ok d N w L R B F r" and ne: "lw_incoming w \<noteq> []" and m: "m < 2 ^ 32"
  shows "\<exists>w' B' F' r'. lw_read w m = Some (take m (pending d F r L), w') \<and> lw_ok d N w' L R B' F' r'
    \<and> pending d F' r' L = drop m (pending d F r L)"
proof -
  have pre: "lw_pre d N w L R B F r" using ok by (simp add: lw_ok_def)
  note I = lw_preD[OF pre]
  have first: "lw_first_seq_nr w = of_nat F" using pre ne by (simp add: lw_pre_def)
  have off: "SeqNrDiff (wp_seq_nr (hd (lw_incoming w))) (lw_first_seq_nr w) = of_nat (F - B)"
    unfolding first front_back(1)[OF I(1) ne] using I(4,5,6,7) by (intro seq_nr_diff_word) auto
  obtain w' F' r' where w': "lw_read_loop w (of_nat (F - B)) [] m = Some (take m (pending d F r L), w')"
      "lw_ok d N w' L R B F' r'" "F \<le> F'" "length (lw_incoming w') = length (lw_incoming w)"
      "pending d F' r' L = drop m (pending d F r L)"
    using read_loop_law[OF ok m, of "[]"] by auto
  have pre': "lw_pre d N w' L R B F' r'" using w'(2) by (simp add: lw_ok_def)
  note I' = lw_preD[OF pre']
  have ne': "lw_incoming w' \<noteq> []" using w'(4) ne by auto
  have first': "lw_first_seq_nr w' = of_nat F'" using pre' ne' by (simp add: lw_pre_def)
  have off': "unat (SeqNrDiff (wp_seq_nr (hd (lw_incoming w'))) (lw_first_seq_nr w')) = F' - B"
    unfolding first' front_back(1)[OF I'(1) ne'] using I'(4,5,6,7) by (intro seq_nr_diff) auto
  have le: "F' - B \<le> length (lw_incoming w')" using I'(5,6) by simp
  have "lw_read w m = Some (take m (pending d F r L),
      if 20 < F' - B then w'\<lparr>lw_incoming := drop (F' - B) (lw_incoming w')\<rparr> else w')"
    using ne off w'(1) off' le by (cases "lw_incoming w") (auto simp: lw_read_def Let_def)
  then show ?thesis using w'(2,5) lw_ok_erase[OF w'(2)] by (cases "20 < F' - B") auto
qed


section \<open>Selective acknowledgements\<close>

lemma dropWhile_at:
  assumes "\<And>i. i < length ps \<Longrightarrow> P (ps ! i) \<longleftrightarrow> i < k"
  shows "dropWhile P ps = drop k ps"
proof -
  have 1: "dropWhile P ps = dropWhile P (drop k ps)"
  proof -
    have "P x" if "x \<in> set (take k ps)" for x using that assms by (auto simp: in_set_conv_nth)
    then show ?thesis using dropWhile_append2[of "take k ps" P "drop k ps"] by simp
  qed
  show ?thesis
  proof (cases "k < length ps")
    case True
    then have "drop k ps = ps ! k # drop (Suc k) ps" by (rule Cons_nth_drop_Suc[symmetric])
    then show ?thesis using 1 assms[OF True] by simp
  qed (use 1 in simp)
qed

lemma upper_bound_law:
  assumes ok: "lw_ok d N w L R B F r"
  shows "upper_bound (lw_incoming w) (lw_last_seq_nr w + 1) = drop (Suc (Suc L) - B) (lw_incoming w)"
proof -
  have pre: "lw_pre d N w L R B F r" using ok by (simp add: lw_ok_def)
  note I = lw_preD[OF pre]
  show ?thesis unfolding upper_bound_def
  proof (rule dropWhile_at)
    fix i assume i: "i < length (lw_incoming w)"
    have "SeqNrCmpS (of_nat (Suc L)) (of_nat (B + i)) \<longleftrightarrow> Suc L < B + i" using i I(4,5,6,7) by (intro seq_nr_order(2)) arith
    then show "(\<not> SeqNrCmpS (lw_last_seq_nr w + 1) (wp_seq_nr (lw_incoming w ! i))) = (i < Suc (Suc L) - B)"
      using slots_ok_nth(1)[OF I(1) i] I(2) by (auto simp: add.commute)
  qed
qed

lemma fill_loop_law:
  assumes "slots_ok d ps R C F r" "F \<le> C" "L < C" "C + length ps \<le> L + 32768" "sack_wf s"
  shows "\<exists>s'. fill_loop (of_nat L) ps s = Some s' \<and> sack_wf s' \<and> sk_length s' = sk_length s
    \<and> (\<forall>k. sack_bit s' k \<longleftrightarrow> sack_bit s k \<or> 2 \<le> k \<and> k < 8 * unat (sk_length s) + 2 \<and> C \<le> L + k \<and> L + k < C + length ps \<and> L + k \<in> R)"
  using assms
proof (induction ps arbitrary: C s)
  case Nil
  then show ?case by auto
next
  case (Cons p ps)
  have p: "wp_seq_nr p = of_nat C" "wp_packet p \<noteq> None \<longleftrightarrow> C \<in> R"
    using slots_ok_nth(1,3)[OF Cons.prems(1), of 0] Cons.prems(2) by auto
  have ps: "slots_ok d ps R (Suc C) F r" using Cons.prems(1) slots_ok_append[of d "[p]" ps R C F r] by simp
  have diff: "unat (SeqNrDiff (of_nat L) (of_nat C)) = C - L" using Cons.prems(3,4) by (intro seq_nr_diff) auto
  obtain s1 where s1: "(if wp_packet p \<noteq> None then Ack s (SeqNrDiff (of_nat L) (wp_seq_nr p)) else Some s) = Some s1"
      "sack_wf s1" "sk_length s1 = sk_length s"
      "\<And>k. sack_bit s1 k \<longleftrightarrow> sack_bit s k \<or> k = C - L \<and> C \<in> R \<and> 2 \<le> k \<and> k < 8 * unat (sk_length s) + 2"
  proof (cases "C \<in> R")
    case True
    obtain s1 where "Ack s (SeqNrDiff (of_nat L) (of_nat C)) = Some s1" "sack_wf s1" "sk_length s1 = sk_length s"
        "\<And>k. sack_bit s1 k \<longleftrightarrow> sack_bit s k \<or> k = C - L \<and> 2 \<le> k \<and> k < 8 * unat (sk_length s) + 2"
      using Ack_law[OF Cons.prems(5), of "SeqNrDiff (of_nat L) (of_nat C)"] unfolding diff by blast
    then show ?thesis by (intro that[of s1]) (use p True in simp_all)
  next
    case False
    then show ?thesis by (intro that[of s]) (use p Cons.prems(5) in simp_all)
  qed
  obtain s' where s': "fill_loop (of_nat L) ps s1 = Some s'" "sack_wf s'" "sk_length s' = sk_length s1"
      "\<And>k. sack_bit s' k \<longleftrightarrow> sack_bit s1 k \<or> 2 \<le> k \<and> k < 8 * unat (sk_length s1) + 2 \<and> Suc C \<le> L + k \<and> L + k < Suc C + length ps \<and> L + k \<in> R"
  proof -
    have "F \<le> Suc C" "L < Suc C" "Suc C + length ps \<le> L + 32768" using Cons.prems(2,3,4) by simp_all
    from Cons.IH[OF ps this s1(2)] show ?thesis using that by blast
  qed
  have at: "k = C - L \<longleftrightarrow> L + k = C" for k using Cons.prems(3) by auto
  have bits: "sack_bit s' k \<longleftrightarrow> sack_bit s k \<or> 2 \<le> k \<and> k < 8 * unat (sk_length s) + 2 \<and> C \<le> L + k
      \<and> L + k < C + length (p # ps) \<and> L + k \<in> R" for k
    unfolding s'(4) s1(3) s1(4) at by (cases "L + k = C") (auto simp: Suc_le_eq order.order_iff_strict)
  show ?case
  proof (intro exI[of _ s'] conjI allI)
    show "fill_loop (of_nat L) (p # ps) s = Some s'" using s1(1) s'(1) by simp
    show "sack_wf s'" "sk_length s' = sk_length s" using s1(3) s'(2,3) by simp_all
  qed (rule bits)
qed

lemma fillSelectiveAck_law:
  assumes ok: "lw_ok d N w L R B F r" and s: "sack_wf s"
  shows "\<exists>s'. fillSelectiveAck w s = Some s' \<and> sack_wf s' \<and> sk_length s' = sk_length s
    \<and> (\<forall>k. sack_bit s' k \<longleftrightarrow> 2 \<le> k \<and> k < 8 * unat (sk_length s) + 2 \<and> L + k \<in> R)"
proof -
  have pre: "lw_pre d N w L R B F r" "Suc L \<notin> R" using ok by (auto simp: lw_ok_def)
  note I = lw_preD[OF pre(1)]
  let ?k = "Suc (Suc L) - B" and ?s = "s\<lparr>sk_bitmask := replicate (unat (sk_length s)) 0\<rparr>"
  have wf: "sack_wf ?s" "\<not> sack_bit ?s k" for k by (auto simp: sack_wf_def sack_bit_def)
  have ms: "memcpy_at (sk_bitmask s) 0 (replicate (unat (sk_length s)) 0) = Some (replicate (unat (sk_length s)) 0)"
    using s by (intro memcpy_at_full) (simp add: sack_wf_def)
  have start: "fillSelectiveAck w s = fill_loop (of_nat L) (drop ?k (lw_incoming w)) ?s"
    unfolding fillSelectiveAck_def upper_bound_law[OF ok] ms by (simp add: I(2))
  show ?thesis
  proof (cases "?k \<le> length (lw_incoming w)")
    case False
    then have "R \<inter> {Suc (Suc L)..} = {}" using I(8) by (fastforce simp: subset_iff)
    then show ?thesis using start wf False by (auto simp: disjoint_iff)
  next
    case True
    have "slots_ok d (drop ?k (lw_incoming w)) R (B + ?k) F r"
      using I(1) slots_ok_append[of d "take ?k (lw_incoming w)" "drop ?k (lw_incoming w)" R B F r] True by simp
    moreover have e: "B + ?k = Suc (Suc L)" using I(4,5) by simp
    ultimately have sl: "slots_ok d (drop ?k (lw_incoming w)) R (Suc (Suc L)) F r" by simp
    have len: "Suc (Suc L) + length (drop ?k (lw_incoming w)) = B + length (lw_incoming w)" using True e by simp
    have "F \<le> Suc (Suc L)" "L < Suc (Suc L)" "Suc (Suc L) + length (drop ?k (lw_incoming w)) \<le> L + 32768"
      unfolding len using I(4,5,7) by simp_all
    from fill_loop_law[OF sl this wf(1)] obtain s' where
        "fill_loop (of_nat L) (drop ?k (lw_incoming w)) ?s = Some s'" "sack_wf s'" "sk_length s' = sk_length s"
        "\<And>k. sack_bit s' k \<longleftrightarrow> 2 \<le> k \<and> k < 8 * unat (sk_length s) + 2 \<and> Suc (Suc L) \<le> L + k
          \<and> L + k < B + length (lw_incoming w) \<and> L + k \<in> R"
      unfolding len using wf(2) by auto
    then show ?thesis using start I(8) by auto
  qed
qed

lemma selectiveAckBits_law:
  assumes ok: "lw_ok d N w L R B F r"
  shows "selectiveAckBits w = B + length (lw_incoming w) - 2 - L"
proof -
  have pre: "lw_pre d N w L R B F r" using ok by (simp add: lw_ok_def)
  note I = lw_preD[OF pre]
  let ?e = "B + length (lw_incoming w) - 1"
  show ?thesis
  proof (cases "lw_incoming w = []")
    case False
    then have e: "L \<le> ?e" "?e - L < 32768" using I(4,5,6,7) by auto
    have "SeqNrCmpS (of_nat L) (of_nat ?e) \<longleftrightarrow> L < ?e" using e by (intro seq_nr_order(2)) arith
    moreover have "sub32 (?e - L) 1 = ?e - L - 1" if "L < ?e" using that e by (intro sub32_id) auto
    ultimately show ?thesis
      using False seq_nr_diff[OF e] unfolding selectiveAckBits_def I(2) front_back(2)[OF I(1) False] by auto
  qed (use I(4,5,6) in \<open>simp add: selectiveAckBits_def\<close>)
qed


section \<open>All histories\<close>

text \<open>
  \<open>lw_run d N cap w L R out\<close>: a window of capacity \<open>cap\<close>, started at sequence number \<open>N\<close>, reaches the state
  \<open>w\<close> when packets of the stream \<open>d\<close> arrive in any order and any number of times and the application reads
  in between. \<open>L\<close> is the packet number that \<open>last_seq_nr\<close> stands for, \<open>R\<close> the packets that were accepted and
  \<open>out\<close> everything that was read. A packet is at most 32767 packets older than \<open>L\<close>, and less than 32768
  packets, counted with the slots in use, ahead of it: beyond that the 16-bit numbers are ambiguous.
\<close>

inductive lw_run :: "(nat \<Rightarrow> bytes) \<Rightarrow> nat \<Rightarrow> nat \<Rightarrow> LocalWindow \<Rightarrow> nat \<Rightarrow> nat set \<Rightarrow> bytes \<Rightarrow> bool"
  for d :: "nat \<Rightarrow> bytes" and N cap :: nat where
  lw_start: "lw_run d N cap (setLastSeqNr (of_nat N) (LocalWindow_new cap)) N {} []"
| lw_arrive: "\<lbrakk>lw_run d N cap w L R out; N < n; n + length (lw_incoming w) < L + 32768; L < n + 32768;
    packet_for d n pkt data_off; h_seq_nr hdr = of_nat n; lw_packetReceived w hdr pkt data_off = Some (ok, w')\<rbrakk>
    \<Longrightarrow> lw_run d N cap w' (L + unat (lw_last_seq_nr w' - lw_last_seq_nr w)) (if ok then insert n R else R) out"
| lw_reads: "\<lbrakk>lw_run d N cap w L R out; lw_incoming w \<noteq> []; m < 2 ^ 32; lw_read w m = Some (bs, w')\<rbrakk>
    \<Longrightarrow> lw_run d N cap w' L R (out @ bs)"

lemma lw_ok_start: "cap < 2 ^ 31 \<Longrightarrow> lw_ok d N (setLastSeqNr (of_nat N) (LocalWindow_new cap)) N {} (Suc N) (Suc N) 0"
  by (simp add: lw_ok_def lw_pre_def slots_ok_def pending_def setLastSeqNr_def LocalWindow_new_def)

lemma pending_grow:
  assumes "lw_ok d N w L R B F r" "L \<le> L'"
  shows "pending d F r L' = pending d F r L @ concat (map d [Suc L..<Suc L'])"
proof -
  have "F \<le> Suc L" "r \<le> length (concat (map d [F..<Suc L]))" using assms(1) by (auto simp: lw_ok_def lw_pre_def)
  moreover have "[F..<Suc L'] = [F..<Suc L] @ [Suc L..<Suc L']"
    using upt_add_eq_append[of F "Suc L" "L' - L"] assms(2) \<open>F \<le> Suc L\<close> by (simp del: upt_Suc)
  ultimately show ?thesis by (simp add: pending_def del: upt_Suc)
qed

lemma upt_split_at: "N \<le> L \<Longrightarrow> L \<le> L' \<Longrightarrow> [Suc N..<Suc L'] = [Suc N..<Suc L] @ [Suc L..<Suc L']"
  using upt_add_eq_append[of "Suc N" "Suc L" "L' - L"] by (simp del: upt_Suc)

lemma lw_read_loop_cap: "lw_read_loop w off out m = Some (out', w') \<Longrightarrow> lw_capacity w' = lw_capacity w"
proof (induction w off out m rule: lw_read_loop.induct)
  case (1 w off out m)
  show ?case using "1.IH" "1.prems" unfolding lw_read_loop.simps[of w off out m]
    by (auto simp: lw_take_def lw_release_def split: if_splits option.splits)
qed

lemma lw_read_cap: "lw_read w m = Some (bs, w') \<Longrightarrow> lw_capacity w' = lw_capacity w"
  by (auto simp: lw_read_def Let_def split: list.splits bind_splits if_splits dest!: lw_read_loop_cap)

lemma lw_run_ok:
  assumes "lw_run d N cap w L R out" "cap < 2 ^ 31"
  shows "\<exists>B F r. lw_ok d N w L R B F r \<and> out @ pending d F r L = concat (map d [Suc N..<Suc L]) \<and> lw_capacity w = cap"
  using assms
proof (induction rule: lw_run.induct)
  case lw_start
  then show ?case using lw_ok_start[of cap d N]
    by (intro exI[of _ "Suc N"] exI[of _ 0]) (auto simp: pending_def setLastSeqNr_def LocalWindow_new_def)
next
  case (lw_arrive w L R out n pkt data_off hdr ok w')
  then obtain B F r where I: "lw_ok d N w L R B F r" "out @ pending d F r L = concat (map d [Suc N..<Suc L])" "lw_capacity w = cap"
    by blast
  note P = packetReceived_law[OF I(1) lw_arrive(2,3,4,5,6)]
  show ?case
  proof (cases "n \<le> L \<or> length (d n) \<le> lw_window_space w")
    case False
    then have "\<not> ok" "w' = w" using P lw_arrive(7) by auto
    then show ?thesis using I by (intro exI[of _ B] exI[of _ F] exI[of _ r]) simp
  next
    case True
    then obtain L' where L': "ok" "L \<le> L'" "lw_ok d N w' L' (insert n R) B F r" "lw_capacity w' = cap" using I(3) P lw_arrive(7) by auto
    have "lw_last_seq_nr w' = of_nat L'" "lw_last_seq_nr w = of_nat L" "L' - L < 65536" "N \<le> L"
      using L'(3) I(1) by (auto simp: lw_ok_def lw_pre_def)
    then have "unat (lw_last_seq_nr w' - lw_last_seq_nr w) = L' - L"
      using L'(2) unat_of_nat16[of "L' - L"] by simp
    moreover have "out @ pending d F r L' = concat (map d [Suc N..<Suc L'])"
      using pending_grow[OF I(1) L'(2)] I(2) upt_split_at[of N L L'] L'(2) \<open>N \<le> L\<close> by (metis append.assoc concat_append map_append)
    ultimately show ?thesis using L' by (intro exI[of _ B] exI[of _ F] exI[of _ r]) simp
  qed
next
  case (lw_reads w L R out m bs w')
  then obtain B F r where I: "lw_ok d N w L R B F r" "out @ pending d F r L = concat (map d [Suc N..<Suc L])" "lw_capacity w = cap"
    by blast
  obtain B' F' r' where bs: "bs = take m (pending d F r L)" "lw_ok d N w' L R B' F' r'" "pending d F' r' L = drop m (pending d F r L)"
    using lw_read_law[OF I(1) lw_reads(2,3)] lw_reads(4) by auto
  then have "(out @ bs) @ pending d F' r' L = out @ pending d F r L" by simp
  then show ?case using I(2,3) bs(2) lw_read_cap[OF lw_reads(4)] by (intro exI[of _ B'] exI[of _ F'] exI[of _ r'] conjI) simp_all
qed


section \<open>Flow control\<close>

lemma waiting_sum:
  assumes "slots_ok d ps R C F r" "F \<le> C" "C = F \<Longrightarrow> r = 0"
  shows "sum_list (map slot_rest ps) = (\<Sum>n \<in> R \<inter> {C..<C + length ps}. length (d n))"
  using assms
proof (induction ps arbitrary: C)
  case (Cons p ps)
  have ps: "slots_ok d ps R (Suc C) F r" using Cons.prems(1) slots_ok_append[of d "[p]" ps R C F r] by simp
  have p: "slot_ok d F r C p" "wp_packet p \<noteq> None \<longleftrightarrow> C \<in> R"
    using slots_ok_nth(2,3)[OF Cons.prems(1), of 0] Cons.prems(2) by auto
  have IH: "sum_list (map slot_rest ps) = (\<Sum>n \<in> R \<inter> {Suc C..<Suc C + length ps}. length (d n))"
    using Cons.IH[OF ps] Cons.prems(2) by simp
  have "{C..<C + length (p # ps)} = insert C {Suc C..<Suc C + length ps}" by auto
  moreover have "slot_rest p = (if C \<in> R then length (d C) else 0)"
    using p slot_rest_eq(1)[OF p(1)] Cons.prems(3) by (auto simp: slot_rest_def split: option.splits)
  ultimately show ?case using IH by simp
qed simp

lemma window_accounting:
  assumes ok: "lw_ok d N w L R B F r"
  shows "lw_window_space w + length (pending d F r L) + (\<Sum>n | n \<in> R \<and> L < n. length (d n)) = lw_capacity w"
proof -
  have pre: "lw_pre d N w L R B F r" using ok by (simp add: lw_ok_def)
  note I = lw_preD[OF pre]
  let ?k = "Suc L - B"
  have k: "B + ?k = Suc L" "?k \<le> length (lw_incoming w)" using I(4,5,6) by auto
  have "{F..<F + (Suc L - F)} \<subseteq> R" using I(3,5,9) by auto
  moreover have "r \<le> length (d F)" if "0 < Suc L - F" using that I(11) by auto
  ultimately have "length (pending d F r L) = sum_list (map slot_rest (take ?k (lw_incoming w)))"
    using pending_sum[OF I(1,4), of "Suc L - F"] I(5,6) by (simp add: pending_def)
  moreover have "sum_list (map slot_rest (drop ?k (lw_incoming w))) = (\<Sum>n | n \<in> R \<and> L < n. length (d n))"
  proof -
    have sl: "slots_ok d (drop ?k (lw_incoming w)) R (Suc L) F r"
      using I(1) slots_ok_append[of d "take ?k (lw_incoming w)" "drop ?k (lw_incoming w)" R B F r] k by (simp add: min_absorb2)
    have "n < B + length (lw_incoming w)" if "n \<in> R" for n using that I(8) by auto
    then have "R \<inter> {Suc L..<Suc L + length (drop ?k (lw_incoming w))} = {n \<in> R. L < n}" using k by fastforce
    then show ?thesis using waiting_sum[OF sl I(5)] I(10) by auto
  qed
  moreover have "sum_list (map slot_rest (lw_incoming w))
      = sum_list (map slot_rest (take ?k (lw_incoming w))) + sum_list (map slot_rest (drop ?k (lw_incoming w)))"
    by (metis append_take_drop_id map_append sum_list_append)
  ultimately show ?thesis using ok by (simp add: lw_ok_def)
qed

section \<open>A sample history\<close>

definition sample_header :: "nat \<Rightarrow> Header" where
  "sample_header n = \<lparr>h_version = 1, h_type = ST_DATA, h_extension = 0, h_connection_id = 7, h_timestamp = 8,
      h_timediff = 9, h_wnd_size = 10, h_seq_nr = of_nat n, h_ack_nr = 12\<rparr>"

lemmas window_eval = lw_packetReceived_def setLastSeqNr_def LocalWindow_new_def SeqNrCmpSE_def SeqNrCmpS_def seq_near_def
  lw_place_def push_empties.simps lw_availableSpace_def WindowPacket_empty_def WindowPacket_new_def WindowPacket_set_def SeqNrDiff_def
  sub32_def add32_def sample_header_def lw_advance.simps

lemma sample_window_1:
  "lw_packetReceived (setLastSeqNr 65534 (LocalWindow_new 1000)) (sample_header 65536) [9, 1, 2] 1
   = Some (True, \<lparr>lw_last_seq_nr = 65534, lw_first_seq_nr = 65535, lw_capacity = 1000,
       lw_incoming = [WindowPacket_empty 65535, WindowPacket_new 0 [9, 1, 2] 1], lw_window_space = 998, lw_bytes_available = 0\<rparr>)"
  by (simp add: window_eval)

lemma sample_window_2:
  "lw_packetReceived \<lparr>lw_last_seq_nr = 65534, lw_first_seq_nr = 65535, lw_capacity = 1000,
       lw_incoming = [WindowPacket_empty 65535, WindowPacket_new 0 [9, 1, 2] 1], lw_window_space = 998, lw_bytes_available = 0\<rparr>
     (sample_header 65535) [9, 1, 2] 1
   = Some (True, \<lparr>lw_last_seq_nr = 0, lw_first_seq_nr = 65535, lw_capacity = 1000,
       lw_incoming = [WindowPacket_new 65535 [9, 1, 2] 1, WindowPacket_new 0 [9, 1, 2] 1], lw_window_space = 996, lw_bytes_available = 4\<rparr>)"
  by (simp add: window_eval)

definition sample_1 :: LocalWindow where
  "sample_1 = \<lparr>lw_last_seq_nr = 65534, lw_first_seq_nr = 65535, lw_capacity = 1000,
       lw_incoming = [WindowPacket_empty 65535, WindowPacket_new 0 [9, 1, 2] 1], lw_window_space = 998, lw_bytes_available = 0\<rparr>"

lemma sample_run_1: "lw_run (\<lambda>n. [1, 2]) 65534 1000 sample_1 65534 {65536} []"
proof -
  have "lw_run (\<lambda>n. [1, 2]) 65534 1000 (setLastSeqNr 65534 (LocalWindow_new 1000)) 65534 {} []"
    using lw_start[of "\<lambda>n. [1, 2]" 65534 1000] by simp
  from lw_arrive[OF this, of 65536 "[9, 1, 2]" 1 "sample_header 65536" True sample_1] show ?thesis
    using sample_window_1 by (simp add: packet_for_def setLastSeqNr_def LocalWindow_new_def sample_1_def sample_header_def)
qed

definition sample_2 :: LocalWindow where
  "sample_2 = \<lparr>lw_last_seq_nr = 0, lw_first_seq_nr = 65535, lw_capacity = 1000,
       lw_incoming = [WindowPacket_new 65535 [9, 1, 2] 1, WindowPacket_new 0 [9, 1, 2] 1], lw_window_space = 996, lw_bytes_available = 4\<rparr>"

lemma sample_run_2: "lw_run (\<lambda>n. [1, 2]) 65534 1000 sample_2 65536 {65535, 65536} []"
  using lw_arrive[OF sample_run_1, of 65535 "[9, 1, 2]" 1 "sample_header 65535" True sample_2] sample_window_2
  by (simp add: packet_for_def sample_1_def sample_2_def sample_header_def)

section \<open>Properties\<close>

text \<open>
  In every history of a receive window, the bytes handed to the application, followed by those still
  readable, are the payloads of the packets up to the acknowledged one, in order and each exactly once; a
  further read returns the next bytes; the acknowledged number is the last one before the first packet that is
  missing; and the advertised window is the capacity less every byte that is held.
\<close>

theorem LocalWindow_stream:
  assumes "lw_run d N cap w L R out" and "cap < 2 ^ 31"
  shows "\<exists>rest. out @ rest = concat (map d [Suc N..<Suc L]) \<and> lw_bytes_available w = length rest
    \<and> lw_last_seq_nr w = of_nat L \<and> {N<..L} \<subseteq> R \<and> Suc L \<notin> R
    \<and> lw_availableSpace w + length rest + (\<Sum>n | n \<in> R \<and> L < n. length (d n)) = cap
    \<and> (lw_incoming w \<noteq> [] \<longrightarrow> (\<forall>m < 2 ^ 32. \<exists>w'. lw_read w m = Some (take m rest, w')))"
proof -
  obtain B F r where I: "lw_ok d N w L R B F r" "out @ pending d F r L = concat (map d [Suc N..<Suc L])" "lw_capacity w = cap"
    using lw_run_ok[OF assms] by blast
  have pre: "lw_pre d N w L R B F r" "Suc L \<notin> R" using I(1) by (auto simp: lw_ok_def)
  have "\<forall>m < 2 ^ 32. \<exists>w'. lw_read w m = Some (take m (pending d F r L), w')" if "lw_incoming w \<noteq> []"
    using lw_read_law[OF I(1) that] by blast
  then show ?thesis using I(2,3) pre(2) lw_preD(2,9,12)[OF pre(1)] window_accounting[OF I(1)]
    by (intro exI[of _ "pending d F r L"] conjI) (simp_all add: lw_availableSpace_def del: upt_Suc)
qed

theorem LocalWindow_stream_witness:
  "lw_run (\<lambda>n. [1, 2]) 65534 1000 sample_2 65536 {65535, 65536} [] \<and> (\<exists>w'. lw_read sample_2 3 = Some ([1, 2, 1], w'))"
proof -
  have "[Suc 65534..<Suc 65536] = [65535, 65536]" by (simp add: upt_conv_Cons)
  then have "lw_incoming sample_2 \<noteq> [] \<longrightarrow> (\<forall>m < 2 ^ 32. \<exists>w'. lw_read sample_2 m = Some (take m [1, 2, 1, 2], w'))"
    using LocalWindow_stream[OF sample_run_2] by (auto simp del: upt_Suc)
  then have "\<exists>w'. lw_read sample_2 3 = Some (take 3 [1, 2, 1, 2], w')" by (auto simp: sample_2_def dest!: spec[of _ 3])
  then show ?thesis using sample_run_2 by simp
qed

text \<open>
  An arriving packet never makes the window leave its vector or loop. It is refused exactly when it is
  new and larger than the free space, and then nothing changes; otherwise it is remembered.
\<close>

theorem LocalWindow_accepts:
  assumes "lw_run d N cap w L R out" and "cap < 2 ^ 31" and "N < n" and "n + length (lw_incoming w) < L + 32768"
    and "L < n + 32768" and "packet_for d n pkt data_off" and "h_seq_nr hdr = of_nat n"
  shows "\<exists>ok w'. lw_packetReceived w hdr pkt data_off = Some (ok, w') \<and> (ok \<longleftrightarrow> n \<le> L \<or> length (d n) \<le> lw_availableSpace w)
    \<and> (\<not> ok \<longrightarrow> w' = w) \<and> (\<exists>L'. L \<le> L' \<and> lw_run d N cap w' L' (if ok then insert n R else R) out)"
proof -
  obtain B F r where I: "lw_ok d N w L R B F r" using lw_run_ok[OF assms(1,2)] by blast
  obtain ok w' where r: "lw_packetReceived w hdr pkt data_off = Some (ok, w')"
      "ok \<longleftrightarrow> n \<le> L \<or> length (d n) \<le> lw_window_space w" "\<not> ok \<longrightarrow> w' = w"
    using packetReceived_law[OF I assms(3-7)] by (auto split: if_splits)
  have "\<exists>L'. L \<le> L' \<and> lw_run d N cap w' L' (if ok then insert n R else R) out"
    using lw_arrive[OF assms(1,3-7) r(1)] le_add1 by blast
  then show ?thesis using r by (intro exI[of _ ok] exI[of _ w'] conjI) (simp_all add: lw_availableSpace_def)
qed

theorem LocalWindow_accepts_witness:
  "\<exists>w'. lw_packetReceived sample_1 (sample_header 65537) [1, 2] 0 = Some (True, w')
     \<and> (\<exists>L'. 65534 \<le> L' \<and> lw_run (\<lambda>n. [1, 2]) 65534 1000 w' L' {65537, 65536} [])"
  using LocalWindow_accepts[OF sample_run_1, of 65537 "[1, 2]" 0 "sample_header 65537"]
  by (auto simp: packet_for_def sample_1_def sample_header_def lw_availableSpace_def)

text \<open>
  The selective acknowledgement of a window names exactly the packets it has accepted among those the bit
  mask has room for, and the number of bits asked for reaches the newest of them.
\<close>

theorem LocalWindow_selective_ack:
  assumes "lw_run d N cap w L R out" and "cap < 2 ^ 31" and "sack_wf s"
  shows "\<exists>s'. fillSelectiveAck w s = Some s' \<and> sack_wf s' \<and> sk_length s' = sk_length s
    \<and> (\<forall>k. sack_bit s' k \<longleftrightarrow> 2 \<le> k \<and> k < 8 * unat (sk_length s) + 2 \<and> L + k \<in> R)
    \<and> (\<forall>k. L + k \<in> R \<longrightarrow> k \<le> selectiveAckBits w + 1)"
proof -
  obtain B F r where I: "lw_ok d N w L R B F r" using lw_run_ok[OF assms(1,2)] by blast
  then have "n < B + length (lw_incoming w)" if "n \<in> R" for n using that by (auto simp: lw_ok_def lw_pre_def)
  then have "\<forall>k. L + k \<in> R \<longrightarrow> k \<le> selectiveAckBits w + 1" unfolding selectiveAckBits_law[OF I] by fastforce
  then show ?thesis using fillSelectiveAck_law[OF I assms(3)] by blast
qed

theorem LocalWindow_selective_ack_witness:
  "\<exists>s'. fillSelectiveAck sample_1 \<lparr>sk_extension = 0, sk_length = 1, sk_bitmask = [255]\<rparr> = Some s' \<and> sack_bit s' 2 \<and> \<not> sack_bit s' 3"
  using LocalWindow_selective_ack[OF sample_run_1, of "\<lparr>sk_extension = 0, sk_length = 1, sk_bitmask = [255]\<rparr>"]
  by (auto simp: sack_wf_def)

end
