(* ===== verification/Utp_Packet_Buffer.thy ===== *)
theory Utp_Packet_Buffer
  imports Utp_Protocol Circular_Buffer
begin

text \<open>
  \<open>PacketBuffer\<close> of \<open>src/utp/packetbuffer.cpp\<close>: a packet of at most 1500 bytes whose payload is put at the end
  of a buffer from a pool, so that a header can be put in front of it, and replaced when the packet is sent
  again. A pointer into the buffer is an offset, the null pointer \<open>None\<close>; a pointer below the buffer and a copy
  outside it make an operation \<open>None\<close>. Copies of a \<open>PacketBuffer\<close> share the buffer in the source; here each has
  its own.

  What is shown: as long as payload, header and extension together fit into the buffer, \<open>setHeader\<close> stays inside
  it and the packet is header, room for the extension and payload. The test in the source does not ensure
  this: it subtracts the length of the extension instead of adding it.
\<close>

section \<open>State and operations\<close>

definition PB_MAX_SIZE :: nat where
  "PB_MAX_SIZE = 1500"

record PacketBuffer =
  pb_buffer :: bytes
  pb_header :: "nat option"
  pb_extension :: "nat option"
  pb_payload :: "nat option"
  pb_size :: nat

definition PacketBuffer_new :: "bytes \<Rightarrow> PacketBuffer" where
  \<comment> \<open>the contents of a buffer taken from the pool are not specified: they are the argument\<close>
  "PacketBuffer_new mem = \<lparr>pb_buffer = mem, pb_header = None, pb_extension = None, pb_payload = None, pb_size = 0\<rparr>"

definition pb_isEmpty :: "PacketBuffer \<Rightarrow> bool" where
  "pb_isEmpty b \<longleftrightarrow> pb_size b = 0"

definition payloadSize :: "PacketBuffer \<Rightarrow> nat" where
  "payloadSize b = (case pb_payload b of Some p \<Rightarrow> u32 (PB_MAX_SIZE - p) | None \<Rightarrow> 0)"

definition headRoom :: "PacketBuffer \<Rightarrow> nat" where
  "headRoom b = (case pb_payload b of Some p \<Rightarrow> u32 p | None \<Rightarrow> PB_MAX_SIZE)"

definition setHeader :: "PacketBuffer \<Rightarrow> Header \<Rightarrow> nat \<Rightarrow> (bool \<times> PacketBuffer) option" where
  "setHeader b hdr extension_length =
     (if sub32 Header_size extension_length > headRoom b then Some (False, b)
      else do {
        header \<leftarrow> (case pb_payload b of
                     Some p \<Rightarrow> if Header_size + extension_length \<le> p then Some (p - Header_size - extension_length) else None
                   | None \<Rightarrow> Some 0);
        buf \<leftarrow> Header_write hdr (pb_buffer b) header;
        Some (True, b\<lparr>pb_buffer := buf, pb_header := Some header, pb_extension := Some (header + Header_size),
          pb_size := (case pb_payload b of Some p \<Rightarrow> PB_MAX_SIZE - header
                                         | None \<Rightarrow> add32 Header_size extension_length)\<rparr>) })"

definition pb_fillData :: "PacketBuffer \<Rightarrow> CircularBuffer \<Rightarrow> nat \<Rightarrow> (nat \<times> PacketBuffer \<times> CircularBuffer) option" where
  "pb_fillData b cbuf to_read =
     (let n = (if to_read > PB_MAX_SIZE - Header_size then PB_MAX_SIZE - Header_size else to_read);
          p = PB_MAX_SIZE - n
      in do {
        (bs, cbuf') \<leftarrow> cb_read cbuf n;
        buf \<leftarrow> memcpy_at (pb_buffer b) p bs;
        Some (n, b\<lparr>pb_buffer := buf, pb_payload := Some p, pb_size := n, pb_header := Some p, pb_extension := Some p\<rparr>, cbuf') })"

definition pb_fillBytes :: "PacketBuffer \<Rightarrow> bytes \<Rightarrow> (nat \<times> PacketBuffer) option" where
  "pb_fillBytes b data =
     (let n = (if length data > PB_MAX_SIZE then PB_MAX_SIZE else length data);
          p = PB_MAX_SIZE - n
      in do {
        buf \<leftarrow> memcpy_at (pb_buffer b) p (take n data);
        Some (n, b\<lparr>pb_buffer := buf, pb_payload := Some p, pb_header := Some p, pb_extension := Some p, pb_size := n\<rparr>) })"

definition pb_data :: "PacketBuffer \<Rightarrow> bytes option" where
  \<comment> \<open>the \<open>bufferSize()\<close> bytes behind \<open>data()\<close>: what is given to the socket\<close>
  "pb_data b = do { h \<leftarrow> pb_header b; mem_read (pb_buffer b) h (pb_size b) }"

section \<open>Laws\<close>

definition pb_ok :: "PacketBuffer \<Rightarrow> bytes \<Rightarrow> bool" where
  \<comment> \<open>the buffer has its size and ends with the payload\<close>
  "pb_ok b payload \<longleftrightarrow> length (pb_buffer b) = PB_MAX_SIZE \<and> length payload \<le> PB_MAX_SIZE
     \<and> (case pb_payload b of None \<Rightarrow> payload = []
        | Some p \<Rightarrow> p + length payload = PB_MAX_SIZE \<and> drop p (pb_buffer b) = payload)"

lemma payloadSize_ok: "pb_ok b payload \<Longrightarrow> payloadSize b = length payload"
  by (auto simp: pb_ok_def payloadSize_def PB_MAX_SIZE_def u32_id split: option.splits)

lemma pb_fillData_law:
  assumes "length (pb_buffer b) = PB_MAX_SIZE" "cb_inv cb" "n \<le> length (cb_content cb)" "n \<le> 1480"
  shows "\<exists>b' cb'. pb_fillData b cb n = Some (n, b', cb') \<and> pb_ok b' (take n (cb_content cb)) \<and> pb_payload b' = Some (1500 - n)
    \<and> cb_inv cb' \<and> cb_content cb' = drop n (cb_content cb)"
proof -
  obtain cb' where cb': "cb_read cb n = Some (take n (cb_content cb), cb')" "cb_inv cb'" "cb_content cb' = drop n (cb_content cb)"
    using cb_read_law[OF assms(2)] by blast
  have n: "PB_MAX_SIZE - n + n = PB_MAX_SIZE" "n \<le> PB_MAX_SIZE" using assms(4) by (simp_all add: PB_MAX_SIZE_def)
  then have "memcpy_at (pb_buffer b) (PB_MAX_SIZE - n) (take n (cb_content cb))
      = Some (take (PB_MAX_SIZE - n) (pb_buffer b) @ take n (cb_content cb))"
    using assms(1,3) by (simp add: memcpy_at_def)
  then show ?thesis using assms(1,3,4) cb' n
    by (auto simp: pb_fillData_def Let_def Header_size_def PB_MAX_SIZE_def pb_ok_def)
qed

lemma drop_gap:
  assumes "h + 20 + ext = p" "p \<le> length buf"
  shows "drop (h + 20) buf = take ext (drop (h + 20) buf) @ drop p buf" "length (take ext (drop (h + 20) buf)) = ext"
proof -
  have "drop p buf = drop ext (drop (h + 20) buf)" using assms(1) by (simp add: add.commute)
  then show "drop (h + 20) buf = take ext (drop (h + 20) buf) @ drop p buf"
    by (simp only: append_take_drop_id)
  show "length (take ext (drop (h + 20) buf)) = ext" using assms by simp
qed

lemma setHeader_law:
  assumes ok: "pb_ok b payload" and room: "20 + ext + length payload \<le> 1500" "ext \<le> 20"
  shows "\<exists>b' h gap. setHeader b hdr ext = Some (True, b') \<and> pb_ok b' payload \<and> pb_payload b' = pb_payload b
    \<and> length gap = ext \<and> pb_header b' = Some h \<and> pb_extension b' = Some (h + 20)
    \<and> pb_size b' = 20 + ext + length payload \<and> mem_read (pb_buffer b') h (pb_size b') = Some (header_bytes hdr @ gap @ payload)"
proof (cases "pb_payload b")
  case None
  then have b: "length (pb_buffer b) = 1500" "payload = []" using ok by (auto simp: pb_ok_def PB_MAX_SIZE_def)
  let ?buf = "header_bytes hdr @ drop 20 (pb_buffer b)"
  let ?b = "b\<lparr>pb_buffer := ?buf, pb_header := Some 0, pb_extension := Some 20, pb_size := 20 + ext\<rparr>"
  have "setHeader b hdr ext = Some (True, ?b)"
    using None b room by (simp add: setHeader_def headRoom_def PB_MAX_SIZE_def Header_size_def sub32_id add32_id
        Header_write_eq memcpy_at_def)
  moreover have "pb_ok ?b payload" using None b by (simp add: pb_ok_def PB_MAX_SIZE_def)
  moreover have "mem_read ?buf 0 (20 + ext) = Some (header_bytes hdr @ take ext (drop 20 (pb_buffer b)) @ payload)"
    using b room by (simp add: mem_read_def)
  moreover have "length (take ext (drop 20 (pb_buffer b))) = ext" using b room by simp
  ultimately show ?thesis using b(2) None
    by (intro exI[of _ ?b] exI[of _ 0] exI[of _ "take ext (drop 20 (pb_buffer b))"]) simp
next
  case (Some p)
  then have b: "length (pb_buffer b) = 1500" "p + length payload = 1500" "drop p (pb_buffer b) = payload"
    using ok by (auto simp: pb_ok_def PB_MAX_SIZE_def)
  define h where "h = p - 20 - ext"
  have h: "h + 20 + ext = p" using room b by (simp add: h_def)
  let ?buf = "take h (pb_buffer b) @ header_bytes hdr @ drop (h + 20) (pb_buffer b)"
  let ?b = "b\<lparr>pb_buffer := ?buf, pb_header := Some h, pb_extension := Some (h + 20), pb_size := 20 + ext + length payload\<rparr>"
  note gap = drop_gap[OF h, of "pb_buffer b"]
  have hl: "length (take h (pb_buffer b)) = h" using h b by simp
  have "sub32 20 ext \<le> u32 p" "h = p - Header_size - ext" "Header_size + ext \<le> p" "1500 - h = 20 + ext + length payload"
    using room h b by (simp_all add: sub32_id u32_id Header_size_def)
  then have "setHeader b hdr ext = Some (True, ?b)"
    using Some b(1) h by (simp add: setHeader_def headRoom_def PB_MAX_SIZE_def Header_size_def Header_write_eq memcpy_at_def)
  moreover have "pb_ok ?b payload"
  proof -
    have "drop p ?buf = payload" using h hl b(3) by (simp add: drop_append)
    then show ?thesis using Some b h by (simp add: pb_ok_def PB_MAX_SIZE_def)
  qed
  moreover have "mem_read ?buf h (20 + ext + length payload) = Some (header_bytes hdr @ take ext (drop (h + 20) (pb_buffer b)) @ payload)"
    using h b gap hl by (simp add: mem_read_def drop_append)
  ultimately show ?thesis using gap(2) b Some
    by (intro exI[of _ ?b] exI[of _ h] exI[of _ "take ext (drop (h + 20) (pb_buffer b))"]) simp
qed

section \<open>Properties\<close>

text \<open>
  For a packet filled from the send buffer, \<open>setHeader\<close> produces the header, room for the extension and the
  payload when these fit into the buffer together. Its own test does not check that: with an extension and a
  payload of up to 1480 bytes, which \<open>fillData\<close> allows, it writes the header in front of the buffer.
\<close>

theorem PacketBuffer_setHeader:
  assumes "length mem = 1500" and "cb_inv cb" and "n \<le> length (cb_content cb)" and "n \<le> 1480" and "0 < n" and "ext \<le> 20"
  shows "\<exists>b cb'. pb_fillData (PacketBuffer_new mem) cb n = Some (n, b, cb') \<and> payloadSize b = n
    \<and> cb_content cb' = drop n (cb_content cb)
    \<and> (if 20 + ext + n \<le> 1500
       then \<exists>b' gap. setHeader b hdr ext = Some (True, b') \<and> length gap = ext
              \<and> pb_data b' = Some (header_bytes hdr @ gap @ take n (cb_content cb)) \<and> payloadSize b' = n
       else setHeader b hdr ext = None)"
proof -
  let ?d = "take n (cb_content cb)"
  obtain b cb' where b: "pb_fillData (PacketBuffer_new mem) cb n = Some (n, b, cb')" "pb_ok b ?d" "pb_payload b = Some (1500 - n)"
      "cb_content cb' = drop n (cb_content cb)"
    using pb_fillData_law[of "PacketBuffer_new mem" cb n] assms(1-4) by (auto simp: PacketBuffer_new_def PB_MAX_SIZE_def)
  have l: "length ?d = n" using assms(3) by simp
  show ?thesis
  proof (cases "20 + ext + n \<le> 1500")
    case True
    then show ?thesis using b setHeader_law[OF b(2), of ext hdr] l assms(6) payloadSize_ok[OF b(2)]
      by (auto simp: pb_data_def dest!: payloadSize_ok)
  next
    case False
    then have "\<not> 20 + ext \<le> 1500 - n" "\<not> 1500 - n < 20 - ext" using assms(4) by arith+
    then have "setHeader b hdr ext = None"
      using assms(4,6) by (simp add: setHeader_def b(3) headRoom_def u32_id sub32_id Header_size_def)
    then show ?thesis using False b l payloadSize_ok[OF b(2)] by auto
  qed
qed

theorem PacketBuffer_setHeader_witness:
  "\<exists>cb b cb'. pb_fillData (PacketBuffer_new (replicate 1500 0)) cb 1480 = Some (1480, b, cb')
     \<and> setHeader b (\<lparr>h_version = 1, h_type = ST_DATA, h_extension = 1, h_connection_id = 7, h_timestamp = 8,
      h_timediff = 9, h_wnd_size = 10, h_seq_nr = 11, h_ack_nr = 12\<rparr>) 2 = None"
proof -
  let ?cb = "\<lparr>cb_data = replicate 2000 (7 :: u8), cb_capacity = 2000, cb_start = 0, cb_size = 2000\<rparr>"
  have "cb_inv ?cb" "length (cb_content ?cb) = 2000" by (simp_all add: cb_inv_def cb_content_def)
  then show ?thesis using PacketBuffer_setHeader[of "replicate 1500 0" ?cb 1480 2] by fastforce
qed

end
