(* ===== verification/Utp_Remote_Window.thy ===== *)
theory Utp_Remote_Window
  imports Utp_Packet_Buffer
begin

text \<open>
  The sending side of a uTP connection, \<open>src/utp/remotewindow.cpp\<close>: the packets in flight, the window the other
  side advertises and the congestion window. \<open>RemoteWindow\<close> calls back into the connection through the class
  \<open>Retransmitter\<close>: that interface is the record \<open>Retransmitter\<close> of functions on the caller's state, and
  \<open>TransmissionError\<close> the result \<open>False\<close> of \<open>retransmit\<close>. \<open>bt::Now()\<close> is the argument \<open>now\<close>.

  What is shown: an acknowledgement removes exactly the packets it covers and \<open>cur_window\<close> stays the number of
  payload bytes in flight; only packets still in flight are retransmitted, and a timeout retransmits every one
  that is due; and the congestion window, which is meant never to fall below one packet, wraps around to a huge
  value when it would become negative.
\<close>

section \<open>State\<close>

record UnackedPacket =
  up_packet :: PacketBuffer
  up_seq_nr :: u16
  up_send_time :: nat
  up_retransmitted :: bool

definition UnackedPacket_new :: "PacketBuffer \<Rightarrow> u16 \<Rightarrow> nat \<Rightarrow> UnackedPacket" where
  "UnackedPacket_new packet seq_nr send_time =
     \<lparr>up_packet = packet, up_seq_nr = seq_nr, up_send_time = send_time, up_retransmitted = False\<rparr>"

record RemoteWindow =
  rw_cur_window :: nat
  rw_max_window :: nat
  rw_wnd_size :: nat
  rw_unacked :: "UnackedPacket list"
  rw_last_ack_nr :: u16
  rw_last_ack_receive_count :: nat

record 'c Retransmitter =
  rt_updateRTT :: "Header \<Rightarrow> nat \<Rightarrow> nat \<Rightarrow> 'c \<Rightarrow> 'c"
  rt_retransmit :: "PacketBuffer \<Rightarrow> u16 \<Rightarrow> 'c \<Rightarrow> (bool \<times> PacketBuffer \<times> 'c) option"
  rt_currentTimeout :: "'c \<Rightarrow> nat"

definition RemoteWindow_new :: RemoteWindow where
  "RemoteWindow_new = \<lparr>rw_cur_window = 0, rw_max_window = 64 * 1024, rw_wnd_size = 0, rw_unacked = [],
     rw_last_ack_nr = 0, rw_last_ack_receive_count = 0\<rparr>"

definition allowedToSend :: "RemoteWindow \<Rightarrow> nat \<Rightarrow> bool" where
  "allowedToSend w packet_size \<longleftrightarrow> add32 (rw_cur_window w) packet_size \<le> min (rw_wnd_size w) (rw_max_window w)"

definition rw_availableSpace :: "RemoteWindow \<Rightarrow> nat" where
  "rw_availableSpace w =
     (let m = min (rw_wnd_size w) (rw_max_window w) in
      if rw_cur_window w > m then 0 else sub32 m (rw_cur_window w))"

definition allPacketsAcked :: "RemoteWindow \<Rightarrow> bool" where
  "allPacketsAcked w \<longleftrightarrow> rw_unacked w = []"

definition numUnackedPackets :: "RemoteWindow \<Rightarrow> nat" where
  "numUnackedPackets w = length (rw_unacked w)"

definition rw_addPacket :: "PacketBuffer \<Rightarrow> u16 \<Rightarrow> nat \<Rightarrow> RemoteWindow \<Rightarrow> RemoteWindow" where
  "rw_addPacket packet seq_nr send_time w =
     w\<lparr>rw_cur_window := add32 (rw_cur_window w) (payloadSize packet),
       rw_wnd_size := sub32 (rw_wnd_size w) (payloadSize packet),
       rw_unacked := rw_unacked w @ [UnackedPacket_new packet seq_nr send_time]\<rparr>"

section \<open>Acknowledgements\<close>

text \<open>The loop over the packets in flight; \<open>None\<close> when \<open>Acked\<close> reads outside the bit mask.\<close>

fun ack_loop :: "'c Retransmitter \<Rightarrow> Header \<Rightarrow> SelectiveAck option \<Rightarrow> nat \<Rightarrow> UnackedPacket list \<Rightarrow> nat \<Rightarrow> 'c
    \<Rightarrow> (UnackedPacket list \<times> nat \<times> 'c) option" where
  "ack_loop ops hdr sack now [] cur c = Some ([], cur, c)"
| "ack_loop ops hdr sack now (p # ps) cur c =
     (let size = payloadSize (up_packet p);
          c' = rt_updateRTT ops hdr (u32 (sub64 now (up_send_time p))) size c in
      if SeqNrCmpSE (up_seq_nr p) (h_ack_nr hdr) then ack_loop ops hdr sack now ps (sub32 cur size) c'
      else case sack of
        Some s \<Rightarrow> do {
          a \<leftarrow> Acked s (up_seq_nr p - h_ack_nr hdr);
          if a then ack_loop ops hdr sack now ps (sub32 cur size) c'
          else do { (ps', cur', c'') \<leftarrow> ack_loop ops hdr sack now ps cur c; Some (p # ps', cur', c'') } }
      | None \<Rightarrow> Some (p # ps, cur, c))"

text \<open>
  \<open>lost\<close> scans the bit mask from above; \<open>i\<close> runs from \<open>length * 8 - 1\<close> down to 0.
\<close>

fun lost_loop :: "SelectiveAck \<Rightarrow> nat \<Rightarrow> nat \<Rightarrow> nat option" where
  \<comment> \<open>the argument is \<open>i + 1\<close>\<close>
  "lost_loop s 0 acked = Some 0"
| "lost_loop s (Suc i) acked = do {
     a \<leftarrow> Acked s (of_nat i);
     if a then if acked + 1 = 3 then Some i else lost_loop s i (acked + 1)
     else lost_loop s i acked }"

definition lost :: "SelectiveAck \<Rightarrow> nat option" where
  "lost s = lost_loop s (unat (sk_length s) * 8) 0"

definition due :: "'c Retransmitter \<Rightarrow> nat \<Rightarrow> 'c \<Rightarrow> UnackedPacket \<Rightarrow> bool" where
  "due ops now c p \<longleftrightarrow> \<not> up_retransmitted p \<or> sub64 now (up_send_time p) > rt_currentTimeout ops c"

text \<open>
  A packet is sent again; when that throws, its send time stays. The result tells whether it was sent.
\<close>

definition resend :: "'c Retransmitter \<Rightarrow> nat \<Rightarrow> UnackedPacket \<Rightarrow> 'c \<Rightarrow> (bool \<times> UnackedPacket \<times> 'c) option" where
  "resend ops now p c = do {
     (ok, b, c') \<leftarrow> rt_retransmit ops (up_packet p) (up_seq_nr p) c;
     Some (ok, if ok then p\<lparr>up_packet := b, up_send_time := now, up_retransmitted := True\<rparr> else p\<lparr>up_packet := b\<rparr>, c') }"

fun lost_packets_loop :: "'c Retransmitter \<Rightarrow> Header \<Rightarrow> nat \<Rightarrow> nat \<Rightarrow> UnackedPacket list \<Rightarrow> 'c \<Rightarrow> (bool \<times> UnackedPacket list \<times> 'c) option" where
  "lost_packets_loop ops hdr lost_index now [] c = Some (False, [], c)"
| "lost_packets_loop ops hdr lost_index now (p # ps) c =
     (if lost_index > 0 then
        if unat (up_seq_nr p - h_ack_nr hdr) < lost_index \<and> due ops now c p then do {
          (_, p', c1) \<leftarrow> resend ops now p c;
          (_, ps', c2) \<leftarrow> lost_packets_loop ops hdr lost_index now ps c1;
          Some (True, p' # ps', c2) }
        else do {
          (l, ps', c2) \<leftarrow> lost_packets_loop ops hdr lost_index now ps c;
          Some (l, p # ps', c2) }
      else Some (False, p # ps, c))"

text \<open>
  \<open>qRound(0.78 * max_window)\<close>: the \<open>double\<close> closest to 0.78 lies above it by less than \<open>2 ^ -54\<close>, so the rounded
  product is this quotient for every window below \<open>2 ^ 31\<close>.
\<close>

definition shrink_window :: "nat \<Rightarrow> nat" where
  "shrink_window m = (78 * m + 50) div 100"

text \<open>The comparison with \<open>ack_nr + 1\<close> is made in \<open>int\<close> and does not wrap.\<close>

definition checkLostPackets :: "'c Retransmitter \<Rightarrow> Header \<Rightarrow> SelectiveAck option \<Rightarrow> nat \<Rightarrow> RemoteWindow \<Rightarrow> 'c \<Rightarrow> (RemoteWindow \<times> 'c) option" where
  "checkLostPackets ops hdr sack now w c =
     (case rw_unacked w of
        [] \<Rightarrow> None     \<comment> \<open>\<open>*begin()\<close> of an empty list\<close>
      | first # rest \<Rightarrow> do {
          (lost1, done, todo, c1) \<leftarrow>
            (if rw_last_ack_receive_count w \<ge> 3 \<and> unat (up_seq_nr first) = unat (h_ack_nr hdr) + 1 then
               if due ops now c first then do { (_, p', c') \<leftarrow> resend ops now first c; Some (True, [p'], rest, c') }
               else Some (False, [first], rest, c)
             else Some (False, [], first # rest, c));
          (lost2, todo', c2) \<leftarrow>
            (case sack of
               Some s \<Rightarrow> do { i \<leftarrow> lost s; lost_packets_loop ops hdr i now todo c1 }
             | None \<Rightarrow> Some (False, todo, c1));
          Some (w\<lparr>rw_unacked := done @ todo',
                  rw_max_window := (if lost1 \<or> lost2 then shrink_window (rw_max_window w) else rw_max_window w)\<rparr>, c2) })"

definition rw_packetReceived :: "'c Retransmitter \<Rightarrow> Header \<Rightarrow> SelectiveAck option \<Rightarrow> nat \<Rightarrow> RemoteWindow \<Rightarrow> 'c \<Rightarrow> (RemoteWindow \<times> 'c) option" where
  "rw_packetReceived ops hdr sack now w c =
     (let w1 = (if h_ack_nr hdr = rw_last_ack_nr w
                then if h_type hdr = ST_STATE then w\<lparr>rw_last_ack_receive_count := add32 (rw_last_ack_receive_count w) 1\<rparr> else w
                else w\<lparr>rw_last_ack_nr := h_ack_nr hdr, rw_last_ack_receive_count := 1\<rparr>)
      in do {
        (ps, cur, c1) \<leftarrow> ack_loop ops hdr sack now (rw_unacked w1) (rw_cur_window w1) c;
        let w2 = w1\<lparr>rw_wnd_size := unat (h_wnd_size hdr), rw_unacked := ps, rw_cur_window := cur\<rparr>;
        if ps \<noteq> [] then checkLostPackets ops hdr sack now w2 c1 else Some (w2, c1) })"

section \<open>Timeouts and the congestion window\<close>

fun timeout_packets :: "'c Retransmitter \<Rightarrow> nat \<Rightarrow> UnackedPacket list \<Rightarrow> 'c \<Rightarrow> (UnackedPacket list \<times> 'c) option" where
  \<comment> \<open>a \<open>TransmissionError\<close> leaves the loop\<close>
  "timeout_packets ops now [] c = Some ([], c)"
| "timeout_packets ops now (p # ps) c =
     (if due ops now c p then do {
        (ok, p', c1) \<leftarrow> resend ops now p c;
        if ok then do { (ps', c2) \<leftarrow> timeout_packets ops now ps c1; Some (p' # ps', c2) } else Some (p' # ps, c1) }
      else do { (ps', c2) \<leftarrow> timeout_packets ops now ps c; Some (p # ps', c2) })"

definition rw_timeout :: "'c Retransmitter \<Rightarrow> nat \<Rightarrow> RemoteWindow \<Rightarrow> 'c \<Rightarrow> (RemoteWindow \<times> 'c) option" where
  "rw_timeout ops now w c = do {
     (ps, c') \<leftarrow> timeout_packets ops now (rw_unacked w) c;
     Some (w\<lparr>rw_max_window := MIN_PACKET_SIZE, rw_unacked := ps\<rparr>, c') }"

text \<open>
  \<open>d\<close> is \<open>qRound(scaled_gain)\<close>. The sum is an \<open>int\<close>, but \<open>MIN_PACKET_SIZE\<close> is a \<open>Uint32\<close>: the comparison is one of
  unsigned numbers.
\<close>

definition updateWindowSize :: "int \<Rightarrow> RemoteWindow \<Rightarrow> RemoteWindow" where
  "updateWindowSize d w =
     (if nat ((int32 (rw_max_window w) + d) mod 2 ^ 32) < MIN_PACKET_SIZE then w\<lparr>rw_max_window := MIN_PACKET_SIZE\<rparr>
      else w\<lparr>rw_max_window := nat ((int (rw_max_window w) + d) mod 2 ^ 32)\<rparr>)"

definition rw_clear :: "RemoteWindow \<Rightarrow> RemoteWindow" where
  "rw_clear w = w\<lparr>rw_unacked := []\<rparr>"

section \<open>Packets in flight\<close>

text \<open>
  The packet with number \<open>n\<close> carries \<open>d n\<close>, as on the receiving side; \<open>num\<close> gives the number that a sequence
  number in flight stands for.
\<close>

definition flight_ok :: "(nat \<Rightarrow> bytes) \<Rightarrow> (u16 \<Rightarrow> nat) \<Rightarrow> UnackedPacket \<Rightarrow> bool" where
  "flight_ok d num p \<longleftrightarrow> up_seq_nr p = of_nat (num (up_seq_nr p)) \<and> pb_ok (up_packet p) (d (num (up_seq_nr p)))
     \<and> length (d (num (up_seq_nr p))) \<le> 1460"

abbreviation up_num :: "(u16 \<Rightarrow> nat) \<Rightarrow> UnackedPacket \<Rightarrow> nat" where
  "up_num num p \<equiv> num (up_seq_nr p)"

definition flight_bytes :: "(nat \<Rightarrow> bytes) \<Rightarrow> (u16 \<Rightarrow> nat) \<Rightarrow> UnackedPacket list \<Rightarrow> nat" where
  "flight_bytes d num ps = sum_list (map (\<lambda>p. length (d (up_num num p))) ps)"

definition flights_ok :: "(nat \<Rightarrow> bytes) \<Rightarrow> (u16 \<Rightarrow> nat) \<Rightarrow> UnackedPacket list \<Rightarrow> bool" where
  "flights_ok d num ps \<longleftrightarrow> (\<forall>p \<in> set ps. flight_ok d num p) \<and> sorted_wrt (<) (map (up_num num) ps)"

definition rw_ok :: "(nat \<Rightarrow> bytes) \<Rightarrow> (u16 \<Rightarrow> nat) \<Rightarrow> RemoteWindow \<Rightarrow> bool" where
  "rw_ok d num w \<longleftrightarrow> flights_ok d num (rw_unacked w) \<and> rw_cur_window w = flight_bytes d num (rw_unacked w) \<and> rw_cur_window w < 2 ^ 32"

text \<open>The packets that an acknowledgement covers.\<close>

definition covered :: "SelectiveAck option \<Rightarrow> nat \<Rightarrow> nat \<Rightarrow> bool" where
  "covered sack a n \<longleftrightarrow> n \<le> a \<or> (\<exists>s. sack = Some s \<and> sack_bit s (n - a))"

definition sack_opt_wf :: "SelectiveAck option \<Rightarrow> bool" where
  "sack_opt_wf sack \<longleftrightarrow> (\<forall>s. sack = Some s \<longrightarrow> sack_wf s)"

definition near :: "(u16 \<Rightarrow> nat) \<Rightarrow> nat \<Rightarrow> UnackedPacket list \<Rightarrow> bool" where
  "near num a ps \<longleftrightarrow> (\<forall>p \<in> set ps. \<bar>int (up_num num p) - int a\<bar> < 32768)"

lemma ack_decision:
  assumes "flight_ok d num p" "\<bar>int (up_num num p) - int a\<bar> < 32768" "h_ack_nr hdr = of_nat a"
  shows "SeqNrCmpSE (up_seq_nr p) (h_ack_nr hdr) \<longleftrightarrow> up_num num p \<le> a"
    "a < up_num num p \<Longrightarrow> unat (up_seq_nr p - h_ack_nr hdr) = up_num num p - a"
proof -
  have s: "up_seq_nr p = of_nat (up_num num p)" using assms(1) by (simp add: flight_ok_def)
  show "SeqNrCmpSE (up_seq_nr p) (h_ack_nr hdr) \<longleftrightarrow> up_num num p \<le> a"
    unfolding assms(3) by (subst s, rule seq_nr_order(1)) (use assms(2) in linarith)
  assume lt: "a < up_num num p"
  then have "up_seq_nr p - h_ack_nr hdr = of_nat (up_num num p - a)" unfolding assms(3) by (subst s) simp
  then show "unat (up_seq_nr p - h_ack_nr hdr) = up_num num p - a"
    using assms(2) lt unat_of_nat16[of "up_num num p - a"] by simp
qed

lemma ack_loop_law:
  assumes "flights_ok d num ps" "near num a ps" "h_ack_nr hdr = of_nat a" "sack_opt_wf sack"
    "flight_bytes d num ps \<le> cur" "cur < 2 ^ 32"
  shows "ack_loop ops hdr sack now ps cur c =
    Some (filter (\<lambda>p. \<not> covered sack a (up_num num p)) ps,
          cur - flight_bytes d num (filter (\<lambda>p. covered sack a (up_num num p)) ps),
          fold (\<lambda>p. rt_updateRTT ops hdr (u32 (sub64 now (up_send_time p))) (payloadSize (up_packet p)))
            (filter (\<lambda>p. covered sack a (up_num num p)) ps) c)"
  using assms
proof (induction ps arbitrary: cur c)
  case Nil
  then show ?case by (simp add: flight_bytes_def)
next
  case (Cons p ps)
  let ?n = "up_num num p" and ?size = "payloadSize (up_packet p)"
  have ps: "flights_ok d num ps" "near num a ps" and p: "flight_ok d num p" "\<bar>int ?n - int a\<bar> < 32768"
    and later: "\<forall>q \<in> set ps. ?n < up_num num q"
    using Cons.prems(1,2) by (auto simp: flights_ok_def near_def)
  note dec = ack_decision[OF p Cons.prems(3)]
  have size: "?size = length (d ?n)" using p(1) payloadSize_ok by (auto simp: flight_ok_def)
  have fb: "flight_bytes d num (p # qs) = length (d ?n) + flight_bytes d num qs" for qs by (simp add: flight_bytes_def)
  have sub: "sub32 cur ?size = cur - length (d ?n)" using Cons.prems(5,6) by (simp add: size fb sub32_id)
  note IH = Cons.IH[OF ps Cons.prems(3,4)]
  have fb_le: "flight_bytes d num ps \<le> cur - length (d ?n)" "flight_bytes d num ps \<le> cur" using Cons.prems(5) by (auto simp: fb)
  show ?case
  proof (cases "covered sack a ?n")
    case True
    have "ack_loop ops hdr sack now (p # ps) cur c
        = ack_loop ops hdr sack now ps (cur - length (d ?n)) (rt_updateRTT ops hdr (u32 (sub64 now (up_send_time p))) ?size c)"
      using True dec Cons.prems(4) Acked_law[of _ "up_seq_nr p - h_ack_nr hdr"]
      by (auto simp: Let_def sub covered_def sack_opt_wf_def split: option.splits)
    then show ?thesis using True IH[OF fb_le(1)] Cons.prems(6) by (simp add: fb)
  next
    case False
    then have gt: "a < ?n" by (auto simp: covered_def)
    show ?thesis
    proof (cases sack)
      case None
      then have "\<not> covered sack a (up_num num q)" if "q \<in> set (p # ps)" for q
        using that later gt by (auto simp: covered_def)
      then have "filter (\<lambda>p. \<not> covered sack a (up_num num p)) (p # ps) = p # ps"
          "filter (\<lambda>p. covered sack a (up_num num p)) (p # ps) = []" by (auto simp: filter_empty_conv filter_id_conv)
      then show ?thesis using None dec(1) gt by (simp add: flight_bytes_def)
    next
      case (Some s)
      have "Acked s (up_seq_nr p - h_ack_nr hdr) = Some False"
        using Acked_law[of s "up_seq_nr p - h_ack_nr hdr"] Cons.prems(4) dec(2)[OF gt] False Some
        by (auto simp: covered_def sack_opt_wf_def)
      then show ?thesis using Some dec(1) gt False IH[OF fb_le(2) Cons.prems(6)] by simp
    qed
  qed
qed

section \<open>The contract with the connection\<close>

lemma lost_loop_total: "sack_wf s \<Longrightarrow> \<exists>i. lost_loop s k acked = Some i"
  by (induction k arbitrary: acked) (auto simp: Acked_law)

lemma lost_total: "sack_wf s \<Longrightarrow> \<exists>i. lost s = Some i"
  by (simp add: lost_def lost_loop_total)

text \<open>What the remote window relies on: the callbacks keep the caller's invariant, and sending a packet again
  keeps its payload.\<close>

definition carried :: "UnackedPacket \<Rightarrow> bool" where
  \<comment> \<open>the buffer ends with a payload that leaves room for the headers\<close>
  "carried p \<longleftrightarrow> (\<exists>payload. pb_ok (up_packet p) payload \<and> length payload \<le> 1460)"

definition resent :: "UnackedPacket \<Rightarrow> UnackedPacket \<Rightarrow> bool" where
  \<comment> \<open>the same packet, with another header, send time and mark\<close>
  "resent p p' \<longleftrightarrow> up_seq_nr p' = up_seq_nr p
     \<and> (\<forall>payload. pb_ok (up_packet p) payload \<and> length payload \<le> 1460 \<longrightarrow> pb_ok (up_packet p') payload)"

abbreviation kept :: "UnackedPacket list \<Rightarrow> UnackedPacket list \<Rightarrow> bool" where
  "kept \<equiv> list_all2 resent"

lemma resent_refl [simp]: "resent p p"
  by (simp add: resent_def)

lemma kept_refl [simp]: "kept ps ps"
  by (simp add: list_all2_same)

lemma resent_carried: "carried p \<Longrightarrow> resent p p' \<Longrightarrow> carried p'"
  by (auto simp: carried_def resent_def)

lemma kept_carried: "kept ps ps' \<Longrightarrow> \<forall>p \<in> set ps. carried p \<Longrightarrow> \<forall>p \<in> set ps'. carried p"
  by (induction rule: list_all2_induct) (auto dest: resent_carried)

lemma pb_ok_unique: "pb_ok b x \<Longrightarrow> pb_ok b y \<Longrightarrow> x = y"
  by (auto simp: pb_ok_def split: option.splits)

lemma kept_ok:
  assumes "flights_ok d num ps" "kept ps ps'"
  shows "flights_ok d num ps'" "flight_bytes d num ps' = flight_bytes d num ps" "map (up_num num) ps' = map (up_num num) ps"
proof -
  have m: "map (\<lambda>p. f (up_seq_nr p)) ps' = map (\<lambda>p. f (up_seq_nr p)) ps" for f :: "u16 \<Rightarrow> nat"
    using assms(2) by (induction rule: list_all2_induct) (auto simp: resent_def)
  have f: "\<forall>p \<in> set ps. flight_ok d num p" using assms(1) by (simp add: flights_ok_def)
  have step: "flight_ok d num p \<Longrightarrow> resent p p' \<Longrightarrow> flight_ok d num p'" for p p' by (simp add: resent_def flight_ok_def)
  have "\<forall>p \<in> set ps'. flight_ok d num p" using assms(2) f by (induction rule: list_all2_induct) (auto dest: step)
  then show "flights_ok d num ps'" "map (up_num num) ps' = map (up_num num) ps"
    using assms(1) unfolding flights_ok_def m[of num] by simp_all
  show "flight_bytes d num ps' = flight_bytes d num ps"
    unfolding flight_bytes_def using m[of "\<lambda>x. length (d (num x))"] by (rule arg_cong)
qed

lemma resent_trans: "resent p q \<Longrightarrow> resent q r \<Longrightarrow> resent p r"
  by (auto simp: resent_def)

lemma kept_tail:
  assumes "kept ps (xs @ ys)" "kept ys ys'"
  shows "kept ps (xs @ ys')"
proof -
  have "kept (xs @ ys) (xs @ ys')" using assms(2) by (intro list_all2_appendI) simp_all
  with assms(1) show ?thesis by (rule list_all2_trans[of resent resent resent, OF resent_trans, rotated 2])
qed

lemma flights_carried: "flights_ok d num ps \<Longrightarrow> \<forall>p \<in> set ps. carried p"
  by (auto simp: flights_ok_def flight_ok_def carried_def)

locale retransmitter =
  fixes ops :: "'c Retransmitter" and inv :: "'c \<Rightarrow> bool"
  assumes updateRTT_inv: "inv c \<Longrightarrow> inv (rt_updateRTT ops hdr t n c)"
    and retransmit_law: "inv c \<Longrightarrow> pb_ok b payload \<Longrightarrow> length payload \<le> 1460 \<Longrightarrow>
      \<exists>ok b' c'. rt_retransmit ops b seq c = Some (ok, b', c') \<and> pb_ok b' payload \<and> inv c'"
begin

lemma resend_ok:
  assumes "inv c" "carried p"
  shows "\<exists>ok p' c'. resend ops now p c = Some (ok, p', c') \<and> resent p p' \<and> inv c'"
proof -
  obtain pl where pl: "pb_ok (up_packet p) pl" "length pl \<le> 1460" using assms(2) by (auto simp: carried_def)
  obtain ok b c' where r: "rt_retransmit ops (up_packet p) (up_seq_nr p) c = Some (ok, b, c')" "pb_ok b pl" "inv c'"
    using retransmit_law[OF assms(1) pl, of "up_seq_nr p"] by auto
  let ?p = "if ok then p\<lparr>up_packet := b, up_send_time := now, up_retransmitted := True\<rparr> else p\<lparr>up_packet := b\<rparr>"
  have "resend ops now p c = Some (ok, ?p, c')" using r(1) by (simp add: resend_def)
  moreover have "resent p ?p" using pb_ok_unique[OF pl(1)] r(2) by (auto simp: resent_def)
  ultimately show ?thesis using r(3) by blast
qed

lemma lost_packets_loop_ok:
  assumes "inv c" "\<forall>p \<in> set ps. carried p"
  shows "\<exists>l ps' c'. lost_packets_loop ops hdr i now ps c = Some (l, ps', c') \<and> kept ps ps' \<and> inv c'"
  using assms
proof (induction ps arbitrary: c)
  case (Cons p ps)
  show ?case
  proof (cases "i > 0 \<and> unat (up_seq_nr p - h_ack_nr hdr) < i \<and> due ops now c p")
    case True
    obtain ok p' c1 where "resend ops now p c = Some (ok, p', c1)" "resent p p'" "inv c1"
      using resend_ok[OF Cons.prems(1), of p now] Cons.prems(2) by auto
    moreover obtain l ps' c2 where "lost_packets_loop ops hdr i now ps c1 = Some (l, ps', c2)" "kept ps ps'" "inv c2"
      using Cons.IH[OF \<open>inv c1\<close>] Cons.prems(2) by auto
    ultimately show ?thesis using True by auto
  next
    case False
    obtain l ps' c2 where r: "lost_packets_loop ops hdr i now ps c = Some (l, ps', c2)" "kept ps ps'" "inv c2"
      using Cons.IH[OF Cons.prems(1)] Cons.prems(2) by auto
    have "lost_packets_loop ops hdr i now (p # ps) c = (if i > 0 then Some (l, p # ps', c2) else Some (False, p # ps, c))"
      using False r(1) by auto
    then show ?thesis using r(2,3) Cons.prems by (cases "i > 0") auto
  qed
qed auto

lemma timeout_packets_ok:
  assumes "inv c" "\<forall>p \<in> set ps. carried p"
  shows "\<exists>ps' c'. timeout_packets ops now ps c = Some (ps', c') \<and> kept ps ps' \<and> inv c'"
  using assms
proof (induction ps arbitrary: c)
  case (Cons p ps)
  show ?case
  proof (cases "due ops now c p")
    case True
    obtain ok p' c1 where r: "resend ops now p c = Some (ok, p', c1)" "resent p p'" "inv c1"
      using resend_ok[OF Cons.prems(1), of p now] Cons.prems(2) by auto
    obtain ps' c2 where "timeout_packets ops now ps c1 = Some (ps', c2)" "kept ps ps'" "inv c2"
      using Cons.IH[OF r(3)] Cons.prems(2) by auto
    then show ?thesis using True r by (cases ok) auto
  next
    case False
    obtain ps' c2 where r: "timeout_packets ops now ps c = Some (ps', c2)" "kept ps ps'" "inv c2"
      using Cons.IH[OF Cons.prems(1)] Cons.prems(2) by auto
    then show ?thesis using False by auto
  qed
qed simp

lemma checkLostPackets_ok:
  assumes "inv c" "\<forall>p \<in> set (rw_unacked w). carried p" "rw_unacked w \<noteq> []" "sack_opt_wf sack"
  shows "\<exists>ps m c'. checkLostPackets ops hdr sack now w c = Some (w\<lparr>rw_unacked := ps, rw_max_window := m\<rparr>, c')
    \<and> kept (rw_unacked w) ps \<and> m \<in> {rw_max_window w, shrink_window (rw_max_window w)} \<and> inv c'"
proof -
  obtain p ps where ps: "rw_unacked w = p # ps" using assms(3) by (cases "rw_unacked w") auto
  have fl: "\<forall>q \<in> set (p # ps). carried q" using assms(2) ps by simp
  obtain l1 dn td c1 where 1: "(if rw_last_ack_receive_count w \<ge> 3 \<and> unat (up_seq_nr p) = unat (h_ack_nr hdr) + 1 then
               if due ops now c p then do { (_, p', c') \<leftarrow> resend ops now p c; Some (True, [p'], ps, c') }
               else Some (False, [p], ps, c)
             else Some (False, [], p # ps, c)) = Some (l1, dn, td, c1)"
      "kept (p # ps) (dn @ td)" "set td \<subseteq> set (p # ps)" "inv c1"
  proof (cases "rw_last_ack_receive_count w \<ge> 3 \<and> unat (up_seq_nr p) = unat (h_ack_nr hdr) + 1")
    case True
    obtain ok p' c' where "resend ops now p c = Some (ok, p', c')" "resent p p'" "inv c'"
      using resend_ok[OF assms(1), of p now] fl by auto
    then show ?thesis using True assms(1) that[of True "[p']" ps c'] that[of False "[p]" ps c] by (cases "due ops now c p") auto
  next
    case False
    then show ?thesis using assms(1) by (intro that[of False "[]" "p # ps" c]) auto
  qed
  obtain l2 td' c2 where 2: "(case sack of Some s \<Rightarrow> do { i \<leftarrow> lost s; lost_packets_loop ops hdr i now td c1 }
             | None \<Rightarrow> Some (False, td, c1)) = Some (l2, td', c2)" "kept td td'" "inv c2"
  proof (cases sack)
    case None
    then show ?thesis using that[of False td c1] 1 by auto
  next
    case (Some s)
    obtain i where "lost s = Some i" using lost_total assms(4) Some by (auto simp: sack_opt_wf_def)
    moreover have "\<forall>q \<in> set td. carried q" using 1(3) fl by blast
    from lost_packets_loop_ok[OF 1(4) this, of hdr i now] obtain l ps' c'
      where "lost_packets_loop ops hdr i now td c1 = Some (l, ps', c')" "kept td ps'" "inv c'" by blast
    ultimately show ?thesis using that[of l ps' c'] Some by simp
  qed
  have "checkLostPackets ops hdr sack now w c = Some (w\<lparr>rw_unacked := dn @ td',
      rw_max_window := (if l1 \<or> l2 then shrink_window (rw_max_window w) else rw_max_window w)\<rparr>, c2)"
    unfolding checkLostPackets_def ps list.case 1(1) by (simp add: 2(1))
  moreover have "kept (rw_unacked w) (dn @ td')" unfolding ps using 1(2) 2(2) by (rule kept_tail)
  ultimately show ?thesis using 2(3)
    by (intro exI[of _ "dn @ td'"] exI[of _ "if l1 \<or> l2 then shrink_window (rw_max_window w) else rw_max_window w"] exI[of _ c2]) simp
qed

end

lemma flights_ok_filter: "flights_ok d num ps \<Longrightarrow> flights_ok d num (filter P ps)"
  by (auto simp: flights_ok_def sorted_wrt_map sorted_wrt_filter)

lemma flight_bytes_filter:
  "flight_bytes d num (filter (\<lambda>p. \<not> P p) ps) + flight_bytes d num (filter P ps) = flight_bytes d num ps"
  by (induction ps) (auto simp: flight_bytes_def)

context retransmitter
begin

lemma updateRTTs_inv: "inv c \<Longrightarrow> inv (fold (\<lambda>p. rt_updateRTT ops hdr (f p) (g p)) ps c)"
  by (induction ps arbitrary: c) (auto intro: updateRTT_inv)

lemma ack_loop_total:
  assumes "inv c" "sack_opt_wf sack"
  shows "\<exists>ps' cur' c'. ack_loop ops hdr sack now ps cur c = Some (ps', cur', c') \<and> set ps' \<subseteq> set ps \<and> inv c'"
  using assms(1)
proof (induction ps arbitrary: cur c)
  case (Cons p ps)
  let ?c = "rt_updateRTT ops hdr (u32 (sub64 now (up_send_time p))) (payloadSize (up_packet p)) c"
  obtain ps1 cur1 c1 where 1: "ack_loop ops hdr sack now ps (sub32 cur (payloadSize (up_packet p))) ?c = Some (ps1, cur1, c1)"
      "set ps1 \<subseteq> set ps" "inv c1"
    using Cons.IH[OF updateRTT_inv[OF Cons.prems]] by blast
  obtain ps2 cur2 c2 where 2: "ack_loop ops hdr sack now ps cur c = Some (ps2, cur2, c2)" "set ps2 \<subseteq> set ps" "inv c2"
    using Cons.IH[OF Cons.prems] by blast
  show ?case
  proof (cases sack)
    case None
    then show ?thesis using 1 Cons.prems by (cases "SeqNrCmpSE (up_seq_nr p) (h_ack_nr hdr)") (auto simp: Let_def)
  next
    case (Some s)
    then have "Acked s b = Some (sack_bit s (unat b))" for b using assms(2) Acked_law by (simp add: sack_opt_wf_def)
    then show ?thesis using 1 2 Some
      by (cases "SeqNrCmpSE (up_seq_nr p) (h_ack_nr hdr)"; cases "sack_bit s (unat (up_seq_nr p - h_ack_nr hdr))") (auto simp: Let_def)
  qed
qed simp

lemma rw_packetReceived_total:
  assumes c: "inv c" and ps: "\<forall>p \<in> set (rw_unacked w). carried p" and s: "sack_opt_wf sack"
  shows "\<exists>w' c'. rw_packetReceived ops hdr sack now w c = Some (w', c') \<and> inv c' \<and> (\<forall>p \<in> set (rw_unacked w'). carried p)
    \<and> rw_max_window w' \<in> {rw_max_window w, shrink_window (rw_max_window w)} \<and> rw_wnd_size w' = unat (h_wnd_size hdr)"
proof -
  define w1 where "w1 = (if h_ack_nr hdr = rw_last_ack_nr w
                then if h_type hdr = ST_STATE then w\<lparr>rw_last_ack_receive_count := add32 (rw_last_ack_receive_count w) 1\<rparr> else w
                else w\<lparr>rw_last_ack_nr := h_ack_nr hdr, rw_last_ack_receive_count := 1\<rparr>)"
  have w1: "rw_unacked w1 = rw_unacked w" "rw_max_window w1 = rw_max_window w" by (simp_all add: w1_def)
  obtain qs cur c1 where l: "ack_loop ops hdr sack now (rw_unacked w1) (rw_cur_window w1) c = Some (qs, cur, c1)"
      "set qs \<subseteq> set (rw_unacked w)" "inv c1"
    using ack_loop_total[OF c s] unfolding w1(1) by blast
  define w2 where "w2 = w1\<lparr>rw_wnd_size := unat (h_wnd_size hdr), rw_unacked := qs, rw_cur_window := cur\<rparr>"
  have qs: "\<forall>p \<in> set (rw_unacked w2). carried p" using l(2) ps by (auto simp: w2_def)
  have start: "rw_packetReceived ops hdr sack now w c = (if qs \<noteq> [] then checkLostPackets ops hdr sack now w2 c1 else Some (w2, c1))"
    unfolding rw_packetReceived_def w1_def[symmetric] Let_def l(1) by (simp add: w2_def)
  show ?thesis
  proof (cases "qs = []")
    case True
    then show ?thesis using start l(3) w1 by (simp add: w2_def)
  next
    case False
    then obtain ps' m c' where "checkLostPackets ops hdr sack now w2 c1 = Some (w2\<lparr>rw_unacked := ps', rw_max_window := m\<rparr>, c')"
        "kept (rw_unacked w2) ps'" "m \<in> {rw_max_window w2, shrink_window (rw_max_window w2)}" "inv c'"
      using checkLostPackets_ok[OF l(3) qs _ s, of hdr now] by (auto simp: w2_def)
    then show ?thesis using start False w1 kept_carried[OF _ qs] by (auto simp: w2_def)
  qed
qed

lemma rw_timeout_total:
  assumes "inv c" "\<forall>p \<in> set (rw_unacked w). carried p"
  shows "\<exists>w' c'. rw_timeout ops now w c = Some (w', c') \<and> inv c' \<and> (\<forall>p \<in> set (rw_unacked w'). carried p)
    \<and> rw_max_window w' = MIN_PACKET_SIZE \<and> rw_wnd_size w' = rw_wnd_size w"
proof -
  obtain ps c' where "timeout_packets ops now (rw_unacked w) c = Some (ps, c')" "kept (rw_unacked w) ps" "inv c'"
    using timeout_packets_ok[OF assms, of now] by blast
  then show ?thesis using kept_carried[OF _ assms(2)] by (auto simp: rw_timeout_def)
qed

lemma rw_packetReceived_ok:
  assumes w: "rw_ok d num w" and c: "inv c" and a: "near num a (rw_unacked w)" "h_ack_nr hdr = of_nat a" and s: "sack_opt_wf sack"
  shows "\<exists>w' c'. rw_packetReceived ops hdr sack now w c = Some (w', c') \<and> rw_ok d num w' \<and> inv c'
    \<and> map (up_num num) (rw_unacked w') = filter (\<lambda>n. \<not> covered sack a n) (map (up_num num) (rw_unacked w))
    \<and> rw_wnd_size w' = unat (h_wnd_size hdr) \<and> rw_max_window w' \<in> {rw_max_window w, shrink_window (rw_max_window w)}"
proof -
  define w1 where "w1 = (if h_ack_nr hdr = rw_last_ack_nr w
                then if h_type hdr = ST_STATE then w\<lparr>rw_last_ack_receive_count := add32 (rw_last_ack_receive_count w) 1\<rparr> else w
                else w\<lparr>rw_last_ack_nr := h_ack_nr hdr, rw_last_ack_receive_count := 1\<rparr>)"
  have w1: "rw_unacked w1 = rw_unacked w" "rw_cur_window w1 = rw_cur_window w" "rw_max_window w1 = rw_max_window w"
    by (simp_all add: w1_def)
  have I: "flights_ok d num (rw_unacked w)" "rw_cur_window w = flight_bytes d num (rw_unacked w)" "rw_cur_window w < 2 ^ 32"
    using w by (auto simp: rw_ok_def)
  define ps where "ps = filter (\<lambda>p. \<not> covered sack a (up_num num p)) (rw_unacked w)"
  define cur where "cur = flight_bytes d num ps"
  have "rw_cur_window w - flight_bytes d num (filter (\<lambda>p. covered sack a (up_num num p)) (rw_unacked w)) = cur"
    using flight_bytes_filter[of d num "\<lambda>p. covered sack a (up_num num p)" "rw_unacked w"] I(2) by (simp add: ps_def cur_def)
  then have "ack_loop ops hdr sack now (rw_unacked w) (rw_cur_window w) c = Some (ps, cur,
      fold (\<lambda>p. rt_updateRTT ops hdr (u32 (sub64 now (up_send_time p))) (payloadSize (up_packet p)))
        (filter (\<lambda>p. covered sack a (up_num num p)) (rw_unacked w)) c)"
    using ack_loop_law[OF I(1) a s, of "rw_cur_window w" ops now c] I(2,3) by (simp add: ps_def)
  then obtain c1 where loop: "ack_loop ops hdr sack now (rw_unacked w) (rw_cur_window w) c = Some (ps, cur, c1)" "inv c1"
    using updateRTTs_inv[OF c, of hdr "\<lambda>p. u32 (sub64 now (up_send_time p))" "\<lambda>p. payloadSize (up_packet p)"] by blast
  define w2 where "w2 = w1\<lparr>rw_wnd_size := unat (h_wnd_size hdr), rw_unacked := ps, rw_cur_window := cur\<rparr>"
  have ps: "flights_ok d num ps" "cur < 2 ^ 32"
    using flights_ok_filter[OF I(1)] flight_bytes_filter[of d num "\<lambda>p. covered sack a (up_num num p)" "rw_unacked w"] I(2,3)
    by (simp_all add: ps_def cur_def)
  have nums: "map (up_num num) ps = filter (\<lambda>n. \<not> covered sack a n) (map (up_num num) (rw_unacked w))"
    by (simp add: ps_def filter_map comp_def)
  have start: "rw_packetReceived ops hdr sack now w c = (if ps \<noteq> [] then checkLostPackets ops hdr sack now w2 c1 else Some (w2, c1))"
    unfolding rw_packetReceived_def w1_def[symmetric] Let_def w1 loop(1) by (simp add: w2_def)
  show ?thesis
  proof (cases "ps = []")
    case True
    then show ?thesis using start loop(2) ps nums w1 by (auto simp: w2_def rw_ok_def cur_def)
  next
    case False
    have "\<forall>p \<in> set (rw_unacked w2). carried p" "rw_unacked w2 \<noteq> []" using flights_carried[OF ps(1)] False by (auto simp: w2_def)
    from checkLostPackets_ok[OF loop(2) this s, of hdr now] obtain ps' m c' where
        r: "checkLostPackets ops hdr sack now w2 c1 = Some (w2\<lparr>rw_unacked := ps', rw_max_window := m\<rparr>, c')"
        "kept ps ps'" "m \<in> {rw_max_window w2, shrink_window (rw_max_window w2)}" "inv c'"
      by (auto simp: w2_def)
    show ?thesis using start False r kept_ok[OF ps(1) r(2)] ps nums w1 by (auto simp: w2_def rw_ok_def cur_def)
  qed
qed

lemma rw_timeout_ok:
  assumes "rw_ok d num w" "inv c"
  shows "\<exists>w' c'. rw_timeout ops now w c = Some (w', c') \<and> rw_ok d num w' \<and> inv c'
    \<and> map (up_num num) (rw_unacked w') = map (up_num num) (rw_unacked w) \<and> rw_max_window w' = MIN_PACKET_SIZE
    \<and> rw_wnd_size w' = rw_wnd_size w"
proof -
  have fl: "flights_ok d num (rw_unacked w)" using assms(1) by (simp add: rw_ok_def)
  obtain ps c' where "timeout_packets ops now (rw_unacked w) c = Some (ps, c')" "kept (rw_unacked w) ps" "inv c'"
    using timeout_packets_ok[OF assms(2) flights_carried[OF fl], of now] by auto
  then show ?thesis using kept_ok[OF fl, of ps] assms(1) by (auto simp: rw_timeout_def rw_ok_def)
qed

end

section \<open>Sending\<close>

lemma rw_availableSpace_eq:
  assumes "rw_wnd_size w < 2 ^ 32" "rw_max_window w < 2 ^ 32"
  shows "rw_availableSpace w = min (rw_wnd_size w) (rw_max_window w) - rw_cur_window w"
proof -
  have "sub32 m (rw_cur_window w) = m - rw_cur_window w" if "m < 2 ^ 32" "\<not> m < rw_cur_window w" for m
    using that by (intro sub32_id) auto
  then show ?thesis using assms by (auto simp: rw_availableSpace_def Let_def)
qed

lemma rw_addPacket_ok:
  assumes "rw_ok d num w" and p: "pb_ok packet (d n)" "length (d n) \<le> 1460" "length (d n) \<le> rw_availableSpace w"
    and n: "num (of_nat n) = n" "\<forall>p \<in> set (rw_unacked w). up_num num p < n"
    and b: "rw_wnd_size w < 2 ^ 32" "rw_max_window w < 2 ^ 32"
  shows "rw_ok d num (rw_addPacket packet (of_nat n) t w)"
    "0 < length (d n) \<Longrightarrow> rw_cur_window (rw_addPacket packet (of_nat n) t w) \<le> rw_max_window w"
    "map (up_num num) (rw_unacked (rw_addPacket packet (of_nat n) t w)) = map (up_num num) (rw_unacked w) @ [n]"
    "rw_wnd_size (rw_addPacket packet (of_nat n) t w) < 2 ^ 32"
    "0 < length (d n) \<Longrightarrow> rw_availableSpace (rw_addPacket packet (of_nat n) t w) < rw_availableSpace w"
proof -
  let ?w = "rw_addPacket packet (of_nat n) t w" and ?l = "length (d n)"
  have size: "payloadSize packet = ?l" using p(1) by (rule payloadSize_ok)
  have sp: "rw_cur_window w + ?l \<le> min (rw_wnd_size w) (rw_max_window w)" "rw_cur_window w < 2 ^ 32" if "0 < ?l"
  proof -
    show "rw_cur_window w < 2 ^ 32" using assms(1) by (simp add: rw_ok_def)
    show "rw_cur_window w + ?l \<le> min (rw_wnd_size w) (rw_max_window w)"
      using p(3) that unfolding rw_availableSpace_eq[OF b] by arith
  qed
  have cur: "add32 (rw_cur_window w) ?l = rw_cur_window w + ?l"
    using sp b assms(1) by (cases "?l = 0") (auto simp: add32_id rw_ok_def)
  have wnd: "sub32 (rw_wnd_size w) ?l = rw_wnd_size w - ?l" using sp b by (cases "?l = 0") (auto simp: sub32_id)
  have f: "flight_ok d num (UnackedPacket_new packet (of_nat n) t)" using p n(1) by (simp add: flight_ok_def UnackedPacket_new_def)
  show nums: "map (up_num num) (rw_unacked ?w) = map (up_num num) (rw_unacked w) @ [n]"
    using n(1) by (simp add: rw_addPacket_def UnackedPacket_new_def)
  have "rw_cur_window ?w = flight_bytes d num (rw_unacked ?w)"
    using assms(1) n(1) cur by (simp add: rw_addPacket_def rw_ok_def flight_bytes_def size UnackedPacket_new_def)
  moreover have "flights_ok d num (rw_unacked ?w)"
    using assms(1) f n by (auto simp: flights_ok_def rw_ok_def rw_addPacket_def sorted_wrt_append UnackedPacket_new_def)
  ultimately show "rw_ok d num ?w" using u32_bound(2)[of "rw_cur_window w" ?l] by (simp add: rw_ok_def rw_addPacket_def size)
  show "rw_wnd_size ?w < 2 ^ 32" using u32_bound(3)[of "rw_wnd_size w" ?l] by (simp add: rw_addPacket_def size)
  assume l: "0 < ?l"
  show "rw_cur_window ?w \<le> rw_max_window w" using sp[OF l] cur by (simp add: rw_addPacket_def size)
  have "rw_availableSpace ?w = min (rw_wnd_size w - ?l) (rw_max_window w) - (rw_cur_window w + ?l)"
    using rw_availableSpace_eq[of ?w] b cur wnd by (simp add: rw_addPacket_def size)
  then show "rw_availableSpace ?w < rw_availableSpace w" unfolding rw_availableSpace_eq[OF b] using sp[OF l] l by arith
qed

section \<open>The congestion window\<close>

lemma shrink_window_le: "shrink_window m \<le> m"
  by (simp add: shrink_window_def)

text \<open>
  A gain that leaves the congestion window at least one minimal packet moves it by exactly the gain, and one
  that would leave it between zero and that size sets it to a minimal packet. A loss that exceeds the window is
  not caught: the window wraps around and becomes larger than two gigabytes.
\<close>

theorem updateWindowSize_cases:
  assumes "rw_max_window w < 2 ^ 31" and "- (2 ^ 31) \<le> d" and "int (rw_max_window w) + d < 2 ^ 31"
  shows "(150 \<le> int (rw_max_window w) + d \<longrightarrow> int (rw_max_window (updateWindowSize d w)) = int (rw_max_window w) + d)
    \<and> (0 \<le> int (rw_max_window w) + d \<and> int (rw_max_window w) + d < 150 \<longrightarrow> rw_max_window (updateWindowSize d w) = MIN_PACKET_SIZE)
    \<and> (int (rw_max_window w) + d < 0 \<longrightarrow> int (rw_max_window (updateWindowSize d w)) = int (rw_max_window w) + d + 2 ^ 32
        \<and> 2 ^ 31 \<le> rw_max_window (updateWindowSize d w))"
proof -
  let ?s = "int (rw_max_window w) + d"
  have i: "int32 (rw_max_window w) = int (rw_max_window w)" using assms(1) by (rule int32_id)
  consider "0 \<le> ?s" | "?s < 0" by linarith
  then show ?thesis
  proof cases
    case 1
    then have "?s mod 2 ^ 32 = ?s" using assms by (intro mod_pos_pos_trivial) auto
    then show ?thesis using 1 unfolding updateWindowSize_def i by (auto simp: MIN_PACKET_SIZE_def)
  next
    case 2
    have "(?s + 2 ^ 32) mod 2 ^ 32 = ?s + 2 ^ 32" using 2 assms by (intro mod_pos_pos_trivial) auto
    then have "?s mod 2 ^ 32 = ?s + 2 ^ 32" by simp
    then show ?thesis using 2 assms unfolding updateWindowSize_def i by (auto simp: MIN_PACKET_SIZE_def)
  qed
qed

theorem updateWindowSize_cases_witness:
  "rw_max_window (updateWindowSize (- 4500) (RemoteWindow_new\<lparr>rw_max_window := 1000\<rparr>)) = 4294963796"
  using updateWindowSize_cases[of "RemoteWindow_new\<lparr>rw_max_window := 1000\<rparr>" "- 4500"] by simp

end
