(* ===== verification/Utp_Timing.thy ===== *)
theory Utp_Timing
  imports Utp_Protocol
begin

text \<open>
  Time in the uTP transport. \<open>TimeValue\<close> of \<open>src/utp/timevalue.h\<close>: seconds and microseconds with their
  comparisons, difference and conversions; its comparison operators are shown to be a linear order by an
  instantiation of the library's class. \<open>DelayWindow\<close> of \<open>src/utp/delaywindow.cpp\<close>: the smallest one-way delay
  of the last two minutes, kept in a queue from which every sample that can no longer be the minimum is
  dropped; it is shown to be the minimum of the recent samples.

  \<open>toTimeStamp\<close> and the conversion of microseconds use \<open>double\<close> arithmetic in the source; for a time in the
  range of the system clock the results are the integer quotients written here.
\<close>

section \<open>TimeValue\<close>

datatype TimeValue = TimeValue (seconds: nat) (microseconds: nat)

definition timestampMicroSeconds :: "TimeValue \<Rightarrow> u32w" where
  "timestampMicroSeconds t = of_nat (u64 (seconds t * 1000000 + microseconds t))"

definition addMilliSeconds :: "nat \<Rightarrow> TimeValue \<Rightarrow> TimeValue" where
  \<comment> \<open>\<open>ms * 1000\<close> is a 32-bit product\<close>
  "addMilliSeconds ms t =
     (let us = add64 (microseconds t) (u32 (ms * 1000)) in
      if us > 1000000 then TimeValue (add64 (seconds t) (us div 1000000)) (us mod 1000000)
      else TimeValue (seconds t) us)"

definition toTimeStamp :: "TimeValue \<Rightarrow> nat" where
  "toTimeStamp t = u64 (seconds t * 1000 + microseconds t div 1000)"

text \<open>The \<open>while\<close> loop of \<open>operator -\<close>, on signed 64-bit values far from their limits.\<close>

function tv_borrow :: "int \<Rightarrow> int \<Rightarrow> int \<times> int" where
  "tv_borrow s us = (if us < 0 then tv_borrow (s - 1) (us + 1000000) else (s, us))"
  by pat_completeness auto

termination
  by (relation "measure (\<lambda>(s, us). nat (- us))") auto

declare tv_borrow.simps [simp del]

definition trunc_div :: "int \<Rightarrow> int \<Rightarrow> int" where
  \<comment> \<open>the division of the language rounds towards zero\<close>
  "trunc_div a b = (if 0 \<le> a then a div b else - (- a div b))"

definition tv_minus :: "TimeValue \<Rightarrow> TimeValue \<Rightarrow> int" where
  "tv_minus a b =
     (let (s, us) = tv_borrow (int (seconds a) - int (seconds b)) (int (microseconds a) - int (microseconds b))
      in trunc_div (1000000 * s + us) 1000)"

text \<open>The comparison operators; \<open>>\<close> and \<open>>=\<close> are written out in the source as well.\<close>

definition tv_less :: "TimeValue \<Rightarrow> TimeValue \<Rightarrow> bool" where
  "tv_less a b = (if seconds a < seconds b then True
     else if seconds a = seconds b then microseconds a < microseconds b else False)"

definition tv_less_eq :: "TimeValue \<Rightarrow> TimeValue \<Rightarrow> bool" where
  "tv_less_eq a b = (if seconds a < seconds b then True
     else if seconds a = seconds b then microseconds a \<le> microseconds b else False)"

definition tv_greater :: "TimeValue \<Rightarrow> TimeValue \<Rightarrow> bool" where
  "tv_greater a b = (if seconds a > seconds b then True
     else if seconds a = seconds b then microseconds a > microseconds b else False)"

definition tv_greater_eq :: "TimeValue \<Rightarrow> TimeValue \<Rightarrow> bool" where
  "tv_greater_eq a b = (if seconds a > seconds b then True
     else if seconds a = seconds b then microseconds a \<ge> microseconds b else False)"

instantiation TimeValue :: linorder
begin

definition less_eq_TimeValue :: "TimeValue \<Rightarrow> TimeValue \<Rightarrow> bool" where
  "less_eq_TimeValue = tv_less_eq"

definition less_TimeValue :: "TimeValue \<Rightarrow> TimeValue \<Rightarrow> bool" where
  "less_TimeValue = tv_less"

instance
  by standard
    (auto simp: less_eq_TimeValue_def less_TimeValue_def tv_less_def tv_less_eq_def split: if_splits
      intro: TimeValue.expand)

end

lemma tv_operators: "tv_greater a b \<longleftrightarrow> b < a" "tv_greater_eq a b \<longleftrightarrow> b \<le> a"
  by (auto simp: less_eq_TimeValue_def less_TimeValue_def tv_less_def tv_less_eq_def tv_greater_def tv_greater_eq_def)

definition tv_total :: "TimeValue \<Rightarrow> nat" where
  "tv_total t = seconds t * 1000000 + microseconds t"

lemma tv_le_total:
  assumes "microseconds a < 1000000" "microseconds b < 1000000"
  shows "a \<le> b \<longleftrightarrow> tv_total a \<le> tv_total b"
proof -
  consider "seconds a < seconds b" | "seconds a = seconds b" | "seconds b < seconds a" by linarith
  then show ?thesis
  proof cases
    case 1
    then have "Suc (seconds a) * 1000000 \<le> seconds b * 1000000" by (intro mult_le_mono1) simp
    then show ?thesis using 1 assms by (simp add: less_eq_TimeValue_def tv_less_eq_def tv_total_def)
  next
    case 3
    then have "Suc (seconds b) * 1000000 \<le> seconds a * 1000000" by (intro mult_le_mono1) simp
    then show ?thesis using 3 assms by (simp add: less_eq_TimeValue_def tv_less_eq_def tv_total_def)
  qed (simp add: less_eq_TimeValue_def tv_less_eq_def tv_total_def)
qed

lemma tv_borrow_law: "1000000 * fst (tv_borrow s us) + snd (tv_borrow s us) = 1000000 * s + us"
proof (induction s us rule: tv_borrow.induct)
  case (1 s us)
  then show ?case by (subst (1 2) tv_borrow.simps) auto
qed

lemma tv_minus_law: "tv_minus a b = trunc_div (int (tv_total a) - int (tv_total b)) 1000"
  unfolding tv_minus_def split_beta Let_def tv_borrow_law by (simp add: tv_total_def algebra_simps)

lemma addMilliSeconds_law:
  assumes "ms * 1000 < 2 ^ 32" "tv_total t < 2 ^ 62"
  shows "tv_total (addMilliSeconds ms t) = tv_total t + ms * 1000"
proof -
  have b: "microseconds t < 2 ^ 62" "seconds t < 2 ^ 62" using assms(2) by (auto simp: tv_total_def)
  have us: "add64 (microseconds t) (u32 (ms * 1000)) = microseconds t + ms * 1000"
    using assms(1) b by (simp add: u32_id add64_id)
  have "(microseconds t + ms * 1000) div 1000000 \<le> microseconds t + ms * 1000" by (rule div_le_dividend)
  then have "add64 (seconds t) ((microseconds t + ms * 1000) div 1000000) = seconds t + (microseconds t + ms * 1000) div 1000000"
    using assms(1) b by (intro add64_id) simp
  then show ?thesis using div_mult_mod_eq[of "microseconds t + ms * 1000" 1000000]
    by (simp add: addMilliSeconds_def us Let_def tv_total_def algebra_simps)
qed

section \<open>DelayWindow\<close>

record DelayEntry =
  de_tdm :: nat            \<comment> \<open>\<open>timestamp_difference_microseconds\<close>\<close>
  de_receive_time :: nat

text \<open>A \<open>boost::circular_buffer\<close>: a full buffer loses its front element when one is pushed at the back.\<close>

record DelayWindow =
  dw_capacity :: nat
  dw_entries :: "DelayEntry list"

definition DelayWindow_new :: DelayWindow where
  "DelayWindow_new = \<lparr>dw_capacity = 100, dw_entries = []\<rparr>"

definition dw_push_back :: "DelayEntry \<Rightarrow> DelayWindow \<Rightarrow> DelayWindow" where
  "dw_push_back e w = w\<lparr>dw_entries := (if length (dw_entries w) = dw_capacity w then tl (dw_entries w) else dw_entries w) @ [e]\<rparr>"

definition dw_old :: "nat \<Rightarrow> DelayEntry \<Rightarrow> bool" where
  "dw_old receive_time e \<longleftrightarrow> sub64 receive_time (de_receive_time e) > DELAY_WINDOW_SIZE"

text \<open>
  \<open>update\<close> returns the base delay. The test \<open>full()\<close> follows \<open>clear()\<close>; \<open>std::lower_bound\<close> on the sorted queue is
  the first entry that is not below the new one, and everything from there on is erased.
\<close>

definition dw_update :: "DelayWindow \<Rightarrow> Header \<Rightarrow> nat \<Rightarrow> nat \<times> DelayWindow" where
  "dw_update w hdr receive_time =
     (let tdm = unat (h_timediff hdr);
          es = dropWhile (dw_old receive_time) (dw_entries w);
          entry = \<lparr>de_tdm = tdm, de_receive_time = receive_time\<rparr> in
      if es = [] \<or> tdm < de_tdm (hd es) then
        let w1 = w\<lparr>dw_entries := []\<rparr>;
            w2 = (if length (dw_entries w1) = dw_capacity w1 then w1\<lparr>dw_capacity := dw_capacity w1 + 100\<rparr> else w1)
        in (tdm, dw_push_back entry w2)
      else
        let w1 = dw_push_back entry (w\<lparr>dw_entries := takeWhile (\<lambda>e. de_tdm e < tdm) es\<rparr>)
        in (de_tdm (hd (dw_entries w1)), w1))"

section \<open>The queue holds the minimum\<close>

text \<open>
  A history is the list of samples, pairs of a delay and a time. \<open>dw_ok hist w\<close>: the queue is strictly sorted,
  its times do not decrease, its entries are samples, and every sample is covered by an entry that is no larger
  and no older, unless it expired before the last update, at time \<open>T\<close>.
\<close>

definition recent :: "nat \<Rightarrow> nat \<Rightarrow> bool" where
  "recent now t \<longleftrightarrow> now \<le> t + DELAY_WINDOW_SIZE"

definition dw_ok :: "(nat \<times> nat) list \<Rightarrow> nat \<Rightarrow> DelayWindow \<Rightarrow> bool" where
  "dw_ok hist T w \<longleftrightarrow> sorted_wrt (\<lambda>a b. de_tdm a < de_tdm b \<and> de_receive_time a \<le> de_receive_time b) (dw_entries w)
     \<and> (\<forall>e \<in> set (dw_entries w). (de_tdm e, de_receive_time e) \<in> set hist)
     \<and> (\<forall>(x, t) \<in> set hist. t \<le> T \<and> (recent T t \<longrightarrow> (\<exists>e \<in> set (dw_entries w). de_tdm e \<le> x \<and> t \<le> de_receive_time e)))
     \<and> T < 2 ^ 64"

lemma dw_old_iff: "de_receive_time e \<le> now \<Longrightarrow> now < 2 ^ 64 \<Longrightarrow> dw_old now e \<longleftrightarrow> \<not> recent now (de_receive_time e)"
  by (auto simp: dw_old_def recent_def sub64_id)

lemma dw_update_eq:
  fixes now :: nat and hdr :: Header
  assumes "sorted_wrt (\<lambda>a b. de_tdm a < de_tdm b \<and> de_receive_time a \<le> de_receive_time b) (dw_entries w)"
    and "length (dw_entries w) < dw_capacity w"
  defines "es \<equiv> dropWhile (dw_old now) (dw_entries w)"
  defines "es' \<equiv> takeWhile (\<lambda>e. de_tdm e < unat (h_timediff hdr)) es @ [\<lparr>de_tdm = unat (h_timediff hdr), de_receive_time = now\<rparr>]"
  shows "dw_update w hdr now = (de_tdm (hd es'), w\<lparr>dw_entries := es'\<rparr>)"
proof -
  let ?x = "unat (h_timediff hdr)"
  have "length (takeWhile (\<lambda>e. de_tdm e < ?x) es) < dw_capacity w"
    using assms(2) length_takeWhile_le[of "\<lambda>e. de_tdm e < ?x" es] length_dropWhile_le[of "dw_old now" "dw_entries w"]
    by (simp add: es_def)
  moreover have "takeWhile (\<lambda>e. de_tdm e < ?x) es = []" if "es = [] \<or> ?x < de_tdm (hd es)"
    using that by (cases es) auto
  ultimately show ?thesis using assms(2) by (auto simp: dw_update_def Let_def dw_push_back_def es_def es'_def)
qed

lemma sorted_wrt_dropWhile: "sorted_wrt P xs \<Longrightarrow> sorted_wrt P (dropWhile Q xs)"
  by (metis sorted_wrt_append takeWhile_dropWhile_id)

lemma sorted_wrt_takeWhile: "sorted_wrt P xs \<Longrightarrow> sorted_wrt P (takeWhile Q xs)"
  by (metis sorted_wrt_append takeWhile_dropWhile_id)

lemma takeWhile_sorted_keeps:
  assumes "sorted_wrt (\<lambda>a b. de_tdm a < de_tdm b \<and> R a b) es" "e \<in> set es" "de_tdm e < x"
  shows "e \<in> set (takeWhile (\<lambda>e. de_tdm e < x) es)"
  using assms by (induction es) (auto dest: less_trans)

lemma dw_update_ok:
  fixes now :: nat and hdr :: Header
  assumes ok: "dw_ok hist T w" and cap: "length (dw_entries w) < dw_capacity w" and now: "T \<le> now" "now < 2 ^ 64"
  defines "x \<equiv> unat (h_timediff hdr)"
  shows "dw_ok (hist @ [(x, now)]) now (snd (dw_update w hdr now))"
    "dw_entries (snd (dw_update w hdr now)) \<noteq> []"
    "\<forall>e \<in> set (dw_entries (snd (dw_update w hdr now))). fst (dw_update w hdr now) \<le> de_tdm e"
    "\<exists>t. recent now t \<and> (fst (dw_update w hdr now), t) \<in> set (hist @ [(x, now)])"
proof -
  let ?P = "\<lambda>a b. de_tdm a < de_tdm b \<and> de_receive_time a \<le> de_receive_time b"
  have sorted: "sorted_wrt ?P (dw_entries w)" and mem: "\<forall>e \<in> set (dw_entries w). (de_tdm e, de_receive_time e) \<in> set hist"
    and cov: "\<forall>(x, t) \<in> set hist. t \<le> T \<and> (recent T t \<longrightarrow> (\<exists>e \<in> set (dw_entries w). de_tdm e \<le> x \<and> t \<le> de_receive_time e))"
    using ok by (auto simp: dw_ok_def)
  define es where "es = dropWhile (dw_old now) (dw_entries w)"
  define new where "new = \<lparr>de_tdm = x, de_receive_time = now\<rparr>"
  define es' where "es' = takeWhile (\<lambda>e. de_tdm e < x) es @ [new]"
  have upd: "dw_update w hdr now = (de_tdm (hd es'), w\<lparr>dw_entries := es'\<rparr>)"
    using dw_update_eq[OF sorted cap] by (simp add: es_def es'_def new_def x_def)
  have old: "de_receive_time e \<le> now" if "e \<in> set (dw_entries w)" for e using that mem cov now(1) by fastforce
  have in_es: "e \<in> set es" if "e \<in> set (dw_entries w)" "recent now (de_receive_time e)" for e
    using that dw_old_iff[OF old[OF that(1)] now(2)] unfolding es_def
    by (metis Un_iff set_append set_takeWhileD takeWhile_dropWhile_id)
  have sub: "set es \<subseteq> set (dw_entries w)" by (auto simp: es_def dest: set_dropWhileD)
  have s1: "sorted_wrt ?P es" unfolding es_def using sorted by (rule sorted_wrt_dropWhile)
  have s2: "sorted_wrt ?P es'"
    using sorted_wrt_takeWhile[OF s1] old sub by (fastforce simp: es'_def new_def sorted_wrt_append dest: set_takeWhileD)
  show "dw_entries (snd (dw_update w hdr now)) \<noteq> []" by (simp add: upd es'_def)
  show "\<forall>e \<in> set (dw_entries (snd (dw_update w hdr now))). fst (dw_update w hdr now) \<le> de_tdm e"
    using s2 unfolding upd by (cases es') auto
  have "recent now (de_receive_time (hd es')) \<and> (de_tdm (hd es'), de_receive_time (hd es')) \<in> set (hist @ [(x, now)])"
  proof (cases "takeWhile (\<lambda>e. de_tdm e < x) es = []")
    case True
    then show ?thesis by (simp add: es'_def new_def recent_def)
  next
    case False
    then have h: "hd es' = hd es" "es \<noteq> []" by (cases es; auto simp: es'_def)+
    have "\<not> dw_old now (hd es)" using hd_dropWhile[of "dw_old now" "dw_entries w"] h(2) by (simp add: es_def)
    moreover have "hd es \<in> set (dw_entries w)" using h(2) sub hd_in_set by blast
    ultimately show ?thesis using dw_old_iff[OF old now(2)] mem h(1) by auto
  qed
  then show "\<exists>t. recent now t \<and> (fst (dw_update w hdr now), t) \<in> set (hist @ [(x, now)])" unfolding upd by auto
  have "\<exists>e \<in> set es'. de_tdm e \<le> y \<and> t \<le> de_receive_time e" if yt: "(y, t) \<in> set (hist @ [(x, now)])" "recent now t" for y t
  proof (cases "(y, t) \<in> set hist")
    case True
    then have "recent T t" using yt(2) now(1) by (auto simp: recent_def)
    then obtain e where e: "e \<in> set (dw_entries w)" "de_tdm e \<le> y" "t \<le> de_receive_time e" using cov True by fastforce
    then have "e \<in> set es" using yt(2) by (intro in_es) (auto simp: recent_def)
    then show ?thesis
      using takeWhile_sorted_keeps[OF s1, of e x] e cov True now(1) by (cases "de_tdm e < x") (fastforce simp: es'_def new_def)+
  next
    case False
    then show ?thesis using yt by (auto simp: es'_def new_def)
  qed
  moreover have "t \<le> now" if "(y, t) \<in> set (hist @ [(x, now)])" for y t using that cov now(1) by fastforce
  moreover have "(de_tdm e, de_receive_time e) \<in> set (hist @ [(x, now)])" if "e \<in> set es'" for e
    using that mem sub by (auto simp: es'_def new_def dest!: set_takeWhileD)
  ultimately show "dw_ok (hist @ [(x, now)]) now (snd (dw_update w hdr now))"
    using s2 now(2) unfolding upd dw_ok_def by auto
qed


inductive dw_run :: "(nat \<times> nat) list \<Rightarrow> nat \<Rightarrow> DelayWindow \<Rightarrow> bool" where
  dw_start: "dw_run [] 0 DelayWindow_new"
| dw_sample: "\<lbrakk>dw_run hist T w; length (dw_entries w) < dw_capacity w; T \<le> now; now < 2 ^ 64\<rbrakk>
    \<Longrightarrow> dw_run (hist @ [(unat (h_timediff hdr), now)]) now (snd (dw_update w hdr now))"

lemma dw_run_ok: "dw_run hist T w \<Longrightarrow> dw_ok hist T w"
proof (induction rule: dw_run.induct)
  case dw_start
  then show ?case by (simp add: dw_ok_def DelayWindow_new_def)
qed (rule dw_update_ok(1))

section \<open>Properties\<close>

text \<open>
  As long as the delay window does not overflow, the base delay returned for a sample is the smallest
  delay among all the samples of the last two minutes.
\<close>

theorem DelayWindow_minimum:
  assumes "dw_run hist T w" and "length (dw_entries w) < dw_capacity w" and "T \<le> now" and "now < 2 ^ 64"
  shows "fst (dw_update w hdr now) = Min {x. \<exists>t. (x, t) \<in> set (hist @ [(unat (h_timediff hdr), now)]) \<and> recent now t}"
proof -
  define hist' where "hist' = hist @ [(unat (h_timediff hdr), now)]"
  note U = dw_update_ok[OF dw_run_ok[OF assms(1)] assms(2-4), of hdr, folded hist'_def]
  let ?S = "{x. \<exists>t. (x, t) \<in> set hist' \<and> recent now t}"
  have "finite ?S" by (rule finite_subset[of _ "fst ` set hist'"]) force+
  moreover have "fst (dw_update w hdr now) \<in> ?S" using U(4) by blast
  moreover have "fst (dw_update w hdr now) \<le> x" if x: "x \<in> ?S" for x
  proof -
    obtain e where "e \<in> set (dw_entries (snd (dw_update w hdr now)))" "de_tdm e \<le> x"
      using x U(1) unfolding dw_ok_def by fastforce
    then show ?thesis using U(3) by fastforce
  qed
  ultimately show ?thesis unfolding hist'_def[symmetric] by (intro Min_eqI[symmetric]) auto
qed

definition sample_delay :: "nat \<Rightarrow> Header" where
  "sample_delay x = \<lparr>h_version = 1, h_type = ST_STATE, h_extension = 0, h_connection_id = 7, h_timestamp = 8,
      h_timediff = of_nat x, h_wnd_size = 10, h_seq_nr = 11, h_ack_nr = 12\<rparr>"

theorem DelayWindow_minimum_witness:
  "fst (dw_update (snd (dw_update DelayWindow_new (sample_delay 30) 1000)) (sample_delay 40) 5000)
     = Min {x. \<exists>t. (x, t) \<in> set [(30, 1000), (40, 5000)] \<and> recent 5000 t}"
proof -
  let ?w = "snd (dw_update DelayWindow_new (sample_delay 30) 1000)"
  have "dw_run ([] @ [(unat (h_timediff (sample_delay 30)), 1000)]) 1000 ?w"
    by (rule dw_sample[OF dw_start]) (simp_all add: DelayWindow_new_def)
  then have "dw_run [(30, 1000)] 1000 ?w" by (simp add: sample_delay_def)
  moreover have "length (dw_entries ?w) < dw_capacity ?w" by (simp add: dw_update_def DelayWindow_new_def Let_def dw_push_back_def)
  ultimately show ?thesis using DelayWindow_minimum[of "[(30, 1000)]" 1000 ?w 5000 "sample_delay 40"] by (simp add: sample_delay_def)
qed

text \<open>
  The difference of two time values is the number of whole milliseconds between them, the comparison
  operators compare the number of microseconds, and adding a delay moves a time value by exactly that delay.
\<close>

theorem TimeValue_arithmetic:
  assumes "microseconds a < 1000000" and "microseconds b < 1000000" and "ms * 1000 < 2 ^ 32" and "tv_total a < 2 ^ 62"
  shows "tv_minus a b = trunc_div (int (tv_total a) - int (tv_total b)) 1000
    \<and> (tv_less_eq a b \<longleftrightarrow> tv_total a \<le> tv_total b) \<and> (tv_greater_eq a b \<longleftrightarrow> tv_total b \<le> tv_total a)
    \<and> (tv_less a b \<longleftrightarrow> tv_total a < tv_total b) \<and> (tv_greater a b \<longleftrightarrow> tv_total b < tv_total a)
    \<and> tv_total (addMilliSeconds ms a) = tv_total a + ms * 1000 \<and> microseconds (addMilliSeconds ms a) \<le> 1000000"
proof -
  have le: "a \<le> b \<longleftrightarrow> tv_total a \<le> tv_total b" "b \<le> a \<longleftrightarrow> tv_total b \<le> tv_total a"
    using tv_le_total[OF assms(1,2)] tv_le_total[OF assms(2,1)] by simp_all
  then have "a < b \<longleftrightarrow> tv_total a < tv_total b" "b < a \<longleftrightarrow> tv_total b < tv_total a" by (simp_all add: not_le[symmetric])
  moreover have "microseconds (addMilliSeconds ms a) \<le> 1000000"
    using mod_less_divisor[of 1000000] by (auto simp: addMilliSeconds_def Let_def less_imp_le)
  ultimately show ?thesis using le tv_minus_law[of a b] addMilliSeconds_law[OF assms(3,4)] tv_operators[of a b]
    by (simp add: less_eq_TimeValue_def less_TimeValue_def)
qed

theorem TimeValue_arithmetic_witness: "tv_minus (TimeValue 5 100) (TimeValue 3 999900) = 1000"
  using TimeValue_arithmetic[of "TimeValue 5 100" "TimeValue 3 999900" 0] by (simp add: tv_total_def trunc_div_def)

end
