(* ===== verification/Utp_Connection.thy ===== *)
theory Utp_Connection
  imports Utp_Local_Window Utp_Remote_Window Utp_Timing
begin

text \<open>
  One uTP connection, \<open>src/utp/connection.cpp\<close>: the state machine from the SYN packet to the closed connection,
  the packets it builds, the chopping of the output buffer into packets, and the timeouts.

  \<^item> \<open>Connection\<close> is the record of the class, with \<open>Stats\<close> inside; the packets given to the transmitter and the
    notifications it gets are the lists \<open>co_sent\<close> and \<open>co_notes\<close>.
  \<^item> The environment of a call is \<open>UtpEnv\<close>: the clock (one reading per call), whether \<open>Transmitter::sendTo\<close> accepts a
    packet, the contents of a fresh buffer from the pool, and \<open>qRound\<close> of the window gain, which the source computes
    in \<open>double\<close> arithmetic.
  \<^item> A result is \<open>None\<close> when the code leaves an array or reads an empty vector, otherwise a pair: \<open>True\<close> and the new
    state, or \<open>False\<close> and the state at the moment a \<open>TransmissionError\<close> is thrown.
  \<^item> The mutex makes every call atomic; the wait conditions of the blocking mode are left out.
\<close>

section \<open>State\<close>

datatype ConnType = INCOMING | OUTGOING

datatype ConnectionState = CS_IDLE | CS_SYN_SENT | CS_CONNECTED | CS_FINISHED | CS_CLOSED

datatype Notification = StateChanged bool bool | Closed

record Stats =
  st_type :: ConnType
  st_state :: ConnectionState
  st_send_connection_id :: u16
  st_reply_micro :: u32w
  st_recv_connection_id :: u16
  st_seq_nr :: u16
  st_eof_seq_nr :: int
  st_timeout :: nat
  st_absolute_timeout :: TimeValue
  st_rtt :: int
  st_rtt_var :: int
  st_packet_size :: nat
  st_last_window_size_transmitted :: nat
  st_bytes_received :: nat
  st_bytes_sent :: nat
  st_packets_received :: nat
  st_packets_sent :: nat
  st_readable :: bool
  st_writeable :: bool

record Connection =
  co_stats :: Stats
  co_local_wnd :: LocalWindow
  co_remote_wnd :: RemoteWindow
  co_output_buffer :: CircularBuffer
  co_fin_sent :: bool
  co_last_packet_sent :: TimeValue
  co_delay_window :: DelayWindow
  co_sent :: "bytes list"
  co_notes :: "Notification list"

record UtpEnv =
  ue_now :: TimeValue
  ue_sendTo :: "bytes list \<Rightarrow> bytes \<Rightarrow> bool"   \<comment> \<open>given the packets sent before\<close>
  ue_mem :: bytes
  ue_gain :: "int \<Rightarrow> nat \<Rightarrow> nat \<Rightarrow> int"        \<comment> \<open>\<open>off_target\<close>, current and maximal window\<close>

type_synonym conn_result = "(bool \<times> Connection) option"

definition then_conn :: "conn_result \<Rightarrow> (Connection \<Rightarrow> conn_result) \<Rightarrow> conn_result" where
  \<comment> \<open>the next statement, unless an exception was thrown\<close>
  "then_conn r f = (case r of None \<Rightarrow> None | Some (ok, c) \<Rightarrow> if ok then f c else Some (False, c))"

abbreviation upd_stats :: "(Stats \<Rightarrow> Stats) \<Rightarrow> Connection \<Rightarrow> Connection" where
  "upd_stats f c \<equiv> c\<lparr>co_stats := f (co_stats c)\<rparr>"

definition set_state :: "ConnectionState \<Rightarrow> Connection \<Rightarrow> Connection" where
  "set_state s c = upd_stats (\<lambda>st. st\<lparr>st_state := s\<rparr>) c"

abbreviation co_state :: "Connection \<Rightarrow> ConnectionState" where
  "co_state c \<equiv> st_state (co_stats c)"

text \<open>
  The constructor. An outgoing connection leaves \<open>state\<close> and \<open>seq_nr\<close> uninitialised (they are \<open>junk\<close> here) until
  \<open>startConnecting\<close> sets them; the output buffer has the default capacity of \<open>CircularBuffer\<close>.
\<close>

definition Connection_new :: "u16 \<Rightarrow> ConnType \<Rightarrow> ConnectionState \<Rightarrow> u16 \<Rightarrow> bytes \<Rightarrow> TimeValue \<Rightarrow> Connection" where
  "Connection_new recv_id type junk_state junk_seq mem now =
     \<lparr>co_stats = \<lparr>st_type = type, st_state = (if type = OUTGOING then junk_state else CS_IDLE),
        st_send_connection_id = (if type = OUTGOING then recv_id + 1 else recv_id - 1), st_reply_micro = 0,
        st_recv_connection_id = recv_id, st_seq_nr = (if type = OUTGOING then junk_seq else 5), st_eof_seq_nr = -1,
        st_timeout = 1000, st_absolute_timeout = now, st_rtt = 100, st_rtt_var = 0,
        st_packet_size = 1500 - IP_AND_UDP_OVERHEAD - 20, st_last_window_size_transmitted = 128 * 1024,
        st_bytes_received = 0, st_bytes_sent = 0, st_packets_received = 0, st_packets_sent = 0,
        st_readable = False, st_writeable = False\<rparr>,
      co_local_wnd = LocalWindow_new (128 * 1024), co_remote_wnd = RemoteWindow_new,
      co_output_buffer = CircularBuffer_new mem, co_fin_sent = False, co_last_packet_sent = now,
      co_delay_window = DelayWindow_new, co_sent = [], co_notes = []\<rparr>"

section \<open>Packets\<close>

definition startTimer :: "UtpEnv \<Rightarrow> Connection \<Rightarrow> Connection" where
  "startTimer env c = upd_stats (\<lambda>st. st\<lparr>st_absolute_timeout := addMilliSeconds (st_timeout st) (ue_now env)\<rparr>) c"

definition extensionLength :: "Connection \<Rightarrow> nat" where
  "extensionLength c =
     (let sack_bits = selectiveAckBits (co_local_wnd c) in
      if sack_bits > 0 then 2 + min (sack_bits div 8) 4 else 0)"

text \<open>The extension behind the header: the two bytes in front of the mask and the mask itself, filled in place.\<close>

definition fillExtension :: "Connection \<Rightarrow> nat \<Rightarrow> PacketBuffer \<Rightarrow> PacketBuffer option" where
  "fillExtension c extension_length pb =
     (if extension_length > 0 then do {
        ptr \<leftarrow> pb_extension pb;
        b1 \<leftarrow> memcpy_at (pb_buffer pb) ptr [0, of_nat (extension_length - 2)];
        bm \<leftarrow> mem_read b1 (ptr + 2) (extension_length - 2);
        s \<leftarrow> fillSelectiveAck (co_local_wnd c) \<lparr>sk_extension = 0, sk_length = of_nat (extension_length - 2), sk_bitmask = bm\<rparr>;
        b2 \<leftarrow> memcpy_at b1 (ptr + 2) (sk_bitmask s);
        Some (pb\<lparr>pb_buffer := b2\<rparr>) }
      else Some pb)"

definition transmit :: "UtpEnv \<Rightarrow> PacketBuffer \<Rightarrow> Connection \<Rightarrow> conn_result" where
  "transmit env pb c = do {
     data \<leftarrow> pb_data pb;
     Some (if ue_sendTo env (co_sent c) data then (True, c\<lparr>co_sent := co_sent c @ [data]\<rparr>) else (False, c)) }"

definition conn_header :: "UtpEnv \<Rightarrow> Connection \<Rightarrow> u4 \<Rightarrow> u16 \<Rightarrow> u16 \<Rightarrow> Header" where
  "conn_header env c type seq ack =
     \<lparr>h_version = 1, h_type = type, h_extension = (if extensionLength c = 0 then 0 else SELECTIVE_ACK_ID),
      h_connection_id = (if type = ST_SYN then st_recv_connection_id (co_stats c) else st_send_connection_id (co_stats c)),
      h_timestamp = timestampMicroSeconds (ue_now env), h_timediff = st_reply_micro (co_stats c),
      h_wnd_size = of_nat (lw_availableSpace (co_local_wnd c)), h_seq_nr = seq, h_ack_nr = ack\<rparr>"

definition note_window :: "Connection \<Rightarrow> Connection" where
  \<comment> \<open>\<open>stats.last_window_size_transmitted = local_wnd->availableSpace()\<close>\<close>
  "note_window c = upd_stats (\<lambda>st. st\<lparr>st_last_window_size_transmitted := lw_availableSpace (co_local_wnd c)\<rparr>) c"

definition note_sent :: "UtpEnv \<Rightarrow> Connection \<Rightarrow> Connection" where
  "note_sent env c = (upd_stats (\<lambda>st. st\<lparr>st_packets_sent := add32 (st_packets_sent st) 1\<rparr>) c)\<lparr>co_last_packet_sent := ue_now env\<rparr>"

text \<open>A packet without payload; the result of \<open>setHeader\<close> is not looked at.\<close>

definition sendPacket :: "UtpEnv \<Rightarrow> u4 \<Rightarrow> u16 \<Rightarrow> Connection \<Rightarrow> conn_result" where
  "sendPacket env type p_ack_nr c = do {
     (_, pb) \<leftarrow> setHeader (PacketBuffer_new (ue_mem env)) (conn_header env c type (st_seq_nr (co_stats c)) p_ack_nr) (extensionLength c);
     pb' \<leftarrow> fillExtension c (extensionLength c) pb;
     then_conn (transmit env pb' (note_window c)) (\<lambda>c. Some (True, startTimer env (note_sent env c))) }"

definition sendSYN :: "UtpEnv \<Rightarrow> Connection \<Rightarrow> conn_result" where
  "sendSYN env c =
     then_conn (sendPacket env ST_SYN 0 (upd_stats (\<lambda>st. st\<lparr>st_seq_nr := 1, st_state := CS_SYN_SENT, st_timeout := CONNECT_TIMEOUT\<rparr>) c))
       (\<lambda>c. Some (True, upd_stats (\<lambda>st. st\<lparr>st_seq_nr := st_seq_nr st + 1\<rparr>) c))"

definition startConnecting :: "UtpEnv \<Rightarrow> Connection \<Rightarrow> conn_result" where
  "startConnecting env c = (if st_type (co_stats c) = OUTGOING then sendSYN env c else Some (True, c))"

definition sendState :: "UtpEnv \<Rightarrow> Connection \<Rightarrow> conn_result" where
  "sendState env c = sendPacket env ST_STATE (lw_last_seq_nr (co_local_wnd c)) c"

definition sendFIN :: "UtpEnv \<Rightarrow> Connection \<Rightarrow> conn_result" where
  "sendFIN env c = sendPacket env ST_FIN (lw_last_seq_nr (co_local_wnd c)) c"

definition sendReset :: "UtpEnv \<Rightarrow> Connection \<Rightarrow> conn_result" where
  "sendReset env c = sendPacket env ST_RESET (lw_last_seq_nr (co_local_wnd c)) c"

text \<open>A data packet; its buffer is changed by the new header and returned with the connection.\<close>

definition sendDataPacket :: "UtpEnv \<Rightarrow> PacketBuffer \<Rightarrow> u16 \<Rightarrow> Connection \<Rightarrow> (bool \<times> PacketBuffer \<times> Connection) option" where
  "sendDataPacket env packet seq_nr c = do {
     (ok, pb) \<leftarrow> setHeader packet (conn_header env c ST_DATA seq_nr (lw_last_seq_nr (co_local_wnd c))) (extensionLength c);
     if \<not> ok then Some (False, pb, note_window c)
     else do {
       pb' \<leftarrow> fillExtension c (extensionLength c) pb;
       (sent, c') \<leftarrow> transmit env pb' (note_window c);
       Some (sent, pb', if sent then note_sent env c' else c') } }"

definition retransmit :: "UtpEnv \<Rightarrow> PacketBuffer \<Rightarrow> u16 \<Rightarrow> Connection \<Rightarrow> (bool \<times> PacketBuffer \<times> Connection) option" where
  "retransmit env packet p_seq_nr c = do {
     (ok, pb, c') \<leftarrow> sendDataPacket env packet p_seq_nr c;
     Some (ok, pb, if ok then startTimer env c' else c') }"

definition updateRTT :: "Header \<Rightarrow> nat \<Rightarrow> nat \<Rightarrow> Connection \<Rightarrow> Connection" where
  "updateRTT hdr packet_rtt packet_size c = upd_stats (\<lambda>st.
     let delta = st_rtt st - int32 packet_rtt;
         rtt_var = st_rtt_var st + trunc_div (\<bar>delta\<bar> - st_rtt_var st) 4;
         rtt = st_rtt st + trunc_div (int32 packet_rtt - st_rtt st) 8
     in st\<lparr>st_rtt_var := rtt_var, st_rtt := rtt, st_timeout := nat (max (rtt + rtt_var * 4) 500),
           st_bytes_sent := add64 (st_bytes_sent st) packet_size\<rparr>) c"

definition conn_ops :: "UtpEnv \<Rightarrow> Connection Retransmitter" where
  "conn_ops env = \<lparr>rt_updateRTT = updateRTT, rt_retransmit = retransmit env, rt_currentTimeout = (\<lambda>c. st_timeout (co_stats c))\<rparr>"

section \<open>Sending data\<close>

lemma cb_read_shrinks:
  assumes "cb_read cb n = Some (bs, cb')" "0 < cb_size cb" "0 < n"
  shows "cb_size cb' < cb_size cb"
proof -
  let ?k = "if cb_size cb < n then cb_size cb else n"
  have "cb_size cb' = sub32 (cb_size cb) ?k"
    using assms by (auto simp: cb_read_def cb_empty_def Let_def split: if_splits bind_splits)
  moreover have "sub32 a k < a" if "0 < k" "k \<le> a" for a k
  proof (cases "a < 2 ^ 32")
    case True
    then show ?thesis using that by (simp add: sub32_id)
  next
    case False
    then show ?thesis using u32_bound(3)[of a k] by linarith
  qed
  ultimately show ?thesis using assms(2,3) by auto
qed

lemma pb_fillData_shrinks:
  assumes "pb_fillData b cb n = Some (m, b', cb')" "0 < cb_size cb" "0 < n"
  shows "cb_size cb' < cb_size cb"
  using assms cb_read_shrinks[of cb "min n (PB_MAX_SIZE - Header_size)" _ cb']
  by (auto simp: pb_fillData_def Let_def PB_MAX_SIZE_def Header_size_def split: bind_splits if_splits)

definition bytes_to_send :: "Connection \<Rightarrow> nat" where
  \<comment> \<open>\<open>to_read\<close>: the smallest of four bounds\<close>
  "bytes_to_send c =
     min (min (min (cb_size (co_output_buffer c)) (rw_availableSpace (co_remote_wnd c))) (st_packet_size (co_stats c)))
         (sub32 (sub32 PB_MAX_SIZE (extensionLength c)) Header_size)"

definition count_packet :: "UtpEnv \<Rightarrow> PacketBuffer \<Rightarrow> Connection \<Rightarrow> Connection" where
  \<comment> \<open>\<open>remote_wnd->addPacket(packet, stats.seq_nr, now); stats.seq_nr++\<close>\<close>
  "count_packet env pb c =
     upd_stats (\<lambda>st. st\<lparr>st_seq_nr := st_seq_nr st + 1\<rparr>)
       (c\<lparr>co_remote_wnd := rw_addPacket pb (st_seq_nr (co_stats c)) (toTimeStamp (ue_now env)) (co_remote_wnd c)\<rparr>)"

lemma sendDataPacket_output:
  "sendDataPacket env pb seq c = Some (ok, pb', c') \<Longrightarrow> co_output_buffer c' = co_output_buffer c"
  by (auto simp: sendDataPacket_def transmit_def note_window_def note_sent_def split: bind_splits if_splits)

function send_loop :: "UtpEnv \<Rightarrow> Connection \<Rightarrow> conn_result" where
  "send_loop env c =
     (if cb_size (co_output_buffer c) > 0 \<and> rw_availableSpace (co_remote_wnd c) > 0 \<and> bytes_to_send c > 0 then
        (case pb_fillData (PacketBuffer_new (ue_mem env)) (co_output_buffer c) (bytes_to_send c) of
           None \<Rightarrow> None
         | Some (_, pb, out) \<Rightarrow>
             (case sendDataPacket env pb (st_seq_nr (co_stats c)) (c\<lparr>co_output_buffer := out\<rparr>) of
                None \<Rightarrow> None
              | Some (ok, pb', c') \<Rightarrow> if ok then send_loop env (count_packet env pb' c') else Some (False, c')))
      else Some (True, c))"
  by pat_completeness auto

termination
  by (relation "measure (\<lambda>(env, c). cb_size (co_output_buffer c))")
    (auto simp: count_packet_def dest!: sendDataPacket_output pb_fillData_shrinks)

declare send_loop.simps [simp del]

definition sendPackets :: "UtpEnv \<Rightarrow> Connection \<Rightarrow> conn_result" where
  "sendPackets env c = then_conn (send_loop env c) (\<lambda>c.
     if co_state c = CS_FINISHED \<and> \<not> co_fin_sent c \<and> cb_size (co_output_buffer c) = 0
     then then_conn (sendFIN env c) (\<lambda>c. Some (True, c\<lparr>co_fin_sent := True\<rparr>))
     else Some (True, startTimer env c))"

definition sendStateOrData :: "UtpEnv \<Rightarrow> Connection \<Rightarrow> conn_result" where
  "sendStateOrData env c =
     (if cb_size (co_output_buffer c) > 0 \<and> rw_availableSpace (co_remote_wnd c) > 0 then sendPackets env c else sendState env c)"

text \<open>\<open>send\<close> returns the number of bytes taken into the output buffer, or \<open>-1\<close>.\<close>

definition conn_send :: "UtpEnv \<Rightarrow> bytes \<Rightarrow> Connection \<Rightarrow> (int \<times> bool \<times> Connection) option" where
  "conn_send env data c =
     (if co_state c \<noteq> CS_CONNECTED then Some (-1, True, c)
      else do {
        (ret, out) \<leftarrow> cb_write (co_output_buffer c) data;
        (ok, c1) \<leftarrow> sendPackets env (c\<lparr>co_output_buffer := out\<rparr>);
        Some (int ret, ok, if ok then upd_stats (\<lambda>st. st\<lparr>st_writeable := \<not> cb_full (co_output_buffer c1)\<rparr>) c1 else c1) })"

section \<open>Receiving\<close>

definition checkState :: "Connection \<Rightarrow> Connection" where
  "checkState c =
     (let r = lw_isReadable (co_local_wnd c) \<or> co_state c = CS_CLOSED;
          w = rw_availableSpace (co_remote_wnd c) > 0 \<and> co_state c = CS_CONNECTED;
          r_changed = (\<not> st_readable (co_stats c) \<and> r);
          w_changed = (\<not> st_writeable (co_stats c) \<and> w);
          c1 = upd_stats (\<lambda>st. st\<lparr>st_readable := r, st_writeable := w\<rparr>) c
      in if r_changed \<or> w_changed then c1\<lparr>co_notes := co_notes c1 @ [StateChanged r_changed w_changed]\<rparr> else c1)"

definition checkIfClosed :: "Connection \<Rightarrow> Connection" where
  "checkIfClosed c =
     (if co_state c = CS_FINISHED \<and> allPacketsAcked (co_remote_wnd c) \<and> lw_isEmpty (co_local_wnd c)
      then set_state CS_CLOSED c else c)"

definition packet_size_for :: "nat \<Rightarrow> nat" where
  "packet_size_for max_window =
     (if max_window \<le> MIN_PACKET_SIZE then MIN_PACKET_SIZE
      else if max_window \<le> 1000 then 500
      else if max_window \<le> 5000 then 1000
      else 1500 - IP_AND_UDP_OVERHEAD - 20)"

definition updateDelayMeasurement :: "UtpEnv \<Rightarrow> Header \<Rightarrow> Connection \<Rightarrow> Connection" where
  "updateDelayMeasurement env hdr c =
     (let tms = timestampMicroSeconds (ue_now env);
          reply = (if tms > h_timestamp hdr then tms - h_timestamp hdr else h_timediff hdr - tms);
          (base_delay, dw) = dw_update (co_delay_window c) hdr (toTimeStamp (ue_now env));
          our_delay = int32 (sub32 (unat (h_timediff hdr) div 1000) base_delay);
          off_target = CCONTROL_TARGET - our_delay;
          rw = updateWindowSize (ue_gain env off_target (rw_cur_window (co_remote_wnd c)) (rw_max_window (co_remote_wnd c))) (co_remote_wnd c)
      in upd_stats (\<lambda>st. st\<lparr>st_reply_micro := reply, st_packet_size := packet_size_for (rw_max_window rw)\<rparr>)
           (c\<lparr>co_delay_window := dw, co_remote_wnd := rw\<rparr>))"

text \<open>\<open>remote_wnd->packetReceived(hdr, sack, this)\<close>: the window calls back into the connection that owns it.\<close>

definition remote_received :: "UtpEnv \<Rightarrow> Header \<Rightarrow> SelectiveAck option \<Rightarrow> Connection \<Rightarrow> Connection option" where
  "remote_received env hdr sack c = do {
     (rw, c') \<leftarrow> rw_packetReceived (conn_ops env) hdr sack (toTimeStamp (ue_now env)) (co_remote_wnd c) c;
     Some (c'\<lparr>co_remote_wnd := rw\<rparr>) }"

definition reset_and_close :: "UtpEnv \<Rightarrow> Connection \<Rightarrow> conn_result" where
  "reset_and_close env c = then_conn (sendReset env c) (\<lambda>c. Some (True, set_state CS_CLOSED c))"

text \<open>The branches of the \<open>switch\<close>.\<close>

definition on_syn_sent :: "UtpEnv \<Rightarrow> Header \<Rightarrow> Connection \<Rightarrow> conn_result" where
  "on_syn_sent env hdr c =
     (if h_type hdr = ST_STATE then
        Some (True, upd_stats (\<lambda>st. st\<lparr>st_state := CS_CONNECTED, st_timeout := 1000\<rparr>)
          (c\<lparr>co_local_wnd := setLastSeqNr (h_seq_nr hdr - 1) (co_local_wnd c)\<rparr>))
      else reset_and_close env c)"

definition on_idle :: "UtpEnv \<Rightarrow> Header \<Rightarrow> Connection \<Rightarrow> conn_result" where
  "on_idle env hdr c =
     (if h_type hdr = ST_SYN then
        then_conn (sendState env (c\<lparr>co_local_wnd := setLastSeqNr (h_seq_nr hdr) (co_local_wnd c)\<rparr>))
          (\<lambda>c. Some (True, upd_stats (\<lambda>st. st\<lparr>st_state := CS_CONNECTED, st_timeout := 1000\<rparr>) c))
      else reset_and_close env c)"

definition on_connected :: "UtpEnv \<Rightarrow> Header \<Rightarrow> bytes \<Rightarrow> nat \<Rightarrow> Connection \<Rightarrow> conn_result" where
  "on_connected env hdr packet data_off c =
     (if h_type hdr = ST_DATA then do {
        (ok, lw) \<leftarrow> lw_packetReceived (co_local_wnd c) hdr packet data_off;
        if ok then sendStateOrData env (c\<lparr>co_local_wnd := lw\<rparr>) else reset_and_close env (c\<lparr>co_local_wnd := lw\<rparr>) }
      else if h_type hdr = ST_STATE then sendPackets env c
      else if h_type hdr = ST_FIN then
        then_conn (sendPackets env (upd_stats (\<lambda>st. st\<lparr>st_eof_seq_nr := int (unat (h_seq_nr hdr)), st_state := CS_FINISHED\<rparr>) c))
          (\<lambda>c. Some (True, checkIfClosed c))
      else reset_and_close env c)"

definition finished_ack :: "UtpEnv \<Rightarrow> Connection \<Rightarrow> conn_result" where
  \<comment> \<open>the acknowledgement, our own FIN when everything was sent, and the test whether the connection is done\<close>
  "finished_ack env c = then_conn (sendStateOrData env c) (\<lambda>c.
     then_conn (if co_state c = CS_FINISHED \<and> \<not> co_fin_sent c \<and> cb_size (co_output_buffer c) = 0
                then then_conn (sendFIN env c) (\<lambda>c. Some (True, c\<lparr>co_fin_sent := True\<rparr>)) else Some (True, c))
       (\<lambda>c. Some (True, checkIfClosed c)))"

definition on_finished :: "UtpEnv \<Rightarrow> Header \<Rightarrow> bytes \<Rightarrow> nat \<Rightarrow> Connection \<Rightarrow> conn_result" where
  "on_finished env hdr packet data_off c =
     (if h_type hdr = ST_DATA then
        if SeqNrCmpSE (h_seq_nr hdr) (word_of_int (st_eof_seq_nr (co_stats c))) then do {
          (ok, lw) \<leftarrow> lw_packetReceived (co_local_wnd c) hdr packet data_off;
          if ok then finished_ack env (c\<lparr>co_local_wnd := lw\<rparr>) else reset_and_close env (c\<lparr>co_local_wnd := lw\<rparr>) }
        else finished_ack env c
      else if h_type hdr = ST_STATE then then_conn (sendPackets env c) (\<lambda>c. Some (True, checkIfClosed c))
      else if h_type hdr = ST_FIN then
        then_conn (sendPackets env (upd_stats (\<lambda>st. st\<lparr>st_eof_seq_nr := int (unat (h_seq_nr hdr))\<rparr>) c))
          (\<lambda>c. Some (True, checkIfClosed c))
      else reset_and_close env c)"

definition handle_state :: "UtpEnv \<Rightarrow> PacketParser \<Rightarrow> bytes \<Rightarrow> Connection \<Rightarrow> conn_result" where
  "handle_state env pp packet c =
     (case co_state c of
        CS_SYN_SENT \<Rightarrow> on_syn_sent env (pp_hdr pp) c
      | CS_IDLE \<Rightarrow> on_idle env (pp_hdr pp) c
      | CS_CONNECTED \<Rightarrow> on_connected env (pp_hdr pp) packet (pp_data_off pp) c
      | CS_FINISHED \<Rightarrow> on_finished env (pp_hdr pp) packet (pp_data_off pp) c
      | CS_CLOSED \<Rightarrow> Some (True, c))"

definition conn_handlePacket :: "UtpEnv \<Rightarrow> PacketParser \<Rightarrow> bytes \<Rightarrow> Connection \<Rightarrow> conn_result" where
  "conn_handlePacket env pp packet c = do {
     c2 \<leftarrow> remote_received env (pp_hdr pp) (pp_sack pp)
             (updateDelayMeasurement env (pp_hdr pp) (upd_stats (\<lambda>st. st\<lparr>st_packets_received := add32 (st_packets_received st) 1\<rparr>) c));
     then_conn (handle_state env pp packet c2) (\<lambda>c. Some (True, startTimer env (checkState c))) }"

text \<open>\<open>recv\<close> returns the bytes read, or \<open>None\<close> for the error code \<open>-1\<close>.\<close>

definition conn_recv :: "UtpEnv \<Rightarrow> nat \<Rightarrow> Connection \<Rightarrow> (bytes option \<times> bool \<times> Connection) option" where
  "conn_recv env max_len c =
     (let c1 = (if co_state c = CS_FINISHED then checkIfClosed c else c) in
      if lw_bytes_available (co_local_wnd c1) = 0 \<and> co_state c1 = CS_CLOSED then Some (None, True, c1)
      else do {
        (bs, lw) \<leftarrow> lw_read (co_local_wnd c1) max_len;
        let c2 = c1\<lparr>co_local_wnd := lw\<rparr>;
        (ok, c3) \<leftarrow> (if st_last_window_size_transmitted (co_stats c2) < 2000 \<and> lw_availableSpace (co_local_wnd c2) > 2000
                     then sendState env c2 else Some (True, c2));
        Some (Some bs, ok, if ok then upd_stats (\<lambda>st. st\<lparr>st_bytes_received := add64 (st_bytes_received st) (length bs),
                                        st_readable := lw_isReadable (co_local_wnd c3)\<rparr>) c3 else c3) })"

section \<open>Closing and timeouts\<close>

definition conn_close :: "UtpEnv \<Rightarrow> Connection \<Rightarrow> conn_result" where
  "conn_close env c = (if co_state c = CS_CONNECTED then sendPackets env (set_state CS_FINISHED c) else Some (True, c))"

definition conn_reset :: "UtpEnv \<Rightarrow> Connection \<Rightarrow> conn_result" where
  "conn_reset env c =
     (if co_state c \<noteq> CS_CLOSED then
        then_conn (sendReset env c) (\<lambda>c. Some (True, (set_state CS_CLOSED c)\<lparr>co_remote_wnd := rw_clear (co_remote_wnd c)\<rparr>))
      else Some (True, c))"

definition timeout_connected :: "UtpEnv \<Rightarrow> Connection \<Rightarrow> conn_result" where
  "timeout_connected env c = do {
     (rw, c1) \<leftarrow> rw_timeout (conn_ops env) (toTimeStamp (ue_now env)) (co_remote_wnd c) c;
     let c2 = upd_stats (\<lambda>st. st\<lparr>st_packet_size := MIN_PACKET_SIZE, st_timeout := u32 (st_timeout st * 2)\<rparr>) (c1\<lparr>co_remote_wnd := rw\<rparr>);
     if st_timeout (co_stats c2) \<ge> MAX_TIMEOUT then sendReset env (set_state CS_FINISHED c2)
     else then_conn (sendPackets env c2) (\<lambda>c.
       if tv_minus (ue_now env) (co_last_packet_sent c) > KEEP_ALIVE_TIMEOUT then sendState env c else Some (True, c)) }"

definition handleTimeout :: "UtpEnv \<Rightarrow> Connection \<Rightarrow> conn_result" where
  "handleTimeout env c = then_conn
     (case co_state c of
        CS_SYN_SENT \<Rightarrow> Some (True, set_state CS_CLOSED c)
      | CS_FINISHED \<Rightarrow> Some (True, set_state CS_CLOSED c)
      | CS_CONNECTED \<Rightarrow> timeout_connected env c
      | CS_IDLE \<Rightarrow> Some (True, startTimer env c)
      | CS_CLOSED \<Rightarrow> Some (True, c))
     (\<lambda>c. let c1 = checkState c in
        Some (True, if co_state c1 = CS_CLOSED then c1\<lparr>co_notes := co_notes c1 @ [Closed]\<rparr> else c1))"

definition checkTimeout :: "UtpEnv \<Rightarrow> TimeValue \<Rightarrow> Connection \<Rightarrow> conn_result" where
  "checkTimeout env now c =
     (if tv_greater_eq now (st_absolute_timeout (co_stats c)) then handleTimeout env c else Some (True, c))"

definition conn_isWriteable :: "Connection \<Rightarrow> bool" where
  "conn_isWriteable c \<longleftrightarrow> rw_availableSpace (co_remote_wnd c) > 0 \<and> co_state c = CS_CONNECTED"

definition allDataSent :: "Connection \<Rightarrow> bool" where
  "allDataSent c \<longleftrightarrow> allPacketsAcked (co_remote_wnd c) \<and> cb_size (co_output_buffer c) = 0"

section \<open>Packets on the wire\<close>

lemma mem_read_split:
  assumes "mem_read buf h n = Some x"
  obtains A C where "buf = A @ x @ C" "length A = h" "length x = n"
proof
  show "buf = take h buf @ x @ drop (h + n) buf" "length (take h buf) = h" "length x = n"
    using assms by (auto simp: mem_read_def drop_drop add.commute split: if_splits)
       (metis append_take_drop_id drop_drop add.commute)
qed

lemma gap_write:
  fixes buf :: "'a list"
  assumes "mem_read buf h n = Some (hb @ gap @ pl)" "length x = length gap" "k = h + length hb"
  obtains buf' where "memcpy_at buf k x = Some buf'" "length buf' = length buf" "mem_read buf' h n = Some (hb @ x @ pl)"
    "\<And>p. k + length gap \<le> p \<Longrightarrow> drop p buf' = drop p buf"
proof -
  obtain A C where b: "buf = A @ (hb @ gap @ pl) @ C" "length A = h" "length (hb @ gap @ pl) = n"
    using mem_read_split[OF assms(1)] by blast
  let ?b = "A @ (hb @ x @ pl) @ C"
  have "memcpy_at ((A @ hb) @ gap @ (pl @ C)) k x = Some ((A @ hb) @ x @ (pl @ C))"
    using b assms(2,3) by (intro memcpy_at_mid) simp_all
  then have 1: "memcpy_at buf k x = Some ?b" using b(1) by simp
  have 2: "mem_read ?b h n = Some (hb @ x @ pl)" using b assms(2) by (simp add: mem_read_def)
  have 3: "drop p ?b = drop p buf" if "k + length gap \<le> p" for p
  proof -
    have drop_same: "drop p (u @ w) = drop p (v @ w)" if "length u = length v" "length v \<le> p" for u v w :: "'a list"
      using that by (simp add: drop_append)
    show ?thesis using drop_same[of "(A @ hb) @ x" "(A @ hb) @ gap" "pl @ C"] that assms(2,3) b(2)
      by (simp only: b(1) append_assoc length_append)
  qed
  show thesis using that[OF 1 _ 2 3] b(1) assms(2) by simp
qed

lemma extensionLength_range: "extensionLength c = 0 \<or> 2 \<le> extensionLength c \<and> extensionLength c \<le> 6"
  by (auto simp: extensionLength_def Let_def)

text \<open>The packet that a connection builds: \<open>m\<close> is the bit mask of its selective acknowledgement.\<close>

definition mask_ok :: "nat \<Rightarrow> nat set \<Rightarrow> nat \<Rightarrow> bytes option \<Rightarrow> bool" where
  "mask_ok L R ext m \<longleftrightarrow> (if ext = 0 then m = None else \<exists>bm. m = Some bm \<and> length bm = ext - 2 \<and> length bm < 256
     \<and> (\<forall>k. sack_bit \<lparr>sk_extension = 0, sk_length = of_nat (length bm), sk_bitmask = bm\<rparr> k
           \<longleftrightarrow> 2 \<le> k \<and> k < 8 * (ext - 2) + 2 \<and> L + k \<in> R))"

lemma fillExtension_law:
  assumes lw: "lw_ok d N (co_local_wnd c) L R B F r" and ext: "ext = 0 \<or> 2 \<le> ext \<and> ext \<le> 6"
    and pb: "pb_ok pb pl" "pb_header pb = Some h" "pb_extension pb = Some (h + 20)" "pb_size pb = 20 + ext + length pl"
      "mem_read (pb_buffer pb) h (pb_size pb) = Some (hb @ gap @ pl)" "length hb = 20" "length gap = ext"
  shows "\<exists>pb' m. fillExtension c ext pb = Some pb' \<and> pb_ok pb' pl \<and> pb_data pb' = Some (hb @ sack_bytes m @ pl) \<and> mask_ok L R ext m"
proof (cases "ext = 0")
  case True
  then show ?thesis using pb by (intro exI[of _ pb] exI[of _ None]) (simp add: fillExtension_def pb_data_def sack_bytes_def mask_ok_def)
next
  case False
  then have e: "2 \<le> ext" "ext \<le> 6" "ext - 2 < 256" using ext by auto
  let ?l = "of_nat (ext - 2) :: u8"
  have l: "unat ?l = ext - 2" using e(3) by (simp only: unat_of_nat) simp
  obtain g2 g where g: "gap = g2 @ g" "length g2 = 2" "length g = ext - 2"
    using pb(7) e by (metis append_take_drop_id length_drop length_take min.absorb2)
  obtain b1 where b1: "memcpy_at (pb_buffer pb) (h + 20) [0, ?l] = Some b1" "length b1 = length (pb_buffer pb)"
      "mem_read b1 h (pb_size pb) = Some (hb @ [0, ?l] @ g @ pl)" "\<And>p. h + 20 + 2 \<le> p \<Longrightarrow> drop p b1 = drop p (pb_buffer pb)"
    using gap_write[of "pb_buffer pb" h "pb_size pb" hb g2 "g @ pl" "[0, ?l]" "h + 20"] pb(5,6) g by auto
  have bm: "mem_read b1 (h + 20 + 2) (ext - 2) = Some g"
  proof -
    obtain A C where "b1 = A @ (hb @ [0, ?l] @ g @ pl) @ C" "length A = h" using mem_read_split[OF b1(3)] by blast
    then show ?thesis using pb(6) g(3) by (simp add: mem_read_def)
  qed
  let ?s = "\<lparr>sk_extension = 0, sk_length = ?l, sk_bitmask = g\<rparr>"
  have "sack_wf ?s" using g(3) l by (simp add: sack_wf_def)
  then obtain s where s: "fillSelectiveAck (co_local_wnd c) ?s = Some s" "sack_wf s" "sk_length s = ?l"
      "\<And>k. sack_bit s k \<longleftrightarrow> 2 \<le> k \<and> k < 8 * (ext - 2) + 2 \<and> L + k \<in> R"
    using fillSelectiveAck_law[OF lw] l by fastforce
  have sl: "length (sk_bitmask s) = ext - 2" using s(2,3) l by (simp add: sack_wf_def)
  obtain b2 where b2: "memcpy_at b1 (22 + h) (sk_bitmask s) = Some b2" "length b2 = length b1"
      "mem_read b2 h (pb_size pb) = Some (hb @ [0, ?l] @ sk_bitmask s @ pl)" "\<And>p. 22 + h + (ext - 2) \<le> p \<Longrightarrow> drop p b2 = drop p b1"
    using gap_write[of b1 h "pb_size pb" "hb @ [0, ?l]" g pl "sk_bitmask s" "22 + h"] b1(3) g sl pb(6) by auto
  let ?pb = "pb\<lparr>pb_buffer := b2\<rparr>" and ?m = "Some (sk_bitmask s)"
  have "fillExtension c ext pb = Some ?pb" using e pb(3) b1(1) bm s(1) b2(1) by (simp add: fillExtension_def)
  moreover have "pb_ok ?pb pl"
  proof (cases "pb_payload pb")
    case None
    then show ?thesis using pb(1) b1(2) b2(2) by (simp add: pb_ok_def)
  next
    case (Some p)
    have le: "h + pb_size pb \<le> length (pb_buffer pb)" using pb(5) by (auto simp: mem_read_def split: if_splits)
    have "p + length pl = PB_MAX_SIZE" "length (pb_buffer pb) = PB_MAX_SIZE" using pb(1) Some by (auto simp: pb_ok_def)
    then have "h + 20 + ext \<le> p" using le pb(4) by simp
    then have "drop p b2 = drop p (pb_buffer pb)" using b1(4)[of p] b2(4)[of p] e by simp
    then show ?thesis using pb(1) b1(2) b2(2) Some by (simp add: pb_ok_def)
  qed
  moreover have "pb_data ?pb = Some (hb @ sack_bytes ?m @ pl)" using pb(2) b2(3) sl by (simp add: pb_data_def sack_bytes_def)
  moreover have "mask_ok L R ext ?m"
  proof -
    have "sack_bit \<lparr>sk_extension = 0, sk_length = ?l, sk_bitmask = sk_bitmask s\<rparr> k = sack_bit s k" for k
      using s(3) by (simp add: sack_bit_def)
    then show ?thesis using False sl e s(4) by (simp add: mask_ok_def)
  qed
  ultimately show ?thesis by blast
qed

text \<open>What sending a packet does not touch: everything but counters, timers and the packets sent.\<close>

definition conn_core :: "Connection \<Rightarrow> Connection" where
  "conn_core c = c\<lparr>co_stats := (co_stats c)\<lparr>st_last_window_size_transmitted := 0, st_packets_sent := 0,
       st_absolute_timeout := TimeValue 0 0, st_rtt := 0, st_rtt_var := 0, st_timeout := 0, st_bytes_sent := 0\<rparr>,
     co_last_packet_sent := TimeValue 0 0, co_sent := []\<rparr>"

lemma core_simps [simp]:
  "conn_core (startTimer env c) = conn_core c" "conn_core (note_window c) = conn_core c"
  "conn_core (note_sent env c) = conn_core c" "conn_core (updateRTT hdr t n c) = conn_core c"
  "conn_core (c\<lparr>co_sent := xs\<rparr>) = conn_core c"
  by (simp_all add: conn_core_def startTimer_def note_window_def note_sent_def updateRTT_def Let_def)

lemma sent_simps [simp]:
  "co_sent (startTimer env c) = co_sent c" "co_sent (note_window c) = co_sent c"
  "co_sent (note_sent env c) = co_sent c" "co_sent (updateRTT hdr t n c) = co_sent c"
  by (simp_all add: startTimer_def note_window_def note_sent_def updateRTT_def Let_def)

lemma conn_coreD:
  assumes "conn_core c = conn_core c'"
  shows "co_state c = co_state c'" "co_local_wnd c = co_local_wnd c'" "co_remote_wnd c = co_remote_wnd c'"
    "co_output_buffer c = co_output_buffer c'" "co_fin_sent c = co_fin_sent c'" "co_notes c = co_notes c'"
    "st_seq_nr (co_stats c) = st_seq_nr (co_stats c')" "st_packet_size (co_stats c) = st_packet_size (co_stats c')"
    "st_send_connection_id (co_stats c) = st_send_connection_id (co_stats c')"
    "st_recv_connection_id (co_stats c) = st_recv_connection_id (co_stats c')"
    "st_reply_micro (co_stats c) = st_reply_micro (co_stats c')"
  using arg_cong[OF assms, of co_local_wnd] arg_cong[OF assms, of co_remote_wnd] arg_cong[OF assms, of co_output_buffer]
    arg_cong[OF assms, of co_fin_sent] arg_cong[OF assms, of co_notes] arg_cong[OF assms, of "\<lambda>c. st_state (co_stats c)"]
    arg_cong[OF assms, of "\<lambda>c. st_seq_nr (co_stats c)"] arg_cong[OF assms, of "\<lambda>c. st_packet_size (co_stats c)"]
    arg_cong[OF assms, of "\<lambda>c. st_send_connection_id (co_stats c)"] arg_cong[OF assms, of "\<lambda>c. st_recv_connection_id (co_stats c)"]
    arg_cong[OF assms, of "\<lambda>c. st_reply_micro (co_stats c)"]
  by (simp_all add: conn_core_def)

definition lw_good :: "LocalWindow \<Rightarrow> bool" where
  "lw_good w \<longleftrightarrow> (\<exists>d N L R B F r. lw_ok d N w L R B F r)"

definition frame_of :: "Header \<Rightarrow> bytes option \<Rightarrow> bytes \<Rightarrow> bytes" where
  "frame_of hdr m payload = header_bytes hdr @ sack_bytes m @ payload"

lemma sendPacket_law:
  assumes lw: "lw_ok d N (co_local_wnd c) L R B F r" and mem: "length (ue_mem env) = 1500"
  shows "\<exists>ok c' m. sendPacket env type ack c = Some (ok, c') \<and> conn_core c' = conn_core c
    \<and> ok = ue_sendTo env (co_sent c) (frame_of (conn_header env c type (st_seq_nr (co_stats c)) ack) m [])
    \<and> mask_ok L R (extensionLength c) m
    \<and> co_sent c' = co_sent c @ (if ok then [frame_of (conn_header env c type (st_seq_nr (co_stats c)) ack) m []] else [])"
proof -
  let ?h = "conn_header env c type (st_seq_nr (co_stats c)) ack" and ?ext = "extensionLength c"
  have "pb_ok (PacketBuffer_new (ue_mem env)) []" using mem by (simp add: pb_ok_def PacketBuffer_new_def PB_MAX_SIZE_def)
  then obtain pb h gap where pb: "setHeader (PacketBuffer_new (ue_mem env)) ?h ?ext = Some (True, pb)" "pb_ok pb []"
      "pb_header pb = Some h" "pb_extension pb = Some (h + 20)" "pb_size pb = 20 + ?ext + length ([] :: bytes)"
      "mem_read (pb_buffer pb) h (pb_size pb) = Some (header_bytes ?h @ gap @ [])" "length gap = ?ext"
    using setHeader_law[of _ "[]" ?ext ?h] extensionLength_range[of c] by fastforce
  obtain pb' m where pb': "fillExtension c ?ext pb = Some pb'" "pb_data pb' = Some (header_bytes ?h @ sack_bytes m @ [])" "mask_ok L R ?ext m"
    using fillExtension_law[OF lw extensionLength_range pb(2-6) _ pb(7)] by auto
  show ?thesis using pb(1) pb'
    by (intro exI[of _ "ue_sendTo env (co_sent c) (frame_of ?h m [])"])
      (auto simp: sendPacket_def then_conn_def transmit_def frame_of_def)
qed

lemma sendDataPacket_law:
  assumes lw: "lw_ok d N (co_local_wnd c) L R B F r" and pb: "pb_ok pb pl" "length pl \<le> 1460"
  shows "\<exists>ok pb' c' m. sendDataPacket env pb seq c = Some (ok, pb', c') \<and> pb_ok pb' pl \<and> conn_core c' = conn_core c
    \<and> ok = ue_sendTo env (co_sent c) (frame_of (conn_header env c ST_DATA seq (lw_last_seq_nr (co_local_wnd c))) m pl)
    \<and> mask_ok L R (extensionLength c) m
    \<and> co_sent c' = co_sent c @ (if ok then [frame_of (conn_header env c ST_DATA seq (lw_last_seq_nr (co_local_wnd c))) m pl] else [])"
proof -
  let ?h = "conn_header env c ST_DATA seq (lw_last_seq_nr (co_local_wnd c))" and ?ext = "extensionLength c"
  have "20 + ?ext + length pl \<le> 1500" "?ext \<le> 20" using extensionLength_range[of c] pb(2) by auto
  then obtain pb1 h gap where pb1: "setHeader pb ?h ?ext = Some (True, pb1)" "pb_ok pb1 pl"
      "pb_header pb1 = Some h" "pb_extension pb1 = Some (h + 20)" "pb_size pb1 = 20 + ?ext + length pl"
      "mem_read (pb_buffer pb1) h (pb_size pb1) = Some (header_bytes ?h @ gap @ pl)" "length gap = ?ext"
    using setHeader_law[OF pb(1), of ?ext ?h] by blast
  obtain pb' m where pb': "fillExtension c ?ext pb1 = Some pb'" "pb_ok pb' pl"
      "pb_data pb' = Some (header_bytes ?h @ sack_bytes m @ pl)" "mask_ok L R ?ext m"
    using fillExtension_law[OF lw extensionLength_range pb1(2-6) _ pb1(7)] by auto
  show ?thesis using pb1(1) pb'
    by (intro exI[of _ "ue_sendTo env (co_sent c) (frame_of ?h m pl)"] exI[of _ pb'])
      (auto simp: sendDataPacket_def transmit_def frame_of_def)
qed

section \<open>The connection as retransmitter\<close>

definition conn_frame :: "Connection \<Rightarrow> Connection \<Rightarrow> bool" where
  "conn_frame c0 c \<longleftrightarrow> lw_good (co_local_wnd c0) \<and> conn_core c = conn_core c0 \<and> (\<exists>xs. co_sent c = co_sent c0 @ xs)"

lemma retransmit_frame:
  assumes "conn_frame c0 c" "pb_ok b payload" "length payload \<le> 1460"
  shows "\<exists>ok b' c'. retransmit env b seq c = Some (ok, b', c') \<and> pb_ok b' payload \<and> conn_frame c0 c'"
proof -
  have core: "conn_core c = conn_core c0" and good: "lw_good (co_local_wnd c0)" using assms(1) by (auto simp: conn_frame_def)
  obtain d N L R B F r where "lw_ok d N (co_local_wnd c) L R B F r"
    using good conn_coreD(2)[OF core] by (auto simp: lw_good_def)
  from sendDataPacket_law[OF this assms(2,3), of env seq] obtain ok b' c' xs where
      "sendDataPacket env b seq c = Some (ok, b', c')" "pb_ok b' payload" "conn_core c' = conn_core c" "co_sent c' = co_sent c @ xs"
    by blast
  then show ?thesis using assms(1)
    by (intro exI[of _ ok] exI[of _ b'] exI[of _ "if ok then startTimer env c' else c'"]) (auto simp: retransmit_def conn_frame_def)
qed

interpretation conn: retransmitter "conn_ops env" "conn_frame c0" for env c0
proof
  show "conn_frame c0 c \<Longrightarrow> conn_frame c0 (rt_updateRTT (conn_ops env) hdr t n c)" for c hdr t n
    by (simp add: conn_ops_def conn_frame_def)
  show "conn_frame c0 c \<Longrightarrow> pb_ok b payload \<Longrightarrow> length payload \<le> 1460 \<Longrightarrow>
      \<exists>ok b' c'. rt_retransmit (conn_ops env) b seq c = Some (ok, b', c') \<and> pb_ok b' payload \<and> conn_frame c0 c'" for c b payload seq
    unfolding conn_ops_def Retransmitter.simps by (rule retransmit_frame)
qed

section \<open>Chopping the output buffer\<close>

definition conn_good :: "Connection \<Rightarrow> bool" where
  "conn_good c \<longleftrightarrow> lw_good (co_local_wnd c) \<and> cb_inv (co_output_buffer c)
     \<and> 0 < st_packet_size (co_stats c) \<and> st_packet_size (co_stats c) \<le> 1452
     \<and> rw_wnd_size (co_remote_wnd c) < 2 ^ 32 \<and> rw_max_window (co_remote_wnd c) < 2 ^ 32
     \<and> (\<forall>p \<in> set (rw_unacked (co_remote_wnd c)). carried p)"

text \<open>
  \<open>chopped c ps refused c'\<close>: the bytes at the front of the output buffer of \<open>c\<close> became the packets \<open>ps\<close>, which were
  sent with consecutive sequence numbers and are now in flight; the bytes \<open>refused\<close> were taken out for a packet that the
  transmitter refused.
\<close>

definition data_header :: "u16 \<Rightarrow> Header \<Rightarrow> bytes option \<Rightarrow> bool" where
  "data_header cid h m \<longleftrightarrow> h_type h = ST_DATA \<and> h_connection_id h = cid
     \<and> h_extension h = (case m of None \<Rightarrow> 0 | Some _ \<Rightarrow> SELECTIVE_ACK_ID) \<and> (\<forall>bm. m = Some bm \<longrightarrow> length bm < 256)"

lemma conn_header_mask:
  assumes "mask_ok L R (extensionLength c) m"
  shows "h_extension (conn_header env c ty seq ack) = (case m of None \<Rightarrow> 0 | Some _ \<Rightarrow> SELECTIVE_ACK_ID)" "m = Some bm \<Longrightarrow> length bm < 256"
proof -
  have m: "if extensionLength c = 0 then m = None else \<exists>bm. m = Some bm \<and> length bm < 256"
    using assms unfolding mask_ok_def by meson
  show "h_extension (conn_header env c ty seq ack) = (case m of None \<Rightarrow> 0 | Some _ \<Rightarrow> SELECTIVE_ACK_ID)"
    using m by (auto simp: conn_header_def split: if_splits)
  show "m = Some bm \<Longrightarrow> length bm < 256" using m by (auto split: if_splits)
qed

definition chopped :: "Connection \<Rightarrow> bytes list \<Rightarrow> bytes \<Rightarrow> Connection \<Rightarrow> bool" where
  "chopped c ps refused c' \<longleftrightarrow>
     concat ps @ refused @ cb_content (co_output_buffer c') = cb_content (co_output_buffer c)
     \<and> (\<forall>p \<in> set ps. p \<noteq> [] \<and> length p \<le> 1452)
     \<and> length (concat ps) \<le> rw_availableSpace (co_remote_wnd c)
     \<and> rw_max_window (co_remote_wnd c') = rw_max_window (co_remote_wnd c)
     \<and> rw_cur_window (co_remote_wnd c') = rw_cur_window (co_remote_wnd c) + length (concat ps)
     \<and> st_seq_nr (co_stats c') = st_seq_nr (co_stats c) + of_nat (length ps)
     \<and> (\<exists>us. rw_unacked (co_remote_wnd c') = rw_unacked (co_remote_wnd c) @ us \<and> list_all2 (\<lambda>u p. pb_ok (up_packet u) p) us ps
          \<and> map up_seq_nr us = map (\<lambda>i. st_seq_nr (co_stats c) + of_nat i) [0..<length ps])
     \<and> (\<exists>hms. length hms = length ps \<and> co_sent c' = co_sent c @ map2 (\<lambda>(h, m) p. frame_of h m p) hms ps
          \<and> map (h_seq_nr \<circ> fst) hms = map (\<lambda>i. st_seq_nr (co_stats c) + of_nat i) [0..<length ps]
          \<and> (\<forall>(h, m) \<in> set hms. data_header (st_send_connection_id (co_stats c)) h m))
     \<and> co_local_wnd c' = co_local_wnd c \<and> co_state c' = co_state c \<and> co_fin_sent c' = co_fin_sent c \<and> co_notes c' = co_notes c"

lemma chopped_refl: "chopped c [] [] c"
  by (simp add: chopped_def)

lemma chopped_step:
  assumes q: "q \<noteq> []" "length q \<le> 1452"
    and out: "q @ cb_content (co_output_buffer c1) = cb_content (co_output_buffer c)"
    and seq: "st_seq_nr (co_stats c1) = st_seq_nr (co_stats c) + 1"
    and rw: "rw_max_window (co_remote_wnd c1) = rw_max_window (co_remote_wnd c)"
      "rw_cur_window (co_remote_wnd c1) = rw_cur_window (co_remote_wnd c) + length q"
      "rw_availableSpace (co_remote_wnd c1) + length q \<le> rw_availableSpace (co_remote_wnd c)"
      "rw_unacked (co_remote_wnd c1) = rw_unacked (co_remote_wnd c) @ [u]" "pb_ok (up_packet u) q" "up_seq_nr u = st_seq_nr (co_stats c)"
    and sent: "co_sent c1 = co_sent c @ [frame_of h m q]" "h_seq_nr h = st_seq_nr (co_stats c)"
      "data_header (st_send_connection_id (co_stats c)) h m" "st_send_connection_id (co_stats c1) = st_send_connection_id (co_stats c)"
    and same: "co_local_wnd c1 = co_local_wnd c" "co_state c1 = co_state c" "co_fin_sent c1 = co_fin_sent c" "co_notes c1 = co_notes c"
    and rest: "chopped c1 ps refused c'"
  shows "chopped c (q # ps) refused c'"
proof -
  obtain us where us: "rw_unacked (co_remote_wnd c') = rw_unacked (co_remote_wnd c1) @ us"
      "list_all2 (\<lambda>u p. pb_ok (up_packet u) p) us ps" "map up_seq_nr us = map (\<lambda>i. st_seq_nr (co_stats c1) + of_nat i) [0..<length ps]"
    using rest by (auto simp: chopped_def)
  obtain hms where hms: "length hms = length ps" "co_sent c' = co_sent c1 @ map2 (\<lambda>(h, m) p. frame_of h m p) hms ps"
      "map (h_seq_nr \<circ> fst) hms = map (\<lambda>i. st_seq_nr (co_stats c1) + of_nat i) [0..<length ps]"
      "\<forall>(h, m) \<in> set hms. data_header (st_send_connection_id (co_stats c1)) h m"
    using rest by (auto simp: chopped_def)
  have shift: "map (\<lambda>i. s + of_nat i) [0..<length (q # ps)] = s # map (\<lambda>i. s + 1 + of_nat i) [0..<length ps]" for s :: u16
    by (simp add: map_upt_Suc add.assoc del: upt_Suc)
  have "\<exists>us. rw_unacked (co_remote_wnd c') = rw_unacked (co_remote_wnd c) @ us \<and> list_all2 (\<lambda>u p. pb_ok (up_packet u) p) us (q # ps)
        \<and> map up_seq_nr us = map (\<lambda>i. st_seq_nr (co_stats c) + of_nat i) [0..<length (q # ps)]"
    using us rw(4-6) seq unfolding shift by (intro exI[of _ "u # us"]) simp
  moreover have "\<exists>hms. length hms = length (q # ps) \<and> co_sent c' = co_sent c @ map2 (\<lambda>(h, m) p. frame_of h m p) hms (q # ps)
        \<and> map (h_seq_nr \<circ> fst) hms = map (\<lambda>i. st_seq_nr (co_stats c) + of_nat i) [0..<length (q # ps)]
        \<and> (\<forall>(h, m) \<in> set hms. data_header (st_send_connection_id (co_stats c)) h m)"
    using hms sent seq unfolding shift by (intro exI[of _ "(h, m) # hms"]) simp
  moreover have "concat (q # ps) @ refused @ cb_content (co_output_buffer c') = cb_content (co_output_buffer c)"
    using rest out by (simp add: chopped_def)
  ultimately show ?thesis using rest q rw(1-3) seq same unfolding chopped_def by simp
qed

lemma rw_addPacket_fields:
  fixes s :: u16 and t :: nat
  assumes "pb_ok pb q" "length q \<le> rw_availableSpace w" "0 < length q" "rw_wnd_size w < 2 ^ 32" "rw_max_window w < 2 ^ 32"
  defines "w' \<equiv> rw_addPacket pb s t w"
  shows "rw_max_window w' = rw_max_window w" "rw_cur_window w' = rw_cur_window w + length q" "rw_wnd_size w' < 2 ^ 32"
    "rw_availableSpace w' + length q \<le> rw_availableSpace w" "rw_unacked w' = rw_unacked w @ [UnackedPacket_new pb s t]"
proof -
  have size: "payloadSize pb = length q" using assms(1) by (rule payloadSize_ok)
  have sp: "rw_cur_window w + length q \<le> min (rw_wnd_size w) (rw_max_window w)"
    using assms(2,3) unfolding rw_availableSpace_eq[OF assms(4,5)] by arith
  show cur: "rw_cur_window w' = rw_cur_window w + length q" using sp assms(4) by (simp add: w'_def rw_addPacket_def size add32_id)
  have wnd: "rw_wnd_size w' = rw_wnd_size w - length q" using sp assms(4) by (simp add: w'_def rw_addPacket_def size sub32_id)
  show "rw_max_window w' = rw_max_window w" "rw_unacked w' = rw_unacked w @ [UnackedPacket_new pb s t]"
    by (simp_all add: w'_def rw_addPacket_def)
  show b: "rw_wnd_size w' < 2 ^ 32" using wnd assms(4) by simp
  have "rw_availableSpace w' = min (rw_wnd_size w - length q) (rw_max_window w) - (rw_cur_window w + length q)"
    using rw_availableSpace_eq[OF b] assms(5) cur wnd by (simp add: w'_def rw_addPacket_def)
  then show "rw_availableSpace w' + length q \<le> rw_availableSpace w" unfolding rw_availableSpace_eq[OF assms(4,5)] using sp by arith
qed

lemma send_loop_law:
  assumes "conn_good c" and mem: "length (ue_mem env) = 1500"
  shows "\<exists>ok c' ps refused. send_loop env c = Some (ok, c') \<and> chopped c ps refused c' \<and> conn_good c'
    \<and> (ok \<longrightarrow> refused = [] \<and> (cb_content (co_output_buffer c') = [] \<or> rw_availableSpace (co_remote_wnd c') = 0))
    \<and> ((\<forall>xs f. ue_sendTo env xs f) \<longrightarrow> ok)"
  using assms(1)
proof (induction "cb_size (co_output_buffer c)" arbitrary: c rule: less_induct)
  case less
  let ?cb = "co_output_buffer c" and ?rw = "co_remote_wnd c"
  have g: "lw_good (co_local_wnd c)" "cb_inv ?cb" "0 < st_packet_size (co_stats c)" "st_packet_size (co_stats c) \<le> 1452"
      "rw_wnd_size ?rw < 2 ^ 32" "rw_max_window ?rw < 2 ^ 32" "\<forall>p \<in> set (rw_unacked ?rw). carried p"
    using less.prems by (auto simp: conn_good_def)
  have len: "length (cb_content ?cb) = cb_size ?cb" by simp
  show ?case
  proof (cases "cb_size ?cb > 0 \<and> rw_availableSpace ?rw > 0")
    case False
    then have "send_loop env c = Some (True, c)" by (subst send_loop.simps) auto
    moreover have "cb_content ?cb = [] \<or> rw_availableSpace ?rw = 0" using False by (auto simp: cb_content_def)
    ultimately show ?thesis using chopped_refl less.prems by (intro exI[of _ True] exI[of _ c] exI[of _ "[]"]) simp
  next
    case True
    define n where "n = bytes_to_send c"
    have "sub32 (sub32 PB_MAX_SIZE (extensionLength c)) Header_size = 1480 - extensionLength c"
      using extensionLength_range[of c] by (auto simp: PB_MAX_SIZE_def Header_size_def sub32_id)
    then have n: "0 < n" "n \<le> cb_size ?cb" "n \<le> rw_availableSpace ?rw" "n \<le> 1452"
      using True g(3,4) extensionLength_range[of c] by (auto simp: n_def bytes_to_send_def)
    obtain pb cb' where pb: "pb_fillData (PacketBuffer_new (ue_mem env)) ?cb n = Some (n, pb, cb')"
        "pb_ok pb (take n (cb_content ?cb))" "cb_inv cb'" "cb_content cb' = drop n (cb_content ?cb)"
      using pb_fillData_law[OF _ g(2), of "PacketBuffer_new (ue_mem env)" n] n len mem
      by (auto simp: PacketBuffer_new_def PB_MAX_SIZE_def)
    define q where "q = take n (cb_content ?cb)"
    have ql: "length q = n" using n(2) by (simp add: q_def)
    then have q: "length q = n" "q \<noteq> []" "length q \<le> 1460" using n by auto
    let ?c1 = "c\<lparr>co_output_buffer := cb'\<rparr>"
    obtain d N L R B F r where lw: "lw_ok d N (co_local_wnd ?c1) L R B F r" using g(1) by (auto simp: lw_good_def)
    let ?h = "conn_header env ?c1 ST_DATA (st_seq_nr (co_stats c)) (lw_last_seq_nr (co_local_wnd ?c1))"
    obtain ok pb' c2 m where s: "sendDataPacket env pb (st_seq_nr (co_stats c)) ?c1 = Some (ok, pb', c2)" "pb_ok pb' q"
        "conn_core c2 = conn_core ?c1" "co_sent c2 = co_sent c @ (if ok then [frame_of ?h m q] else [])"
        "ok = ue_sendTo env (co_sent c) (frame_of ?h m q)" "mask_ok L R (extensionLength ?c1) m"
      using sendDataPacket_law[OF lw pb(2)[folded q_def] q(3), of env "st_seq_nr (co_stats c)"] by auto
    note core = conn_coreD[OF s(3)]
    have loop: "send_loop env c = (if ok then send_loop env (count_packet env pb' c2) else Some (False, c2))"
      using True n(1) by (simp add: send_loop.simps[of env c] pb(1) s(1) flip: n_def)
    show ?thesis
    proof (cases ok)
      case False
      have "chopped c [] q c2" using core s(4) False pb(4) by (simp add: chopped_def q_def)
      moreover have "conn_good c2" using less.prems core pb(3) by (simp add: conn_good_def)
      ultimately show ?thesis using loop False s(5) by (intro exI[of _ False] exI[of _ c2] exI[of _ "[] :: bytes list"] exI[of _ q]) auto
    next
      case ok: True
      define c3 where "c3 = count_packet env pb' c2"
      let ?t = "toTimeStamp (ue_now env)"
      have av: "length q \<le> rw_availableSpace ?rw" "0 < length q" using n q by auto
      note A = rw_addPacket_fields[OF s(2) av g(5,6), of "st_seq_nr (co_stats c)" ?t]
      have rw3: "co_remote_wnd c3 = rw_addPacket pb' (st_seq_nr (co_stats c)) ?t ?rw" using core by (simp add: c3_def count_packet_def)
      have same: "co_local_wnd c3 = co_local_wnd c" "co_state c3 = co_state c" "co_fin_sent c3 = co_fin_sent c" "co_notes c3 = co_notes c"
          "co_output_buffer c3 = cb'" "st_packet_size (co_stats c3) = st_packet_size (co_stats c)"
          "st_seq_nr (co_stats c3) = st_seq_nr (co_stats c) + 1" "co_sent c3 = co_sent c2"
          "st_send_connection_id (co_stats c3) = st_send_connection_id (co_stats c)"
        using core by (simp_all add: c3_def count_packet_def)
      have "carried (UnackedPacket_new pb' (st_seq_nr (co_stats c)) ?t)" using s(2) q(3) by (auto simp: carried_def UnackedPacket_new_def)
      then have good3: "conn_good c3" using g pb(3) A same(1,5,6) unfolding conn_good_def rw3 by auto
      have "cb_size (co_output_buffer c3) < cb_size ?cb" unfolding same(5) using pb_fillData_shrinks[OF pb(1)] True n(1) by simp
      from less.hyps[OF this good3] obtain ok' c' ps refused where r: "send_loop env c3 = Some (ok', c')" "chopped c3 ps refused c'" "conn_good c'"
          "ok' \<longrightarrow> refused = [] \<and> (cb_content (co_output_buffer c') = [] \<or> rw_availableSpace (co_remote_wnd c') = 0)"
          "(\<forall>xs f. ue_sendTo env xs f) \<longrightarrow> ok'"
        by blast
      have "data_header (st_send_connection_id (co_stats c)) ?h m"
        using conn_header_mask[OF s(6)] by (simp add: data_header_def) (simp add: conn_header_def ST_defs)
      then have "chopped c (q # ps) refused c'"
        using r(2) by (intro chopped_step[where h = ?h and m = m and u = "UnackedPacket_new pb' (st_seq_nr (co_stats c)) ?t" and ?c1.0 = c3])
          (use q n s(2,4) ok A same pb(4) rw3 in \<open>simp_all add: UnackedPacket_new_def conn_header_def q_def\<close>)
      moreover have "send_loop env c = Some (ok', c')" using loop ok r(1) unfolding c3_def by simp
      ultimately show ?thesis using r(3,4,5) by blast
    qed
  qed
qed

section \<open>No operation fails\<close>

definition result_ok :: "conn_result \<Rightarrow> (Connection \<Rightarrow> bool) \<Rightarrow> bool" where
  \<comment> \<open>the call returns or throws, with a good connection that satisfies the predicate\<close>
  "result_ok r P \<longleftrightarrow> (\<exists>ok c'. r = Some (ok, c') \<and> conn_good c' \<and> P c')"

lemma result_ok_Some [simp]: "result_ok (Some (ok, c)) P \<longleftrightarrow> conn_good c \<and> P c"
  by (auto simp: result_ok_def)

lemma result_ok_then:
  assumes "result_ok r P" "\<And>c. conn_good c \<Longrightarrow> P c \<Longrightarrow> result_ok (f c) Q" "\<And>c. P c \<Longrightarrow> Q c"
  shows "result_ok (then_conn r f) Q"
  using assms by (fastforce simp: result_ok_def then_conn_def)

lemma result_ok_mono: "result_ok r P \<Longrightarrow> (\<And>c. P c \<Longrightarrow> Q c) \<Longrightarrow> result_ok r Q"
  by (auto simp: result_ok_def)

lemma conn_good_core: "conn_core c' = conn_core c \<Longrightarrow> conn_good c' \<longleftrightarrow> conn_good c"
  using conn_coreD[of c' c] by (simp add: conn_good_def)

lemma conn_good_stats:
  assumes "conn_good c" "0 < st_packet_size (f (co_stats c))" "st_packet_size (f (co_stats c)) \<le> 1452"
  shows "conn_good (upd_stats f c)"
  using assms by (simp add: conn_good_def)

lemma conn_good_state [simp]: "conn_good (set_state s c) \<longleftrightarrow> conn_good c"
  by (simp add: conn_good_def set_state_def)

lemma conn_good_fin [simp]: "conn_good (c\<lparr>co_fin_sent := b\<rparr>) \<longleftrightarrow> conn_good c"
  by (simp add: conn_good_def)

lemma set_state_fields [simp]:
  "co_state (set_state s c) = s" "co_local_wnd (set_state s c) = co_local_wnd c" "co_remote_wnd (set_state s c) = co_remote_wnd c"
  "co_output_buffer (set_state s c) = co_output_buffer c"
  by (simp_all add: set_state_def)

lemma startTimer_fields [simp]:
  "conn_good (startTimer env c) \<longleftrightarrow> conn_good c" "co_state (startTimer env c) = co_state c"
  "co_local_wnd (startTimer env c) = co_local_wnd c" "co_remote_wnd (startTimer env c) = co_remote_wnd c"
  by (simp_all add: startTimer_def conn_good_def)

lemma checkState_fields [simp]:
  "conn_good (checkState c) \<longleftrightarrow> conn_good c" "co_state (checkState c) = co_state c"
  by (simp_all add: checkState_def Let_def conn_good_def)

lemma checkIfClosed_fields [simp]:
  "conn_good (checkIfClosed c) \<longleftrightarrow> conn_good c" "co_local_wnd (checkIfClosed c) = co_local_wnd c"
  by (simp_all add: checkIfClosed_def)

lemma checkIfClosed_state:
  "co_state (checkIfClosed c) = co_state c \<or> co_state c = CS_FINISHED \<and> co_state (checkIfClosed c) = CS_CLOSED"
  by (simp add: checkIfClosed_def)

definition utp_env_ok :: "UtpEnv \<Rightarrow> bool" where
  "utp_env_ok env \<longleftrightarrow> length (ue_mem env) = 1500"

lemma sendPacket_ok:
  assumes "conn_good c" "utp_env_ok env"
  shows "result_ok (sendPacket env ty ack c) (\<lambda>c'. conn_core c' = conn_core c)"
proof -
  obtain d N L R B F r where "lw_ok d N (co_local_wnd c) L R B F r" using assms(1) by (auto simp: conn_good_def lw_good_def)
  from sendPacket_law[OF this, of env ty ack] assms(2) obtain ok c' where
      "sendPacket env ty ack c = Some (ok, c')" "conn_core c' = conn_core c" unfolding utp_env_ok_def by blast
  then show ?thesis using assms(1) conn_good_core[of c' c] by simp
qed

lemma send_simple_ok:
  assumes "conn_good c" "utp_env_ok env"
  shows "result_ok (sendState env c) (\<lambda>c'. conn_core c' = conn_core c)" "result_ok (sendFIN env c) (\<lambda>c'. conn_core c' = conn_core c)"
    "result_ok (sendReset env c) (\<lambda>c'. conn_core c' = conn_core c)"
  using sendPacket_ok[OF assms] by (simp_all add: sendState_def sendFIN_def sendReset_def)

definition unchanged :: "Connection \<Rightarrow> Connection \<Rightarrow> bool" where
  "unchanged c c' \<longleftrightarrow> co_state c' = co_state c \<and> co_local_wnd c' = co_local_wnd c"

lemma core_unchanged: "conn_core c' = conn_core c \<Longrightarrow> unchanged c c'"
  using conn_coreD[of c' c] by (simp add: unchanged_def)

lemma reset_and_close_ok:
  assumes "conn_good c" "utp_env_ok env"
  shows "result_ok (reset_and_close env c) (\<lambda>c'. co_state c' = co_state c \<or> co_state c' = CS_CLOSED)"
  unfolding reset_and_close_def
  by (rule result_ok_then[OF send_simple_ok(3)[OF assms]]) (auto dest: core_unchanged simp: unchanged_def)

lemma sendPackets_ok:
  assumes "conn_good c" "utp_env_ok env"
  shows "result_ok (sendPackets env c) (unchanged c)"
  unfolding sendPackets_def
proof (rule result_ok_then[where P = "unchanged c"])
  show "result_ok (send_loop env c) (unchanged c)"
    using send_loop_law[OF assms(1), of env] assms(2) by (fastforce simp: result_ok_def utp_env_ok_def unchanged_def chopped_def)
  fix c1 assume c1: "conn_good c1" "unchanged c c1"
  have "result_ok (then_conn (sendFIN env c1) (\<lambda>c. Some (True, c\<lparr>co_fin_sent := True\<rparr>))) (unchanged c)"
    by (rule result_ok_then[OF send_simple_ok(2)[OF c1(1) assms(2)]]) (use c1(2) in \<open>auto dest: core_unchanged simp: unchanged_def\<close>)
  then show "result_ok (if co_state c1 = CS_FINISHED \<and> \<not> co_fin_sent c1 \<and> cb_size (co_output_buffer c1) = 0
     then then_conn (sendFIN env c1) (\<lambda>c. Some (True, c\<lparr>co_fin_sent := True\<rparr>)) else Some (True, startTimer env c1)) (unchanged c)"
    using c1 by (simp add: unchanged_def)
qed simp

lemma sendStateOrData_ok:
  assumes "conn_good c" "utp_env_ok env"
  shows "result_ok (sendStateOrData env c) (unchanged c)"
  using sendPackets_ok[OF assms] result_ok_mono[OF send_simple_ok(1)[OF assms]] core_unchanged by (auto simp: sendStateOrData_def)

section \<open>Arriving packets\<close>

text \<open>
  A sequence number is in reach when it is old or less than 32768 slots ahead, counted with those in use.
\<close>

definition in_reach :: "LocalWindow \<Rightarrow> u16 \<Rightarrow> bool" where
  "in_reach w seq \<longleftrightarrow> SeqNrCmpSE seq (lw_last_seq_nr w) \<or> unat (seq - lw_last_seq_nr w) + length (lw_incoming w) < 32768"

lemma slots_ok_other:
  assumes "slots_ok d ps R B F r" "n \<notin> R"
  shows "slots_ok (d(n := x)) ps R B F r"
proof -
  have "slot_ok (d(n := x)) F r (B + i) (ps ! i)" if "i < length ps" for i
  proof (cases "B + i = n")
    case True
    then have "wp_packet (ps ! i) = None" using slots_ok_nth(3)[OF assms(1) that] assms(2) by auto
    then show ?thesis using slots_ok_nth(1)[OF assms(1) that] by (simp add: slot_ok_def)
  next
    case False
    then show ?thesis using slots_ok_nth(2)[OF assms(1) that] by (auto simp: slot_ok_def)
  qed
  then show ?thesis using assms(1) by (simp add: slots_ok_def)
qed

lemma lw_ok_other:
  assumes "lw_ok d N w L R B F r" "n \<notin> R" "L < n"
  shows "lw_ok (d(n := x)) N w L R B F r"
proof -
  have "map (d(n := x)) [F..<Suc L] = map d [F..<Suc L]" using assms(3) by simp
  moreover have "(d(n := x)) F = d F \<or> \<not> F \<le> L" using assms(3) by auto
  ultimately show ?thesis using assms slots_ok_other[of d "lw_incoming w" R B F r n x]
    unfolding lw_ok_def lw_pre_def pending_def by auto
qed

lemma lw_place_held:
  assumes ok: "lw_ok d N w L R B F r" and n: "L < n" "n + length (lw_incoming w) < L + 32768" "n \<in> R"
  shows "lw_place w (of_nat n) pkt off = Some None"
proof -
  have pre: "lw_pre d N w L R B F r" "Suc L \<notin> R" using ok by (auto simp: lw_ok_def)
  note I = lw_preD[OF pre(1)]
  have "n \<noteq> Suc L" using n(3) pre(2) by auto
  then have nF: "n \<noteq> F" "F \<le> n" "B \<le> n" "n < B + length (lw_incoming w)" using n(1,3) I(4,5,8) by auto
  then have i: "n - B < length (lw_incoming w)" "B + (n - B) = n" by auto
  then obtain buf where "wp_packet (lw_incoming w ! (n - B)) = Some buf" using slots_ok_nth(3)[OF I(1) i(1)] nF n(3) by auto
  then have "length (d n) < 2 ^ 31" using slot_rest_eq(1,2)[OF slots_ok_nth(2)[OF I(1) i(1)]] i(2) nF(1) by force
  then have "packet_for d n (d n) 0" by (simp add: packet_for_def)
  then have "lw_place w (of_nat n) (d n) 0 = Some None" using place_law[OF ok n(1,2)] n(3) by simp
  then show ?thesis by (auto simp: lw_place_def Let_def split: if_splits)
qed

lemma lw_received_total:
  assumes "lw_good w" "in_reach w (h_seq_nr hdr)" "off \<le> length pkt" "length pkt < 2 ^ 31"
  shows "\<exists>ok w'. lw_packetReceived w hdr pkt off = Some (ok, w') \<and> lw_good w'"
proof (cases "SeqNrCmpSE (h_seq_nr hdr) (lw_last_seq_nr w)")
  case True
  then show ?thesis using assms(1) by (auto simp: lw_packetReceived_def)
next
  case False
  obtain d N L R B F r where ok: "lw_ok d N w L R B F r" using assms(1) by (auto simp: lw_good_def)
  then have L: "lw_last_seq_nr w = of_nat L" "N \<le> L" by (auto simp: lw_ok_def lw_pre_def)
  define u where "u = unat (h_seq_nr hdr - lw_last_seq_nr w)"
  define n where "n = L + u"
  have hn: "h_seq_nr hdr = of_nat n" by (simp add: n_def u_def L(1))
  have u: "u + length (lw_incoming w) < 32768" using assms(2) False by (simp add: in_reach_def u_def)
  then have "L < n" using False hn L(1) seq_nr_order(1)[of L n] by (auto simp: n_def)
  define x where "x = drop off pkt"
  show ?thesis
  proof (cases "n \<in> R")
    case True
    \<comment> \<open>a second copy, whatever it contains, is either refused or ignored\<close>
    have "lw_place w (of_nat n) pkt off = Some None"
      using lw_place_held[OF ok \<open>L < n\<close> _ True] u by (auto simp: n_def)
    then show ?thesis using assms(1) hn by (auto simp: lw_packetReceived_def Let_def)
  next
    case False
    have "packet_for (d(n := x)) n pkt off" using assms(3,4) by (simp add: packet_for_def x_def)
    note law = packetReceived_law[OF lw_ok_other[OF ok False \<open>L < n\<close>] _ _ _ this hn]
    show ?thesis
    proof (cases "length x \<le> lw_window_space w")
      case True
      then obtain w' L' where "lw_packetReceived w hdr pkt off = Some (True, w')" "lw_ok (d(n := x)) N w' L' (insert n R) B F r"
        using law L(2) u \<open>L < n\<close> by (auto simp: n_def)
      then show ?thesis unfolding lw_good_def by blast
    next
      case False
      then have "lw_packetReceived w hdr pkt off = Some (False, w)" using law L(2) u \<open>L < n\<close> by (auto simp: n_def)
      then show ?thesis using assms(1) by blast
    qed
  qed
qed

section \<open>The state machine\<close>

definition may_follow :: "ConnectionState \<Rightarrow> ConnectionState \<Rightarrow> bool" where
  "may_follow s s' \<longleftrightarrow> s' = s \<or> (case s of CS_IDLE \<Rightarrow> s' \<in> {CS_CONNECTED, CS_CLOSED} | CS_SYN_SENT \<Rightarrow> s' \<in> {CS_CONNECTED, CS_CLOSED}
     | CS_CONNECTED \<Rightarrow> s' \<in> {CS_FINISHED, CS_CLOSED} | CS_FINISHED \<Rightarrow> s' = CS_CLOSED | CS_CLOSED \<Rightarrow> False)"

abbreviation follows :: "Connection \<Rightarrow> Connection \<Rightarrow> bool" where
  "follows c c' \<equiv> may_follow (co_state c) (co_state c')"

lemma may_follow_simps [simp]:
  "may_follow s s" "may_follow s CS_CLOSED" "may_follow CS_CONNECTED CS_FINISHED" "may_follow CS_IDLE CS_CONNECTED"
  "may_follow CS_SYN_SENT CS_CONNECTED" "may_follow CS_CLOSED s \<longleftrightarrow> s = CS_CLOSED"
  by (auto simp: may_follow_def split: ConnectionState.splits)

lemma unchanged_follows: "unchanged c c' \<Longrightarrow> co_state c = s \<Longrightarrow> co_state c' = s"
  by (simp add: unchanged_def)

lemma checkIfClosed_follows: "may_follow (co_state c) (co_state (checkIfClosed c))"
  using checkIfClosed_state[of c] by auto

lemma conn_good_local: "conn_good c \<Longrightarrow> lw_good w \<Longrightarrow> conn_good (c\<lparr>co_local_wnd := w\<rparr>)"
  by (simp add: conn_good_def)

lemma conn_good_remote:
  "conn_good c \<Longrightarrow> rw_wnd_size w < 2 ^ 32 \<Longrightarrow> rw_max_window w < 2 ^ 32 \<Longrightarrow> \<forall>p \<in> set (rw_unacked w). carried p
    \<Longrightarrow> conn_good (c\<lparr>co_remote_wnd := w\<rparr>)"
  by (simp add: conn_good_def)

lemma setLastSeqNr_good:
  assumes "lw_good w" "lw_incoming w = []"
  shows "lw_good (setLastSeqNr s w)"
proof -
  obtain d N L R B F r where ok: "lw_ok d N w L R B F r" using assms(1) by (auto simp: lw_good_def)
  then have I: "lw_capacity w < 2 ^ 31" "lw_window_space w = lw_capacity w" "F = Suc L" "r = 0" "lw_bytes_available w = 0"
    using assms(2) by (auto simp: lw_ok_def lw_pre_def pending_def)
  have "lw_ok d (unat s) (setLastSeqNr s w) (unat s) {} (Suc (unat s)) (Suc (unat s)) 0"
    using I assms(2) by (simp add: lw_ok_def lw_pre_def slots_ok_def pending_def setLastSeqNr_def)
  then show ?thesis unfolding lw_good_def by blast
qed

lemma packet_size_for_range: "0 < packet_size_for m" "packet_size_for m \<le> 1452"
  by (simp_all add: packet_size_for_def MIN_PACKET_SIZE_def IP_AND_UDP_OVERHEAD_def)

lemma updateWindowSize_bound: "rw_max_window w < 2 ^ 32 \<Longrightarrow> rw_max_window (updateWindowSize d w) < 2 ^ 32"
  by (auto simp: updateWindowSize_def MIN_PACKET_SIZE_def nat_less_iff)

lemma updateDelayMeasurement_ok:
  assumes "conn_good c"
  shows "conn_good (updateDelayMeasurement env hdr c)" "co_state (updateDelayMeasurement env hdr c) = co_state c"
    "co_local_wnd (updateDelayMeasurement env hdr c) = co_local_wnd c"
    "rw_unacked (co_remote_wnd (updateDelayMeasurement env hdr c)) = rw_unacked (co_remote_wnd c)"
proof -
  have u: "rw_unacked (updateWindowSize d w) = rw_unacked w" "rw_wnd_size (updateWindowSize d w) = rw_wnd_size w" for d w
    by (simp_all add: updateWindowSize_def)
  show "conn_good (updateDelayMeasurement env hdr c)"
    using assms packet_size_for_range updateWindowSize_bound u
    by (auto simp: updateDelayMeasurement_def Let_def conn_good_def split: prod.splits)
  show "co_state (updateDelayMeasurement env hdr c) = co_state c" "co_local_wnd (updateDelayMeasurement env hdr c) = co_local_wnd c"
      "rw_unacked (co_remote_wnd (updateDelayMeasurement env hdr c)) = rw_unacked (co_remote_wnd c)"
    by (auto simp: updateDelayMeasurement_def Let_def u split: prod.splits)
qed

lemma remote_received_ok:
  assumes "conn_good c" "sack_opt_wf sack"
  shows "\<exists>c'. remote_received env hdr sack c = Some c' \<and> conn_good c' \<and> unchanged c c'"
proof -
  have f: "conn_frame c c" using assms(1) by (simp add: conn_frame_def conn_good_def)
  have ca: "\<forall>p \<in> set (rw_unacked (co_remote_wnd c)). carried p" using assms(1) by (simp add: conn_good_def)
  obtain w c1 where w: "rw_packetReceived (conn_ops env) hdr sack (toTimeStamp (ue_now env)) (co_remote_wnd c) c = Some (w, c1)"
      "conn_frame c c1" "\<forall>p \<in> set (rw_unacked w). carried p"
      "rw_max_window w \<in> {rw_max_window (co_remote_wnd c), shrink_window (rw_max_window (co_remote_wnd c))}"
      "rw_wnd_size w = unat (h_wnd_size hdr)"
    using conn.rw_packetReceived_total[OF f ca assms(2)] by blast
  have core: "conn_core c1 = conn_core c" using w(2) by (simp add: conn_frame_def)
  have "rw_wnd_size w < 2 ^ 32" using w(5) unsigned_less[of "h_wnd_size hdr", where ?'a=nat] by simp
  moreover have "rw_max_window w < 2 ^ 32" using w(4) assms(1) shrink_window_le[of "rw_max_window (co_remote_wnd c)"]
    by (auto simp: conn_good_def)
  ultimately have "conn_good (c1\<lparr>co_remote_wnd := w\<rparr>)" using conn_good_remote[of c1 w] conn_good_core[OF core] assms(1) w(3) by simp
  moreover have "unchanged c (c1\<lparr>co_remote_wnd := w\<rparr>)" using core_unchanged[OF core] by (simp add: unchanged_def)
  ultimately show ?thesis using w(1) by (simp add: remote_received_def)
qed

definition packet_fits :: "PacketParser \<Rightarrow> bytes \<Rightarrow> Connection \<Rightarrow> bool" where
  \<comment> \<open>a parsed packet: its payload lies inside it and a data packet is in reach of the window\<close>
  "packet_fits pp packet c \<longleftrightarrow> sack_opt_wf (pp_sack pp) \<and> pp_data_off pp \<le> length packet \<and> length packet < 2 ^ 31
     \<and> (h_type (pp_hdr pp) = ST_DATA \<longrightarrow> in_reach (co_local_wnd c) (h_seq_nr (pp_hdr pp)))
     \<and> (co_state c \<in> {CS_IDLE, CS_SYN_SENT} \<longrightarrow> lw_incoming (co_local_wnd c) = [])"

lemma on_connected_ok:
  assumes c: "conn_good c" "utp_env_ok env" "co_state c = CS_CONNECTED"
    and p: "h_type hdr = ST_DATA \<Longrightarrow> in_reach (co_local_wnd c) (h_seq_nr hdr)" "off \<le> length packet" "length packet < 2 ^ 31"
  shows "result_ok (on_connected env hdr packet off c) (follows c)"
proof -
  have r: "result_ok (reset_and_close env c1) (follows c)" if "conn_good c1" "co_state c1 = CS_CONNECTED" for c1
    using reset_and_close_ok[OF that(1) c(2)] by (rule result_ok_mono) (use that c(3) in auto)
  have s: "result_ok r (unchanged c1) \<Longrightarrow> co_state c1 = CS_CONNECTED \<Longrightarrow> result_ok r (follows c)" for r c1
    by (erule result_ok_mono) (use c(3) in \<open>simp add: unchanged_def\<close>)
  consider "h_type hdr = ST_DATA" | "h_type hdr = ST_STATE" | "h_type hdr = ST_FIN"
    | "h_type hdr \<notin> {ST_DATA, ST_STATE, ST_FIN}" by auto
  then show ?thesis
  proof cases
    case 1
    obtain ok w where w: "lw_packetReceived (co_local_wnd c) hdr packet off = Some (ok, w)" "lw_good w"
      using lw_received_total[OF _ p(1)[OF 1] p(2,3)] c(1) by (auto simp: conn_good_def)
    let ?c = "c\<lparr>co_local_wnd := w\<rparr>"
    have g: "conn_good ?c" "co_state ?c = CS_CONNECTED" using conn_good_local[OF c(1) w(2)] c(3) by simp_all
    show ?thesis using 1 w(1) r[OF g] s[OF sendStateOrData_ok[OF g(1) c(2)] g(2)] by (simp add: on_connected_def)
  next
    case 2
    then show ?thesis using s[OF sendPackets_ok[OF c(1,2)] c(3)] by (simp add: on_connected_def ST_defs)
  next
    case 3
    let ?c = "upd_stats (\<lambda>st. st\<lparr>st_eof_seq_nr := int (unat (h_seq_nr hdr)), st_state := CS_FINISHED\<rparr>) c"
    have "conn_good ?c" using c(1) by (simp add: conn_good_def)
    then have "result_ok (then_conn (sendPackets env ?c) (\<lambda>c. Some (True, checkIfClosed c))) (follows c)"
    proof (rule result_ok_then[OF sendPackets_ok[OF _ c(2)]])
      fix c1 assume "conn_good c1" "unchanged ?c c1"
      then show "result_ok (Some (True, checkIfClosed c1)) (follows c)"
        using checkIfClosed_state[of c1] c(3) by (auto simp: unchanged_def)
    qed (use c(3) in \<open>simp add: unchanged_def\<close>)
    then show ?thesis using 3 by (simp add: on_connected_def ST_defs)
  next
    case 4
    then show ?thesis using r[OF c(1,3)] by (simp add: on_connected_def)
  qed
qed

lemma finished_ack_ok:
  assumes c: "conn_good c" "utp_env_ok env" "co_state c = CS_FINISHED"
  shows "result_ok (finished_ack env c) (\<lambda>c'. may_follow CS_FINISHED (co_state c'))"
  unfolding finished_ack_def
proof (rule result_ok_then[OF sendStateOrData_ok[OF c(1,2)]])
  fix c1 assume c1: "conn_good c1" "unchanged c c1"
  have st: "co_state c1 = CS_FINISHED" using c1(2) c(3) by (simp add: unchanged_def)
  have fin: "result_ok (then_conn (sendFIN env c1) (\<lambda>c. Some (True, c\<lparr>co_fin_sent := True\<rparr>))) (\<lambda>c'. co_state c' = CS_FINISHED)"
    by (rule result_ok_then[OF send_simple_ok(2)[OF c1(1) c(2)]]) (use st in \<open>auto dest: core_unchanged simp: unchanged_def\<close>)
  show "result_ok (then_conn (if co_state c1 = CS_FINISHED \<and> \<not> co_fin_sent c1 \<and> cb_size (co_output_buffer c1) = 0
        then then_conn (sendFIN env c1) (\<lambda>c. Some (True, c\<lparr>co_fin_sent := True\<rparr>)) else Some (True, c1))
       (\<lambda>c. Some (True, checkIfClosed c))) (\<lambda>c'. may_follow CS_FINISHED (co_state c'))"
  proof (rule result_ok_then[where P = "\<lambda>c'. co_state c' = CS_FINISHED"])
    fix c2 assume "conn_good c2" "co_state c2 = CS_FINISHED"
    then show "result_ok (Some (True, checkIfClosed c2)) (\<lambda>c'. may_follow CS_FINISHED (co_state c'))"
      using checkIfClosed_state[of c2] by auto
  qed (use fin st c1 in auto)
qed (use c(3) in \<open>simp add: unchanged_def\<close>)

lemma on_finished_ok:
  assumes c: "conn_good c" "utp_env_ok env" "co_state c = CS_FINISHED"
    and p: "h_type hdr = ST_DATA \<Longrightarrow> in_reach (co_local_wnd c) (h_seq_nr hdr)" "off \<le> length packet" "length packet < 2 ^ 31"
  shows "result_ok (on_finished env hdr packet off c) (follows c)"
proof -
  have r: "result_ok (reset_and_close env c1) (follows c)" if "conn_good c1" "co_state c1 = CS_FINISHED" for c1
    using reset_and_close_ok[OF that(1) c(2)] by (rule result_ok_mono) (use that c(3) in auto)
  have s: "result_ok (then_conn (sendPackets env c1) (\<lambda>c. Some (True, checkIfClosed c))) (follows c)"
    if "conn_good c1" "co_state c1 = CS_FINISHED" for c1
  proof (rule result_ok_then[OF sendPackets_ok[OF that(1) c(2)]])
    fix c2 assume "conn_good c2" "unchanged c1 c2"
    then show "result_ok (Some (True, checkIfClosed c2)) (follows c)"
      using checkIfClosed_state[of c2] c(3) that(2) by (auto simp: unchanged_def)
  qed (use c(3) that(2) in \<open>simp add: unchanged_def\<close>)
  consider "h_type hdr = ST_DATA" | "h_type hdr = ST_STATE" | "h_type hdr = ST_FIN"
    | "h_type hdr \<notin> {ST_DATA, ST_STATE, ST_FIN}" by auto
  then show ?thesis
  proof cases
    case 1
    obtain ok w where w: "lw_packetReceived (co_local_wnd c) hdr packet off = Some (ok, w)" "lw_good w"
      using lw_received_total[OF _ p(1)[OF 1] p(2,3)] c(1) by (auto simp: conn_good_def)
    let ?c = "c\<lparr>co_local_wnd := w\<rparr>"
    have g: "conn_good ?c" "co_state ?c = CS_FINISHED" using conn_good_local[OF c(1) w(2)] c(3) by simp_all
    show ?thesis using 1 w(1) r[OF g] finished_ack_ok[OF g(1) c(2) g(2)] finished_ack_ok[OF c] c(3) by (simp add: on_finished_def)
  next
    case 2
    then show ?thesis using s[OF c(1,3)] by (simp add: on_finished_def ST_defs)
  next
    case 3
    let ?c = "upd_stats (\<lambda>st. st\<lparr>st_eof_seq_nr := int (unat (h_seq_nr hdr))\<rparr>) c"
    have "conn_good ?c" "co_state ?c = CS_FINISHED" using c(1,3) by (simp_all add: conn_good_def)
    then show ?thesis using 3 s[of ?c] by (simp add: on_finished_def ST_defs)
  next
    case 4
    then show ?thesis using r[OF c(1,3)] by (simp add: on_finished_def)
  qed
qed

lemma conn_good_established:
  "conn_good (upd_stats (\<lambda>st. st\<lparr>st_state := s, st_timeout := t\<rparr>) c) \<longleftrightarrow> conn_good c"
  by (simp add: conn_good_def)

lemma handle_state_ok:
  assumes c: "conn_good c" "utp_env_ok env" and p: "packet_fits pp packet c"
  shows "result_ok (handle_state env pp packet c) (follows c)"
proof -
  have r: "result_ok (reset_and_close env c) (follows c)"
    using reset_and_close_ok[OF c] by (rule result_ok_mono) auto
  have w: "lw_good (co_local_wnd c)" using c(1) by (simp add: conn_good_def)
  have setl: "conn_good (c\<lparr>co_local_wnd := setLastSeqNr s (co_local_wnd c)\<rparr>)" if "co_state c \<in> {CS_IDLE, CS_SYN_SENT}" for s
    using conn_good_local[OF c(1) setLastSeqNr_good[OF w]] p that by (auto simp: packet_fits_def)
  show ?thesis
  proof (cases "co_state c")
    case CS_IDLE
    let ?c = "c\<lparr>co_local_wnd := setLastSeqNr (h_seq_nr (pp_hdr pp)) (co_local_wnd c)\<rparr>"
    have g: "conn_good ?c" using setl CS_IDLE by simp
    have "result_ok (then_conn (sendState env ?c) (\<lambda>c. Some (True, upd_stats (\<lambda>st. st\<lparr>st_state := CS_CONNECTED, st_timeout := 1000\<rparr>) c))) (follows c)"
      by (rule result_ok_then[OF send_simple_ok(1)[OF g c(2)]])
        (use CS_IDLE in \<open>auto simp: conn_good_established unchanged_def dest: core_unchanged\<close>)
    then show ?thesis using CS_IDLE r by (simp add: handle_state_def on_idle_def)
  next
    case CS_SYN_SENT
    let ?c = "c\<lparr>co_local_wnd := setLastSeqNr (h_seq_nr (pp_hdr pp) - 1) (co_local_wnd c)\<rparr>"
    have "conn_good (upd_stats (\<lambda>st. st\<lparr>st_state := CS_CONNECTED, st_timeout := 1000\<rparr>) ?c)"
      unfolding conn_good_established using setl CS_SYN_SENT by simp
    then show ?thesis using CS_SYN_SENT r by (simp add: handle_state_def on_syn_sent_def)
  next
    case CS_CONNECTED
    then show ?thesis using on_connected_ok[OF c CS_CONNECTED] p by (simp add: handle_state_def packet_fits_def)
  next
    case CS_FINISHED
    then show ?thesis using on_finished_ok[OF c CS_FINISHED] p by (simp add: handle_state_def packet_fits_def)
  next
    case CS_CLOSED
    then show ?thesis using c(1) by (simp add: handle_state_def)
  qed
qed

lemma conn_handlePacket_ok:
  assumes c: "conn_good c" "utp_env_ok env" and p: "packet_fits pp packet c"
  shows "result_ok (conn_handlePacket env pp packet c) (follows c)"
proof -
  let ?c0 = "upd_stats (\<lambda>st. st\<lparr>st_packets_received := add32 (st_packets_received st) 1\<rparr>) c"
  have g0: "conn_good ?c0" using c(1) by (simp add: conn_good_def)
  let ?c1 = "updateDelayMeasurement env (pp_hdr pp) ?c0"
  note d = updateDelayMeasurement_ok[OF g0, of env "pp_hdr pp"]
  obtain c2 where c2: "remote_received env (pp_hdr pp) (pp_sack pp) ?c1 = Some c2" "conn_good c2" "unchanged ?c1 c2"
    using remote_received_ok[OF d(1), of "pp_sack pp" env "pp_hdr pp"] p by (auto simp: packet_fits_def)
  have u: "co_state c2 = co_state c" "co_local_wnd c2 = co_local_wnd c" using c2(3) d(2,3) by (simp_all add: unchanged_def)
  then have "packet_fits pp packet c2" using p by (simp add: packet_fits_def)
  from result_ok_then[OF handle_state_ok[OF c2(2) c(2) this], of "\<lambda>c. Some (True, startTimer env (checkState c))" "follows c"]
  show ?thesis using c2(1) u by (simp add: conn_handlePacket_def)
qed

lemma timeout_connected_ok:
  assumes c: "conn_good c" "utp_env_ok env" "co_state c = CS_CONNECTED"
  shows "result_ok (timeout_connected env c) (follows c)"
proof -
  have f: "conn_frame c c" using c(1) by (simp add: conn_frame_def conn_good_def)
  have ca: "\<forall>p \<in> set (rw_unacked (co_remote_wnd c)). carried p" using c(1) by (simp add: conn_good_def)
  obtain w c1 where w: "rw_timeout (conn_ops env) (toTimeStamp (ue_now env)) (co_remote_wnd c) c = Some (w, c1)" "conn_frame c c1"
      "\<forall>p \<in> set (rw_unacked w). carried p" "rw_max_window w = MIN_PACKET_SIZE" "rw_wnd_size w = rw_wnd_size (co_remote_wnd c)"
    using conn.rw_timeout_total[OF f ca] by blast
  have core: "conn_core c1 = conn_core c" using w(2) by (simp add: conn_frame_def)
  define c2 where "c2 = upd_stats (\<lambda>st. st\<lparr>st_packet_size := MIN_PACKET_SIZE, st_timeout := u32 (st_timeout st * 2)\<rparr>) (c1\<lparr>co_remote_wnd := w\<rparr>)"
  have g: "conn_good c2" "co_state c2 = CS_CONNECTED"
    using c conn_coreD[OF core] w(3-5) by (simp_all add: c2_def conn_good_def MIN_PACKET_SIZE_def)
  have 1: "result_ok (sendReset env (set_state CS_FINISHED c2)) (follows c)"
    by (rule result_ok_mono[OF send_simple_ok(3)]) (use g c in \<open>auto dest!: core_unchanged simp: unchanged_def\<close>)
  have 2: "result_ok (then_conn (sendPackets env c2) (\<lambda>c. if tv_minus (ue_now env) (co_last_packet_sent c) > KEEP_ALIVE_TIMEOUT
      then sendState env c else Some (True, c))) (follows c)"
  proof (rule result_ok_then[OF sendPackets_ok[OF g(1) c(2)]])
    fix c3 assume c3: "conn_good c3" "unchanged c2 c3"
    have "result_ok (sendState env c3) (follows c)"
      by (rule result_ok_mono[OF send_simple_ok(1)[OF c3(1) c(2)]]) (use c3 g(2) c(3) in \<open>auto dest!: core_unchanged simp: unchanged_def\<close>)
    then show "result_ok (if tv_minus (ue_now env) (co_last_packet_sent c3) > KEEP_ALIVE_TIMEOUT then sendState env c3 else Some (True, c3)) (follows c)"
      using c3 g(2) c(3) by (simp add: unchanged_def)
  qed (use g(2) c(3) in \<open>simp add: unchanged_def\<close>)
  show ?thesis using 1 2 unfolding c2_def by (simp add: timeout_connected_def w(1) Let_def)
qed

lemma conn_good_notes [simp]: "conn_good (c\<lparr>co_notes := ns\<rparr>) \<longleftrightarrow> conn_good c"
  by (simp add: conn_good_def)

lemma handleTimeout_ok:
  assumes c: "conn_good c" "utp_env_ok env"
  shows "result_ok (handleTimeout env c) (follows c)"
  unfolding handleTimeout_def
proof (rule result_ok_then[where P = "follows c"])
  show "result_ok (case co_state c of CS_SYN_SENT \<Rightarrow> Some (True, set_state CS_CLOSED c) | CS_FINISHED \<Rightarrow> Some (True, set_state CS_CLOSED c)
      | CS_CONNECTED \<Rightarrow> timeout_connected env c | CS_IDLE \<Rightarrow> Some (True, startTimer env c) | CS_CLOSED \<Rightarrow> Some (True, c)) (follows c)"
    using c timeout_connected_ok[OF c] by (cases "co_state c") auto
qed (auto simp: Let_def)

end
