(* ===== verification/Utp_Session.thy ===== *)
theory Utp_Session
  imports Utp_Connection
begin

text \<open>
  Whole histories of a uTP connection (\<open>src/utp/connection.cpp\<close>): packets from the peer, calls of the application and
  timeouts in any order, each under an environment of its own (clock, transmitter, fresh memory).
  \<open>ConnEvent\<close> lists the public operations of \<open>Connection\<close>, \<open>conn_event\<close> runs one of them, \<open>conn_reach\<close> is the set of
  reachable connections. Shown are that no history reads outside a buffer or hangs, that the connection state only moves
  forward and that a closed connection stays closed, what \<open>send\<close> puts on the wire, and which packets an
  acknowledgement removes.
\<close>

section \<open>Operations as events\<close>

datatype ConnEvent = EvPacket PacketParser bytes | EvSend bytes | EvRecv nat | EvClose | EvReset | EvCheckTimeout

definition conn_event :: "UtpEnv \<Rightarrow> ConnEvent \<Rightarrow> Connection \<Rightarrow> conn_result" where
  "conn_event env ev c = (case ev of
     EvPacket pp packet \<Rightarrow> conn_handlePacket env pp packet c
   | EvSend data \<Rightarrow> do { (_, ok, c') \<leftarrow> conn_send env data c; Some (ok, c') }
   | EvRecv n \<Rightarrow> do { (_, ok, c') \<leftarrow> conn_recv env n c; Some (ok, c') }
   | EvClose \<Rightarrow> conn_close env c
   | EvReset \<Rightarrow> conn_reset env c
   | EvCheckTimeout \<Rightarrow> checkTimeout env (ue_now env) c)"

text \<open>
  When a call is admissible: a packet was parsed and its payload lies inside it, lengths fit their types, and \<open>recv\<close>
  is called with a packet in the window or at the end of the stream. (\<open>LocalWindow::read\<close> takes the front of the list
  of packets without looking whether there is one; the caller asks \<open>bytesAvailable\<close> first.)
\<close>

definition conn_inv :: "Connection \<Rightarrow> bool" where
  "conn_inv c \<longleftrightarrow> conn_good c \<and> (co_state c \<in> {CS_IDLE, CS_SYN_SENT} \<longrightarrow> lw_incoming (co_local_wnd c) = [])"

definition packet_in_bounds :: "PacketParser \<Rightarrow> bytes \<Rightarrow> Connection \<Rightarrow> bool" where
  "packet_in_bounds pp packet c \<longleftrightarrow> sack_opt_wf (pp_sack pp) \<and> pp_data_off pp \<le> length packet \<and> length packet < 2 ^ 31
     \<and> (h_type (pp_hdr pp) = ST_DATA \<longrightarrow> in_reach (co_local_wnd c) (h_seq_nr (pp_hdr pp)))"

definition admissible :: "UtpEnv \<Rightarrow> ConnEvent \<Rightarrow> Connection \<Rightarrow> bool" where
  "admissible env ev c \<longleftrightarrow> length (ue_mem env) = 1500 \<and> (case ev of
     EvPacket pp packet \<Rightarrow> packet_in_bounds pp packet c
   | EvSend data \<Rightarrow> length data < 2 ^ 32
   | EvRecv n \<Rightarrow> n < 2 ^ 32 \<and> (lw_incoming (co_local_wnd c) \<noteq> [] \<or> co_state c = CS_CLOSED)
   | _ \<Rightarrow> True)"

lemma conn_inv_fits: "conn_inv c \<Longrightarrow> packet_in_bounds pp packet c \<Longrightarrow> packet_fits pp packet c"
  by (simp add: conn_inv_def packet_in_bounds_def packet_fits_def)

section \<open>Every operation keeps the invariant\<close>

lemma result_ok_conj: "result_ok r P \<Longrightarrow> result_ok r Q \<Longrightarrow> result_ok r (\<lambda>c. P c \<and> Q c)"
  by (auto simp: result_ok_def)

definition nothing_in :: "Connection \<Rightarrow> bool" where
  "nothing_in c \<longleftrightarrow> lw_incoming (co_local_wnd c) = []"

lemma nothing_in_core: "conn_core c' = conn_core c \<Longrightarrow> nothing_in c' = nothing_in c"
  using conn_coreD[of c' c] by (simp add: nothing_in_def)

lemma nothing_in_simps [simp]:
  "nothing_in (set_state s c) = nothing_in c" "nothing_in (c\<lparr>co_stats := x\<rparr>) = nothing_in c"
  "nothing_in (startTimer env c) = nothing_in c" "nothing_in (checkState c) = nothing_in c"
  "nothing_in (c\<lparr>co_local_wnd := setLastSeqNr q (co_local_wnd c)\<rparr>) = nothing_in c"
  by (simp_all add: nothing_in_def startTimer_def checkState_def Let_def setLastSeqNr_def)

lemma reset_and_close_nothing:
  assumes "conn_good c" "utp_env_ok env" "nothing_in c"
  shows "result_ok (reset_and_close env c) nothing_in"
  unfolding reset_and_close_def
  by (rule result_ok_then[OF send_simple_ok(3)[OF assms(1,2)]]) (use assms(3) in \<open>auto dest: nothing_in_core\<close>)

lemma handle_state_nothing:
  assumes c: "conn_good c" "utp_env_ok env" "nothing_in c" and st: "co_state c \<in> {CS_IDLE, CS_SYN_SENT}"
  shows "result_ok (handle_state env pp packet c) nothing_in"
proof -
  let ?c = "\<lambda>s. c\<lparr>co_local_wnd := setLastSeqNr s (co_local_wnd c)\<rparr>"
  have g: "conn_good (?c s)" for s
    using conn_good_local[OF c(1) setLastSeqNr_good] c(1,3) by (simp add: conn_good_def nothing_in_def)
  have 1: "result_ok (then_conn (sendState env (?c s)) (\<lambda>c. Some (True, upd_stats (\<lambda>st. st\<lparr>st_state := CS_CONNECTED, st_timeout := 1000\<rparr>) c))) nothing_in" for s
    by (rule result_ok_then[OF send_simple_ok(1)[OF g c(2)]])
      (use c(3) in \<open>auto simp: conn_good_established dest: nothing_in_core\<close>)
  have 2: "conn_good (upd_stats (\<lambda>st. st\<lparr>st_state := CS_CONNECTED, st_timeout := 1000\<rparr>) (?c s))" for s
    unfolding conn_good_established by (rule g)
  show ?thesis using st 1 2 reset_and_close_nothing[OF c] c(3)
    by (auto simp: handle_state_def on_idle_def on_syn_sent_def nothing_in_def setLastSeqNr_def)
qed

lemma handlePacket_nothing:
  assumes c: "conn_good c" "utp_env_ok env" "nothing_in c" and st: "co_state c \<in> {CS_IDLE, CS_SYN_SENT}"
    and p: "sack_opt_wf (pp_sack pp)"
  shows "result_ok (conn_handlePacket env pp packet c) nothing_in"
proof -
  let ?c0 = "upd_stats (\<lambda>st. st\<lparr>st_packets_received := add32 (st_packets_received st) 1\<rparr>) c"
  have g0: "conn_good ?c0" using c(1) by (simp add: conn_good_def)
  let ?c1 = "updateDelayMeasurement env (pp_hdr pp) ?c0"
  note d = updateDelayMeasurement_ok[OF g0, of env "pp_hdr pp"]
  obtain c2 where c2: "remote_received env (pp_hdr pp) (pp_sack pp) ?c1 = Some c2" "conn_good c2" "unchanged ?c1 c2"
    using remote_received_ok[OF d(1) p, of env "pp_hdr pp"] by auto
  have u: "co_state c2 = co_state c" "co_local_wnd c2 = co_local_wnd c" using c2(3) d(2,3) by (simp_all add: unchanged_def)
  then have "nothing_in c2" "co_state c2 \<in> {CS_IDLE, CS_SYN_SENT}" using c(3) st by (simp_all add: nothing_in_def)
  from result_ok_then[OF handle_state_nothing[OF c2(2) c(2) this], of "\<lambda>c. Some (True, startTimer env (checkState c))" nothing_in]
  show ?thesis using c2(1) by (simp add: conn_handlePacket_def)
qed

text \<open>What an operation may do to a connection with the invariant.\<close>

abbreviation moves :: "Connection \<Rightarrow> Connection \<Rightarrow> bool" where
  "moves c c' \<equiv> follows c c' \<and> conn_inv c'"

lemma follows_early: "may_follow s s' \<Longrightarrow> s' \<in> {CS_IDLE, CS_SYN_SENT} \<Longrightarrow> s = s'"
  by (auto simp: may_follow_def split: ConnectionState.splits)

lemma result_ok_moves:
  assumes "result_ok r (follows c)"
    "co_state c \<in> {CS_IDLE, CS_SYN_SENT} \<Longrightarrow> nothing_in c \<Longrightarrow> result_ok r nothing_in" "conn_inv c"
  shows "result_ok r (moves c)"
proof -
  obtain ok c' where r: "r = Some (ok, c')" "conn_good c'" "follows c c'" using assms(1) by (auto simp: result_ok_def)
  have "nothing_in c'" if "co_state c' \<in> {CS_IDLE, CS_SYN_SENT}"
    using assms(2,3) follows_early[OF r(3) that] that r(1) by (auto simp: conn_inv_def nothing_in_def)
  then show ?thesis using r by (auto simp: conn_inv_def nothing_in_def)
qed

lemma result_ok_moves_late:
  "result_ok r (follows c) \<Longrightarrow> co_state c \<notin> {CS_IDLE, CS_SYN_SENT} \<Longrightarrow> conn_inv c \<Longrightarrow> result_ok r (moves c)"
  by (rule result_ok_moves) auto

lemma handlePacket_moves:
  assumes "conn_inv c" "utp_env_ok env" "packet_in_bounds pp packet c"
  shows "result_ok (conn_handlePacket env pp packet c) (moves c)"
proof (rule result_ok_moves)
  have g: "conn_good c" using assms(1) by (simp add: conn_inv_def)
  show "result_ok (conn_handlePacket env pp packet c) (follows c)"
    using conn_handlePacket_ok[OF g assms(2) conn_inv_fits[OF assms(1,3)]] .
  show "result_ok (conn_handlePacket env pp packet c) nothing_in" if "co_state c \<in> {CS_IDLE, CS_SYN_SENT}" "nothing_in c"
    using handlePacket_nothing[OF g assms(2) that(2,1)] assms(3) by (simp add: packet_in_bounds_def)
qed (rule assms(1))

lemma unchanged_moves: "unchanged c c' \<Longrightarrow> conn_inv c \<Longrightarrow> conn_good c' \<Longrightarrow> moves c c'"
  by (simp add: unchanged_def conn_inv_def)

lemma conn_send_moves:
  assumes "conn_inv c" "utp_env_ok env" "length data < 2 ^ 32"
  shows "\<exists>n ok c'. conn_send env data c = Some (n, ok, c') \<and> conn_good c' \<and> unchanged c c'"
proof (cases "co_state c = CS_CONNECTED")
  case False
  then show ?thesis using assms(1) by (auto simp: conn_send_def conn_inv_def unchanged_def)
next
  case True
  have g: "conn_good c" using assms(1) by (simp add: conn_inv_def)
  then have "cb_inv (co_output_buffer c)" by (simp add: conn_good_def)
  from cb_write_law[OF this assms(3)] obtain n out where o: "cb_write (co_output_buffer c) data = Some (n, out)" "cb_inv out" by blast
  have g1: "conn_good (c\<lparr>co_output_buffer := out\<rparr>)" using g o(2) by (simp add: conn_good_def)
  from sendPackets_ok[OF this assms(2)] obtain ok c1 where
      s: "sendPackets env (c\<lparr>co_output_buffer := out\<rparr>) = Some (ok, c1)" "conn_good c1" "unchanged (c\<lparr>co_output_buffer := out\<rparr>) c1"
    by (auto simp: result_ok_def)
  have "conn_good (upd_stats (\<lambda>st. st\<lparr>st_writeable := b\<rparr>) c1)" for b using s(2) by (simp add: conn_good_def)
  then show ?thesis using True o(1) s by (auto simp: conn_send_def unchanged_def)
qed

lemma lw_read_good:
  assumes "lw_good w" "lw_incoming w \<noteq> []" "n < 2 ^ 32"
  shows "\<exists>bs w'. lw_read w n = Some (bs, w') \<and> lw_good w'"
  using assms lw_read_law[of _ _ w _ _ _ _ _ n] unfolding lw_good_def by blast

lemma lw_closed_read:
  assumes "lw_good w" "lw_incoming w = []"
  shows "lw_bytes_available w = 0"
  using assms by (auto simp: lw_good_def lw_ok_def lw_pre_def pending_def)

lemma conn_recv_moves:
  assumes "conn_inv c" "utp_env_ok env" "n < 2 ^ 32" "lw_incoming (co_local_wnd c) \<noteq> [] \<or> co_state c = CS_CLOSED"
  shows "\<exists>bs ok c'. conn_recv env n c = Some (bs, ok, c') \<and> moves c c'"
proof -
  have g: "conn_good c" using assms(1) by (simp add: conn_inv_def)
  define c1 where "c1 = (if co_state c = CS_FINISHED then checkIfClosed c else c)"
  have g1: "conn_good c1" "co_local_wnd c1 = co_local_wnd c" "follows c c1" using g checkIfClosed_follows[of c] by (cases "co_state c = CS_FINISHED"; simp add: c1_def)+
  have early: "co_state c1 \<in> {CS_IDLE, CS_SYN_SENT} \<Longrightarrow> lw_incoming (co_local_wnd c) = []"
    using assms(1) follows_early[OF g1(3)] by (auto simp: conn_inv_def)
  show ?thesis
  proof (cases "lw_bytes_available (co_local_wnd c1) = 0 \<and> co_state c1 = CS_CLOSED")
    case True
    then have "conn_recv env n c = Some (None, True, c1)" by (simp add: conn_recv_def Let_def flip: c1_def)
    then show ?thesis using True g1 by (auto simp: conn_inv_def)
  next
    case False
    have lw: "lw_good (co_local_wnd c)" using g by (simp add: conn_good_def)
    then have ne: "lw_incoming (co_local_wnd c) \<noteq> []"
      using False assms(4) g1(2) lw_closed_read[OF lw] by (auto simp: c1_def)
    obtain bs w where w: "lw_read (co_local_wnd c1) n = Some (bs, w)" "lw_good w" using lw_read_good[OF lw ne assms(3)] g1(2) by auto
    let ?c2 = "c1\<lparr>co_local_wnd := w\<rparr>"
    have "conn_good ?c2" using conn_good_local[OF g1(1) w(2)] .
    then have "result_ok (if st_last_window_size_transmitted (co_stats ?c2) < 2000 \<and> lw_availableSpace (co_local_wnd ?c2) > 2000
        then sendState env ?c2 else Some (True, ?c2)) (\<lambda>c'. co_state c' = co_state c1)"
      using result_ok_mono[OF send_simple_ok(1)[OF _ assms(2)], of ?c2 "\<lambda>c'. co_state c' = co_state c1"] core_unchanged[of _ ?c2]
      by (auto simp: unchanged_def)
    then obtain ok c3 where c3: "(if st_last_window_size_transmitted (co_stats ?c2) < 2000 \<and> lw_availableSpace (co_local_wnd ?c2) > 2000
        then sendState env ?c2 else Some (True, ?c2)) = Some (ok, c3)" "conn_good c3" "co_state c3 = co_state c1"
      by (auto simp: result_ok_def)
    let ?c4 = "if ok then upd_stats (\<lambda>st. st\<lparr>st_bytes_received := add64 (st_bytes_received st) (length bs),
                                        st_readable := lw_isReadable (co_local_wnd c3)\<rparr>) c3 else c3"
    have "conn_recv env n c = Some (Some bs, ok, ?c4)"
      using False w(1) c3(1) unfolding conn_recv_def c1_def[symmetric] Let_def by auto
    moreover have "conn_good ?c4" "co_state ?c4 = co_state c1" using c3 by (simp_all add: conn_good_def)
    moreover from this have "moves c ?c4" using g1(3) early ne by (auto simp: conn_inv_def)
    ultimately show ?thesis by blast
  qed
qed


lemma conn_close_moves:
  assumes "conn_inv c" "utp_env_ok env"
  shows "result_ok (conn_close env c) (moves c)"
proof (cases "co_state c = CS_CONNECTED")
  case True
  have "conn_good (set_state CS_FINISHED c)" using assms(1) by (simp add: conn_inv_def)
  from sendPackets_ok[OF this assms(2)] have "result_ok (sendPackets env (set_state CS_FINISHED c)) (follows c)"
    by (rule result_ok_mono) (use True in \<open>simp add: unchanged_def\<close>)
  then show ?thesis using result_ok_moves_late[of _ c] True assms(1) by (simp add: conn_close_def)
qed (use assms(1) in \<open>simp add: conn_close_def conn_inv_def\<close>)

lemma conn_reset_moves:
  assumes "conn_inv c" "utp_env_ok env"
  shows "result_ok (conn_reset env c) (moves c)"
proof (cases "co_state c = CS_CLOSED")
  case False
  have g: "conn_good c" using assms(1) by (simp add: conn_inv_def)
  have "result_ok (then_conn (sendReset env c) (\<lambda>c. Some (True, (set_state CS_CLOSED c)\<lparr>co_remote_wnd := rw_clear (co_remote_wnd c)\<rparr>))) (moves c)"
  proof (rule result_ok_then[where P = "moves c"])
    show "result_ok (sendReset env c) (moves c)"
      using send_simple_ok(3)[OF g assms(2)] unchanged_moves[OF core_unchanged assms(1)] by (auto simp: result_ok_def)
  qed (auto simp: conn_inv_def conn_good_def rw_clear_def set_state_def)
  then show ?thesis using False by (simp add: conn_reset_def)
qed (use assms(1) in \<open>simp add: conn_reset_def conn_inv_def\<close>)

lemma handleTimeout_nothing:
  assumes "conn_good c" "nothing_in c" "co_state c \<in> {CS_IDLE, CS_SYN_SENT}"
  shows "result_ok (handleTimeout env c) nothing_in"
  using assms by (auto simp: handleTimeout_def then_conn_def Let_def nothing_in_def startTimer_def checkState_def conn_good_def set_state_def)

lemma checkTimeout_moves:
  assumes "conn_inv c" "utp_env_ok env"
  shows "result_ok (checkTimeout env now c) (moves c)"
proof -
  have g: "conn_good c" using assms(1) by (simp add: conn_inv_def)
  have "result_ok (handleTimeout env c) (moves c)"
    using result_ok_moves[OF handleTimeout_ok[OF g assms(2)] handleTimeout_nothing[OF g]] assms(1) by blast
  then show ?thesis using assms(1) g by (simp add: checkTimeout_def)
qed

lemma conn_event_moves:
  assumes "conn_inv c" "admissible env ev c"
  shows "result_ok (conn_event env ev c) (moves c)"
proof -
  have e: "utp_env_ok env" using assms(2) by (simp add: admissible_def utp_env_ok_def)
  show ?thesis
  proof (cases ev)
    case (EvPacket pp packet)
    then show ?thesis using handlePacket_moves[OF assms(1) e] assms(2) by (simp add: conn_event_def admissible_def)
  next
    case (EvSend data)
    then have "length data < 2 ^ 32" using assms(2) by (simp add: admissible_def)
    from conn_send_moves[OF assms(1) e this] show ?thesis
      using unchanged_moves[OF _ assms(1)] by (auto simp: conn_event_def EvSend)
  next
    case (EvRecv n)
    then have "n < 2 ^ 32" "lw_incoming (co_local_wnd c) \<noteq> [] \<or> co_state c = CS_CLOSED" using assms(2) by (auto simp: admissible_def)
    from conn_recv_moves[OF assms(1) e this] show ?thesis by (auto simp: conn_event_def EvRecv conn_inv_def)
  qed (use conn_close_moves[OF assms(1) e] conn_reset_moves[OF assms(1) e] checkTimeout_moves[OF assms(1) e] in \<open>simp_all add: conn_event_def\<close>)
qed


section \<open>All histories\<close>

text \<open>
  \<open>conn_reach c\<close>: an incoming connection as constructed, or an outgoing one after \<open>startConnecting\<close>, followed by
  admissible events in any order. The buffers have the sizes the constructors give them.
\<close>

inductive conn_reach :: "Connection \<Rightarrow> bool" where
  reach_incoming: "length mem = 64 * 1024 \<Longrightarrow> conn_reach (Connection_new recv_id INCOMING junk_state junk_seq mem now)"
| reach_outgoing: "\<lbrakk>length mem = 64 * 1024; length (ue_mem env) = 1500;
    startConnecting env (Connection_new recv_id OUTGOING junk_state junk_seq mem now) = Some (ok, c)\<rbrakk> \<Longrightarrow> conn_reach c"
| reach_event: "\<lbrakk>conn_reach c; admissible env ev c; conn_event env ev c = Some (ok, c')\<rbrakk> \<Longrightarrow> conn_reach c'"

lemma Connection_new_good:
  assumes "length mem = 64 * 1024"
  shows "conn_good (Connection_new recv_id t js jq mem now)"
proof -
  have "lw_good (LocalWindow_new (128 * 1024))"
  proof -
    have "setLastSeqNr (of_nat 0) (LocalWindow_new (128 * 1024)) = LocalWindow_new (128 * 1024)"
      by (simp add: setLastSeqNr_def LocalWindow_new_def)
    then show ?thesis using lw_ok_start[of "128 * 1024" "\<lambda>_. []" 0] unfolding lw_good_def by fastforce
  qed
  then show ?thesis using assms
    by (simp add: conn_good_def Connection_new_def RemoteWindow_new_def CircularBuffer_new_def cb_inv_def IP_AND_UDP_OVERHEAD_def)
qed

lemma startConnecting_ok:
  assumes "length mem = 64 * 1024" "utp_env_ok env"
  shows "result_ok (startConnecting env (Connection_new recv_id OUTGOING js jq mem now)) (\<lambda>c. co_state c = CS_SYN_SENT \<and> nothing_in c)"
proof -
  let ?new = "Connection_new recv_id OUTGOING js jq mem now"
  let ?c = "upd_stats (\<lambda>st. st\<lparr>st_seq_nr := 1, st_state := CS_SYN_SENT, st_timeout := CONNECT_TIMEOUT\<rparr>) ?new"
  have g: "conn_good ?c" using Connection_new_good[OF assms(1)] by (simp add: conn_good_def)
  have n: "nothing_in ?c" by (simp add: nothing_in_def Connection_new_def LocalWindow_new_def)
  have "result_ok (sendSYN env ?new) (\<lambda>c. co_state c = CS_SYN_SENT \<and> nothing_in c)"
    unfolding sendSYN_def
    by (rule result_ok_then[OF sendPacket_ok[OF g assms(2)]])
      (use n in \<open>auto dest: nothing_in_core core_unchanged simp: unchanged_def conn_good_def\<close>)
  moreover have "st_type (co_stats ?new) = OUTGOING" by (simp add: Connection_new_def)
  ultimately show ?thesis by (simp add: startConnecting_def)
qed

lemma conn_reach_inv: "conn_reach c \<Longrightarrow> conn_inv c"
proof (induction rule: conn_reach.induct)
  case (reach_incoming mem recv_id js jq now)
  then have "conn_good (Connection_new recv_id INCOMING js jq mem now)" by (rule Connection_new_good)
  moreover have "lw_incoming (co_local_wnd (Connection_new recv_id INCOMING js jq mem now)) = []"
    by (simp add: Connection_new_def LocalWindow_new_def)
  ultimately show ?case by (simp add: conn_inv_def)
next
  case (reach_outgoing mem env recv_id js jq now ok c)
  then show ?case using startConnecting_ok[of mem env recv_id js jq now] by (simp add: utp_env_ok_def conn_inv_def nothing_in_def)
next
  case (reach_event c env ev ok c')
  then show ?case using conn_event_moves[of c env ev] by simp
qed


definition quiet_utp_env :: UtpEnv where
  \<comment> \<open>an environment at time 0 whose transmitter takes every packet\<close>
  "quiet_utp_env = \<lparr>ue_now = TimeValue 0 0, ue_sendTo = (\<lambda>_ _. True), ue_mem = replicate 1500 0, ue_gain = (\<lambda>_ _ _. 0)\<rparr>"

definition fresh_incoming :: Connection where
  "fresh_incoming = Connection_new 8 INCOMING CS_IDLE 0 (replicate (64 * 1024) 0) (TimeValue 0 0)"

lemma fresh_incoming_reach: "conn_reach fresh_incoming"
  unfolding fresh_incoming_def by (rule reach_incoming) (simp only: length_replicate)


section \<open>What is sent\<close>

lemma conn_send_law:
  assumes "conn_inv c" "co_state c = CS_CONNECTED" "length (ue_mem env) = 1500" "\<And>xs f. ue_sendTo env xs f" "length data < 2 ^ 32"
  defines "n \<equiv> min (cb_capacity (co_output_buffer c) - cb_size (co_output_buffer c)) (length data)"
  shows "\<exists>out c1 c' ps. conn_send env data c = Some (int n, True, c') \<and> cb_content out = cb_content (co_output_buffer c) @ take n data
    \<and> chopped (c\<lparr>co_output_buffer := out\<rparr>) ps [] c1 \<and> conn_good c' 
    \<and> co_sent c' = co_sent c1 \<and> co_remote_wnd c' = co_remote_wnd c1 \<and> co_output_buffer c' = co_output_buffer c1
    \<and> co_local_wnd c' = co_local_wnd c1 \<and> st_seq_nr (co_stats c') = st_seq_nr (co_stats c1) \<and> co_state c' = co_state c1
    \<and> (cb_content (co_output_buffer c') = [] \<or> rw_availableSpace (co_remote_wnd c') = 0)"
proof -
  have g: "conn_good c" using assms(1) by (simp add: conn_inv_def)
  then have "cb_inv (co_output_buffer c)" by (simp add: conn_good_def)
  from cb_write_law[OF this assms(5)] obtain out where o: "cb_write (co_output_buffer c) data = Some (n, out)" "cb_inv out"
      "cb_content out = cb_content (co_output_buffer c) @ take (cb_capacity (co_output_buffer c) - cb_size (co_output_buffer c)) data"
    unfolding n_def by blast
  have t: "take (cb_capacity (co_output_buffer c) - cb_size (co_output_buffer c)) data = take n data" by (simp add: n_def min_def)
  have "conn_good (c\<lparr>co_output_buffer := out\<rparr>)" using g o(2) by (simp add: conn_good_def)
  from send_loop_law[OF this assms(3)] obtain ok c1 ps refused where L: "send_loop env (c\<lparr>co_output_buffer := out\<rparr>) = Some (ok, c1)"
      "chopped (c\<lparr>co_output_buffer := out\<rparr>) ps refused c1" "conn_good c1"
      "ok \<longrightarrow> refused = [] \<and> (cb_content (co_output_buffer c1) = [] \<or> rw_availableSpace (co_remote_wnd c1) = 0)"
      "(\<forall>xs f. ue_sendTo env xs f) \<longrightarrow> ok"
    by (elim exE conjE)
  then have l: "send_loop env (c\<lparr>co_output_buffer := out\<rparr>) = Some (True, c1)"
      "chopped (c\<lparr>co_output_buffer := out\<rparr>) ps [] c1" "conn_good c1"
      "cb_content (co_output_buffer c1) = [] \<or> rw_availableSpace (co_remote_wnd c1) = 0"
    using assms(4) by auto
  have st: "co_state c1 = CS_CONNECTED" using l(2) assms(2) by (simp add: chopped_def)
  define c' where "c' = upd_stats (\<lambda>st. st\<lparr>st_writeable := \<not> cb_full (co_output_buffer (startTimer env c1))\<rparr>) (startTimer env c1)"
  have "conn_send env data c = Some (int n, True, c')"
    using assms(2) o(1) l(1) st by (simp add: conn_send_def sendPackets_def then_conn_def c'_def)
  moreover have "conn_good c'" using l(3) by (simp add: c'_def startTimer_def conn_good_def)
  ultimately show ?thesis using l o(3) t
    by (intro exI[of _ out] exI[of _ c1] exI[of _ c'] exI[of _ ps]) (simp add: c'_def startTimer_def)
qed

text \<open>
  C33. \<open>send\<close> on a connected connection whose transmitter takes the packets: as many bytes of the data as the output buffer has
  room for are appended to it, and then the front of the buffer is cut into packets \<open>ps\<close>, none empty and none longer than
  1452 bytes, that go out in order as data packets with consecutive sequence numbers, are all kept for retransmission,
  and together fit the window of the peer; nothing is lost or reordered. The call stops only when the buffer is empty or the window full.
\<close>

theorem Connection_send:
  assumes "conn_reach c" "co_state c = CS_CONNECTED" "length (ue_mem env) = 1500" "\<And>xs f. ue_sendTo env xs f" "length data < 2 ^ 32"
  defines "n \<equiv> min (cb_capacity (co_output_buffer c) - cb_size (co_output_buffer c)) (length data)"
    and "seqs \<equiv> \<lambda>k. map (\<lambda>i. st_seq_nr (co_stats c) + of_nat i) [0..<k]"
  shows "\<exists>c' ps hms us. conn_send env data c = Some (int n, True, c')
    \<and> concat ps @ cb_content (co_output_buffer c') = cb_content (co_output_buffer c) @ take n data
    \<and> (\<forall>p \<in> set ps. p \<noteq> [] \<and> length p \<le> 1452)
    \<and> length (concat ps) \<le> rw_availableSpace (co_remote_wnd c)
    \<and> co_sent c' = co_sent c @ map2 (\<lambda>(h, m) p. frame_of h m p) hms ps \<and> map (h_seq_nr \<circ> fst) hms = seqs (length ps)
    \<and> (\<forall>(h, m) \<in> set hms. h_type h = ST_DATA \<and> h_connection_id h = st_send_connection_id (co_stats c))
    \<and> rw_unacked (co_remote_wnd c') = rw_unacked (co_remote_wnd c) @ us \<and> map up_seq_nr us = seqs (length ps)
    \<and> list_all2 (\<lambda>u p. pb_ok (up_packet u) p) us ps
    \<and> rw_cur_window (co_remote_wnd c') = rw_cur_window (co_remote_wnd c) + length (concat ps)
    \<and> (cb_content (co_output_buffer c') = [] \<or> rw_availableSpace (co_remote_wnd c') = 0)"
proof -
  obtain out c1 c' ps where s: "conn_send env data c = Some (int n, True, c')" "cb_content out = cb_content (co_output_buffer c) @ take n data"
      "chopped (c\<lparr>co_output_buffer := out\<rparr>) ps [] c1" "co_sent c' = co_sent c1" "co_remote_wnd c' = co_remote_wnd c1"
      "co_output_buffer c' = co_output_buffer c1" "cb_content (co_output_buffer c') = [] \<or> rw_availableSpace (co_remote_wnd c') = 0"
    using conn_send_law[OF conn_reach_inv[OF assms(1)] assms(2-5)] unfolding n_def by blast
  obtain us hms where "rw_unacked (co_remote_wnd c1) = rw_unacked (co_remote_wnd c) @ us" "list_all2 (\<lambda>u p. pb_ok (up_packet u) p) us ps"
      "map up_seq_nr us = seqs (length ps)" "co_sent c1 = co_sent c @ map2 (\<lambda>(h, m) p. frame_of h m p) hms ps"
      "map (h_seq_nr \<circ> fst) hms = seqs (length ps)" "\<forall>(h, m) \<in> set hms. data_header (st_send_connection_id (co_stats c)) h m"
    using s(3) unfolding chopped_def seqs_def by auto
  then show ?thesis using s by (intro exI[of _ c'] exI[of _ ps] exI[of _ hms] exI[of _ us]) (auto simp: chopped_def data_header_def)
qed

section \<open>The handshake\<close>

definition idents :: "Connection \<Rightarrow> u16 \<times> u16 \<times> u16" where
  "idents c = (st_send_connection_id (co_stats c), st_recv_connection_id (co_stats c), st_seq_nr (co_stats c))"

lemma idents_core: "conn_core c' = conn_core c \<Longrightarrow> idents c' = idents c"
  using conn_coreD[of c' c] by (simp add: idents_def)

lemma remote_received_idle:
  assumes "rw_unacked (co_remote_wnd c) = []"
  shows "\<exists>w. remote_received env hdr sack c = Some (c\<lparr>co_remote_wnd := w\<rparr>) \<and> rw_unacked w = []"
  using assms by (auto simp: remote_received_def rw_packetReceived_def Let_def)

lemma updateDelayMeasurement_rest:
  "co_sent (updateDelayMeasurement env hdr c) = co_sent c" "idents (updateDelayMeasurement env hdr c) = idents c"
  by (auto simp: updateDelayMeasurement_def Let_def idents_def split: prod.splits)

text \<open>What \<open>handlePacket\<close> does before the \<open>switch\<close>, when nothing is in flight.\<close>

lemma handlePacket_start:
  assumes "conn_good c" "rw_unacked (co_remote_wnd c) = []" "sack_opt_wf (pp_sack pp)"
  obtains c2 where "conn_handlePacket env pp packet c = then_conn (handle_state env pp packet c2) (\<lambda>c. Some (True, startTimer env (checkState c)))"
    "conn_good c2" "co_state c2 = co_state c" "co_local_wnd c2 = co_local_wnd c" "co_sent c2 = co_sent c" "idents c2 = idents c"
    "rw_unacked (co_remote_wnd c2) = []"
proof -
  let ?c0 = "upd_stats (\<lambda>st. st\<lparr>st_packets_received := add32 (st_packets_received st) 1\<rparr>) c"
  let ?c1 = "updateDelayMeasurement env (pp_hdr pp) ?c0"
  have g0: "conn_good ?c0" using assms(1) by (simp add: conn_good_def)
  note d = updateDelayMeasurement_ok[OF g0, of env "pp_hdr pp"] updateDelayMeasurement_rest[of env "pp_hdr pp" ?c0]
  obtain w where w: "remote_received env (pp_hdr pp) (pp_sack pp) ?c1 = Some (?c1\<lparr>co_remote_wnd := w\<rparr>)" "rw_unacked w = []"
    using remote_received_idle[of ?c1 env "pp_hdr pp" "pp_sack pp"] d(4) assms(2) by auto
  have g: "conn_good (?c1\<lparr>co_remote_wnd := w\<rparr>)" using remote_received_ok[OF d(1) assms(3), of env "pp_hdr pp"] w(1) by auto
  show thesis
    by (rule that[of "?c1\<lparr>co_remote_wnd := w\<rparr>"]) (use w g d in \<open>simp_all add: conn_handlePacket_def idents_def\<close>)
qed

lemma nothing_in_ext: "nothing_in c \<Longrightarrow> extensionLength c = 0"
  by (simp add: nothing_in_def extensionLength_def selectiveAckBits_def)

lemma sendPacket_plain:
  assumes "conn_good c" "nothing_in c" "length (ue_mem env) = 1500" "\<And>xs f. ue_sendTo env xs f"
  shows "\<exists>c'. sendPacket env ty ack c = Some (True, c') \<and> conn_good c' \<and> conn_core c' = conn_core c
    \<and> co_sent c' = co_sent c @ [frame_of (conn_header env c ty (st_seq_nr (co_stats c)) ack) None []]"
proof -
  obtain d N L R B F r where lw: "lw_ok d N (co_local_wnd c) L R B F r" using assms(1) by (auto simp: conn_good_def lw_good_def)
  from sendPacket_law[OF lw assms(3), of ty ack] obtain ok c' m where
      s: "sendPacket env ty ack c = Some (ok, c')" "conn_core c' = conn_core c" "mask_ok L R (extensionLength c) m"
      "ok = ue_sendTo env (co_sent c) (frame_of (conn_header env c ty (st_seq_nr (co_stats c)) ack) m [])"
      "co_sent c' = co_sent c @ (if ok then [frame_of (conn_header env c ty (st_seq_nr (co_stats c)) ack) m []] else [])"
    by (elim exE conjE)
  have "m = None" using s(3) nothing_in_ext[OF assms(2)] by (simp add: mask_ok_def)
  moreover have ok using s(4) assms(4) by simp
  ultimately show ?thesis using s(1,2,5) conn_good_core[OF s(2)] assms(1) by auto
qed

lemma handshake_accept:
  assumes c: "conn_good c" "nothing_in c" "rw_unacked (co_remote_wnd c) = []" "co_state c = CS_IDLE"
    and p: "h_type (pp_hdr pp) = ST_SYN" "sack_opt_wf (pp_sack pp)"
    and env: "length (ue_mem env) = 1500" "\<And>xs f. ue_sendTo env xs f"
  shows "\<exists>c' h. conn_handlePacket env pp packet c = Some (True, c') \<and> co_state c' = CS_CONNECTED \<and> conn_good c'
    \<and> co_local_wnd c' = setLastSeqNr (h_seq_nr (pp_hdr pp)) (co_local_wnd c) \<and> idents c' = idents c
    \<and> co_sent c' = co_sent c @ [frame_of h None []] \<and> h_type h = ST_STATE \<and> h_extension h = 0
    \<and> h_connection_id h = st_send_connection_id (co_stats c) \<and> h_seq_nr h = st_seq_nr (co_stats c) \<and> h_ack_nr h = h_seq_nr (pp_hdr pp)"
proof -
  obtain c2 where c2: "conn_handlePacket env pp packet c = then_conn (handle_state env pp packet c2) (\<lambda>c. Some (True, startTimer env (checkState c)))"
      "conn_good c2" "co_state c2 = co_state c" "co_local_wnd c2 = co_local_wnd c" "co_sent c2 = co_sent c" "idents c2 = idents c"
    using handlePacket_start[OF c(1,3) p(2)] by blast
  let ?c3 = "c2\<lparr>co_local_wnd := setLastSeqNr (h_seq_nr (pp_hdr pp)) (co_local_wnd c2)\<rparr>"
  have n: "nothing_in ?c3" "nothing_in c2" using c(2) c2(4) by (simp_all add: nothing_in_def setLastSeqNr_def)
  have g: "conn_good ?c3"
    using conn_good_local[OF c2(2) setLastSeqNr_good] c2(2) n(2) by (simp add: conn_good_def nothing_in_def)
  have l: "lw_last_seq_nr (co_local_wnd ?c3) = h_seq_nr (pp_hdr pp)" by (simp add: setLastSeqNr_def)
  let ?h = "conn_header env ?c3 ST_STATE (st_seq_nr (co_stats ?c3)) (lw_last_seq_nr (co_local_wnd ?c3))"
  obtain c4 where c4: "sendState env ?c3 = Some (True, c4)" "conn_good c4" "conn_core c4 = conn_core ?c3"
      "co_sent c4 = co_sent ?c3 @ [frame_of ?h None []]"
    using sendPacket_plain[OF g n(1) env] unfolding sendState_def by blast
  let ?c5 = "upd_stats (\<lambda>st. st\<lparr>st_state := CS_CONNECTED, st_timeout := 1000\<rparr>) c4"
  have h: "handle_state env pp packet c2 = Some (True, ?c5)" using c(4) c2(3) p(1) c4(1) by (simp add: handle_state_def on_idle_def then_conn_def)
  have f: "co_local_wnd c4 = co_local_wnd ?c3" "idents c4 = idents c"
    using conn_coreD(2)[OF c4(3)] idents_core[OF c4(3)] c2(6) by (simp_all add: idents_def)
  show ?thesis
  proof (intro exI[of _ "startTimer env (checkState ?c5)"] exI[of _ ?h] conjI)
    show "conn_good (startTimer env (checkState ?c5))" using c4(2) by (simp add: conn_good_established)
    show "h_extension ?h = 0" using nothing_in_ext[OF n(1)] by (simp add: conn_header_def)
    show "co_local_wnd (startTimer env (checkState ?c5)) = setLastSeqNr (h_seq_nr (pp_hdr pp)) (co_local_wnd c)"
      using f(1) c2(4) by (simp add: checkState_def Let_def)
    show "idents (startTimer env (checkState ?c5)) = idents c"
      using f(2) by (simp add: idents_def startTimer_def checkState_def Let_def)
    show "co_sent (startTimer env (checkState ?c5)) = co_sent c @ [frame_of ?h None []]"
      using c4(4) c2(5) by (simp add: startTimer_def checkState_def Let_def)
  qed (use c2(1,6) h l in \<open>simp_all add: then_conn_def conn_header_def ST_defs idents_def\<close>)
qed

lemma handshake_reply:
  assumes c: "conn_good c" "nothing_in c" "rw_unacked (co_remote_wnd c) = []" "co_state c = CS_SYN_SENT"
    and p: "h_type (pp_hdr pp) = ST_STATE" "sack_opt_wf (pp_sack pp)"
  shows "\<exists>c'. conn_handlePacket env pp packet c = Some (True, c') \<and> co_state c' = CS_CONNECTED
    \<and> lw_last_seq_nr (co_local_wnd c') = h_seq_nr (pp_hdr pp) - 1 \<and> idents c' = idents c \<and> co_sent c' = co_sent c"
proof -
  obtain c2 where c2: "conn_handlePacket env pp packet c = then_conn (handle_state env pp packet c2) (\<lambda>c. Some (True, startTimer env (checkState c)))"
      "conn_good c2" "co_state c2 = co_state c" "co_local_wnd c2 = co_local_wnd c" "co_sent c2 = co_sent c" "idents c2 = idents c"
    using handlePacket_start[OF c(1,3) p(2)] by blast
  show ?thesis using c2 c(4) p(1)
    by (auto simp: handle_state_def on_syn_sent_def then_conn_def checkState_def Let_def startTimer_def idents_def setLastSeqNr_def)
qed

lemma startConnecting_law:
  fixes recv_id jq :: u16 and js :: ConnectionState and now :: TimeValue
  assumes "length mem = 64 * 1024" and env: "length (ue_mem env) = 1500" "\<And>xs f. ue_sendTo env xs f"
  defines "c \<equiv> Connection_new recv_id OUTGOING js jq mem now"
  shows "\<exists>c' h. startConnecting env c = Some (True, c') \<and> conn_good c' \<and> nothing_in c' \<and> rw_unacked (co_remote_wnd c') = []
    \<and> co_state c' = CS_SYN_SENT \<and> idents c' = (recv_id + 1, recv_id, 2) \<and> co_sent c' = [frame_of h None []]
    \<and> h_type h = ST_SYN \<and> h_extension h = 0 \<and> h_connection_id h = recv_id \<and> h_seq_nr h = 1"
proof -
  define c1 where "c1 = upd_stats (\<lambda>st. st\<lparr>st_seq_nr := 1, st_state := CS_SYN_SENT, st_timeout := CONNECT_TIMEOUT\<rparr>) c"
  have g: "conn_good c1" using Connection_new_good[OF assms(1)] by (simp add: conn_good_def c1_def c_def)
  have n: "nothing_in c1" by (simp add: nothing_in_def Connection_new_def LocalWindow_new_def c1_def c_def)
  let ?h = "conn_header env c1 ST_SYN (st_seq_nr (co_stats c1)) 0"
  obtain c2 where c2: "sendPacket env ST_SYN 0 c1 = Some (True, c2)" "conn_good c2" "conn_core c2 = conn_core c1"
      "co_sent c2 = co_sent c1 @ [frame_of ?h None []]"
    using sendPacket_plain[OF g n env] by blast
  note core = conn_coreD[OF c2(3)]
  let ?c = "upd_stats (\<lambda>st. st\<lparr>st_seq_nr := st_seq_nr st + 1\<rparr>) c2"
  have t: "st_type (co_stats c) = OUTGOING" by (simp add: c_def Connection_new_def)
  have f: "co_state c1 = CS_SYN_SENT" "idents c1 = (recv_id + 1, recv_id, 1)" "co_sent c1 = []" "rw_unacked (co_remote_wnd c1) = []"
    by (simp_all add: c1_def c_def Connection_new_def idents_def RemoteWindow_new_def)
  have start: "startConnecting env c = Some (True, ?c)"
    using t c2(1) unfolding startConnecting_def sendSYN_def c1_def by (simp add: then_conn_def)
  show ?thesis
  proof (intro exI[of _ ?c] exI[of _ ?h] conjI)
    show "conn_good ?c" using c2(2) by (simp add: conn_good_def)
    show "nothing_in ?c" using n nothing_in_core[OF c2(3)] by simp
    show "idents ?c = (recv_id + 1, recv_id, 2)" using f(2) idents_core[OF c2(3)] by (simp add: idents_def)
    show "h_extension ?h = 0" using nothing_in_ext[OF n] by (simp add: conn_header_def)
  qed (use start f core c2(4) in \<open>simp_all add: conn_header_def idents_def\<close>)
qed

lemma parse_plain:
  assumes "h_extension h = 0"
  shows "PacketParser_new (frame_of h None []) \<bind> parse = Some (True, \<lparr>pp_packet = frame_of h None [], pp_hdr = h, pp_sack = None,
    pp_data_off = 20, pp_data_size = 0\<rparr>)"
  using parse_built[of h None "[]"] assms by (simp add: frame_of_def sack_of_def sack_bytes_def)

lemma Connection_new_simps:
  fixes recv_id jq :: u16 and js :: ConnectionState and now :: TimeValue
  assumes "length mem = 64 * 1024"
  defines "c \<equiv> Connection_new recv_id INCOMING js jq mem now"
  shows "conn_good c" "nothing_in c" "rw_unacked (co_remote_wnd c) = []" "co_state c = CS_IDLE" "idents c = (recv_id - 1, recv_id, 5)" "co_sent c = []"
  using Connection_new_good[OF assms(1)]
  by (simp_all add: c_def) (simp_all add: Connection_new_def nothing_in_def LocalWindow_new_def RemoteWindow_new_def idents_def)

definition in_step :: "Connection \<Rightarrow> Connection \<Rightarrow> bool" where
  \<comment> \<open>the packets of one side carry the identifier the other listens to and the number it expects next\<close>
  "in_step a b \<longleftrightarrow> st_send_connection_id (co_stats a) = st_recv_connection_id (co_stats b)
     \<and> lw_last_seq_nr (co_local_wnd b) + 1 = st_seq_nr (co_stats a)"

text \<open>
  C34. The handshake, over the wire: the SYN packet of an outgoing connection, parsed by the peer and given to the incoming
  connection that \<open>UTPServer\<close> creates for it (with the identifier of the packet plus one), makes that connection
  answer with one STATE packet; parsed and given to the first connection, it completes the handshake. Both ends are then
  connected, and in each direction the sender uses the connection identifier the receiver listens to and the next sequence number
  it sends is the one the receiver expects.
\<close>

theorem Connection_handshake:
  fixes recv_id jq jq' :: u16 and js js' :: ConnectionState and now now' :: TimeValue
  assumes "length mem\<^sub>1 = 64 * 1024" "length mem\<^sub>2 = 64 * 1024"
    and "length (ue_mem env\<^sub>1) = 1500" "\<And>xs f. ue_sendTo env\<^sub>1 xs f" "length (ue_mem env\<^sub>2) = 1500" "\<And>xs f. ue_sendTo env\<^sub>2 xs f"
  defines "a\<^sub>0 \<equiv> Connection_new recv_id OUTGOING js jq mem\<^sub>1 now" and "b\<^sub>0 \<equiv> \<lambda>i. Connection_new (i + 1) INCOMING js' jq' mem\<^sub>2 now'"
  shows "\<exists>a syn pp b st pp' a'. startConnecting env\<^sub>1 a\<^sub>0 = Some (True, a) \<and> co_sent a = [syn]
    \<and> PacketParser_new syn \<bind> parse = Some (True, pp)
    \<and> conn_handlePacket env\<^sub>2 pp syn (b\<^sub>0 (h_connection_id (pp_hdr pp))) = Some (True, b) \<and> co_sent b = [st]
    \<and> PacketParser_new st \<bind> parse = Some (True, pp') \<and> h_connection_id (pp_hdr pp') = recv_id
    \<and> conn_handlePacket env\<^sub>3 pp' st a = Some (True, a')
    \<and> co_state a' = CS_CONNECTED \<and> co_state b = CS_CONNECTED \<and> in_step a' b \<and> in_step b a'"
proof -
  obtain a h where a: "startConnecting env\<^sub>1 a\<^sub>0 = Some (True, a)" "conn_good a" "nothing_in a" "rw_unacked (co_remote_wnd a) = []"
      "co_state a = CS_SYN_SENT" "idents a = (recv_id + 1, recv_id, 2)" "co_sent a = [frame_of h None []]"
      and h: "h_type h = ST_SYN" "h_extension h = 0" "h_connection_id h = recv_id" "h_seq_nr h = 1"
    using startConnecting_law[OF assms(1,3,4)] unfolding a\<^sub>0_def by blast
  define pp where "pp = \<lparr>pp_packet = frame_of h None [], pp_hdr = h, pp_sack = None, pp_data_off = 20, pp_data_size = 0\<rparr>"
  have pp: "h_type (pp_hdr pp) = ST_SYN" "sack_opt_wf (pp_sack pp)" "pp_hdr pp = h" using h by (simp_all add: pp_def sack_opt_wf_def)
  note new = Connection_new_simps[OF assms(2), of "recv_id + 1" js' jq' now']
  obtain b g where b: "conn_handlePacket env\<^sub>2 pp (frame_of h None []) (b\<^sub>0 recv_id) = Some (True, b)" "co_state b = CS_CONNECTED"
      "lw_last_seq_nr (co_local_wnd b) = 1" "idents b = (recv_id, recv_id + 1, 5)" "co_sent b = [frame_of g None []]"
      and g: "h_type g = ST_STATE" "h_extension g = 0" "h_connection_id g = recv_id" "h_seq_nr g = 5"
    using handshake_accept[OF new(1-4) pp(1,2) assms(5,6), of "frame_of h None []"] new(5,6) h(4) pp(3)
    by (auto simp: b\<^sub>0_def idents_def setLastSeqNr_def)
  define pp' where "pp' = \<lparr>pp_packet = frame_of g None [], pp_hdr = g, pp_sack = None, pp_data_off = 20, pp_data_size = 0\<rparr>"
  have pp': "h_type (pp_hdr pp') = ST_STATE" "sack_opt_wf (pp_sack pp')" "pp_hdr pp' = g" using g by (simp_all add: pp'_def sack_opt_wf_def)
  obtain a' where "conn_handlePacket env\<^sub>3 pp' (frame_of g None []) a = Some (True, a')" "co_state a' = CS_CONNECTED"
      "lw_last_seq_nr (co_local_wnd a') = 4" "idents a' = (recv_id + 1, recv_id, 2)"
    using handshake_reply[OF a(2-5) pp'(1,2), of env\<^sub>3 "frame_of g None []"] pp'(3) g(4) a(6) by auto
  then show ?thesis using a b h g parse_plain[OF h(2)] parse_plain[OF g(2)] pp(3) pp'(3)
    by (intro exI[of _ a] exI[of _ "frame_of h None []"] exI[of _ pp] exI[of _ b] exI[of _ "frame_of g None []"] exI[of _ pp'] exI[of _ a'])
      (auto simp: pp_def pp'_def in_step_def idents_def)
qed

theorem Connection_handshake_witness:
  "\<exists>a b. co_state a = CS_CONNECTED \<and> co_state b = CS_CONNECTED \<and> in_step a b \<and> in_step b a"
proof -
  have m: "length (replicate (64 * 1024) (0 :: u8)) = 64 * 1024" by (simp only: length_replicate)
  have e: "length (ue_mem quiet_utp_env) = 1500" "\<And>xs f. ue_sendTo quiet_utp_env xs f" by (simp_all add: quiet_utp_env_def)
  show ?thesis using Connection_handshake[OF m m e e, where recv_id = 7 and js = CS_IDLE and jq = 0 and now = "TimeValue 0 0"
      and js' = CS_IDLE and jq' = 0 and now' = "TimeValue 0 0" and env\<^sub>3 = quiet_utp_env] by blast
qed

lemma connected_reachable:
  "\<exists>c. conn_reach c \<and> co_state c = CS_CONNECTED \<and> co_local_wnd c = setLastSeqNr 1 (LocalWindow_new (128 * 1024))"
proof -
  let ?pp = "\<lparr>pp_packet = [], pp_hdr = \<lparr>h_version = 1, h_type = ST_SYN, h_extension = 0, h_connection_id = 7,
       h_timestamp = 8, h_timediff = 9, h_wnd_size = 10, h_seq_nr = 1, h_ack_nr = 0\<rparr>, pp_sack = None, pp_data_off = 0, pp_data_size = 0\<rparr>"
  have m: "length (replicate (64 * 1024) (0 :: u8)) = 64 * 1024" by (simp only: length_replicate)
  note new = Connection_new_simps[OF m, of 8 CS_IDLE 0 "TimeValue 0 0", folded fresh_incoming_def]
  have adm: "admissible quiet_utp_env (EvPacket ?pp []) fresh_incoming"
    by (simp add: admissible_def packet_in_bounds_def quiet_utp_env_def sack_opt_wf_def ST_defs)
  obtain c where c: "conn_handlePacket quiet_utp_env ?pp [] fresh_incoming = Some (True, c)" "co_state c = CS_CONNECTED"
      "co_local_wnd c = setLastSeqNr 1 (co_local_wnd fresh_incoming)"
    using handshake_accept[OF new(1-4), of ?pp quiet_utp_env "[]"] by (auto simp: quiet_utp_env_def sack_opt_wf_def)
  have w: "co_local_wnd fresh_incoming = LocalWindow_new (128 * 1024)" by (simp add: fresh_incoming_def Connection_new_def)
  have "conn_event quiet_utp_env (EvPacket ?pp []) fresh_incoming = Some (True, c)" using c(1) by (simp add: conn_event_def)
  from reach_event[OF fresh_incoming_reach adm this] c(2,3) w show ?thesis by auto
qed

theorem Connection_send_witness:
  "\<exists>c n c' ps. conn_reach c \<and> co_state c = CS_CONNECTED \<and> conn_send quiet_utp_env [1, 2, 3] c = Some (int n, True, c')
     \<and> concat ps @ cb_content (co_output_buffer c') = cb_content (co_output_buffer c) @ take n [1, 2, 3]"
proof -
  obtain c where c: "conn_reach c" "co_state c = CS_CONNECTED" using connected_reachable by blast
  have e: "length (ue_mem quiet_utp_env) = 1500" "\<And>xs f. ue_sendTo quiet_utp_env xs f" by (simp_all add: quiet_utp_env_def)
  have l: "length ([1, 2, 3] :: bytes) < 2 ^ 32" by simp
  show ?thesis using Connection_send[OF c e l] c by blast
qed

section \<open>What is received\<close>

text \<open>Only the arrival of a data packet and a read change the local window of an established connection.\<close>

definition same_wnd :: "Connection \<Rightarrow> Connection \<Rightarrow> bool" where
  "same_wnd c c' \<longleftrightarrow> co_local_wnd c' = co_local_wnd c"

lemma same_wnd_simps [simp]:
  "same_wnd c c" "same_wnd c (set_state s c') = same_wnd c c'" "same_wnd c (startTimer env c') = same_wnd c c'"
  "same_wnd c (checkState c') = same_wnd c c'" "same_wnd c (checkIfClosed c') = same_wnd c c'"
  "same_wnd c (c'\<lparr>co_notes := x\<rparr>) = same_wnd c c'" "same_wnd c (c'\<lparr>co_fin_sent := y\<rparr>) = same_wnd c c'"
  "same_wnd c (c'\<lparr>co_remote_wnd := z\<rparr>) = same_wnd c c'" "same_wnd c (c'\<lparr>co_stats := v\<rparr>) = same_wnd c c'"
  by (simp_all add: same_wnd_def checkState_def Let_def)

lemma same_wnd_trans: "same_wnd c c' \<Longrightarrow> same_wnd c' c'' \<Longrightarrow> same_wnd c c''"
  by (simp add: same_wnd_def)

lemma unchanged_same: "unchanged c c' \<Longrightarrow> same_wnd c c'"
  by (simp add: unchanged_def same_wnd_def)

lemma core_same: "conn_core c' = conn_core c \<Longrightarrow> same_wnd c c'"
  using core_unchanged unchanged_same by blast

lemma send_same:
  assumes "conn_good c" "utp_env_ok env"
  shows "result_ok (sendPackets env c) (same_wnd c)" "result_ok (sendStateOrData env c) (same_wnd c)"
    "result_ok (sendState env c) (same_wnd c)" "result_ok (sendFIN env c) (same_wnd c)" "result_ok (sendReset env c) (same_wnd c)"
  using result_ok_mono[OF sendPackets_ok[OF assms] unchanged_same] result_ok_mono[OF sendStateOrData_ok[OF assms] unchanged_same]
    result_ok_mono[OF send_simple_ok(1)[OF assms] core_same] result_ok_mono[OF send_simple_ok(2)[OF assms] core_same]
    result_ok_mono[OF send_simple_ok(3)[OF assms] core_same] by auto

lemma reset_and_close_same:
  assumes "conn_good c" "utp_env_ok env"
  shows "result_ok (reset_and_close env c) (same_wnd c)"
  unfolding reset_and_close_def by (rule result_ok_then[OF send_same(5)[OF assms]]) auto

lemma finished_ack_same:
  assumes c: "conn_good c" "utp_env_ok env"
  shows "result_ok (finished_ack env c) (same_wnd c)"
  unfolding finished_ack_def
proof (rule result_ok_then[OF send_same(2)[OF c]])
  fix c1 assume c1: "conn_good c1" "same_wnd c c1"
  have "result_ok (then_conn (sendFIN env c1) (\<lambda>c. Some (True, c\<lparr>co_fin_sent := True\<rparr>))) (same_wnd c)"
    by (rule result_ok_then[OF send_same(4)[OF c1(1) c(2)]]) (use same_wnd_trans[OF c1(2)] in auto)
  then show "result_ok (then_conn (if co_state c1 = CS_FINISHED \<and> \<not> co_fin_sent c1 \<and> cb_size (co_output_buffer c1) = 0
        then then_conn (sendFIN env c1) (\<lambda>c. Some (True, c\<lparr>co_fin_sent := True\<rparr>)) else Some (True, c1))
       (\<lambda>c. Some (True, checkIfClosed c))) (same_wnd c)"
    by (intro result_ok_then[where P = "same_wnd c"]) (use c1 in auto)
qed auto

lemma send_then_close_same:
  assumes "conn_good c" "utp_env_ok env"
  shows "result_ok (then_conn (sendPackets env c) (\<lambda>c. Some (True, checkIfClosed c))) (same_wnd c)"
  by (rule result_ok_then[OF send_same(1)[OF assms]]) auto

lemma handle_state_other:
  assumes c: "conn_good c" "utp_env_ok env" "co_state c \<notin> {CS_IDLE, CS_SYN_SENT}" and t: "h_type (pp_hdr pp) \<noteq> ST_DATA"
  shows "result_ok (handle_state env pp packet c) (same_wnd c)"
proof -
  let ?f = "\<lambda>s. upd_stats (\<lambda>st. st\<lparr>st_eof_seq_nr := int (unat (h_seq_nr (pp_hdr pp))), st_state := s\<rparr>) c"
  let ?e = "upd_stats (\<lambda>st. st\<lparr>st_eof_seq_nr := int (unat (h_seq_nr (pp_hdr pp)))\<rparr>) c"
  have g: "conn_good (?f s)" "conn_good ?e" for s using c(1) by (simp_all add: conn_good_def)
  have "result_ok (then_conn (sendPackets env x) (\<lambda>c. Some (True, checkIfClosed c))) (same_wnd c)" if "conn_good x" "same_wnd c x" for x
    using send_then_close_same[OF that(1) c(2)] by (rule result_ok_mono) (use same_wnd_trans[OF that(2)] in blast)
  from this[OF g(1)] this[OF g(2)] show ?thesis
    using c t send_same(1)[OF c(1,2)] send_then_close_same[OF c(1,2)] reset_and_close_same[OF c(1,2)]
    by (cases "co_state c") (auto simp: handle_state_def on_connected_def on_finished_def)
qed

lemma handle_state_data:
  assumes c: "conn_good c" "utp_env_ok env" "co_state c \<notin> {CS_IDLE, CS_SYN_SENT}" and t: "h_type (pp_hdr pp) = ST_DATA"
    and w: "lw_packetReceived (co_local_wnd c) (pp_hdr pp) packet (pp_data_off pp) = Some (ok, w)" "lw_good w"
  shows "result_ok (handle_state env pp packet c) (\<lambda>c'. co_local_wnd c' = w \<or> same_wnd c c')"
proof -
  let ?c = "c\<lparr>co_local_wnd := w\<rparr>"
  have g: "conn_good ?c" using conn_good_local[OF c(1) w(2)] .
  have m: "result_ok r (same_wnd ?c) \<Longrightarrow> result_ok r (\<lambda>c'. co_local_wnd c' = w \<or> same_wnd c c')" for r
    by (erule result_ok_mono) (simp add: same_wnd_def)
  have m': "result_ok r (same_wnd c) \<Longrightarrow> result_ok r (\<lambda>c'. co_local_wnd c' = w \<or> same_wnd c c')" for r
    by (erule result_ok_mono) simp
  show ?thesis
    using c t w(1) m[OF send_same(2)[OF g c(2)]] m[OF reset_and_close_same[OF g c(2)]] m[OF finished_ack_same[OF g c(2)]]
      m'[OF finished_ack_same[OF c(1,2)]]
    by (cases "co_state c") (auto simp: handle_state_def on_connected_def on_finished_def)
qed

lemma checkState_window [simp]: "co_local_wnd (checkState c) = co_local_wnd c"
  by (simp add: checkState_def Let_def)

lemma send_state_window: "sendState env c = Some (ok, c') \<Longrightarrow> co_local_wnd c' = co_local_wnd c"
  by (auto simp: sendState_def sendPacket_def then_conn_def transmit_def note_window_def note_sent_def split: bind_splits if_splits)

lemma handlePacket_prefix:
  assumes "conn_good c" "sack_opt_wf (pp_sack pp)"
  obtains c2 where "conn_handlePacket env pp packet c = then_conn (handle_state env pp packet c2) (\<lambda>c. Some (True, startTimer env (checkState c)))"
    "conn_good c2" "unchanged c c2"
proof -
  let ?c0 = "upd_stats (\<lambda>st. st\<lparr>st_packets_received := add32 (st_packets_received st) 1\<rparr>) c"
  have g0: "conn_good ?c0" using assms(1) by (simp add: conn_good_def)
  note d = updateDelayMeasurement_ok[OF g0, of env "pp_hdr pp"]
  obtain c2 where c2: "remote_received env (pp_hdr pp) (pp_sack pp) (updateDelayMeasurement env (pp_hdr pp) ?c0) = Some c2"
      "conn_good c2" "unchanged (updateDelayMeasurement env (pp_hdr pp) ?c0) c2"
    using remote_received_ok[OF d(1) assms(2), of env "pp_hdr pp"] by blast
  show thesis by (rule that[of c2]) (use c2 d in \<open>simp_all add: conn_handlePacket_def unchanged_def\<close>)
qed

lemma handlePacket_window:
  assumes c: "conn_good c" "utp_env_ok env" "co_state c \<notin> {CS_IDLE, CS_SYN_SENT}" and p: "packet_in_bounds pp packet c"
    and run: "conn_handlePacket env pp packet c = Some (ok, c')"
  shows "same_wnd c c' \<or> h_type (pp_hdr pp) = ST_DATA
    \<and> (\<exists>ok'. lw_packetReceived (co_local_wnd c) (pp_hdr pp) packet (pp_data_off pp) = Some (ok', co_local_wnd c'))"
proof -
  have "sack_opt_wf (pp_sack pp)" using p by (simp add: packet_in_bounds_def)
  from handlePacket_prefix[OF c(1) this] obtain c2 where c2:
      "conn_handlePacket env pp packet c = then_conn (handle_state env pp packet c2) (\<lambda>c. Some (True, startTimer env (checkState c)))"
      "conn_good c2" "unchanged c c2" by blast
  have u: "co_state c2 \<notin> {CS_IDLE, CS_SYN_SENT}" "co_local_wnd c2 = co_local_wnd c" using c2(3) c(3) by (auto simp: unchanged_def)
  show ?thesis
  proof (cases "h_type (pp_hdr pp) = ST_DATA")
    case False
    have "result_ok (conn_handlePacket env pp packet c) (same_wnd c2)"
      unfolding c2(1) by (rule result_ok_then[OF handle_state_other[OF c2(2) c(2) u(1) False]]) auto
    then show ?thesis using run u(2) by (simp add: same_wnd_def)
  next
    case True
    obtain ok' w where w: "lw_packetReceived (co_local_wnd c) (pp_hdr pp) packet (pp_data_off pp) = Some (ok', w)" "lw_good w"
      using lw_received_total[of "co_local_wnd c" "pp_hdr pp" "pp_data_off pp" packet] p c(1) True
      by (auto simp: packet_in_bounds_def conn_good_def)
    have "result_ok (conn_handlePacket env pp packet c) (\<lambda>c'. co_local_wnd c' = w \<or> same_wnd c2 c')"
      unfolding c2(1) by (rule result_ok_then[OF handle_state_data[OF c2(2) c(2) u(1) True]]) (use w u(2) in \<open>auto simp: same_wnd_def\<close>)
    then show ?thesis using run u(2) w(1) True by (auto simp: same_wnd_def)
  qed
qed

lemma timeout_connected_same:
  assumes c: "conn_good c" "utp_env_ok env"
  shows "result_ok (timeout_connected env c) (same_wnd c)"
proof -
  have f: "conn_frame c c" using c(1) by (simp add: conn_frame_def conn_good_def)
  have ca: "\<forall>p \<in> set (rw_unacked (co_remote_wnd c)). carried p" using c(1) by (simp add: conn_good_def)
  obtain w c1 where w: "rw_timeout (conn_ops env) (toTimeStamp (ue_now env)) (co_remote_wnd c) c = Some (w, c1)" "conn_frame c c1"
      "\<forall>p \<in> set (rw_unacked w). carried p" "rw_max_window w = MIN_PACKET_SIZE" "rw_wnd_size w = rw_wnd_size (co_remote_wnd c)"
    using conn.rw_timeout_total[OF f ca] by blast
  have core: "conn_core c1 = conn_core c" using w(2) by (simp add: conn_frame_def)
  define c2 where "c2 = upd_stats (\<lambda>st. st\<lparr>st_packet_size := MIN_PACKET_SIZE, st_timeout := u32 (st_timeout st * 2)\<rparr>) (c1\<lparr>co_remote_wnd := w\<rparr>)"
  have g: "conn_good c2" "conn_good (set_state CS_FINISHED c2)" "same_wnd c c2"
    using c conn_coreD[OF core] w(3-5) by (simp_all add: c2_def conn_good_def MIN_PACKET_SIZE_def same_wnd_def set_state_def)
  have 1: "result_ok (sendReset env (set_state CS_FINISHED c2)) (same_wnd c)"
    by (rule result_ok_mono[OF send_same(5)[OF g(2) c(2)]]) (use g(3) in \<open>simp add: same_wnd_def\<close>)
  have 2: "result_ok (then_conn (sendPackets env c2) (\<lambda>c. if tv_minus (ue_now env) (co_last_packet_sent c) > KEEP_ALIVE_TIMEOUT
      then sendState env c else Some (True, c))) (same_wnd c)"
  proof (rule result_ok_then[OF send_same(1)[OF g(1) c(2)]])
    fix c3 assume c3: "conn_good c3" "same_wnd c2 c3"
    show "result_ok (if tv_minus (ue_now env) (co_last_packet_sent c3) > KEEP_ALIVE_TIMEOUT then sendState env c3 else Some (True, c3)) (same_wnd c)"
      using result_ok_mono[OF send_same(3)[OF c3(1) c(2)], of "same_wnd c"] c3 g(3) by (auto simp: same_wnd_def)
  qed (use g(3) in \<open>simp add: same_wnd_def\<close>)
  show ?thesis using 1 2 unfolding c2_def by (simp add: timeout_connected_def w(1) Let_def)
qed

lemma checkTimeout_same:
  assumes c: "conn_good c" "utp_env_ok env"
  shows "result_ok (checkTimeout env now c) (same_wnd c)"
proof -
  have "result_ok (handleTimeout env c) (same_wnd c)"
    unfolding handleTimeout_def
  proof (rule result_ok_then[where P = "same_wnd c"])
    show "result_ok (case co_state c of CS_SYN_SENT \<Rightarrow> Some (True, set_state CS_CLOSED c) | CS_FINISHED \<Rightarrow> Some (True, set_state CS_CLOSED c)
      | CS_CONNECTED \<Rightarrow> timeout_connected env c | CS_IDLE \<Rightarrow> Some (True, startTimer env c) | CS_CLOSED \<Rightarrow> Some (True, c)) (same_wnd c)"
      using c timeout_connected_same[OF c] by (cases "co_state c") auto
  qed (auto simp: Let_def)
  then show ?thesis using c(1) by (simp add: checkTimeout_def)
qed

lemma close_reset_same:
  assumes c: "conn_good c" "utp_env_ok env"
  shows "result_ok (conn_close env c) (same_wnd c)" "result_ok (conn_reset env c) (same_wnd c)"
proof -
  have "conn_good (set_state CS_FINISHED c)" using c(1) by simp
  from result_ok_mono[OF send_same(1)[OF this c(2)], of "same_wnd c"] show "result_ok (conn_close env c) (same_wnd c)"
    using c(1) by (auto simp: conn_close_def same_wnd_def)
  have "result_ok (then_conn (sendReset env c) (\<lambda>c. Some (True, (set_state CS_CLOSED c)\<lparr>co_remote_wnd := rw_clear (co_remote_wnd c)\<rparr>))) (same_wnd c)"
    by (rule result_ok_then[OF send_same(5)[OF c]]) (auto simp: conn_good_def rw_clear_def set_state_def same_wnd_def)
  then show "result_ok (conn_reset env c) (same_wnd c)" using c(1) by (simp add: conn_reset_def)
qed

lemma conn_recv_window:
  assumes "conn_good c" "utp_env_ok env" "conn_recv env n c = Some (bs, ok, c')"
  shows "bs = None \<and> same_wnd c c' \<or> (\<exists>x. bs = Some x \<and> lw_read (co_local_wnd c) n = Some (x, co_local_wnd c'))"
proof -
  define c1 where "c1 = (if co_state c = CS_FINISHED then checkIfClosed c else c)"
  have g1: "conn_good c1" "co_local_wnd c1 = co_local_wnd c" using assms(1) by (auto simp: c1_def)
  show ?thesis
  proof (cases "lw_bytes_available (co_local_wnd c1) = 0 \<and> co_state c1 = CS_CLOSED")
    case True
    then have "conn_recv env n c = Some (None, True, c1)" by (simp add: conn_recv_def Let_def flip: c1_def)
    then show ?thesis using assms(3) g1(2) by (simp add: same_wnd_def)
  next
    case False
    then obtain x w c3 ok' where r: "lw_read (co_local_wnd c1) n = Some (x, w)"
        "(if st_last_window_size_transmitted (co_stats c1) < 2000 \<and> lw_availableSpace w > 2000
          then sendState env (c1\<lparr>co_local_wnd := w\<rparr>) else Some (True, c1\<lparr>co_local_wnd := w\<rparr>)) = Some (ok', c3)"
        "bs = Some x" "co_local_wnd c' = co_local_wnd c3"
      using assms(3) unfolding conn_recv_def c1_def[symmetric] Let_def by (auto split: bind_splits if_splits)
    have "co_local_wnd c3 = w"
      using r(2) send_state_window[of env "c1\<lparr>co_local_wnd := w\<rparr>"] by (auto split: if_splits)
    then show ?thesis using r g1(2) by auto
  qed
qed

text \<open>
  \<open>conn_stream d N c L out\<close>: an established connection reaches \<open>c\<close> when the data packets that arrive, in any order and any
  number of times, between them any other packets, calls and timeouts, are packets of a stream: the one with number \<open>n\<close>
  carries \<open>d n\<close>. \<open>out\<close> is everything \<open>recv\<close> has returned, \<open>L\<close> the packet that \<open>last_seq_nr\<close> stands for.
\<close>

definition of_stream :: "(nat \<Rightarrow> bytes) \<Rightarrow> nat \<Rightarrow> nat \<Rightarrow> Connection \<Rightarrow> ConnEvent \<Rightarrow> bool" where
  "of_stream d N L c ev \<longleftrightarrow> (case ev of
     EvPacket pp packet \<Rightarrow> h_type (pp_hdr pp) = ST_DATA \<longrightarrow> (\<exists>n. N < n \<and> n + length (lw_incoming (co_local_wnd c)) < L + 32768 \<and> L < n + 32768
       \<and> packet_for d n packet (pp_data_off pp) \<and> h_seq_nr (pp_hdr pp) = of_nat n)
   | EvRecv _ \<Rightarrow> False
   | _ \<Rightarrow> True)"

inductive conn_stream :: "(nat \<Rightarrow> bytes) \<Rightarrow> nat \<Rightarrow> Connection \<Rightarrow> nat \<Rightarrow> bytes \<Rightarrow> bool" for d :: "nat \<Rightarrow> bytes" and N :: nat where
  stream_start: "\<lbrakk>conn_reach c; co_state c = CS_CONNECTED; co_local_wnd c = setLastSeqNr (of_nat N) (LocalWindow_new (128 * 1024))\<rbrakk>
    \<Longrightarrow> conn_stream d N c N []"
| stream_event: "\<lbrakk>conn_stream d N c L out; admissible env ev c; of_stream d N L c ev; conn_event env ev c = Some (ok, c')\<rbrakk>
    \<Longrightarrow> conn_stream d N c' (L + unat (lw_last_seq_nr (co_local_wnd c') - lw_last_seq_nr (co_local_wnd c))) out"
| stream_recv: "\<lbrakk>conn_stream d N c L out; admissible env (EvRecv n) c; conn_recv env n c = Some (bs, ok, c')\<rbrakk>
    \<Longrightarrow> conn_stream d N c' L (out @ (case bs of None \<Rightarrow> [] | Some x \<Rightarrow> x))"

lemma conn_event_window:
  assumes c: "conn_inv c" "co_state c \<notin> {CS_IDLE, CS_SYN_SENT}" and ev: "admissible env ev c" "of_stream d N L c ev"
    and run: "conn_event env ev c = Some (ok, c')"
  shows "same_wnd c c' \<or> (\<exists>n hdr packet off ok'. N < n \<and> n + length (lw_incoming (co_local_wnd c)) < L + 32768 \<and> L < n + 32768
     \<and> packet_for d n packet off \<and> h_seq_nr hdr = of_nat n \<and> lw_packetReceived (co_local_wnd c) hdr packet off = Some (ok', co_local_wnd c'))"
proof -
  have g: "conn_good c" using c(1) by (simp add: conn_inv_def)
  have e: "utp_env_ok env" using ev(1) by (simp add: admissible_def utp_env_ok_def)
  show ?thesis
  proof (cases ev)
    case (EvPacket pp packet)
    then have p: "packet_in_bounds pp packet c" "conn_handlePacket env pp packet c = Some (ok, c')"
      using ev(1) run by (simp_all add: admissible_def conn_event_def)
    show ?thesis using handlePacket_window[OF g e c(2) p] ev(2) EvPacket by (auto simp: of_stream_def)
  next
    case (EvSend data)
    then have "length data < 2 ^ 32" using ev(1) by (simp add: admissible_def)
    from conn_send_moves[OF c(1) e this] show ?thesis using run EvSend unchanged_same by (auto simp: conn_event_def)
  next
    case (EvRecv n)
    then show ?thesis using ev(2) by (simp add: of_stream_def)
  qed (use run close_reset_same[OF g e] checkTimeout_same[OF g e, of "ue_now env"] in \<open>auto simp: conn_event_def\<close>)
qed

lemma conn_stream_run:
  assumes "conn_stream d N c L out"
  shows "conn_reach c \<and> co_state c \<notin> {CS_IDLE, CS_SYN_SENT} \<and> (\<exists>R. lw_run d N (128 * 1024) (co_local_wnd c) L R out)"
  using assms
proof (induction rule: conn_stream.induct)
  case (stream_start c)
  then show ?case using lw_start[of d N "128 * 1024"] by auto
next
  case (stream_event c L out env ev ok c')
  then obtain R where R: "lw_run d N (128 * 1024) (co_local_wnd c) L R out" by blast
  have c: "conn_inv c" "co_state c \<notin> {CS_IDLE, CS_SYN_SENT}" using stream_event conn_reach_inv by auto
  have "follows c c'" using conn_event_moves[OF c(1) stream_event(2)] stream_event(4) by simp
  then have "co_state c' \<notin> {CS_IDLE, CS_SYN_SENT}" using follows_early[of "co_state c" "co_state c'"] c(2) by fastforce
  moreover have "conn_reach c'" using reach_event stream_event by blast
  moreover have "\<exists>R. lw_run d N (128 * 1024) (co_local_wnd c') (L + unat (lw_last_seq_nr (co_local_wnd c') - lw_last_seq_nr (co_local_wnd c))) R out"
    using conn_event_window[OF c stream_event(2,3,4)]
  proof (elim disjE exE conjE)
    assume "same_wnd c c'"
    then show ?thesis using R by (auto simp: same_wnd_def)
  qed (use lw_arrive[OF R] in blast)
  ultimately show ?case by blast
next
  case (stream_recv c L out env n bs ok c')
  then obtain R where R: "lw_run d N (128 * 1024) (co_local_wnd c) L R out" by blast
  have c: "conn_inv c" "conn_good c" "co_state c \<notin> {CS_IDLE, CS_SYN_SENT}" using stream_recv conn_reach_inv[of c] by (auto simp: conn_inv_def)
  have e: "utp_env_ok env" "n < 2 ^ 32" using stream_recv(2) by (auto simp: admissible_def utp_env_ok_def)
  have ev: "conn_event env (EvRecv n) c = Some (ok, c')" using stream_recv(3) by (simp add: conn_event_def)
  have "follows c c'" using conn_event_moves[OF c(1) stream_recv(2)] ev by simp
  then have "co_state c' \<notin> {CS_IDLE, CS_SYN_SENT}" using follows_early[of "co_state c" "co_state c'"] c(3) by fastforce
  moreover have "conn_reach c'" using reach_event[OF _ stream_recv(2) ev] stream_recv by blast
  moreover have "lw_incoming (co_local_wnd c) \<noteq> []" if "lw_read (co_local_wnd c) n = Some r" for r using that by (auto simp: lw_read_def)
  then have "\<exists>R. lw_run d N (128 * 1024) (co_local_wnd c') L R (out @ (case bs of None \<Rightarrow> [] | Some x \<Rightarrow> x))"
    using conn_recv_window[OF c(2) e(1) stream_recv(3)] R lw_reads[OF R _ e(2)] by (auto simp: same_wnd_def)
  ultimately show ?case by blast
qed



section \<open>Acknowledgements\<close>

lemma sack_of_wf: "(\<And>bm. m = Some bm \<Longrightarrow> length bm < 256) \<Longrightarrow> sack_opt_wf (sack_of m)"
  by (cases m) (auto simp: sack_of_def sack_opt_wf_def sack_wf_def unat_of_nat)

lemma mask_covers:
  assumes "mask_ok L R ext m"
  shows "covered (sack_of m) L n \<longleftrightarrow> n \<le> L \<or> L + 2 \<le> n \<and> n < L + 2 + 8 * (ext - 2) \<and> n \<in> R"
proof (cases "n \<le> L \<or> ext = 0")
  case True
  then show ?thesis using assms by (auto simp: covered_def mask_ok_def sack_of_def)
next
  case False
  then obtain bm where bm: "m = Some bm"
      "\<And>k. sack_bit \<lparr>sk_extension = 0, sk_length = of_nat (length bm), sk_bitmask = bm\<rparr> k \<longleftrightarrow> 2 \<le> k \<and> k < 8 * (ext - 2) + 2 \<and> L + k \<in> R"
    using assms by (auto simp: mask_ok_def)
  have "L + (n - L) = n" using False by simp
  then show ?thesis using False bm(2)[of "n - L"] bm(1) by (auto simp: covered_def sack_of_def)
qed

lemma sendState_law:
  assumes "lw_ok d N (co_local_wnd b) L R B F r" "length (ue_mem env) = 1500" "\<And>xs f. ue_sendTo env xs f"
  shows "\<exists>b' m h. sendState env b = Some (True, b') \<and> co_sent b' = co_sent b @ [frame_of h m []] \<and> h_ack_nr h = of_nat L
    \<and> h_type h = ST_STATE \<and> h_wnd_size h = of_nat (lw_availableSpace (co_local_wnd b)) \<and> mask_ok L R (extensionLength b) m
    \<and> PacketParser_new (frame_of h m []) \<bind> parse = Some (True, \<lparr>pp_packet = frame_of h m [], pp_hdr = h, pp_sack = sack_of m,
         pp_data_off = 20 + length (sack_bytes m), pp_data_size = 0\<rparr>) \<and> sack_opt_wf (sack_of m)"
proof -
  let ?h = "conn_header env b ST_STATE (st_seq_nr (co_stats b)) (lw_last_seq_nr (co_local_wnd b))"
  from sendPacket_law[OF assms(1,2), of ST_STATE "lw_last_seq_nr (co_local_wnd b)"] obtain ok b' m where
      s: "sendPacket env ST_STATE (lw_last_seq_nr (co_local_wnd b)) b = Some (ok, b')" "mask_ok L R (extensionLength b) m"
      "ok = ue_sendTo env (co_sent b) (frame_of ?h m [])" "co_sent b' = co_sent b @ (if ok then [frame_of ?h m []] else [])"
    by (elim exE conjE)
  have L: "lw_last_seq_nr (co_local_wnd b) = of_nat L" using assms(1) by (auto simp: lw_ok_def lw_pre_def)
  note hm = conn_header_mask(1)[OF s(2), of env ST_STATE "st_seq_nr (co_stats b)" "lw_last_seq_nr (co_local_wnd b)"] conn_header_mask(2)[OF s(2)]
  have "PacketParser_new (frame_of ?h m []) \<bind> parse = Some (True, \<lparr>pp_packet = frame_of ?h m [], pp_hdr = ?h, pp_sack = sack_of m,
         pp_data_off = 20 + length (sack_bytes m), pp_data_size = 0\<rparr>)"
    using parse_built[OF hm(1) hm(2), where payload = "[]"] by (simp add: frame_of_def)
  then show ?thesis using s assms(3) sack_of_wf[OF hm(2)] L
    by (intro exI[of _ b'] exI[of _ m] exI[of _ ?h]) (auto simp: sendState_def conn_header_def)
qed

text \<open>
  C5. Acknowledgements, over the wire: the STATE packet of a receiver that has received the packets \<open>R\<close> of the stream, the first gap
  being behind \<open>L\<close>, is parsed by the sender; its window then drops exactly the packets up to \<open>L\<close> and the received ones
  that the bit mask has room for. So a packet is dropped only when the receiver has it, the others keep
  their payload, the count of bytes in flight is that of the packets kept, and the peer's window is the one advertised.
\<close>

theorem ack_end_to_end:
  assumes "lw_run d N cap (co_local_wnd b) L R out" "cap < 2 ^ 31" "length (ue_mem env) = 1500" "\<And>xs f. ue_sendTo env xs f"
    and "conn_good a" "rw_ok d num (co_remote_wnd a)" "near num L (rw_unacked (co_remote_wnd a))"
  shows "\<exists>b' frame pp a'. sendState env b = Some (True, b') \<and> co_sent b' = co_sent b @ [frame]
    \<and> PacketParser_new frame \<bind> parse = Some (True, pp) \<and> remote_received env' (pp_hdr pp) (pp_sack pp) a = Some a'
    \<and> map (up_num num) (rw_unacked (co_remote_wnd a')) = filter (\<lambda>n. \<not> (n \<le> L \<or> L + 2 \<le> n \<and> n < L + 2 + 8 * (extensionLength b - 2) \<and> n \<in> R))
         (map (up_num num) (rw_unacked (co_remote_wnd a)))
    \<and> rw_ok d num (co_remote_wnd a') \<and> rw_wnd_size (co_remote_wnd a') = lw_availableSpace (co_local_wnd b)"
proof -
  obtain B F r where lw: "lw_ok d N (co_local_wnd b) L R B F r" "lw_capacity (co_local_wnd b) = cap" using lw_run_ok[OF assms(1,2)] by blast
  obtain b' m h where s: "sendState env b = Some (True, b')" "co_sent b' = co_sent b @ [frame_of h m []]" "h_ack_nr h = of_nat L"
      "h_wnd_size h = of_nat (lw_availableSpace (co_local_wnd b))" "mask_ok L R (extensionLength b) m"
      "PacketParser_new (frame_of h m []) \<bind> parse = Some (True, \<lparr>pp_packet = frame_of h m [], pp_hdr = h, pp_sack = sack_of m,
         pp_data_off = 20 + length (sack_bytes m), pp_data_size = 0\<rparr>)" "sack_opt_wf (sack_of m)"
    using sendState_law[OF lw(1) assms(3,4)] by blast
  have f: "conn_frame a a" using assms(5) by (simp add: conn_frame_def conn_good_def)
  obtain w a1 where w: "rw_packetReceived (conn_ops env') h (sack_of m) (toTimeStamp (ue_now env')) (co_remote_wnd a) a = Some (w, a1)"
      "rw_ok d num w" "map (up_num num) (rw_unacked w) = filter (\<lambda>n. \<not> covered (sack_of m) L n) (map (up_num num) (rw_unacked (co_remote_wnd a)))"
      "rw_wnd_size w = unat (h_wnd_size h)"
    using conn.rw_packetReceived_ok[OF assms(6) f assms(7) s(3,7)] by blast
  have "lw_availableSpace (co_local_wnd b) \<le> cap" using window_accounting[OF lw(1)] lw(2) by (simp add: lw_availableSpace_def)
  then have "unat (h_wnd_size h) = lw_availableSpace (co_local_wnd b)" using s(4) assms(2) by (simp add: unat_of_nat)
  then show ?thesis using s w unfolding mask_covers[OF s(5)]
    by (intro exI[of _ b'] exI[of _ "frame_of h m []"] exI exI[of _ "a1\<lparr>co_remote_wnd := w\<rparr>"]) (auto simp: remote_received_def)
qed

text \<open>A sender with the packets 65535 and 65537 of the stream in flight, and a receiver with 65535 and 65536.\<close>

definition sample_flight :: "u16 \<Rightarrow> UnackedPacket" where
  "sample_flight s = UnackedPacket_new \<lparr>pb_buffer = replicate 1498 0 @ [1, 2], pb_header = None, pb_extension = None, pb_payload = Some 1498, pb_size = 2\<rparr> s 0"

definition sample_sender :: Connection where
  "sample_sender = fresh_incoming\<lparr>co_remote_wnd := RemoteWindow_new\<lparr>rw_cur_window := 4, rw_unacked := [sample_flight 65535, sample_flight 1]\<rparr>\<rparr>"

definition sample_receiver :: Connection where
  "sample_receiver = fresh_incoming\<lparr>co_local_wnd := sample_2\<rparr>"

definition sample_num :: "u16 \<Rightarrow> nat" where
  "sample_num s = (if s < 32768 then 65536 + unat s else unat s)"

lemma sample_sender_good:
  "conn_good sample_sender" "rw_ok (\<lambda>_. [1, 2]) sample_num (co_remote_wnd sample_sender)" "near sample_num 65536 (rw_unacked (co_remote_wnd sample_sender))"
proof -
  have pb: "pb_ok (up_packet (sample_flight s)) [1, 2]" for s by (simp add: sample_flight_def UnackedPacket_new_def pb_ok_def PB_MAX_SIZE_def)
  have seq: "up_seq_nr (sample_flight s) = s" for s by (simp add: sample_flight_def UnackedPacket_new_def)
  have num: "sample_num 65535 = 65535" "sample_num 1 = 65537" by (simp_all add: sample_num_def)
  have "carried (sample_flight s)" for s unfolding carried_def by (rule exI[of _ "[1, 2]"]) (use pb in simp)
  then show "conn_good sample_sender"
    using conn_reach_inv[OF fresh_incoming_reach] by (simp add: sample_sender_def conn_inv_def conn_good_def RemoteWindow_new_def)
  show "rw_ok (\<lambda>_. [1, 2]) sample_num (co_remote_wnd sample_sender)"
    by (simp add: sample_sender_def rw_ok_def flights_ok_def flight_ok_def pb seq num flight_bytes_def)
  show "near sample_num 65536 (rw_unacked (co_remote_wnd sample_sender))"
    by (simp add: sample_sender_def near_def seq num)
qed

theorem ack_end_to_end_witness:
  "\<exists>b' frame pp a'. sendState quiet_utp_env sample_receiver = Some (True, b') \<and> co_sent b' = co_sent sample_receiver @ [frame]
     \<and> PacketParser_new frame \<bind> parse = Some (True, pp) \<and> remote_received quiet_utp_env (pp_hdr pp) (pp_sack pp) sample_sender = Some a'
     \<and> map (up_num sample_num) (rw_unacked (co_remote_wnd a')) = [65537]"
proof -
  have run: "lw_run (\<lambda>n. [1, 2]) 65534 1000 (co_local_wnd sample_receiver) 65536 {65535, 65536} []"
    using sample_run_2 by (simp add: sample_receiver_def)
  have e: "length (ue_mem quiet_utp_env) = 1500" "\<And>xs f. ue_sendTo quiet_utp_env xs f" by (simp_all add: quiet_utp_env_def)
  have u: "map (up_num sample_num) (rw_unacked (co_remote_wnd sample_sender)) = [65535, 65537]"
    by (simp add: sample_sender_def sample_flight_def UnackedPacket_new_def sample_num_def)
  show ?thesis using ack_end_to_end[OF run _ e sample_sender_good, of quiet_utp_env] unfolding u by fastforce
qed

end
