(* ===== verification/Dht_Key.thy ===== *)
theory Dht_Key
  imports Bytes
begin

text \<open>
  Node identifiers of the DHT, \<open>src/dht/key.cpp\<close> with its base class \<open>src/util/sha1hash.cpp\<close>: arrays of 20 bytes with the
  most significant byte first, compared, added, subtracted and halved by loops over the bytes. \<open>key_val\<close> is the number
  such an array stands for; every operation is shown to be the one on numbers, modulo \<open>2 ^ 160\<close>.
\<close>

section \<open>Operations\<close>

type_synonym Key = bytes

definition Key_of_bytes :: "bytes \<Rightarrow> Key" where
  \<comment> \<open>\<open>Key(const QByteArray &)\<close>: the base class has set all bytes to 0\<close>
  "Key_of_bytes ba = take 20 ba @ replicate (20 - length ba) 0"

fun key_less :: "Key \<Rightarrow> Key \<Rightarrow> bool" where
  "key_less (x # xs) (y # ys) = (if x < y then True else if x > y then False else key_less xs ys)"
| "key_less _ _ = False"

fun key_greater :: "Key \<Rightarrow> Key \<Rightarrow> bool" where
  "key_greater (x # xs) (y # ys) = (if x < y then False else if x > y then True else key_greater xs ys)"
| "key_greater _ _ = False"

definition key_less_eq :: "Key \<Rightarrow> Key \<Rightarrow> bool" where
  "key_less_eq a b \<longleftrightarrow> key_less a b \<or> a = b"

definition key_greater_eq :: "Key \<Rightarrow> Key \<Rightarrow> bool" where
  "key_greater_eq a b \<longleftrightarrow> key_greater a b \<or> a = b"

text \<open>The loops of \<open>+\<close> and \<open>-\<close> run from the last byte to the first; here over the reversed arrays.\<close>

fun plus_loop :: "bytes \<Rightarrow> bytes \<Rightarrow> bool \<Rightarrow> bytes" where
  "plus_loop (x # xs) (y # ys) carry =
     (let r = unat x + unat y + (if carry then 1 else 0) in
      if r > 255 then of_nat (r mod 256) # plus_loop xs ys True
      else of_nat r # plus_loop xs ys False)"
| "plus_loop _ _ _ = []"

definition key_plus :: "Key \<Rightarrow> Key \<Rightarrow> Key" where
  "key_plus a b = rev (plus_loop (rev a) (rev b) False)"

definition key_plus_byte :: "Key \<Rightarrow> u8 \<Rightarrow> Key" where
  "key_plus_byte a v = key_plus a (replicate 19 0 @ [v])"

fun minus_loop :: "bytes \<Rightarrow> bytes \<Rightarrow> bool \<Rightarrow> bytes" where
  "minus_loop (x # xs) (y # ys) carry =
     (if x \<ge> y then
        let r = x - y in
        if carry then
          if r = 0 then 0xFF # minus_loop xs ys True
          else (r - 1) # minus_loop xs ys False
        else r # minus_loop xs ys False
      else
        let r = of_nat (256 - (unat y - unat x)) in
        (if carry then r - 1 else r) # minus_loop xs ys True)"
| "minus_loop _ _ _ = []"

definition key_minus :: "Key \<Rightarrow> Key \<Rightarrow> Key" where
  "key_minus a b = rev (minus_loop (rev a) (rev b) False)"

fun div_loop :: "bytes \<Rightarrow> nat \<Rightarrow> nat \<Rightarrow> bytes" where
  \<comment> \<open>\<open>remainder\<close> is a byte\<close>
  "div_loop (x # xs) v remainder =
     of_nat ((unat x + remainder * 256) div v) # div_loop xs v ((unat x + remainder * 256) mod v mod 256)"
| "div_loop [] v remainder = []"

definition key_div :: "Key \<Rightarrow> nat \<Rightarrow> Key" where
  "key_div a v = div_loop a v 0"

definition key_distance :: "Key \<Rightarrow> Key \<Rightarrow> Key" where
  "key_distance a b = map2 (\<lambda>x y. x XOR y) a b"

definition key_mid :: "Key \<Rightarrow> Key \<Rightarrow> Key" where
  "key_mid a b =
     (if key_less_eq a b then key_plus a (key_div (key_minus b a) 2) else key_plus b (key_div (key_minus a b) 2))"

definition key_max :: Key where
  "key_max = replicate 20 0xFF"

definition key_min :: Key where
  "key_min = replicate 20 0"

section \<open>The number of a key\<close>

fun val_le :: "bytes \<Rightarrow> nat" where
  "val_le [] = 0"
| "val_le (x # xs) = unat x + 256 * val_le xs"

definition key_val :: "Key \<Rightarrow> nat" where
  "key_val k = val_le (rev k)"

abbreviation is_key :: "Key \<Rightarrow> bool" where
  "is_key k \<equiv> length k = 20"

lemma val_le_bound: "val_le xs < 256 ^ length xs"
proof (induction xs)
  case (Cons x xs)
  have "unat x < 256" using unsigned_less[of x, where ?'a = nat] by simp
  moreover have "256 * val_le xs + 256 \<le> 256 * 256 ^ length xs" using Cons.IH by simp
  ultimately show ?case by simp
qed simp

lemma val_le_append: "val_le (xs @ ys) = val_le xs + 256 ^ length xs * val_le ys"
  by (induction xs) (simp_all add: algebra_simps)

lemma key_val_bound: "is_key k \<Longrightarrow> key_val k < 2 ^ 160"
  using val_le_bound[of "rev k"] by (simp add: key_val_def)

lemma byte_digit:
  fixes a b m n :: nat
  assumes "a < 256" "b < 256"
  shows "a + 256 * m = b + 256 * n \<longleftrightarrow> a = b \<and> m = n" "a + 256 * m < b + 256 * n \<longleftrightarrow> m < n \<or> m = n \<and> a < b"
proof -
  have d: "(c + 256 * k) div 256 = k" "(c + 256 * k) mod 256 = c" if "c < 256" for c k :: nat using that by simp_all
  show "a + 256 * m = b + 256 * n \<longleftrightarrow> a = b \<and> m = n" using d[OF assms(1), of m] d[OF assms(2), of n] by metis
  show "a + 256 * m < b + 256 * n \<longleftrightarrow> m < n \<or> m = n \<and> a < b" using assms by linarith
qed

lemma unat_byte: "unat (x :: u8) < 256"
  using unsigned_less[of x, where ?'a = nat] by simp

lemma val_le_inj: "length xs = length ys \<Longrightarrow> val_le xs = val_le ys \<longleftrightarrow> xs = ys"
  by (induction xs ys rule: list_induct2) (auto simp: byte_digit[OF unat_byte unat_byte] word_unat_eq_iff)

lemma key_val_inj: "is_key a \<Longrightarrow> is_key b \<Longrightarrow> key_val a = key_val b \<longleftrightarrow> a = b"
  using val_le_inj[of "rev a" "rev b"] by (simp add: key_val_def)

lemma key_val_Cons: "key_val (x # xs) = key_val xs + 256 ^ length xs * unat x"
  by (simp add: key_val_def val_le_append)

lemma key_val_bound': "key_val xs < 256 ^ length xs"
  using val_le_bound[of "rev xs"] by (simp add: key_val_def)

lemma less_val:
  assumes "length xs = length ys"
  shows "(key_less xs ys \<longleftrightarrow> key_val xs < key_val ys) \<and> (key_greater xs ys \<longleftrightarrow> key_val ys < key_val xs)"
  using assms
proof (induction xs ys rule: list_induct2)
  case (Cons x xs y ys)
  define B where "B = (256 :: nat) ^ length xs"
  have b: "key_val xs < B" "key_val ys < B" using key_val_bound'[of xs] key_val_bound'[of ys] Cons.hyps by (simp_all add: B_def)
  have step: "p + B * m < q + B * n" if "p < B" "m < n" for p q m n
  proof -
    have "B * Suc m \<le> B * n" using that(2) by (intro mult_le_mono2) simp
    then show ?thesis using that(1) by simp
  qed
  consider "x < y" "unat x < unat y" | "y < x" "unat y < unat x" | "x = y" by (cases x y rule: linorder_cases) (auto simp: word_less_nat_alt)
  then show ?case
  proof cases
    case 1
    then show ?thesis using step[OF b(1) 1(2), of "key_val ys"] Cons.hyps by (simp add: key_val_Cons B_def)
  next
    case 2
    then show ?thesis using step[OF b(2) 2(2), of "key_val xs"] Cons.hyps by (simp add: key_val_Cons B_def)
  next
    case 3
    then show ?thesis using Cons.IH Cons.hyps by (simp add: key_val_Cons)
  qed
qed (simp add: key_val_def)

section \<open>Arithmetic\<close>

lemma byte_of_nat: "n < 256 \<Longrightarrow> unat (of_nat n :: u8) = n"
  by (simp only: unat_of_nat) simp

lemma plus_digit:
  "\<exists>d b. plus_loop (x # xs) (y # ys) c = d # plus_loop xs ys b \<and> unat d + (if b then 256 else 0) = unat x + unat y + (if c then 1 else 0)"
proof -
  define r where "r = unat x + unat y + (if c then 1 else 0 :: nat)"
  have r: "r < 512" using unat_byte[of x] unat_byte[of y] by (auto simp: r_def)
  show ?thesis
  proof (cases "r > 255")
    case True
    then have "r mod 256 + 256 = r" using r le_mod_geq[of 256 r] by simp
    then show ?thesis unfolding plus_loop.simps Let_def r_def[symmetric] using True byte_of_nat[of "r mod 256"]
      by (intro exI[of _ "of_nat (r mod 256)"] exI[of _ True]) simp
  next
    case False
    then show ?thesis unfolding plus_loop.simps Let_def r_def[symmetric] using byte_of_nat[of r]
      by (intro exI[of _ "of_nat r"] exI[of _ False]) simp
  qed
qed

lemma plus_loop_law:
  assumes "length xs = length ys"
  shows "length (plus_loop xs ys c) = length xs \<and>
    (\<exists>k. val_le (plus_loop xs ys c) + k * 256 ^ length xs = val_le xs + val_le ys + (if c then 1 else 0))"
  using assms
proof (induction xs ys arbitrary: c rule: list_induct2)
  case (Cons x xs y ys)
  obtain d b where s: "plus_loop (x # xs) (y # ys) c = d # plus_loop xs ys b"
      "unat d + (if b then 256 else 0) = unat x + unat y + (if c then 1 else 0)"
    using plus_digit by blast
  obtain k where k: "length (plus_loop xs ys b) = length xs"
      "val_le (plus_loop xs ys b) + k * 256 ^ length xs = val_le xs + val_le ys + (if b then 1 else 0)"
    using Cons.IH[of b] by blast
  have "256 * (val_le (plus_loop xs ys b) + k * 256 ^ length xs) = 256 * (val_le xs + val_le ys + (if b then 1 else 0))"
    unfolding k(2) ..
  then have "val_le (d # plus_loop xs ys b) + k * 256 ^ length (x # xs) = val_le (x # xs) + val_le (y # ys) + (if c then 1 else 0)"
    using s(2) by (cases b) (simp_all add: algebra_simps)
  then show ?case using s(1) k(1) by (auto simp del: plus_loop.simps val_le.simps)
qed auto

lemma minus_loop_law:
  assumes "length xs = length ys"
  shows "length (minus_loop xs ys c) = length xs \<and>
    (\<exists>k. val_le (minus_loop xs ys c) + val_le ys + (if c then 1 else 0) = val_le xs + k * 256 ^ length xs)"
  using assms
proof (induction xs ys arbitrary: c rule: list_induct2)
  case (Cons x xs y ys)
  \<comment> \<open>one digit: the byte written and the borrow\<close>
  obtain b r where s: "minus_loop (x # xs) (y # ys) c = r # minus_loop xs ys b"
      "unat r + unat y + (if c then 1 else 0) = unat x + (if b then 256 else 0)"
  proof (cases "x \<ge> y")
    case True
    then have le: "unat y \<le> unat x" and d: "unat (x - y) = unat x - unat y" by (simp_all add: word_le_nat_alt unat_sub)
    show thesis
    proof (cases "c \<and> x - y = 0")
      case c0: True
      then have "unat x = unat y" by simp
      then show thesis using that[of 255 True] True c0 by simp
    next
      case False
      have "unat (x - y - 1) = unat x - unat y - 1" if "x - y \<noteq> 0" using that d unat_minus_one[OF that] by simp
      moreover have "unat x - unat y > 0" if "x - y \<noteq> 0" using that d by (metis unat_eq_zero neq0_conv)
      ultimately show thesis using that[of "if c then x - y - 1 else x - y" False] True False d le by (cases c) auto
    qed
  next
    case False
    then have lt: "unat x < unat y" "unat y < 256" using unat_byte[of y] by (simp_all add: word_le_nat_alt)
    let ?n = "256 - (unat y - unat x)"
    have u: "unat (of_nat ?n :: u8) = ?n" using lt by (intro byte_of_nat) simp
    have "(of_nat ?n :: u8) \<noteq> 0" using u lt by (metis unat_0 zero_less_diff less_imp_diff_less not_less_iff_gr_or_eq)
    then have "unat (of_nat ?n - 1 :: u8) = ?n - 1" using unat_minus_one u by metis
    then show thesis using that[of "if c then of_nat ?n - 1 else of_nat ?n" True] False u lt by (simp add: Let_def)
  qed
  obtain k where k: "length (minus_loop xs ys b) = length xs"
      "val_le (minus_loop xs ys b) + val_le ys + (if b then 1 else 0) = val_le xs + k * 256 ^ length xs"
    using Cons.IH[of b] by blast
  have "val_le (r # minus_loop xs ys b) + val_le (y # ys) + (if c then 1 else 0) = val_le (x # xs) + k * 256 ^ length (x # xs)"
    using s(2) k(2) by (cases b) (simp_all add: algebra_simps)
  then show ?case using s(1) k(1) by auto
qed auto

lemma length_div_loop [simp]: "length (div_loop xs v r) = length xs"
  by (induction xs arbitrary: r) simp_all

lemma div_loop_law:
  assumes "0 < v" "v \<le> 256" "r < v"
  shows "key_val (div_loop xs v r) = (r * 256 ^ length xs + key_val xs) div v"
  using assms(3)
proof (induction xs arbitrary: r)
    case (Cons x xs)
    define n where "n = unat x + r * 256"
    define B where "B = (256 :: nat) ^ length xs"
    have m: "n mod v < v" "n mod v mod 256 = n mod v" using assms(1,2) mod_less_divisor[OF assms(1), of n] by simp_all
    have "256 * Suc r \<le> 256 * v" using Cons.prems by (intro mult_le_mono2) simp
    then have "n < 256 * v" using unat_byte[of x] by (simp add: n_def)
    then have "unat (of_nat (n div v) :: u8) = n div v" by (intro byte_of_nat) (simp add: div_less_iff_less_mult assms(1) mult.commute)
    then have "key_val (div_loop (x # xs) v r) = (n mod v * B + key_val xs) div v + B * (n div v)"
      using Cons.IH[OF m(1)] m(2) by (simp add: key_val_Cons n_def B_def)
    also have "\<dots> = (n mod v * B + key_val xs + B * (n div v) * v) div v" using assms(1) by simp
    also have "n mod v * B + key_val xs + B * (n div v) * v = n * B + key_val xs"
    proof -
      have e: "m * B + B * q * v = (m + q * v) * B" for m q by (simp add: algebra_simps)
      have "n mod v * B + B * (n div v) * v = (n mod v + n div v * v) * B" by (rule e)
      also have "n mod v + n div v * v = n" by (rule mod_div_mult_eq)
      finally show ?thesis by simp
    qed
    also have "n * B + key_val xs = r * 256 ^ length (x # xs) + key_val (x # xs)" by (simp add: n_def B_def key_val_Cons algebra_simps)
    finally show ?case .
qed (use assms(1) in \<open>simp add: key_val_def\<close>)


text \<open>The operations on numbers.\<close>

definition add160 :: "nat \<Rightarrow> nat \<Rightarrow> nat" where
  "add160 m n = (m + n) mod 2 ^ 160"

definition sub160 :: "nat \<Rightarrow> nat \<Rightarrow> nat" where
  "sub160 m n = (m + 2 ^ 160 - n) mod 2 ^ 160"

lemma sub160_le: "n \<le> m \<Longrightarrow> m < 2 ^ 160 \<Longrightarrow> sub160 m n = m - n"
proof -
  assume a: "n \<le> m" "m < 2 ^ 160"
  have "m + 2 ^ 160 - n = (m - n) + 2 ^ 160" using a(1) by simp
  then show ?thesis using a(2) unfolding sub160_def by (simp only: mod_add_self2) simp
qed

lemma pow_160: "(256 :: nat) ^ 20 = 2 ^ 160"
  by simp

lemma key_plus_law:
  assumes "is_key a" "is_key b"
  shows "is_key (key_plus a b)" "key_val (key_plus a b) = add160 (key_val a) (key_val b)"
proof -
  obtain k where k: "length (plus_loop (rev a) (rev b) False) = 20"
      "val_le (plus_loop (rev a) (rev b) False) + k * 2 ^ 160 = val_le (rev a) + val_le (rev b)"
    using plus_loop_law[of "rev a" "rev b" False] assms by (auto simp: pow_160)
  then show "is_key (key_plus a b)" by (simp add: key_plus_def)
  have b: "val_le (plus_loop (rev a) (rev b) False) < 2 ^ 160" using val_le_bound[of "plus_loop (rev a) (rev b) False"] k(1) by (simp add: pow_160)
  show "key_val (key_plus a b) = add160 (key_val a) (key_val b)"
    unfolding add160_def key_val_def key_plus_def rev_rev_ident k(2)[symmetric] using b by simp
qed

lemma key_minus_law:
  assumes "is_key a" "is_key b"
  shows "is_key (key_minus a b)" "key_val (key_minus a b) = sub160 (key_val a) (key_val b)"
proof -
  let ?r = "val_le (minus_loop (rev a) (rev b) False)"
  obtain k where k: "length (minus_loop (rev a) (rev b) False) = 20" "?r + val_le (rev b) = val_le (rev a) + k * 2 ^ 160"
    using minus_loop_law[of "rev a" "rev b" False] assms by (auto simp: pow_160)
  then show "is_key (key_minus a b)" by (simp add: key_minus_def)
  have b: "?r < 2 ^ 160" "val_le (rev b) < 2 ^ 160" "val_le (rev a) < 2 ^ 160"
    using val_le_bound[of "minus_loop (rev a) (rev b) False"] val_le_bound[of "rev b"] val_le_bound[of "rev a"] k(1) assms by (simp_all add: pow_160)
  have "val_le (rev a) + 2 ^ 160 - val_le (rev b) + k * 2 ^ 160 = ?r + 2 ^ 160" using k(2) b by linarith
  then have "(val_le (rev a) + 2 ^ 160 - val_le (rev b) + k * 2 ^ 160) mod 2 ^ 160 = ?r" using b(1) by simp
  then show "key_val (key_minus a b) = sub160 (key_val a) (key_val b)"
    unfolding sub160_def key_val_def key_minus_def rev_rev_ident by simp
qed

lemma key_div_law:
  assumes "0 < v" "v \<le> 256"
  shows "length (key_div a v) = length a" "key_val (key_div a v) = key_val a div v"
  using div_loop_law[OF assms, of 0 a] assms by (simp_all add: key_div_def)

lemma key_less_eq_val: "is_key a \<Longrightarrow> is_key b \<Longrightarrow> key_less_eq a b \<longleftrightarrow> key_val a \<le> key_val b"
  using less_val[of a b] key_val_inj[of a b] by (auto simp: key_less_eq_def)

lemma key_greater_eq_val: "is_key a \<Longrightarrow> is_key b \<Longrightarrow> key_greater_eq a b \<longleftrightarrow> key_val b \<le> key_val a"
  using less_val[of a b] key_val_inj[of a b] by (auto simp: key_greater_eq_def)

lemma key_mid_law:
  assumes "is_key a" "is_key b"
  shows "is_key (key_mid a b)" "key_val (key_mid a b) = (key_val a + key_val b) div 2"
proof -
  have half: "is_key (key_plus x (key_div (key_minus y x) 2)) \<and>
      key_val (key_plus x (key_div (key_minus y x) 2)) = (key_val x + key_val y) div 2"
    if "is_key x" "is_key y" "key_val x \<le> key_val y" for x y
  proof -
    have b: "key_val y < 2 ^ 160" using key_val_bound[OF that(2)] .
    have m: "is_key (key_minus y x)" "key_val (key_minus y x) = key_val y - key_val x"
      using key_minus_law[OF that(2,1)] sub160_le[OF that(3) b] by simp_all
    have d: "is_key (key_div (key_minus y x) 2)" "key_val (key_div (key_minus y x) 2) = (key_val y - key_val x) div 2"
      using key_div_law[of 2 "key_minus y x"] m by simp_all
    have e: "key_val x + (key_val y - key_val x) div 2 = (key_val x + key_val y) div 2" using that(3) by presburger
    moreover have "(key_val x + key_val y) div 2 < 2 ^ 160" using that(3) b by linarith
    ultimately show ?thesis using key_plus_law[OF that(1) d(1)] d(2) by (simp add: add160_def)
  qed
  show "is_key (key_mid a b)" "key_val (key_mid a b) = (key_val a + key_val b) div 2"
    using half[OF assms] half[OF assms(2,1)] key_less_eq_val[OF assms] by (simp_all add: key_mid_def add.commute)
qed

lemma val_le_replicate: "val_le (replicate n 0) = 0" "val_le (replicate n 0xFF) = 256 ^ n - 1"
proof -
  show "val_le (replicate n 0) = 0" by (induction n) simp_all
  have "val_le (replicate n 0xFF) + 1 = 256 ^ n" by (induction n) simp_all
  then show "val_le (replicate n 0xFF) = 256 ^ n - 1" by simp
qed

lemma key_bounds: "is_key key_min" "is_key key_max" "key_val key_min = 0" "key_val key_max = 2 ^ 160 - 1"
  unfolding key_min_def key_max_def key_val_def rev_replicate val_le_replicate length_replicate by simp_all

lemma key_plus_byte_law:
  assumes "is_key a"
  shows "is_key (key_plus_byte a v)" "key_val (key_plus_byte a v) = add160 (key_val a) (unat v)"
proof -
  have "key_val (replicate 19 0 @ [v]) = unat v"
    unfolding key_val_def rev_append rev_replicate append.simps rev.simps val_le.simps val_le_replicate by simp
  then show "is_key (key_plus_byte a v)" "key_val (key_plus_byte a v) = add160 (key_val a) (unat v)"
    using key_plus_law[OF assms, of "replicate 19 0 @ [v]"] by (simp_all add: key_plus_byte_def)
qed

section \<open>Distance\<close>

lemma key_distance_key [simp]: "is_key a \<Longrightarrow> is_key b \<Longrightarrow> is_key (key_distance a b)"
  by (simp add: key_distance_def)

lemma map2_xor_cancel:
  fixes a :: bytes
  assumes "length a = length b" "length a = length c"
  shows "map2 (\<lambda>x y. x XOR y) a b = map2 (\<lambda>x y. x XOR y) a c \<longleftrightarrow> b = c"
  using assms
proof (induction a b arbitrary: c rule: list_induct2)
  case (Cons x xs y ys)
  then obtain z zs where c: "c = z # zs" "length xs = length zs" by (cases c) auto
  have "x XOR y = x XOR z \<longleftrightarrow> y = z" by (metis xor.assoc xor.left_neutral xor_self_eq)
  then show ?case using Cons.IH[OF c(2)] c(1) by simp
qed simp

lemma key_distance_inj:
  "is_key k \<Longrightarrow> is_key a \<Longrightarrow> is_key b \<Longrightarrow> key_distance k a = key_distance k b \<longleftrightarrow> a = b"
  using map2_xor_cancel[of k a b] by (simp add: key_distance_def)

text \<open>
  C39. The byte-wise arithmetic of identifiers is the arithmetic of 160-bit numbers: the comparisons are those of the numbers,
  addition and subtraction are modulo \<open>2 ^ 160\<close> with every carry and borrow handled, division by two is exact, and \<open>mid\<close> is the
  midpoint rounded down, also where the sum of the two keys has 161 bits.
\<close>

theorem Key_arithmetic:
  assumes "is_key a" "is_key b"
  shows "(key_less a b \<longleftrightarrow> key_val a < key_val b) \<and> (key_greater a b \<longleftrightarrow> key_val b < key_val a) \<and>
    (key_less_eq a b \<longleftrightarrow> key_val a \<le> key_val b) \<and> (key_greater_eq a b \<longleftrightarrow> key_val b \<le> key_val a) \<and>
    key_val (key_plus a b) = (key_val a + key_val b) mod 2 ^ 160 \<and>
    key_val (key_minus a b) = (key_val a + 2 ^ 160 - key_val b) mod 2 ^ 160 \<and>
    key_val (key_div a 2) = key_val a div 2 \<and> key_val (key_mid a b) = (key_val a + key_val b) div 2 \<and>
    (key_distance a b = key_min \<longleftrightarrow> a = b)"
proof (intro conjI)
  show "key_less a b \<longleftrightarrow> key_val a < key_val b" "key_greater a b \<longleftrightarrow> key_val b < key_val a" using less_val[of a b] assms by simp_all
  show "key_less_eq a b \<longleftrightarrow> key_val a \<le> key_val b" "key_greater_eq a b \<longleftrightarrow> key_val b \<le> key_val a"
    using key_less_eq_val[OF assms] key_greater_eq_val[OF assms] by simp_all
  show "key_val (key_plus a b) = (key_val a + key_val b) mod 2 ^ 160" using key_plus_law[OF assms] by (simp add: add160_def)
  show "key_val (key_minus a b) = (key_val a + 2 ^ 160 - key_val b) mod 2 ^ 160" using key_minus_law[OF assms] by (simp add: sub160_def)
  show "key_val (key_div a 2) = key_val a div 2" "key_val (key_mid a b) = (key_val a + key_val b) div 2"
    using key_div_law[of 2 a] key_mid_law[OF assms] by simp_all
  have "key_distance a a = key_min" unfolding key_distance_def key_min_def using assms(1)
    by (auto intro!: nth_equalityI)
  then show "key_distance a b = key_min \<longleftrightarrow> a = b" using key_distance_inj[OF assms(1,1,2)] by auto
qed

theorem Key_arithmetic_witness:
  "key_val (key_mid key_max (replicate 19 0xFF @ [0xFD])) = 2 ^ 160 - 2"
proof -
  have k: "is_key key_max" "is_key (replicate 19 0xFF @ [0xFD])" by (simp_all add: key_max_def)
  have "key_val (replicate 19 0xFF @ [0xFD]) = 2 ^ 160 - 3"
    unfolding key_val_def rev_append rev_replicate append.simps rev.simps val_le.simps val_le_replicate by simp
  then show ?thesis using Key_arithmetic[OF k] key_bounds(4) by simp
qed

end
