(* ===== verification/Dht_Bucket.thy ===== *)
theory Dht_Bucket
  imports Dht_Key
begin

text \<open>
  The routing table of the DHT: entries (\<open>src/dht/kbucketentry.cpp\<close>), buckets of at most \<open>K\<close> entries that cover a range of
  keys (\<open>src/dht/kbucket.cpp\<close>) and the list of buckets (\<open>src/dht/kbuckettable.cpp\<close>).

  The environment of a call holds the clock and whether \<open>RPCServerInterface::doCall\<close> returns a call for an address. A
  call is named by a number (the pointer in the source) and the address it went to; the number is counted in \<open>kb_made\<close>.
  Shown is that whatever nodes and answers arrive, the buckets stay a partition of all keys, with every entry in
  the bucket of its key, at most \<open>K\<close> of them, and at most 160 buckets.
\<close>

section \<open>Entries\<close>

datatype Address = V4 u32w u16 | V6 bytes u16

fun ipVersion :: "Address \<Rightarrow> nat" where
  "ipVersion (V4 _ _) = 4"
| "ipVersion (V6 _ _) = 6"

record KBucketEntry =
  ke_addr :: Address
  ke_id :: Key
  ke_last_responded :: nat
  ke_failed_queries :: nat
  ke_questionable_pings :: nat

record DhtEnv =
  de_now :: nat
  de_doCall :: "Address \<Rightarrow> bool"

definition KBucketEntry_new :: "DhtEnv \<Rightarrow> Address \<Rightarrow> Key \<Rightarrow> KBucketEntry" where
  "KBucketEntry_new env addr nid =
     \<lparr>ke_addr = addr, ke_id = nid, ke_last_responded = de_now env, ke_failed_queries = 0, ke_questionable_pings = 0\<rparr>"

definition ke_eq :: "KBucketEntry \<Rightarrow> KBucketEntry \<Rightarrow> bool" where
  "ke_eq a b \<longleftrightarrow> ke_addr a = ke_addr b \<and> ke_id a = ke_id b"

definition isGood :: "DhtEnv \<Rightarrow> KBucketEntry \<Rightarrow> bool" where
  "isGood env e = (if sub64 (de_now env) (ke_last_responded e) > 15 * 60 * 1000 then False else True)"

definition isQuestionable :: "DhtEnv \<Rightarrow> KBucketEntry \<Rightarrow> bool" where
  "isQuestionable env e = (if sub64 (de_now env) (ke_last_responded e) > 15 * 60 * 1000 then True else False)"

definition isBad :: "DhtEnv \<Rightarrow> KBucketEntry \<Rightarrow> bool" where
  "isBad env e = (if isGood env e then False else ke_failed_queries e > 2 \<or> ke_questionable_pings e > 2)"

definition hasResponded :: "DhtEnv \<Rightarrow> KBucketEntry \<Rightarrow> KBucketEntry" where
  "hasResponded env e = e\<lparr>ke_last_responded := de_now env, ke_failed_queries := 0, ke_questionable_pings := 0\<rparr>"

definition requestTimeout :: "KBucketEntry \<Rightarrow> KBucketEntry" where
  "requestTimeout e = e\<lparr>ke_failed_queries := add32 (ke_failed_queries e) 1\<rparr>"

definition onPingQuestionable :: "KBucketEntry \<Rightarrow> KBucketEntry" where
  "onPingQuestionable e = e\<lparr>ke_questionable_pings := add32 (ke_questionable_pings e) 1\<rparr>"

section \<open>Buckets\<close>

definition K_nodes :: nat where
  "K_nodes = 20"

definition BUCKET_REFRESH_INTERVAL :: nat where
  "BUCKET_REFRESH_INTERVAL = 15 * 60 * 1000"

type_synonym RPCCall = "nat \<times> Address"

record KBucket =
  kb_min_key :: Key
  kb_max_key :: Key
  kb_entries :: "KBucketEntry list"
  kb_pending :: "KBucketEntry list"
  kb_our_id :: Key
  kb_busy :: "(RPCCall \<times> KBucketEntry) list"   \<comment> \<open>\<open>pending_entries_busy_pinging\<close>\<close>
  kb_last_modified :: nat
  kb_refresh_task :: bool
  kb_made :: nat

definition KBucket_range :: "DhtEnv \<Rightarrow> Key \<Rightarrow> Key \<Rightarrow> Key \<Rightarrow> KBucket" where
  "KBucket_range env mn mx our_id =
     \<lparr>kb_min_key = mn, kb_max_key = mx, kb_entries = [], kb_pending = [], kb_our_id = our_id, kb_busy = [],
      kb_last_modified = de_now env, kb_refresh_task = False, kb_made = 0\<rparr>"

definition KBucket_new :: "DhtEnv \<Rightarrow> Key \<Rightarrow> KBucket" where
  "KBucket_new env our_id = KBucket_range env key_min key_max our_id"

definition keyInRange :: "KBucket \<Rightarrow> Key \<Rightarrow> bool" where
  "keyInRange b k \<longleftrightarrow> key_less_eq (kb_min_key b) k \<and> key_less_eq k (kb_max_key b)"

definition splitAllowed :: "KBucket \<Rightarrow> bool" where
  "splitAllowed b =
     (if \<not> keyInRange b (kb_our_id b) then False
      else if key_greater_eq (key_plus_byte (kb_min_key b) (of_nat K_nodes)) (kb_max_key b) then False
      else True)"

fun erase_first :: "('a \<Rightarrow> bool) \<Rightarrow> 'a list \<Rightarrow> 'a list" where
  "erase_first P [] = []"
| "erase_first P (x # xs) = (if P x then xs else x # erase_first P xs)"

definition replaceBadEntry :: "DhtEnv \<Rightarrow> KBucketEntry \<Rightarrow> KBucket \<Rightarrow> bool \<times> KBucket" where
  "replaceBadEntry env entry b =
     (if \<exists>e \<in> set (kb_entries b). isBad env e
      then (True, b\<lparr>kb_last_modified := de_now env, kb_entries := erase_first (isBad env) (kb_entries b) @ [entry]\<rparr>)
      else (False, b))"

fun ping_loop :: "DhtEnv \<Rightarrow> KBucketEntry list \<Rightarrow> (KBucketEntry list \<times> Address) option" where
  \<comment> \<open>the first questionable entry for which a call can be made\<close>
  "ping_loop env [] = None"
| "ping_loop env (e # es) =
     (if isQuestionable env e \<and> de_doCall env (ke_addr e) then Some (onPingQuestionable e # es, ke_addr e)
      else map_option (\<lambda>(es', a). (e # es', a)) (ping_loop env es))"

definition pingQuestionable :: "DhtEnv \<Rightarrow> KBucketEntry \<Rightarrow> KBucket \<Rightarrow> KBucket" where
  "pingQuestionable env replacement b =
     (if length (kb_busy b) \<ge> 2 then b\<lparr>kb_pending := kb_pending b @ [replacement]\<rparr>
      else case ping_loop env (kb_entries b) of
        None \<Rightarrow> b
      | Some (es, addr) \<Rightarrow> b\<lparr>kb_entries := es, kb_busy := kb_busy b @ [((kb_made b, addr), replacement)], kb_made := Suc (kb_made b)\<rparr>)"

definition kb_insert :: "DhtEnv \<Rightarrow> KBucketEntry \<Rightarrow> KBucket \<Rightarrow> bool \<times> KBucket" where
  "kb_insert env entry b =
     (if \<exists>e \<in> set (kb_entries b). ke_eq e entry
      then (False, b\<lparr>kb_last_modified := de_now env, kb_entries := erase_first (\<lambda>e. ke_eq e entry) (kb_entries b) @ [entry]\<rparr>)
      else if length (kb_entries b) < K_nodes
      then (False, b\<lparr>kb_entries := kb_entries b @ [entry], kb_last_modified := de_now env\<rparr>)
      else let (replaced, b') = replaceBadEntry env entry b in
        if \<not> replaced then
          if length (kb_entries b) = K_nodes \<and> splitAllowed b then (True, b)
          else (False, pingQuestionable env entry b)
        else (False, b'))"

definition kb_split :: "DhtEnv \<Rightarrow> KBucket \<Rightarrow> (KBucket \<times> KBucket) option" where
  \<comment> \<open>\<open>None\<close> is the exception \<open>UnableToSplit\<close>\<close>
  "kb_split env b =
     (let m = key_mid (kb_min_key b) (kb_max_key b) in
      if m = kb_min_key b \<or> key_plus_byte m 1 = kb_max_key b then None
      else Some (fold (\<lambda>e (l, r). if keyInRange l (ke_id e) then (snd (kb_insert env e l), r) else (l, snd (kb_insert env e r)))
        (kb_entries b)
        (KBucket_range env (kb_min_key b) m (kb_our_id b), KBucket_range env (key_plus_byte m 1) (kb_max_key b) (kb_our_id b))))"

definition replace_or_ping :: "DhtEnv \<Rightarrow> KBucketEntry \<Rightarrow> KBucket \<Rightarrow> KBucket" where
  "replace_or_ping env entry b =
     (let (replaced, b') = replaceBadEntry env entry b in if \<not> replaced then pingQuestionable env entry b' else b')"

definition kb_onResponse :: "DhtEnv \<Rightarrow> RPCCall \<Rightarrow> KBucket \<Rightarrow> KBucket" where
  "kb_onResponse env c b =
     (let b1 = b\<lparr>kb_last_modified := de_now env\<rparr> in
      case map_of (kb_busy b1) c of
        None \<Rightarrow> b1
      | Some entry \<Rightarrow> replace_or_ping env entry (b1\<lparr>kb_busy := filter (\<lambda>p. fst p \<noteq> c) (kb_busy b1)\<rparr>))"

definition kb_onCallTimeout :: "DhtEnv \<Rightarrow> RPCCall \<Rightarrow> KBucket \<Rightarrow> KBucket" where
  "kb_onCallTimeout env c b =
     (case map_of (kb_busy b) c of
        None \<Rightarrow> b
      | Some entry \<Rightarrow>
          let b1 = (if \<exists>e \<in> set (kb_entries b). ke_addr e = snd c
                    then b\<lparr>kb_last_modified := de_now env,
                           kb_entries := erase_first (\<lambda>e. ke_addr e = snd c) (kb_entries b) @ [entry]\<rparr>
                    else b);
              b2 = b1\<lparr>kb_busy := filter (\<lambda>p. fst p \<noteq> c) (kb_busy b1)\<rparr>
          in if length (kb_busy b2) < 2 \<and> kb_pending b2 \<noteq> []
             then replace_or_ping env (hd (kb_pending b2)) (b2\<lparr>kb_pending := tl (kb_pending b2)\<rparr>)
             else b2)"

fun timeout_loop_kb :: "Address \<Rightarrow> KBucketEntry list \<Rightarrow> KBucketEntry list option" where
  "timeout_loop_kb a [] = None"
| "timeout_loop_kb a (e # es) =
     (if ke_addr e = a then Some (requestTimeout e # es) else map_option (\<lambda>es'. e # es') (timeout_loop_kb a es))"

definition kb_onTimeout :: "Address \<Rightarrow> KBucket \<Rightarrow> bool \<times> KBucket" where
  "kb_onTimeout a b = (case timeout_loop_kb a (kb_entries b) of None \<Rightarrow> (False, b) | Some es \<Rightarrow> (True, b\<lparr>kb_entries := es\<rparr>))"

definition needsToBeRefreshed :: "DhtEnv \<Rightarrow> KBucket \<Rightarrow> bool \<times> KBucket" where
  "needsToBeRefreshed env b =
     (if kb_last_modified b > de_now env then (False, b\<lparr>kb_last_modified := de_now env\<rparr>)
      else (\<not> kb_refresh_task b \<and> kb_entries b \<noteq> [] \<and> sub64 (de_now env) (kb_last_modified b) > BUCKET_REFRESH_INTERVAL, b))"

definition setRefreshTask :: "bool \<Rightarrow> KBucket \<Rightarrow> KBucket" where
  "setRefreshTask t b = b\<lparr>kb_refresh_task := t\<rparr>"

definition kb_contains :: "KBucketEntry \<Rightarrow> KBucket \<Rightarrow> bool" where
  "kb_contains entry b \<longleftrightarrow> (\<exists>e \<in> set (kb_entries b). ke_eq e entry)"

section \<open>The table\<close>

record KBucketTable =
  kt_our_id :: Key
  kt_buckets :: "KBucket list"

definition KBucketTable_new :: "Key \<Rightarrow> KBucketTable" where
  "KBucketTable_new our_id = \<lparr>kt_our_id = our_id, kt_buckets = []\<rparr>"

definition insert_or_split :: "DhtEnv \<Rightarrow> KBucketEntry \<Rightarrow> KBucket \<Rightarrow> KBucket list" where
  \<comment> \<open>the buckets that replace the one the entry belongs to\<close>
  "insert_or_split env entry b =
     (let (needs_split, b') = kb_insert env entry b in
      if needs_split then
        case kb_split env b' of
          None \<Rightarrow> [b']
        | Some (l, r) \<Rightarrow>
            if keyInRange l (ke_id entry) then [snd (kb_insert env entry l), r] else [l, snd (kb_insert env entry r)]
      else [b'])"

fun insert_buckets :: "DhtEnv \<Rightarrow> KBucketEntry \<Rightarrow> KBucket list \<Rightarrow> KBucket list" where
  \<comment> \<open>\<open>findBucket\<close> and what is done to the bucket found\<close>
  "insert_buckets env entry [] = []"
| "insert_buckets env entry (b # bs) =
     (if keyInRange b (ke_id entry) then insert_or_split env entry b @ bs else b # insert_buckets env entry bs)"

definition kt_insert :: "DhtEnv \<Rightarrow> KBucketEntry \<Rightarrow> KBucketTable \<Rightarrow> KBucketTable" where
  "kt_insert env entry t =
     (let bs = (if kt_buckets t = [] then [KBucket_new env (kt_our_id t)] else kt_buckets t)
      in t\<lparr>kt_buckets := insert_buckets env entry bs\<rparr>)"

definition kt_numEntries :: "KBucketTable \<Rightarrow> nat" where
  "kt_numEntries t = sum_list (map (\<lambda>b. length (kb_entries b)) (kt_buckets t))"

fun timeout_buckets :: "Address \<Rightarrow> KBucket list \<Rightarrow> KBucket list" where
  "timeout_buckets a [] = []"
| "timeout_buckets a (b # bs) = (let (found, b') = kb_onTimeout a b in if found then b' # bs else b' # timeout_buckets a bs)"

definition kt_onTimeout :: "Address \<Rightarrow> KBucketTable \<Rightarrow> KBucketTable" where
  "kt_onTimeout a t = t\<lparr>kt_buckets := timeout_buckets a (kt_buckets t)\<rparr>"

definition refreshBuckets :: "DhtEnv \<Rightarrow> (Key \<Rightarrow> bool) \<Rightarrow> KBucketTable \<Rightarrow> KBucketTable" where
  \<comment> \<open>\<open>started m\<close>: \<open>DHT::refreshBucket\<close> returned a lookup task for the key \<open>m\<close>\<close>
  "refreshBuckets env started t = t\<lparr>kt_buckets := map (\<lambda>b. let (needed, b') = needsToBeRefreshed env b in
     if needed \<and> started (key_mid (kb_min_key b') (kb_max_key b')) then setRefreshTask True b' else b') (kt_buckets t)\<rparr>"

section \<open>One bucket\<close>

fun is_address :: "Address \<Rightarrow> bool" where
  "is_address (V4 _ _) = True"
| "is_address (V6 ip _) = (length ip = 16)"

abbreviation valid_node :: "KBucketEntry \<Rightarrow> bool" where
  "valid_node e \<equiv> is_key (ke_id e) \<and> is_address (ke_addr e)"

definition kb_all :: "KBucket \<Rightarrow> KBucketEntry set" where
  "kb_all b = set (kb_entries b) \<union> set (kb_pending b) \<union> snd ` set (kb_busy b)"

definition belongs :: "KBucket \<Rightarrow> KBucketEntry \<Rightarrow> bool" where
  "belongs b e \<longleftrightarrow> valid_node e \<and> keyInRange b (ke_id e)"

definition bucket_ok :: "KBucket \<Rightarrow> bool" where
  "bucket_ok b \<longleftrightarrow> is_key (kb_min_key b) \<and> is_key (kb_max_key b) \<and> is_key (kb_our_id b)
     \<and> length (kb_entries b) \<le> K_nodes \<and> (\<forall>e \<in> kb_all b. belongs b e)"

definition same_range :: "KBucket \<Rightarrow> KBucket \<Rightarrow> bool" where
  "same_range b b' \<longleftrightarrow> kb_min_key b' = kb_min_key b \<and> kb_max_key b' = kb_max_key b \<and> kb_our_id b' = kb_our_id b"

abbreviation keeps :: "KBucket \<Rightarrow> KBucket \<Rightarrow> bool" where
  "keeps b b' \<equiv> bucket_ok b' \<and> same_range b b'"

lemma same_range_refl [simp]: "same_range b b"
  by (simp add: same_range_def)

lemma same_range_trans: "same_range a b \<Longrightarrow> same_range b c \<Longrightarrow> same_range a c"
  by (simp add: same_range_def)

lemma same_range_keys: "same_range b b' \<Longrightarrow> keyInRange b' k = keyInRange b k" "same_range b b' \<Longrightarrow> belongs b' e = belongs b e"
  by (simp_all add: same_range_def keyInRange_def belongs_def)

lemma keyInRange_val:
  "is_key (kb_min_key b) \<Longrightarrow> is_key (kb_max_key b) \<Longrightarrow> is_key k \<Longrightarrow>
    keyInRange b k \<longleftrightarrow> key_val (kb_min_key b) \<le> key_val k \<and> key_val k \<le> key_val (kb_max_key b)"
  by (simp add: keyInRange_def key_less_eq_val)

lemma erase_first_set: "set (erase_first P xs) \<subseteq> set xs"
  by (induction xs) auto

lemma erase_first_length: "\<exists>x \<in> set xs. P x \<Longrightarrow> Suc (length (erase_first P xs)) = length xs"
  by (induction xs) auto

lemma bucket_okI:
  assumes "bucket_ok b" "same_range b b'" "kb_all b' \<subseteq> insert e (kb_all b) \<union> T" "length (kb_entries b') \<le> K_nodes" "belongs b e" "\<And>x. x \<in> T \<Longrightarrow> belongs b x"
  shows "keeps b b'"
proof -
  have "belongs b' x" if "x \<in> kb_all b'" for x
  proof -
    have "x = e \<or> x \<in> kb_all b \<or> x \<in> T" using that assms(3) by auto
    then have "belongs b x" using assms(1,5,6) by (auto simp: bucket_ok_def)
    then show ?thesis using same_range_keys(2)[OF assms(2)] by simp
  qed
  then show ?thesis using assms(1,2,4) by (simp add: bucket_ok_def same_range_def)
qed

lemma erase_append_keeps:
  assumes "bucket_ok b" "belongs b e" "\<exists>x \<in> set (kb_entries b). P x"
  shows "keeps b (b\<lparr>kb_last_modified := t, kb_entries := erase_first P (kb_entries b) @ [e]\<rparr>)"
proof (rule bucket_okI[OF assms(1) _ _ _ assms(2), where T = "{}"])
  show "length (kb_entries (b\<lparr>kb_last_modified := t, kb_entries := erase_first P (kb_entries b) @ [e]\<rparr>)) \<le> K_nodes"
    using erase_first_length[OF assms(3)] assms(1) by (simp add: bucket_ok_def)
qed (use erase_first_set[of P "kb_entries b"] in \<open>auto simp: same_range_def kb_all_def\<close>)

lemma replaceBadEntry_keeps:
  assumes "bucket_ok b" "belongs b e" "replaceBadEntry env e b = (r, b')"
  shows "keeps b b'" "\<not> r \<Longrightarrow> b' = b"
proof -
  show "keeps b b'" using assms(3) erase_append_keeps[OF assms(1,2), of "isBad env"] assms(1)
    by (auto simp: replaceBadEntry_def split: if_splits)
  show "\<not> r \<Longrightarrow> b' = b" using assms(3) by (auto simp: replaceBadEntry_def split: if_splits)
qed

definition node_of :: "KBucketEntry \<Rightarrow> Key \<times> Address" where
  "node_of e = (ke_id e, ke_addr e)"

lemma entry_belongs:
  assumes "bucket_ok b" "y \<in> set (kb_entries b)" "node_of y = node_of x"
  shows "belongs b x"
proof -
  have "belongs b y" using assms(1,2) by (simp add: bucket_ok_def kb_all_def)
  then show ?thesis using assms(3) by (simp add: belongs_def node_of_def)
qed

lemma ping_loop_law:
  "ping_loop env es = Some (es', a) \<Longrightarrow> length es' = length es \<and> map node_of es' = map node_of es"
  by (induction es arbitrary: es') (auto simp: onPingQuestionable_def node_of_def split: if_splits)

lemma pingQuestionable_keeps:
  assumes "bucket_ok b" "belongs b e"
  shows "keeps b (pingQuestionable env e b)"
proof (cases "length (kb_busy b) \<ge> 2")
  case True
  have "keeps b (b\<lparr>kb_pending := kb_pending b @ [e]\<rparr>)"
    by (rule bucket_okI[OF assms(1) _ _ _ assms(2), where T = "{}"]) (use assms(1) in \<open>auto simp: same_range_def kb_all_def bucket_ok_def\<close>)
  then show ?thesis using True by (simp add: pingQuestionable_def)
next
  case False
  show ?thesis
  proof (cases "ping_loop env (kb_entries b)")
    case None
    then show ?thesis using False assms(1) by (simp add: pingQuestionable_def)
  next
    case (Some p)
    then obtain es a where p: "ping_loop env (kb_entries b) = Some (es, a)" by (cases p) auto
    let ?b = "b\<lparr>kb_entries := es, kb_busy := kb_busy b @ [((kb_made b, a), e)], kb_made := Suc (kb_made b)\<rparr>"
    note l = ping_loop_law[OF p]
    have T: "belongs b x" if "x \<in> set es" for x
    proof -
      have "node_of x \<in> set (map node_of (kb_entries b))" using l that by (metis imageI list.set_map)
      then obtain y where "y \<in> set (kb_entries b)" "node_of y = node_of x" by auto
      then show ?thesis using entry_belongs[OF assms(1)] by blast
    qed
    have "keeps b ?b"
      by (rule bucket_okI[OF assms(1) _ _ _ assms(2) T]) (use assms(1) l in \<open>auto simp: same_range_def kb_all_def bucket_ok_def\<close>)
    then show ?thesis using False p by (simp add: pingQuestionable_def)
  qed
qed

lemma kb_insert_keeps:
  assumes "bucket_ok b" "belongs b e" "kb_insert env e b = (s, b')"
  shows "keeps b b'" "s \<Longrightarrow> b' = b \<and> length (kb_entries b) = K_nodes \<and> splitAllowed b"
proof -
  obtain r b1 where r: "replaceBadEntry env e b = (r, b1)" by fastforce
  note R = replaceBadEntry_keeps[OF assms(1,2) r]
  have app: "keeps b (b\<lparr>kb_entries := kb_entries b @ [e], kb_last_modified := t\<rparr>)" if "length (kb_entries b) < K_nodes" for t
    by (rule bucket_okI[OF assms(1) _ _ _ assms(2), where T = "{}"]) (use that in \<open>auto simp: same_range_def kb_all_def\<close>)
  show "keeps b b'"
    using assms(3) r R(1) app pingQuestionable_keeps[OF assms(1,2), of env] assms(1) erase_append_keeps[OF assms(1,2), of "\<lambda>x. ke_eq x e" "de_now env"]
    by (auto simp: kb_insert_def split: if_splits)
  show "s \<Longrightarrow> b' = b \<and> length (kb_entries b) = K_nodes \<and> splitAllowed b"
    using assms(3) r by (auto simp: kb_insert_def split: if_splits)
qed

lemma replace_or_ping_keeps:
  assumes "bucket_ok b" "belongs b e"
  shows "keeps b (replace_or_ping env e b)"
proof -
  obtain r b1 where r: "replaceBadEntry env e b = (r, b1)" by fastforce
  show ?thesis using replaceBadEntry_keeps[OF assms r] pingQuestionable_keeps[OF assms] r by (auto simp: replace_or_ping_def)
qed

lemma bucket_ok_smaller:
  assumes "bucket_ok b" "same_range b b'" "kb_all b' \<subseteq> kb_all b" "length (kb_entries b') \<le> length (kb_entries b)"
  shows "keeps b b'"
  using assms same_range_keys(2)[OF assms(2)] by (auto simp: bucket_ok_def same_range_def)

lemma busy_belongs: "bucket_ok b \<Longrightarrow> map_of (kb_busy b) c = Some e \<Longrightarrow> belongs b e"
  by (force simp: bucket_ok_def kb_all_def dest: map_of_SomeD)

lemma keeps_trans: "keeps a b \<Longrightarrow> keeps b c \<Longrightarrow> keeps a c"
  by (simp add: same_range_def)

lemma kb_onResponse_keeps:
  assumes "bucket_ok b"
  shows "keeps b (kb_onResponse env c b)"
proof -
  let ?b1 = "b\<lparr>kb_last_modified := de_now env\<rparr>"
  have k1: "keeps b ?b1" by (rule bucket_ok_smaller[OF assms]) (auto simp: same_range_def kb_all_def)
  show ?thesis
  proof (cases "map_of (kb_busy b) c")
    case None
    then show ?thesis using k1 by (simp add: kb_onResponse_def)
  next
    case (Some e)
    let ?b2 = "?b1\<lparr>kb_busy := filter (\<lambda>p. fst p \<noteq> c) (kb_busy b)\<rparr>"
    have k2: "keeps b ?b2" by (rule bucket_ok_smaller[OF assms]) (auto simp: same_range_def kb_all_def)
    have "belongs ?b2 e" using busy_belongs[OF assms Some] same_range_keys(2)[of b ?b2] k2 by blast
    from keeps_trans[OF k2 replace_or_ping_keeps[OF _ this]] k2 Some show ?thesis by (simp add: kb_onResponse_def)
  qed
qed

lemma kb_onCallTimeout_keeps:
  assumes "bucket_ok b"
  shows "keeps b (kb_onCallTimeout env c b)"
proof (cases "map_of (kb_busy b) c")
  case None
  then show ?thesis using assms by (simp add: kb_onCallTimeout_def)
next
  case (Some e)
  define b1 where "b1 = (if \<exists>x \<in> set (kb_entries b). ke_addr x = snd c
     then b\<lparr>kb_last_modified := de_now env, kb_entries := erase_first (\<lambda>x. ke_addr x = snd c) (kb_entries b) @ [e]\<rparr> else b)"
  have k1: "keeps b b1"
    using erase_append_keeps[OF assms busy_belongs[OF assms Some], of "\<lambda>x. ke_addr x = snd c" "de_now env"] assms by (auto simp: b1_def)
  define b2 where "b2 = b1\<lparr>kb_busy := filter (\<lambda>p. fst p \<noteq> c) (kb_busy b1)\<rparr>"
  have eq: "kb_onCallTimeout env c b = (if length (kb_busy b2) < 2 \<and> kb_pending b2 \<noteq> []
      then replace_or_ping env (hd (kb_pending b2)) (b2\<lparr>kb_pending := tl (kb_pending b2)\<rparr>) else b2)"
    by (simp only: kb_onCallTimeout_def Some option.case Let_def b1_def b2_def)
  have k2: "keeps b1 b2" by (rule bucket_ok_smaller) (use k1 in \<open>auto simp: b2_def same_range_def kb_all_def\<close>)
  show ?thesis
  proof (cases "length (kb_busy b2) < 2 \<and> kb_pending b2 \<noteq> []")
    case True
    let ?b3 = "b2\<lparr>kb_pending := tl (kb_pending b2)\<rparr>"
    have k3: "keeps b2 ?b3"
      by (rule bucket_ok_smaller) (use k2 in \<open>auto simp: same_range_def kb_all_def dest: list.set_sel(2) intro: list.set_sel\<close>)
    have "hd (kb_pending b2) \<in> kb_all b2" using True by (simp add: kb_all_def)
    then have "belongs b2 (hd (kb_pending b2))" using k2 by (simp add: bucket_ok_def)
    then have "belongs ?b3 (hd (kb_pending b2))" using same_range_keys(2)[of b2 ?b3] k3 by blast
    from replace_or_ping_keeps[OF _ this] k3 have "keeps ?b3 (replace_or_ping env (hd (kb_pending b2)) ?b3)" by blast
    then have "keeps b (replace_or_ping env (hd (kb_pending b2)) ?b3)" using k1 k2 k3 keeps_trans by blast
    then show ?thesis unfolding eq using True by simp
  next
    case False
    show ?thesis unfolding eq if_not_P[OF False] by (rule keeps_trans[OF k1 k2])
  qed
qed

lemma kb_onTimeout_keeps:
  assumes "bucket_ok b" "kb_onTimeout a b = (f, b')"
  shows "keeps b b'"
proof (cases "timeout_loop_kb a (kb_entries b)")
  case None
  then show ?thesis using assms by (simp add: kb_onTimeout_def)
next
  case (Some es)
  have l: "timeout_loop_kb a xs = Some ys \<Longrightarrow> length ys = length xs \<and> map node_of ys = map node_of xs" for xs ys
    by (induction xs arbitrary: ys) (auto simp: requestTimeout_def node_of_def split: if_splits)
  have ids: "\<exists>y \<in> set (kb_entries b). node_of y = node_of x" if "x \<in> set es" for x
  proof -
    have "node_of x \<in> set (map node_of (kb_entries b))" using l[OF Some] that by (metis imageI list.set_map)
    then show ?thesis by auto
  qed
  have "belongs b x" if "x \<in> kb_all (b\<lparr>kb_entries := es\<rparr>)" for x
  proof (cases "x \<in> set es")
    case True
    then show ?thesis using ids entry_belongs[OF assms(1)] by blast
  next
    case False
    then have "x \<in> kb_all b" using that by (auto simp: kb_all_def)
    then show ?thesis using assms(1) by (simp add: bucket_ok_def)
  qed
  moreover have "same_range b (b\<lparr>kb_entries := es\<rparr>)" by (simp add: same_range_def)
  ultimately have "keeps b (b\<lparr>kb_entries := es\<rparr>)"
    using l[OF Some] assms(1) same_range_keys(2)[of b "b\<lparr>kb_entries := es\<rparr>"] by (simp add: bucket_ok_def)
  then show ?thesis using assms(2) Some by (simp add: kb_onTimeout_def)
qed

section \<open>Splitting\<close>

abbreviation lo_val :: "KBucket \<Rightarrow> nat" where
  "lo_val b \<equiv> key_val (kb_min_key b)"

definition hi_val :: "KBucket \<Rightarrow> nat" where
  \<comment> \<open>the first key behind the bucket\<close>
  "hi_val b = Suc (key_val (kb_max_key b))"

definition shaped :: "KBucket \<Rightarrow> nat \<Rightarrow> bool" where
  \<comment> \<open>a well-formed bucket of \<open>2 ^ k\<close> keys\<close>
  "shaped b k \<longleftrightarrow> bucket_ok b \<and> hi_val b = lo_val b + 2 ^ k"

lemma belongs_val: "bucket_ok b \<Longrightarrow> is_key k \<Longrightarrow> keyInRange b k \<longleftrightarrow> lo_val b \<le> key_val k \<and> key_val k < hi_val b"
  by (auto simp: bucket_ok_def keyInRange_val hi_val_def)

lemma same_range_vals: "same_range b b' \<Longrightarrow> lo_val b' = lo_val b \<and> hi_val b' = hi_val b \<and> kb_our_id b' = kb_our_id b"
  by (simp add: same_range_def hi_val_def)

lemma KBucket_range_ok:
  "is_key mn \<Longrightarrow> is_key mx \<Longrightarrow> is_key our \<Longrightarrow> bucket_ok (KBucket_range env mn mx our)"
  by (simp add: bucket_ok_def KBucket_range_def kb_all_def)

lemma split_fold_keeps:
  assumes "keeps l0 l" "keeps r0 r" "\<And>e. e \<in> set es \<Longrightarrow> valid_node e \<and> (keyInRange l0 (ke_id e) \<or> keyInRange r0 (ke_id e))"
  shows "case fold (\<lambda>e (l, r). if keyInRange l (ke_id e) then (snd (kb_insert env e l), r) else (l, snd (kb_insert env e r))) es (l, r) of
    (l', r') \<Rightarrow> keeps l0 l' \<and> keeps r0 r'"
  using assms
proof (induction es arbitrary: l r)
  case (Cons e es)
  have e: "valid_node e" "keyInRange l (ke_id e) \<or> keyInRange r (ke_id e)"
    using Cons.prems same_range_keys(1)[of l0 l] same_range_keys(1)[of r0 r] by auto
  have ins: "keeps x0 (snd (kb_insert env e x))" if "keeps x0 x" "keyInRange x (ke_id e)" for x0 x
  proof -
    have "belongs x e" using that(2) e(1) by (simp add: belongs_def)
    with that(1) have "keeps x (snd (kb_insert env e x))" using kb_insert_keeps(1)[of x e env "fst (kb_insert env e x)" "snd (kb_insert env e x)"] by simp
    then show ?thesis using keeps_trans[OF that(1)] by blast
  qed
  show ?case
  proof (cases "keyInRange l (ke_id e)")
    case True
    then show ?thesis using Cons.IH[OF ins[OF Cons.prems(1) True] Cons.prems(2)] Cons.prems(3) by simp
  next
    case False
    then show ?thesis using Cons.IH[OF Cons.prems(1) ins[OF Cons.prems(2)]] Cons.prems(3) e(2) by simp
  qed
qed simp

lemma kb_split_law:
  assumes "shaped b k"
  shows "if k < 2 then kb_split env b = None
    else \<exists>l r. kb_split env b = Some (l, r) \<and> shaped l (k - 1) \<and> shaped r (k - 1) \<and> lo_val l = lo_val b \<and> hi_val l = lo_val r \<and> hi_val r = hi_val b
      \<and> kb_our_id l = kb_our_id b \<and> kb_our_id r = kb_our_id b"
proof -
  have ok: "bucket_ok b" "hi_val b = lo_val b + 2 ^ k" using assms by (auto simp: shaped_def)
  have keys: "is_key (kb_min_key b)" "is_key (kb_max_key b)" "is_key (kb_our_id b)" using ok(1) by (auto simp: bucket_ok_def)
  have mx: "key_val (kb_max_key b) + 1 = lo_val b + 2 ^ k" using ok(2) by (simp add: hi_val_def)
  have bnd: "key_val (kb_max_key b) < 2 ^ 160" using key_val_bound[OF keys(2)] .
  define m where "m = key_mid (kb_min_key b) (kb_max_key b)"
  have m: "is_key m" "key_val m = (lo_val b + key_val (kb_max_key b)) div 2" using key_mid_law[OF keys(1,2)] by (simp_all add: m_def)
  show ?thesis
  proof (cases "k < 2")
    case True
    then consider "k = 0" | "k = 1" by linarith
    then have "key_val m = lo_val b" using m(2) mx by cases auto
    then have "m = kb_min_key b" using key_val_inj[OF m(1) keys(1)] by simp
    then show ?thesis using True by (simp add: kb_split_def m_def Let_def)
  next
    case False
    then obtain j where k: "k = Suc (Suc j)" by (metis not_less_eq Suc_lessI less_2_cases not0_implies_Suc One_nat_def numeral_2_eq_2)
    define H where "H = (2 :: nat) ^ Suc j"
    have H: "2 ^ k = 2 * H" "2 \<le> H" "H = 2 ^ (k - 1)" by (simp_all add: H_def k)
    have mv: "key_val m + 1 = lo_val b + H" using m(2) mx H(1) by linarith
    let ?m1 = "key_plus_byte m 1"
    have m1: "is_key ?m1" "key_val ?m1 = key_val m + 1"
      using key_plus_byte_law[OF m(1), of 1] mv mx H(1,2) bnd by (simp_all add: add160_def)
    have ne: "m \<noteq> kb_min_key b" "?m1 \<noteq> kb_max_key b" using mv m1(2) mx H(1,2) by auto
    define l0 where "l0 = KBucket_range env (kb_min_key b) m (kb_our_id b)"
    define r0 where "r0 = KBucket_range env ?m1 (kb_max_key b) (kb_our_id b)"
    have o: "keeps l0 l0" "keeps r0 r0" using KBucket_range_ok keys m(1) m1(1) by (simp_all add: l0_def r0_def)
    have vals: "lo_val l0 = lo_val b" "hi_val l0 = lo_val b + H" "lo_val r0 = lo_val b + H" "hi_val r0 = lo_val b + 2 * H"
      using mv m1(2) mx H(1) by (simp_all add: l0_def r0_def KBucket_range_def hi_val_def)
    have side: "valid_node e \<and> (keyInRange l0 (ke_id e) \<or> keyInRange r0 (ke_id e))" if "e \<in> set (kb_entries b)" for e
    proof -
      have "belongs b e" using ok(1) that by (simp add: bucket_ok_def kb_all_def)
      then show ?thesis using belongs_val[OF ok(1), of "ke_id e"] belongs_val[of l0 "ke_id e"] belongs_val[of r0 "ke_id e"] o vals ok(2) H(1)
        by (auto simp: belongs_def)
    qed
    obtain l r where lr: "fold (\<lambda>e (l, r). if keyInRange l (ke_id e) then (snd (kb_insert env e l), r) else (l, snd (kb_insert env e r)))
        (kb_entries b) (l0, r0) = (l, r)" by fastforce
    have "keeps l0 l" "keeps r0 r" using split_fold_keeps[OF o side, of "kb_entries b" env] lr by auto
    moreover have "kb_split env b = Some (l, r)" using ne lr unfolding kb_split_def m_def[symmetric] Let_def l0_def r0_def by simp
    moreover have "kb_our_id l0 = kb_our_id b" "kb_our_id r0 = kb_our_id b" by (simp_all add: l0_def r0_def KBucket_range_def)
    ultimately show ?thesis using False vals H ok(2) same_range_vals[of l0 l] same_range_vals[of r0 r] by (auto simp: shaped_def)
  qed
qed

lemma insert_or_split_law:
  assumes "shaped b k" "belongs b e"
  shows "(\<exists>b'. insert_or_split env e b = [b'] \<and> keeps b b')
    \<or> (\<exists>l r. insert_or_split env e b = [l, r] \<and> 2 \<le> k \<and> keyInRange b (kb_our_id b) \<and> shaped l (k - 1) \<and> shaped r (k - 1)
        \<and> lo_val l = lo_val b \<and> hi_val l = lo_val r \<and> hi_val r = hi_val b \<and> kb_our_id l = kb_our_id b \<and> kb_our_id r = kb_our_id b)"
proof -
  have ok: "bucket_ok b" "hi_val b = lo_val b + 2 ^ k" using assms(1) by (auto simp: shaped_def)
  obtain s b' where i: "kb_insert env e b = (s, b')" by fastforce
  note I = kb_insert_keeps[OF ok(1) assms(2) i]
  show ?thesis
  proof (cases "s \<and> 2 \<le> k")
    case False
    have "insert_or_split env e b = [b']"
    proof (cases s)
      case True
      then have "kb_split env b' = None" using kb_split_law[OF assms(1), of env] I(2) False by simp
      then show ?thesis using i True by (simp add: insert_or_split_def)
    qed (simp add: insert_or_split_def i)
    then show ?thesis using I(1) by blast
  next
    case True
    then have b': "b' = b" "splitAllowed b" using I(2) by auto
    obtain l r where lr: "kb_split env b = Some (l, r)" "shaped l (k - 1)" "shaped r (k - 1)" "lo_val l = lo_val b" "hi_val l = lo_val r"
        "hi_val r = hi_val b" "kb_our_id l = kb_our_id b" "kb_our_id r = kb_our_id b"
      using kb_split_law[OF assms(1), of env] True by auto
    have ins: "shaped (snd (kb_insert env e x)) (k - 1) \<and> lo_val (snd (kb_insert env e x)) = lo_val x \<and> hi_val (snd (kb_insert env e x)) = hi_val x
        \<and> kb_our_id (snd (kb_insert env e x)) = kb_our_id x" if "shaped x (k - 1)" "belongs x e" for x
    proof -
      have "keeps x (snd (kb_insert env e x))" using kb_insert_keeps(1)[of x e env "fst (kb_insert env e x)" "snd (kb_insert env e x)"] that by (simp add: shaped_def)
      then show ?thesis using same_range_vals[of x "snd (kb_insert env e x)"] that(1) by (simp add: shaped_def)
    qed
    have home: "keyInRange b (kb_our_id b)" using b'(2) by (auto simp: splitAllowed_def split: if_splits)
    have lo: "bucket_ok l" "bucket_ok r" using lr(2,3) by (auto simp: shaped_def)
    have ek: "is_key (ke_id e)" "keyInRange b (ke_id e)" "is_address (ke_addr e)" using assms(2) by (simp_all add: belongs_def)
    have v: "lo_val b \<le> key_val (ke_id e)" "key_val (ke_id e) < hi_val b" using ek(2) belongs_val[OF ok(1) ek(1)] by simp_all
    have side: "belongs l e \<or> belongs r e" "belongs l e \<longleftrightarrow> keyInRange l (ke_id e)"
    proof -
      show "belongs l e \<longleftrightarrow> keyInRange l (ke_id e)" using ek(1,3) by (simp add: belongs_def)
      have "lo_val l \<le> key_val (ke_id e) \<and> key_val (ke_id e) < hi_val l \<or> lo_val r \<le> key_val (ke_id e) \<and> key_val (ke_id e) < hi_val r"
        using v lr(4-6) by linarith
      then show "belongs l e \<or> belongs r e" using belongs_val[OF lo(1) ek(1)] belongs_val[OF lo(2) ek(1)] ek(1,3) by (simp add: belongs_def)
    qed
    show ?thesis
    proof (cases "keyInRange l (ke_id e)")
      case inl: True
      have "insert_or_split env e b = [snd (kb_insert env e l), r]" using True i b'(1) lr(1) inl by (simp add: insert_or_split_def)
      then show ?thesis using ins[OF lr(2)] side inl lr(3-8) home True
        by (intro disjI2 exI[of _ "snd (kb_insert env e l)"] exI[of _ r]) simp
    next
      case inr: False
      have "insert_or_split env e b = [l, snd (kb_insert env e r)]" using True i b'(1) lr(1) inr by (simp add: insert_or_split_def)
      then show ?thesis using ins[OF lr(3)] side inr lr(2-8) home True
        by (intro disjI2 exI[of _ l] exI[of _ "snd (kb_insert env e r)"]) simp
    qed
  qed
qed

section \<open>The partition\<close>

text \<open>\<open>covers our lo hi bs\<close>: the buckets follow each other without gap or overlap from key \<open>lo\<close> up to, but without, key \<open>hi\<close>.\<close>

fun covers :: "Key \<Rightarrow> nat \<Rightarrow> nat \<Rightarrow> KBucket list \<Rightarrow> bool" where
  "covers our lo hi [] \<longleftrightarrow> lo = hi"
| "covers our lo hi (b # bs) \<longleftrightarrow> lo_val b = lo \<and> kb_our_id b = our \<and> (\<exists>k. shaped b k) \<and> covers our (hi_val b) hi bs"

lemma covers_append: "covers our lo hi (xs @ ys) \<longleftrightarrow> (\<exists>m. covers our lo m xs \<and> covers our m hi ys)"
  by (induction xs arbitrary: lo) auto

lemma shaped_pos: "shaped b k \<Longrightarrow> lo_val b < hi_val b"
  by (simp add: shaped_def)

lemma covers_le: "covers our lo hi bs \<Longrightarrow> lo \<le> hi"
proof (induction bs arbitrary: lo)
  case (Cons b bs)
  then have "hi_val b \<le> hi" "lo < hi_val b" using shaped_pos by auto
  then show ?case by simp
qed simp

lemma covers_inside:
  assumes "covers our lo hi bs" "b \<in> set bs"
  shows "lo \<le> lo_val b" "hi_val b \<le> hi" "\<exists>k. shaped b k" "kb_our_id b = our"
proof -
  obtain xs ys where bs: "bs = xs @ b # ys" using split_list[OF assms(2)] by blast
  then obtain m where m: "covers our lo m xs" "covers our m hi (b # ys)" using assms(1) covers_append by blast
  then show "lo \<le> lo_val b" "hi_val b \<le> hi" "\<exists>k. shaped b k" "kb_our_id b = our"
    using covers_le[OF m(1)] covers_le[of our "hi_val b" hi ys] by auto
qed

lemma covers_unique:
  assumes "covers our lo hi (xs @ b # ys)" "is_key k" "keyInRange b k" "b' \<in> set xs \<union> set ys"
  shows "\<not> keyInRange b' k"
proof -
  obtain m where m: "covers our lo m xs" "lo_val b = m" "covers our (hi_val b) hi ys" "bucket_ok b"
    using assms(1) covers_append[of our lo hi xs "b # ys"] by (auto simp: shaped_def)
  have v: "lo_val b \<le> key_val k" "key_val k < hi_val b" using belongs_val[OF m(4) assms(2)] assms(3) by auto
  show ?thesis
  proof (cases "b' \<in> set xs")
    case True
    have "bucket_ok b'" "hi_val b' \<le> m" using covers_inside[OF m(1) True] by (auto simp: shaped_def)
    then show ?thesis using belongs_val[of b' k] assms(2) v m(2) by auto
  next
    case False
    then have "b' \<in> set ys" using assms(4) by simp
    then have "bucket_ok b'" "hi_val b \<le> lo_val b'" using covers_inside[OF m(3)] by (auto simp: shaped_def)
    then show ?thesis using belongs_val[of b' k] assms(2) v by auto
  qed
qed

lemma covers_exists:
  assumes "covers our lo hi bs" "is_key k" "lo \<le> key_val k" "key_val k < hi"
  shows "\<exists>b \<in> set bs. keyInRange b k"
  using assms
proof (induction bs arbitrary: lo)
  case (Cons b bs)
  have ok: "bucket_ok b" using Cons.prems(1) by (auto simp: shaped_def)
  show ?case
  proof (cases "key_val k < hi_val b")
    case True
    then show ?thesis using belongs_val[OF ok Cons.prems(2)] Cons.prems by simp
  next
    case False
    then show ?thesis using Cons.IH[of "hi_val b"] Cons.prems by auto
  qed
qed simp

lemma shaped_keeps: "shaped b k \<Longrightarrow> keeps b b' \<Longrightarrow> shaped b' k \<and> lo_val b' = lo_val b \<and> hi_val b' = hi_val b \<and> kb_our_id b' = kb_our_id b"
  using same_range_vals[of b b'] by (simp add: shaped_def)

text \<open>The number of buckets is tied to the size of the one with our own key.\<close>

definition home :: "Key \<Rightarrow> KBucket list \<Rightarrow> bool" where
  "home our bs \<longleftrightarrow> (\<exists>d \<le> 159. length bs = Suc d \<and> (\<forall>b \<in> set bs. keyInRange b our \<longrightarrow> shaped b (160 - d)))"

lemma insert_buckets_at:
  assumes "\<exists>b \<in> set bs. keyInRange b (ke_id e)"
  shows "\<exists>xs b ys. bs = xs @ b # ys \<and> keyInRange b (ke_id e) \<and> insert_buckets env e bs = xs @ insert_or_split env e b @ ys"
  using assms
proof (induction bs)
  case (Cons b bs)
  show ?case
  proof (cases "keyInRange b (ke_id e)")
    case True
    then show ?thesis by (intro exI[of _ "[]"] exI[of _ b] exI[of _ bs]) simp
  next
    case False
    then obtain xs c ys where "bs = xs @ c # ys" "keyInRange c (ke_id e)" "insert_buckets env e bs = xs @ insert_or_split env e c @ ys"
      using Cons by auto
    then show ?thesis using False by (intro exI[of _ "b # xs"] exI[of _ c] exI[of _ ys]) simp
  qed
qed simp

lemma replace_one:
  assumes c: "covers our lo hi (xs @ b # ys)" "home our (xs @ b # ys)" and k: "keeps b b'"
  shows "covers our lo hi (xs @ b' # ys)" "home our (xs @ b' # ys)"
proof -
  obtain n where n: "shaped b n" using covers_inside(3)[OF c(1), of b] by auto
  note S = shaped_keeps[OF n k]
  show "covers our lo hi (xs @ b' # ys)" using c(1) S by (auto simp: covers_append)
  obtain d where d: "d \<le> 159" "length (xs @ b # ys) = Suc d" "\<forall>x \<in> set (xs @ b # ys). keyInRange x our \<longrightarrow> shaped x (160 - d)"
    using c(2) by (auto simp: home_def)
  have "shaped b' (160 - d)" if "keyInRange b' our"
  proof -
    have "shaped b (160 - d)" using that d(3) same_range_keys(1)[of b b'] k by auto
    then show ?thesis using shaped_keeps[OF _ k] by blast
  qed
  then show "home our (xs @ b' # ys)" using d unfolding home_def by (intro exI[of _ d]) auto
qed

lemma split_one:
  assumes c: "covers our lo hi (xs @ b # ys)" "home our (xs @ b # ys)" and our: "is_key our" "keyInRange b our"
    and n: "shaped b n" "2 \<le> n" "shaped l (n - 1)" "shaped r (n - 1)"
    and lr: "lo_val l = lo_val b" "hi_val l = lo_val r" "hi_val r = hi_val b" "kb_our_id l = our" "kb_our_id r = our"
  shows "covers our lo hi (xs @ l # r # ys)" "home our (xs @ l # r # ys)"
proof -
  show "covers our lo hi (xs @ l # r # ys)" using c(1) n(3,4) lr by (auto simp: covers_append)
  obtain d where d: "d \<le> 159" "length (xs @ b # ys) = Suc d" "shaped b (160 - d)"
    using c(2) our(2) by (auto simp: home_def)
  have "(2 :: nat) ^ n = 2 ^ (160 - d)" using n(1) d(3) by (simp add: shaped_def)
  then have e: "n = 160 - d" by simp
  have "\<not> keyInRange x our" if "x \<in> set xs \<union> set ys" for x using covers_unique[OF c(1) our that] .
  then have "\<forall>x \<in> set (xs @ l # r # ys). keyInRange x our \<longrightarrow> shaped x (160 - Suc d)" using n(3,4) e by auto
  then show "home our (xs @ l # r # ys)" using d(2) e n(2) unfolding home_def by (intro exI[of _ "Suc d"]) auto
qed

lemma insert_buckets_ok:
  assumes c: "covers our 0 (2 ^ 160) bs" "home our bs" and our: "is_key our" and e: "valid_node e"
  shows "covers our 0 (2 ^ 160) (insert_buckets env e bs)" "home our (insert_buckets env e bs)"
proof -
  have "\<exists>b \<in> set bs. keyInRange b (ke_id e)" using covers_exists[OF c(1) conjunct1[OF e]] key_val_bound[OF conjunct1[OF e]] by simp
  from insert_buckets_at[OF this] obtain xs b ys where s: "bs = xs @ b # ys" "keyInRange b (ke_id e)"
      "insert_buckets env e bs = xs @ insert_or_split env e b @ ys" by blast
  obtain n where n: "shaped b n" "kb_our_id b = our" using covers_inside(3,4)[OF c(1), of b] s(1) by auto
  have bel: "belongs b e" using s(2) e by (simp add: belongs_def)
  from insert_or_split_law[OF n(1) bel, of env] show "covers our 0 (2 ^ 160) (insert_buckets env e bs)"
    using replace_one(1)[OF c[unfolded s(1)]] split_one(1)[OF c[unfolded s(1)] our _ n(1)] s(3) n(2) by auto
  from insert_or_split_law[OF n(1) bel, of env] show "home our (insert_buckets env e bs)"
    using replace_one(2)[OF c[unfolded s(1)]] split_one(2)[OF c[unfolded s(1)] our _ n(1)] s(3) n(2) by auto
qed


section \<open>All histories\<close>

lemma timeout_buckets_ok:
  assumes "covers our lo hi bs"
  shows "covers our lo hi (timeout_buckets a bs) \<and> list_all2 keeps bs (timeout_buckets a bs)"
  using assms
proof (induction bs arbitrary: lo)
  case (Cons b bs)
  obtain f b' where f: "kb_onTimeout a b = (f, b')" by fastforce
  obtain k where k: "shaped b k" using Cons.prems by auto
  have kb: "keeps b b'" using kb_onTimeout_keeps[OF _ f] k by (simp add: shaped_def)
  have self: "list_all2 keeps bs bs" if "covers our l hi bs" for l
    using that by (induction bs arbitrary: l) (auto simp: shaped_def)
  show ?case using Cons shaped_keeps[OF k kb] kb k f self by (auto simp: Let_def)
qed simp

lemma keeps_home:
  assumes "list_all2 keeps bs bs'" "home our bs"
  shows "home our bs'"
proof -
  obtain d where d: "d \<le> 159" "length bs = Suc d" "\<forall>b \<in> set bs. keyInRange b our \<longrightarrow> shaped b (160 - d)" using assms(2) by (auto simp: home_def)
  have "shaped b' (160 - d)" if b': "b' \<in> set bs'" "keyInRange b' our" for b'
  proof -
    obtain i where i: "i < length bs'" "bs' ! i = b'" using b'(1) by (metis in_set_conv_nth)
    have k: "keeps (bs ! i) b'" "bs ! i \<in> set bs" using list_all2_nthD2[OF assms(1) i(1)] i list_all2_lengthD[OF assms(1)] by auto
    then have "shaped (bs ! i) (160 - d)" using d(3) b'(2) same_range_keys(1)[of "bs ! i" b'] by auto
    then show ?thesis using shaped_keeps[OF _ k(1)] by blast
  qed
  then show ?thesis using d list_all2_lengthD[OF assms(1)] unfolding home_def by (intro exI[of _ d]) auto
qed

lemma keeps_covers: "list_all2 keeps bs bs' \<Longrightarrow> covers our lo hi bs \<Longrightarrow> covers our lo hi bs'"
proof (induction bs bs' arbitrary: lo rule: list_all2_induct)
  case (Cons b bs b' bs')
  obtain k where k: "shaped b k" using Cons.prems by auto
  show ?case using Cons shaped_keeps[OF k] k by auto
qed simp

lemma refresh_keeps:
  assumes "bucket_ok b"
  shows "keeps b (let (needed, b') = needsToBeRefreshed env b in if needed \<and> started (key_mid (kb_min_key b') (kb_max_key b')) then setRefreshTask True b' else b')"
  by (rule bucket_ok_smaller[OF assms])
    (auto simp: needsToBeRefreshed_def setRefreshTask_def same_range_def kb_all_def split: prod.splits if_splits)

text \<open>
  \<open>kt_run our t\<close>: the tables that a node with the key \<open>our\<close> reaches by inserting entries, failed requests, answers and timeouts
  of the pings its buckets sent, and refreshes, in any order.
\<close>

inductive kt_run :: "Key \<Rightarrow> KBucketTable \<Rightarrow> bool" for our :: Key where
  kt_start: "kt_run our (KBucketTable_new our)"
| kt_insert: "\<lbrakk>kt_run our t; valid_node e\<rbrakk> \<Longrightarrow> kt_run our (kt_insert env e t)"
| kt_timeout: "kt_run our t \<Longrightarrow> kt_run our (kt_onTimeout a t)"
| kt_response: "\<lbrakk>kt_run our t; i < length (kt_buckets t)\<rbrakk> \<Longrightarrow> kt_run our (t\<lparr>kt_buckets := (kt_buckets t)[i := kb_onResponse env c (kt_buckets t ! i)]\<rparr>)"
| kt_call_timeout: "\<lbrakk>kt_run our t; i < length (kt_buckets t)\<rbrakk> \<Longrightarrow> kt_run our (t\<lparr>kt_buckets := (kt_buckets t)[i := kb_onCallTimeout env c (kt_buckets t ! i)]\<rparr>)"
| kt_refresh: "kt_run our t \<Longrightarrow> kt_run our (refreshBuckets env started t)"

definition table_ok :: "Key \<Rightarrow> KBucketTable \<Rightarrow> bool" where
  "table_ok our t \<longleftrightarrow> kt_our_id t = our \<and> (kt_buckets t = [] \<or> covers our 0 (2 ^ 160) (kt_buckets t) \<and> home our (kt_buckets t))"

lemma keeps_table:
  assumes "table_ok our t" "kt_our_id t' = kt_our_id t" "list_all2 keeps (kt_buckets t) (kt_buckets t')"
  shows "table_ok our t'"
  using assms keeps_covers[OF assms(3)] keeps_home[OF assms(3)] by (auto simp: table_ok_def)

lemma table_buckets_ok: "table_ok our t \<Longrightarrow> b \<in> set (kt_buckets t) \<Longrightarrow> bucket_ok b"
  using covers_inside(3) by (fastforce simp: table_ok_def shaped_def)

lemma update_keeps:
  assumes "table_ok our t" "i < length (kt_buckets t)" "keeps (kt_buckets t ! i) b'"
  shows "table_ok our (t\<lparr>kt_buckets := (kt_buckets t)[i := b']\<rparr>)"
  by (rule keeps_table[OF assms(1)]) (use assms(2,3) table_buckets_ok[OF assms(1)] in \<open>auto simp: list_all2_conv_all_nth nth_list_update\<close>)

lemma first_bucket:
  assumes "is_key our"
  shows "covers our 0 (2 ^ 160) [KBucket_new env our]" "home our [KBucket_new env our]"
proof -
  have s: "shaped (KBucket_new env our) 160"
    using KBucket_range_ok[of key_min key_max our env] key_bounds assms by (simp add: shaped_def KBucket_new_def hi_val_def KBucket_range_def)
  then show "covers our 0 (2 ^ 160) [KBucket_new env our]"
    using key_bounds by (auto simp: KBucket_new_def KBucket_range_def hi_val_def)
  show "home our [KBucket_new env our]" using s unfolding home_def by (intro exI[of _ 0]) simp
qed

lemma kt_run_ok:
  assumes "kt_run our t" "is_key our"
  shows "table_ok our t"
  using assms(1)
proof (induction rule: kt_run.induct)
  case kt_start
  then show ?case by (simp add: table_ok_def KBucketTable_new_def)
next
  case (kt_insert t e env)
  define bs where "bs = (if kt_buckets t = [] then [KBucket_new env (kt_our_id t)] else kt_buckets t)"
  have our: "kt_our_id t = our" using kt_insert(3) by (simp add: table_ok_def)
  have bs: "covers our 0 (2 ^ 160) bs" "home our bs"
    using kt_insert(3) first_bucket[OF assms(2), of env] unfolding bs_def our table_ok_def by metis+
  have "kt_insert env e t = t\<lparr>kt_buckets := insert_buckets env e bs\<rparr>" by (simp only: kt_insert_def Let_def bs_def)
  then show ?case using insert_buckets_ok[OF bs assms(2) kt_insert(2), of env] our unfolding table_ok_def by simp
next
  case (kt_timeout t a)
  have "list_all2 keeps (kt_buckets t) (timeout_buckets a (kt_buckets t))"
  proof (cases "kt_buckets t = []")
    case False
    then show ?thesis using timeout_buckets_ok kt_timeout(2) unfolding table_ok_def by blast
  qed simp
  then show ?case by (intro keeps_table[OF kt_timeout(2)]) (simp_all add: kt_onTimeout_def)
next
  case (kt_response t i env c)
  then show ?case using update_keeps kb_onResponse_keeps table_buckets_ok by (metis nth_mem)
next
  case (kt_call_timeout t i env c)
  then show ?case using update_keeps kb_onCallTimeout_keeps table_buckets_ok by (metis nth_mem)
next
  case (kt_refresh t env started)
  show ?case
    by (rule keeps_table[OF kt_refresh(2)])
      (use refresh_keeps table_buckets_ok[OF kt_refresh(2)] in \<open>auto simp: refreshBuckets_def list_all2_map2 intro!: list.rel_refl_strong\<close>)
qed


lemma sum_list_bound: "(\<And>x. x \<in> set xs \<Longrightarrow> f x \<le> (c :: nat)) \<Longrightarrow> sum_list (map f xs) \<le> c * length xs"
  by (induction xs) fastforce+

text \<open>
  C3. The routing table: whatever nodes are heard of and however the pings of its buckets end, as soon as the table is not empty every
  key lies in the range of exactly one of its buckets, so \<open>findBucket\<close> never fails and an entry is only ever
  looked for where it is; every entry of a bucket, also one that waits for a place, has its key in the range of the bucket; a bucket has at most 20
  entries; and however many nodes are offered, the table has at most 160 buckets and 3200 entries.
\<close>

theorem KBucketTable_partition:
  assumes "kt_run our t" "is_key our" "is_key k" "kt_buckets t \<noteq> []"
  shows "(\<exists>xs b ys. kt_buckets t = xs @ b # ys \<and> keyInRange b k \<and> (\<forall>b' \<in> set xs \<union> set ys. \<not> keyInRange b' k)) \<and>
    (\<forall>b \<in> set (kt_buckets t). length (kb_entries b) \<le> 20 \<and> (\<forall>e \<in> kb_all b. keyInRange b (ke_id e))) \<and>
    length (kt_buckets t) \<le> 160 \<and> kt_numEntries t \<le> 3200"
proof -
  have ok: "table_ok our t" using kt_run_ok[OF assms(1,2)] .
  then have c: "covers our 0 (2 ^ 160) (kt_buckets t)" "home our (kt_buckets t)" using assms(4) by (auto simp: table_ok_def)
  obtain b where b: "b \<in> set (kt_buckets t)" "keyInRange b k" using covers_exists[OF c(1) assms(3)] key_val_bound[OF assms(3)] by auto
  obtain xs ys where s: "kt_buckets t = xs @ b # ys" using split_list[OF b(1)] by blast
  have p: "\<exists>xs b ys. kt_buckets t = xs @ b # ys \<and> keyInRange b k \<and> (\<forall>b' \<in> set xs \<union> set ys. \<not> keyInRange b' k)"
    using covers_unique[OF c(1)[unfolded s] assms(3) b(2)] s b(2) by blast
  have B: "length (kb_entries b) \<le> 20 \<and> (\<forall>e \<in> kb_all b. keyInRange b (ke_id e))" if "b \<in> set (kt_buckets t)" for b
    using table_buckets_ok[OF ok that] by (simp add: bucket_ok_def belongs_def K_nodes_def)
  then have h: "\<forall>b \<in> set (kt_buckets t). length (kb_entries b) \<le> 20 \<and> (\<forall>e \<in> kb_all b. keyInRange b (ke_id e))" by blast
  have n: "length (kt_buckets t) \<le> 160" using c(2) by (auto simp: home_def)
  have "kt_numEntries t \<le> 20 * length (kt_buckets t)" unfolding kt_numEntries_def by (rule sum_list_bound) (use B in blast)
  then have "kt_numEntries t \<le> 3200" using n by simp
  then show ?thesis using p h n by (intro conjI)
qed

theorem KBucketTable_partition_witness:
  "length (kt_buckets (kt_insert \<lparr>de_now = 0, de_doCall = (\<lambda>_. True)\<rparr>
     (KBucketEntry_new \<lparr>de_now = 0, de_doCall = (\<lambda>_. True)\<rparr> (V4 1 2) (replicate 20 7)) (KBucketTable_new key_max))) \<le> 160"
proof -
  let ?env = "\<lparr>de_now = 0, de_doCall = (\<lambda>_. True)\<rparr>"
  let ?e = "KBucketEntry_new ?env (V4 1 2) (replicate 20 7)"
  have e: "valid_node ?e" by (simp add: KBucketEntry_new_def)
  let ?t = "kt_insert ?env ?e (KBucketTable_new key_max)"
  have run: "kt_run key_max ?t" by (rule kt_run.kt_insert[OF kt_start e])
  have "covers key_max 0 (2 ^ 160) [KBucket_new ?env key_max]" using first_bucket(1) key_bounds(2) by blast
  moreover have "home key_max [KBucket_new ?env key_max]" using first_bucket(2) key_bounds(2) by blast
  ultimately have "home key_max (insert_buckets ?env ?e [KBucket_new ?env key_max])" using insert_buckets_ok(2) key_bounds(2) e by blast
  then have "kt_buckets ?t \<noteq> []" by (auto simp: home_def kt_insert_def KBucketTable_new_def)
  then show ?thesis using KBucketTable_partition[OF run key_bounds(2) key_bounds(2)] by blast
qed

end
