(* ===== verification/Dht_Search.thy ===== *)
theory Dht_Search
  imports Dht_Bucket
begin

text \<open>
  The search for the nodes closest to a key (\<open>src/dht/kclosestnodessearch.cpp\<close> and \<open>findKClosestNodes\<close> of buckets and
  table) and the compact form of nodes in messages (\<open>src/dht/pack.cpp\<close>, \<open>src/dht/packednodecontainer.cpp\<close>).

  A \<open>std::map\<close> or \<open>std::set\<close> whose order is the order of keys is a list in that order; inserting leaves an element
  with the same key alone. Shown is that a search over nodes with different identities returns what sorting all of them by
  distance and taking the first \<open>max_entries\<close> returns, and that the packed nodes of a response unpack to what was packed.
\<close>

section \<open>Ordered containers\<close>

fun ord_insert :: "('a \<Rightarrow> Key) \<Rightarrow> 'a \<Rightarrow> 'a list \<Rightarrow> 'a list" where
  "ord_insert k x [] = [x]"
| "ord_insert k x (y # ys) =
     (if key_less (k x) (k y) then x # y # ys
      else if key_less (k y) (k x) then y # ord_insert k x ys
      else y # ys)"

definition ord_contains :: "('a \<Rightarrow> Key) \<Rightarrow> Key \<Rightarrow> 'a list \<Rightarrow> bool" where
  "ord_contains k d xs \<longleftrightarrow> (\<exists>x \<in> set xs. k x = d)"

section \<open>The search\<close>

record KClosestNodesSearch =
  ks_key :: Key
  ks_emap :: "(Key \<times> KBucketEntry) list"
  ks_max_entries :: nat

definition KClosestNodesSearch_new :: "Key \<Rightarrow> nat \<Rightarrow> KClosestNodesSearch" where
  "KClosestNodesSearch_new key max_entries = \<lparr>ks_key = key, ks_emap = [], ks_max_entries = max_entries\<rparr>"

definition getNumEntries :: "KClosestNodesSearch \<Rightarrow> nat" where
  "getNumEntries s = length (ks_emap s)"

definition tryInsert :: "KBucketEntry \<Rightarrow> KClosestNodesSearch \<Rightarrow> KClosestNodesSearch option" where
  \<comment> \<open>\<open>None\<close>: \<open>rbegin\<close> of an empty map is read\<close>
  "tryInsert e s =
     (let d = key_distance (ks_key s) (ke_id e) in
      if length (ks_emap s) < ks_max_entries s
      then Some (s\<lparr>ks_emap := ord_insert fst (d, e) (ks_emap s)\<rparr>)
      else if ks_emap s = [] then None
      else let mx = fst (List.last (ks_emap s)) in
        if key_less d mx
        then Some (s\<lparr>ks_emap := filter (\<lambda>x. fst x \<noteq> mx) (ord_insert fst (d, e) (ks_emap s))\<rparr>)
        else Some s)"

fun search_entries :: "KBucketEntry list \<Rightarrow> KClosestNodesSearch \<Rightarrow> KClosestNodesSearch option" where
  "search_entries [] s = Some s"
| "search_entries (e # es) s = Option.bind (tryInsert e s) (search_entries es)"

definition kb_findKClosestNodes :: "KBucket \<Rightarrow> KClosestNodesSearch \<Rightarrow> KClosestNodesSearch option" where
  "kb_findKClosestNodes b = search_entries (kb_entries b)"

fun search_buckets :: "KBucket list \<Rightarrow> KClosestNodesSearch \<Rightarrow> KClosestNodesSearch option" where
  "search_buckets [] s = Some s"
| "search_buckets (b # bs) s = Option.bind (kb_findKClosestNodes b s) (search_buckets bs)"

definition kt_findKClosestNodes :: "KBucketTable \<Rightarrow> KClosestNodesSearch \<Rightarrow> KClosestNodesSearch option" where
  "kt_findKClosestNodes t = search_buckets (kt_buckets t)"

section \<open>Packed nodes\<close>

datatype PackError = Not_enough_room | Bad_memory

definition mem_ok :: "'a option \<Rightarrow> PackError + 'a" where
  "mem_ok v = (case v of None \<Rightarrow> Inl Bad_memory | Some x \<Rightarrow> Inr x)"

definition PackBucketEntry :: "KBucketEntry \<Rightarrow> bytes \<Rightarrow> nat \<Rightarrow> PackError + bytes" where
  "PackBucketEntry e ba off =
     (case ke_addr e of
        V4 ip port \<Rightarrow>
          if int32 off + 26 > int (length ba) then Inl Not_enough_room
          else mem_ok (Option.bind (memcpy_at ba off (ke_id e)) (\<lambda>ba1.
            Option.bind (WriteUint32 ba1 (off + 20) ip) (\<lambda>ba2. WriteUint16 ba2 (off + 24) port)))
      | V6 ip port \<Rightarrow>
          if int32 off + 38 > int (length ba) then Inl Not_enough_room
          else mem_ok (Option.bind (memcpy_at ba off (ke_id e)) (\<lambda>ba1.
            Option.bind (memcpy_at ba1 (off + 20) ip) (\<lambda>ba2. WriteUint16 ba2 (off + 36) port))))"

definition UnpackBucketEntry :: "DhtEnv \<Rightarrow> bytes \<Rightarrow> nat \<Rightarrow> nat \<Rightarrow> PackError + KBucketEntry" where
  "UnpackBucketEntry env ba off ip_version =
     (if ip_version = 4 then
        if int32 off + 26 > int (length ba) then Inl Not_enough_room
        else mem_ok (Option.bind (ReadUint16 ba (off + 24)) (\<lambda>port. Option.bind (ReadUint32 ba (off + 20)) (\<lambda>ip.
          Option.bind (mem_read ba off 20) (\<lambda>key. Some (KBucketEntry_new env (V4 ip port) key)))))
      else
        if int32 off + 38 > int (length ba) then Inl Not_enough_room
        else mem_ok (Option.bind (ReadUint16 ba (off + 36)) (\<lambda>port. Option.bind (mem_read ba off 20) (\<lambda>key.
          Option.bind (mem_read ba (off + 20) 16) (\<lambda>ip. Some (KBucketEntry_new env (V6 ip port) key))))))"

record PackedNodeContainer =
  pn_nodes :: bytes
  pn_nodes6 :: bytes

definition PackedNodeContainer_new :: PackedNodeContainer where
  "PackedNodeContainer_new = \<lparr>pn_nodes = [], pn_nodes6 = []\<rparr>"

definition addNode :: "bytes \<Rightarrow> PackedNodeContainer \<Rightarrow> PackedNodeContainer" where
  "addNode a c = (if length a = 26 then c\<lparr>pn_nodes := pn_nodes c @ a\<rparr> else c\<lparr>pn_nodes6 := pn_nodes6 c @ a\<rparr>)"

fun pack_loop :: "KBucketEntry list \<Rightarrow> PackedNodeContainer \<Rightarrow> PackError + PackedNodeContainer" where
  "pack_loop [] c = Inr c"
| "pack_loop (e # es) c =
     (case PackBucketEntry e (replicate (if ipVersion (ke_addr e) = 4 then 26 else 38) 0) 0 of
        Inl err \<Rightarrow> Inl err
      | Inr d \<Rightarrow> pack_loop es (addNode d c))"

definition ks_pack :: "KClosestNodesSearch \<Rightarrow> PackedNodeContainer \<Rightarrow> PackError + PackedNodeContainer" where
  "ks_pack s c = pack_loop (map snd (ks_emap s)) c"

section \<open>What inserting does\<close>

lemma ord_insert_insort:
  assumes "is_key (k x)" "\<forall>y \<in> set ys. is_key (k y)" "\<not> ord_contains k (k x) ys"
  shows "ord_insert k x ys = insort_key (\<lambda>y. key_val (k y)) x ys"
  using assms(2,3)
proof (induction ys)
  case (Cons y ys)
  have "key_val (k x) \<noteq> key_val (k y)" "key_less (k x) (k y) \<longleftrightarrow> key_val (k x) < key_val (k y)"
      "key_less (k y) (k x) \<longleftrightarrow> key_val (k y) < key_val (k x)"
    using Cons.prems assms(1) less_val[of "k x" "k y"] less_val[of "k y" "k x"] key_val_inj[of "k x" "k y"]
    by (auto simp: ord_contains_def)
  then show ?case using Cons by (auto simp: ord_contains_def)
qed simp

lemma ord_insert_length:
  assumes "is_key (k x)" "\<forall>y \<in> set ys. is_key (k y)" "\<not> ord_contains k (k x) ys"
  shows "length (ord_insert k x ys) = Suc (length ys)" "set (ord_insert k x ys) = insert x (set ys)"
  unfolding ord_insert_insort[OF assms] by (simp_all add: set_insort_key)

lemma ord_insert_subset: "set (ord_insert k x ys) \<subseteq> insert x (set ys)"
  by (induction ys) auto

section \<open>The search against sorting\<close>

definition dist_to :: "Key \<Rightarrow> KBucketEntry \<Rightarrow> nat" where
  "dist_to key e = key_val (key_distance key (ke_id e))"

definition closest :: "nat \<Rightarrow> Key \<Rightarrow> KBucketEntry list \<Rightarrow> KBucketEntry list" where
  "closest n key es = take n (sort_key (dist_to key) es)"

lemma insort_map: "insort_key g (D x) (map D ys) = map D (insort_key (\<lambda>y. g (D y)) x ys)"
  by (induction ys) auto

lemma take_insort: "take n (insort_key f x ys) = take n (insort_key f x (take n ys))"
proof (induction ys arbitrary: n)
  case (Cons y ys)
  then show ?case by (cases n) (auto simp: take_Cons' min_def)
qed simp

lemma insort_last:
  assumes "f x < f z"
  shows "insort_key f x (ys @ [z]) = insort_key f x ys @ [z]"
  using assms by (induction ys) auto

lemma insort_greater: "\<forall>y \<in> set ys. f y < f x \<Longrightarrow> insort_key f x ys = ys @ [x]"
  by (induction ys) auto

lemma sort_snoc:
  assumes "distinct (map f (xs @ [x]))"
  shows "sort_key f (xs @ [x]) = insort_key f x (sort_key f xs)"
proof -
  have i: "inj_on f (insert x (set xs))" "distinct xs" "x \<notin> set xs" using assms by (auto simp: distinct_map)
  have "inj_on f (set (sort_key f (xs @ [x])) \<union> set (insort_key f x (sort_key f xs)))"
    using i(1) by (simp only: set_sort set_insort_key set_append Un_insert_right) simp
  moreover have "distinct (map f (sort_key f (xs @ [x])))"
    using i by (simp add: distinct_map)
  moreover have "distinct (map f (insort_key f x (sort_key f xs)))"
    using i by (simp add: distinct_map set_insort_key distinct_insort)
  moreover have "sorted (map f (insort_key f x (sort_key f xs)))" by (simp add: sorted_insort_key)
  ultimately show ?thesis by (intro map_sorted_distinct_set_unique[of f]) (simp_all add: set_insort_key)
qed

abbreviation tagged :: "Key \<Rightarrow> KBucketEntry list \<Rightarrow> (Key \<times> KBucketEntry) list" where
  "tagged key es \<equiv> map (\<lambda>e. (key_distance key (ke_id e), e)) es"

lemma dist_to_eq: "dist_to key = (\<lambda>e. key_val (key_distance key (ke_id e)))"
  by (rule ext) (simp add: dist_to_def)

lemma dist_inj:
  "is_key key \<Longrightarrow> is_key (ke_id a) \<Longrightarrow> is_key (ke_id b) \<Longrightarrow> dist_to key a = dist_to key b \<longleftrightarrow> ke_id a = ke_id b"
  unfolding dist_to_def by (subst key_val_inj) (auto dest: key_distance_inj)

lemma dist_distinct:
  assumes "is_key key" "\<forall>e \<in> set es. is_key (ke_id e)" "distinct (map ke_id es)"
  shows "distinct (map (dist_to key) es)"
  using assms(2,3)
proof (induction es)
  case (Cons e es)
  have "dist_to key e \<noteq> dist_to key x" if "x \<in> set es" for x
    using dist_inj[OF assms(1), of e x] Cons.prems that by (metis distinct.simps(2) list.set_intros list.simps(9) imageI set_map)
  then show ?case using Cons by auto
qed simp

lemma search_entries_Nil: "search_entries [] = Some"
  by (rule ext) simp

lemma search_entries_append:
  "search_entries (xs @ ys) s = Option.bind (search_entries xs s) (search_entries ys)"
proof (induction xs arbitrary: s)
  case (Cons x xs)
  then show ?case by (cases "tryInsert x s") simp_all
qed simp

lemma search_entries_snoc:
  "search_entries (xs @ [e]) s = Option.bind (search_entries xs s) (tryInsert e)"
proof -
  have "search_entries [e] = tryInsert e" by (rule ext) (simp add: search_entries_Nil)
  then show ?thesis by (simp only: search_entries_append)
qed

lemma search_buckets_entries: "search_buckets bs s = search_entries (concat (map kb_entries bs)) s"
proof (induction bs arbitrary: s)
  case (Cons b bs)
  have "search_buckets bs = search_entries (concat (map kb_entries bs))" using Cons by blast
  then show ?case by (simp add: kb_findKClosestNodes_def search_entries_append)
qed simp

text \<open>One step of the search, on a map that holds the entries \<open>es\<close> in the order of their distance.\<close>

lemma tryInsert_closest:
  assumes k: "is_key key" "\<forall>x \<in> insert e (set es). is_key (ke_id x)" and n: "0 < n" "length es \<le> n"
    and new: "\<forall>x \<in> set es. ke_id x \<noteq> ke_id e" and s: "sorted_wrt (\<lambda>a b. dist_to key a < dist_to key b) es"
  shows "tryInsert e \<lparr>ks_key = key, ks_emap = tagged key es, ks_max_entries = n\<rparr> =
    Some \<lparr>ks_key = key, ks_emap = tagged key (take n (insort_key (dist_to key) e es)), ks_max_entries = n\<rparr>"
proof -
  let ?d = "key_distance key (ke_id e)"
  have "\<not> ord_contains fst ?d (tagged key es)"
    using new k key_distance_inj[OF k(1)] by (auto simp: ord_contains_def)
  then have ins: "ord_insert fst (?d, e) (tagged key es) = tagged key (insort_key (dist_to key) e es)"
    using k by (subst ord_insert_insort) (auto simp: insort_map[where D = "\<lambda>e. (key_distance key (ke_id e), e)"] dist_to_eq)
  show ?thesis
  proof (cases "length es < n")
    case True
    then show ?thesis using ins by (simp add: tryInsert_def)
  next
    case False
    then obtain zs z where es: "es = zs @ [z]" "length zs = n - 1" using n by (cases es rule: rev_cases) auto
    have lt: "key_less ?d (key_distance key (ke_id z)) \<longleftrightarrow> dist_to key e < dist_to key z"
      using k es(1) by (simp add: less_val dist_to_def)
    have ne: "dist_to key e \<noteq> dist_to key z" using dist_inj[OF k(1), of e z] k(2) new es(1) by auto
    have below: "\<forall>y \<in> set zs. dist_to key y < dist_to key z" using s es(1) by (simp add: sorted_wrt_append)
    show ?thesis
    proof (cases "dist_to key e < dist_to key z")
      case less_z: True
      let ?r = "insort_key (dist_to key) e zs"
      have "filter (\<lambda>x. fst x \<noteq> key_distance key (ke_id z)) (tagged key ?r) = tagged key ?r"
        using below less_z by (intro filter_True) (fastforce simp: set_insort_key dist_to_def)
      then show ?thesis using False n ins es lt less_z
        by (simp add: tryInsert_def insort_last[of "dist_to key" e z zs, OF less_z] Let_def)
    next
      case False_z: False
      have "\<forall>y \<in> set es. dist_to key y < dist_to key e" using below ne False_z es(1) by fastforce
      then have "take n (insort_key (dist_to key) e es) = es" using n False insort_greater[of es "dist_to key" e] by simp
      then show ?thesis using False n es lt False_z by (simp add: tryInsert_def Let_def)
    qed
  qed
qed

lemma sort_strict:
  assumes "distinct (map f xs)"
  shows "sorted_wrt (\<lambda>a b. f a < f b) (sort_key f xs)"
proof -
  have "distinct (map f (sort_key f xs))" using assms by (simp add: distinct_map)
  then have "sorted_wrt (<) (map f (sort_key f xs))" by (simp add: strict_sorted_iff)
  then show ?thesis by (simp add: sorted_wrt_map)
qed

lemma sorted_wrt_take': "sorted_wrt P xs \<Longrightarrow> sorted_wrt P (take n xs)"
  using sorted_wrt_append[of P "take n xs" "drop n xs"] by simp

lemma search_entries_closest:
  assumes k: "is_key key" "\<forall>e \<in> set es. is_key (ke_id e)" and n: "0 < n" and d: "distinct (map ke_id es)"
  shows "search_entries es (KClosestNodesSearch_new key n) =
    Some \<lparr>ks_key = key, ks_emap = tagged key (closest n key es), ks_max_entries = n\<rparr>"
  using k(2) d
proof (induction es rule: rev_induct)
  case (snoc e es)
  have dd: "distinct (map (dist_to key) (es @ [e]))"
    using dist_distinct[OF k(1) snoc.prems] .
  have new: "\<forall>x \<in> set es. ke_id x \<noteq> ke_id e" using snoc.prems(2) by (auto simp: image_iff)
  have "set (closest n key es) \<subseteq> set es" unfolding closest_def by (metis set_sort set_take_subset)
  then have "tryInsert e \<lparr>ks_key = key, ks_emap = tagged key (closest n key es), ks_max_entries = n\<rparr> =
      Some \<lparr>ks_key = key, ks_emap = tagged key (take n (insort_key (dist_to key) e (closest n key es))), ks_max_entries = n\<rparr>"
    using snoc.prems k(1) n dd new
    by (intro tryInsert_closest) (auto simp: closest_def intro!: sorted_wrt_take' sort_strict dest!: in_set_takeD)
  moreover have "take n (insort_key (dist_to key) e (closest n key es)) = closest n key (es @ [e])"
    unfolding closest_def sort_snoc[OF dd] using take_insort[of n "dist_to key" e "sort_key (dist_to key) es"] by simp
  ultimately show ?case using snoc by (simp add: search_entries_snoc)
qed (use n in \<open>simp add: KClosestNodesSearch_new_def closest_def\<close>)

text \<open>
  C12. A search of the routing table for a key, on a table whose nodes have different identities, finds the closest nodes: the
  map it builds node by node holds what sorting all nodes of all buckets by their distance to the key and keeping the first
  \<open>max_entries\<close> gives, so no node left out is closer than a node returned.
\<close>

theorem findKClosestNodes_closest:
  assumes "is_key key" "0 < n" "distinct (map ke_id (concat (map kb_entries (kt_buckets t))))"
    "\<forall>b \<in> set (kt_buckets t). \<forall>e \<in> set (kb_entries b). is_key (ke_id e)"
  shows "\<exists>s. kt_findKClosestNodes t (KClosestNodesSearch_new key n) = Some s \<and>
      map snd (ks_emap s) = take n (sort_key (\<lambda>e. key_val (key_distance key (ke_id e))) (concat (map kb_entries (kt_buckets t)))) \<and>
      (\<forall>b \<in> set (kt_buckets t). \<forall>e \<in> set (kb_entries b). e \<in> snd ` set (ks_emap s) \<or>
        (getNumEntries s = n \<and> (\<forall>x \<in> snd ` set (ks_emap s). key_val (key_distance key (ke_id x)) < key_val (key_distance key (ke_id e)))))"
proof -
  let ?es = "concat (map kb_entries (kt_buckets t))" and ?f = "\<lambda>e. key_val (key_distance key (ke_id e))"
  note f = dist_to_eq[of key]
  let ?s = "\<lparr>ks_key = key, ks_emap = tagged key (closest n key ?es), ks_max_entries = n\<rparr>"
  have r: "kt_findKClosestNodes t (KClosestNodesSearch_new key n) = Some ?s"
    using search_entries_closest[OF assms(1) _ assms(2,3)] assms(4) by (simp add: kt_findKClosestNodes_def search_buckets_entries)
  have m: "map snd (ks_emap ?s) = take n (sort_key ?f ?es)" by (simp add: closest_def f comp_def)
  have dd: "distinct (map (dist_to key) ?es)"
    using dist_distinct[OF assms(1) _ assms(3)] assms(4) by simp
  have far: "e \<in> set (closest n key ?es) \<or> length (closest n key ?es) = n \<and> (\<forall>x \<in> set (closest n key ?es). ?f x < ?f e)"
    if e: "e \<in> set ?es" for e
  proof -
    let ?S = "sort_key (dist_to key) ?es"
    have s: "sorted_wrt (\<lambda>a b. dist_to key a < dist_to key b) (take n ?S @ drop n ?S)" using sort_strict[OF dd] by simp
    have "e \<in> set (take n ?S @ drop n ?S)" using e by simp
    then consider "e \<in> set (take n ?S)" | "e \<in> set (drop n ?S)" by (simp only: set_append) blast
    then show ?thesis
    proof cases
      case 2
      then have "n < length ?S" by (metis drop_all empty_iff empty_set leI)
      then show ?thesis using 2 s unfolding closest_def sorted_wrt_append f by simp
    qed (simp add: closest_def)
  qed
  have i: "snd ` set (ks_emap ?s) = set (closest n key ?es)" by (force simp: image_iff)
  show ?thesis
  proof (intro exI conjI ballI)
    fix b e assume "b \<in> set (kt_buckets t)" "e \<in> set (kb_entries b)"
    then have "e \<in> set ?es" by auto
    then show "e \<in> snd ` set (ks_emap ?s) \<or> getNumEntries ?s = n \<and> (\<forall>x \<in> snd ` set (ks_emap ?s). ?f x < ?f e)"
      unfolding i using far by (simp add: getNumEntries_def)
  qed (rule r, rule m)
qed

theorem findKClosestNodes_closest_witness:
  "let env = \<lparr>de_now = 0, de_doCall = (\<lambda>_. True)\<rparr>; e1 = KBucketEntry_new env (V4 1 2) (replicate 20 7); e2 = KBucketEntry_new env (V4 3 4) (replicate 20 9);
       t = \<lparr>kt_our_id = key_min, kt_buckets = [(KBucket_range env key_min key_max key_min)\<lparr>kb_entries := [e1, e2]\<rparr>]\<rparr>
   in \<exists>s. kt_findKClosestNodes t (KClosestNodesSearch_new key_max 1) = Some s \<and>
      map snd (ks_emap s) = take 1 (sort_key (\<lambda>e. key_val (key_distance key_max (ke_id e))) [e1, e2])"
  using findKClosestNodes_closest[of key_max 1 "\<lparr>kt_our_id = key_min, kt_buckets =
      [(KBucket_range \<lparr>de_now = 0, de_doCall = (\<lambda>_. True)\<rparr> key_min key_max key_min)\<lparr>kb_entries :=
        [KBucketEntry_new \<lparr>de_now = 0, de_doCall = (\<lambda>_. True)\<rparr> (V4 1 2) (replicate 20 7), KBucketEntry_new \<lparr>de_now = 0, de_doCall = (\<lambda>_. True)\<rparr> (V4 3 4) (replicate 20 9)]\<rparr>]\<rparr>"] key_bounds(2)
  by (auto simp: KBucketEntry_new_def Let_def)

section \<open>The compact form\<close>

definition compact :: "KBucketEntry \<Rightarrow> bytes" where
  "compact e = ke_id e @ (case ke_addr e of V4 ip port \<Rightarrow> be32 ip @ be16 port | V6 ip port \<Rightarrow> ip @ be16 port)"

lemma PackBucketEntry_compact:
  assumes "is_key (ke_id e)" "is_address (ke_addr e)" "n = (if ipVersion (ke_addr e) = 4 then 26 else 38)"
  shows "PackBucketEntry e (replicate n 0) 0 = Inr (compact e)" "length (compact e) = n"
  using assms
  by (cases "ke_addr e"; simp add: PackBucketEntry_def compact_def int32_def memcpy_at_def WriteUint32_def WriteUint16_def mem_ok_def)+

lemma pack_loop_compact:
  assumes "\<forall>e \<in> set es. is_key (ke_id e) \<and> is_address (ke_addr e)"
  shows "pack_loop es c = Inr \<lparr>pn_nodes = pn_nodes c @ concat (map compact (filter (\<lambda>e. ipVersion (ke_addr e) = 4) es)),
    pn_nodes6 = pn_nodes6 c @ concat (map compact (filter (\<lambda>e. ipVersion (ke_addr e) \<noteq> 4) es))\<rparr>"
  using assms
proof (induction es arbitrary: c)
  case (Cons e es)
  then show ?case using PackBucketEntry_compact[of e] by (simp add: addNode_def)
qed simp

lemma UnpackBucketEntry_compact:
  assumes "is_key (ke_id e)" "is_address (ke_addr e)" "length pre < 2 ^ 31"
  shows "UnpackBucketEntry env (pre @ compact e @ post) (length pre) (ipVersion (ke_addr e)) = Inr (KBucketEntry_new env (ke_addr e) (ke_id e))"
proof (cases "ke_addr e")
  case (V4 ip port)
  have "ReadUint32 (pre @ compact e @ post) (length pre + 20) = Some ip"
    by (rule ReadUint32_enc) (use assms V4 in \<open>simp add: mem_read_def compact_def\<close>)
  moreover have "ReadUint16 (pre @ compact e @ post) (length pre + 24) = Some port"
    by (rule ReadUint16_enc) (use assms V4 in \<open>simp add: mem_read_def compact_def\<close>)
  ultimately show ?thesis using assms V4 PackBucketEntry_compact(2)[of e 26]
    by (simp add: UnpackBucketEntry_def mem_ok_def mem_read_def int32_id) (simp add: compact_def)
next
  case (V6 ip port)
  have "ReadUint16 (pre @ compact e @ post) (length pre + 36) = Some port"
    by (rule ReadUint16_enc) (use assms V6 in \<open>simp add: mem_read_def compact_def\<close>)
  then show ?thesis using assms V6 PackBucketEntry_compact(2)[of e 38]
    by (simp add: UnpackBucketEntry_def mem_ok_def mem_read_def int32_id) (simp add: compact_def)
qed

end
