(* ===== verification/Dht_Database.thy ===== *)
theory Dht_Database
  imports Dht_Search
begin

text \<open>
  The database of a DHT node (\<open>src/dht/database.cpp\<close>): the peers announced for a key, kept for 30 minutes, and the tokens
  that allow a node to announce. \<open>SHA1Hash::generate\<close> is the argument \<open>sha1\<close>; the clock is in the environment.

  Shown is that a token is accepted at most as often as it was given out and only from the address it was given to, unless the
  hashes of two different strings are equal, and that after \<open>expire\<close> a key has the peers stored in the last 30 minutes.
\<close>

section \<open>Items\<close>

definition MAX_ITEM_AGE :: nat where
  "MAX_ITEM_AGE = 30 * 60 * 1000"

record DBItem =
  di_addr :: Address
  di_time_stamp :: nat

definition DBItem_new :: "DhtEnv \<Rightarrow> Address \<Rightarrow> DBItem" where
  "DBItem_new env addr = \<lparr>di_addr = addr, di_time_stamp = de_now env\<rparr>"

definition di_expired :: "nat \<Rightarrow> DBItem \<Rightarrow> bool" where
  "di_expired now i \<longleftrightarrow> sub64 now (di_time_stamp i) \<ge> MAX_ITEM_AGE"

definition di_pack :: "DBItem \<Rightarrow> bytes \<Rightarrow> (bytes \<times> nat) option" where
  "di_pack i buf =
     (case di_addr i of
        V4 ip port \<Rightarrow> Option.bind (WriteUint32 buf 0 ip) (\<lambda>b. map_option (\<lambda>b. (b, 6)) (WriteUint16 b 4 port))
      | V6 ip port \<Rightarrow> Option.bind (memcpy_at buf 0 ip) (\<lambda>b. map_option (\<lambda>b. (b, 18)) (WriteUint16 b 16 port)))"

section \<open>The database\<close>

record Database =
  db_items :: "Key \<rightharpoonup> DBItem list"
  db_tokens :: "Key \<rightharpoonup> nat"

definition Database_new :: Database where
  "Database_new = \<lparr>db_items = Map.empty, db_tokens = Map.empty\<rparr>"

definition db_contains :: "Key \<Rightarrow> Database \<Rightarrow> bool" where
  "db_contains key db \<longleftrightarrow> db_items db key \<noteq> None"

definition db_insert :: "Key \<Rightarrow> Database \<Rightarrow> Database" where
  "db_insert key db = (case db_items db key of None \<Rightarrow> db\<lparr>db_items := (db_items db)(key \<mapsto> [])\<rparr> | Some _ \<Rightarrow> db)"

definition db_store :: "Key \<Rightarrow> DBItem \<Rightarrow> Database \<Rightarrow> Database" where
  "db_store key dbi db =
     (let dbl = (case db_items db key of None \<Rightarrow> [] | Some dbl \<Rightarrow> dbl) in db\<lparr>db_items := (db_items db)(key \<mapsto> dbl @ [dbi])\<rparr>)"

fun sample_loop :: "DBItem list \<Rightarrow> DBItem list \<Rightarrow> nat \<Rightarrow> nat \<Rightarrow> DBItem list" where
  "sample_loop [] tdbl max_entries ip_version = tdbl"
| "sample_loop (i # is) tdbl max_entries ip_version =
     (if int (length tdbl) < int32 max_entries
      then sample_loop is (if ip_version = ipVersion (di_addr i) then tdbl @ [i] else tdbl) max_entries ip_version
      else tdbl)"

definition db_sample :: "Key \<Rightarrow> DBItem list \<Rightarrow> nat \<Rightarrow> nat \<Rightarrow> Database \<Rightarrow> DBItem list" where
  "db_sample key tdbl max_entries ip_version db =
     (case db_items db key of None \<Rightarrow> tdbl | Some dbl \<Rightarrow> sample_loop dbl tdbl max_entries ip_version)"

definition db_expire :: "nat \<Rightarrow> Database \<Rightarrow> Database" where
  "db_expire now db = db\<lparr>db_items := (\<lambda>k. map_option (dropWhile (di_expired now)) (db_items db k))\<rparr>"

definition token_data :: "Address \<Rightarrow> nat \<Rightarrow> bytes option" where
  \<comment> \<open>the array \<open>tdata\<close> that is hashed\<close>
  "token_data addr ts =
     (case addr of
        V4 ip port \<Rightarrow> Option.bind (WriteUint32 (replicate 14 0) 0 ip) (\<lambda>b. Option.bind (WriteUint16 b 4 port) (\<lambda>b. WriteUint64 b 6 (of_nat ts)))
      | V6 ip port \<Rightarrow> Option.bind (memcpy_at (replicate 26 0) 0 ip) (\<lambda>b. Option.bind (WriteUint16 b 16 port) (\<lambda>b. WriteUint64 b 18 (of_nat ts))))"

definition genToken :: "(bytes \<Rightarrow> Key) \<Rightarrow> DhtEnv \<Rightarrow> Address \<Rightarrow> Database \<Rightarrow> (Key \<times> Database) option" where
  "genToken sha1 env addr db =
     map_option (\<lambda>tdata. let token = sha1 tdata in (token, db\<lparr>db_tokens := (db_tokens db)(token \<mapsto> de_now env)\<rparr>))
       (token_data addr (de_now env))"

definition checkToken :: "(bytes \<Rightarrow> Key) \<Rightarrow> Key \<Rightarrow> Address \<Rightarrow> Database \<Rightarrow> (bool \<times> Database) option" where
  "checkToken sha1 token addr db =
     (case db_tokens db token of
        None \<Rightarrow> Some (False, db)
      | Some ts \<Rightarrow> map_option (\<lambda>tdata.
          if token \<noteq> sha1 tdata then (False, db)
          else (True, db\<lparr>db_tokens := (db_tokens db)(token := None)\<rparr>)) (token_data addr ts))"

section \<open>Tokens\<close>

definition token_bytes :: "Address \<Rightarrow> nat \<Rightarrow> bytes" where
  "token_bytes addr ts = (case addr of V4 ip port \<Rightarrow> be32 ip @ be16 port | V6 ip port \<Rightarrow> ip @ be16 port) @ be64 (of_nat ts)"

lemma token_data_bytes: "is_address addr \<Longrightarrow> token_data addr ts = Some (token_bytes addr ts)"
  by (cases addr) (simp_all add: token_data_def token_bytes_def WriteUint32_def WriteUint16_def WriteUint64_def memcpy_at_def)

lemma be_inj: "be32 a = be32 b \<longleftrightarrow> a = b" "be16 c = be16 d \<longleftrightarrow> c = d"
  using be32_assemble[of a] be32_assemble[of b] be16_assemble[of c] be16_assemble[of d] by metis+

lemma token_bytes_inj: "is_address a \<Longrightarrow> is_address b \<Longrightarrow> token_bytes a ts = token_bytes b ts \<longleftrightarrow> a = b"
  by (cases a; cases b) (auto simp: token_bytes_def be_inj append_eq_append_conv dest: arg_cong[where f = length])

section \<open>Runs\<close>

text \<open>
  A run of the database with its history: the time of the clock, the items stored, the tokens given out with the address and time of
  each, and the tokens accepted with the address that used them, each list with the newest first. \<open>expire\<close> is called with the time
  of the clock; the last argument is the time of the last such call.
\<close>

inductive db_run :: "(bytes \<Rightarrow> Key) \<Rightarrow> DhtEnv \<Rightarrow> Database \<Rightarrow> (Key \<times> DBItem) list \<Rightarrow> (Key \<times> Address \<times> nat) list \<Rightarrow> (Key \<times> Address) list \<Rightarrow> nat \<Rightarrow> bool"
  for sha1 where
  db_start: "db_run sha1 env Database_new [] [] [] 0"
| db_clock: "\<lbrakk>db_run sha1 env db hist issued accepted ex; de_now env \<le> de_now env'\<rbrakk> \<Longrightarrow> db_run sha1 env' db hist issued accepted ex"
| db_inserts: "db_run sha1 env db hist issued accepted ex \<Longrightarrow> db_run sha1 env (db_insert key db) hist issued accepted ex"
| db_stores: "db_run sha1 env db hist issued accepted ex \<Longrightarrow>
    db_run sha1 env (db_store key (DBItem_new env addr) db) (hist @ [(key, DBItem_new env addr)]) issued accepted ex"
| db_expires: "db_run sha1 env db hist issued accepted ex \<Longrightarrow> db_run sha1 env (db_expire (de_now env) db) hist issued accepted (de_now env)"
| db_gives: "\<lbrakk>db_run sha1 env db hist issued accepted ex; is_address addr; genToken sha1 env addr db = Some (token, db')\<rbrakk> \<Longrightarrow>
    db_run sha1 env db' hist ((token, addr, de_now env) # issued) accepted ex"
| db_checks: "\<lbrakk>db_run sha1 env db hist issued accepted ex; is_address addr; checkToken sha1 token addr db = Some (r, db')\<rbrakk> \<Longrightarrow>
    db_run sha1 env db' hist issued (if r then (token, addr) # accepted else accepted) ex"

lemma keep_tokens [simp]:
  "db_tokens (db_insert key db) = db_tokens db" "db_tokens (db_store key i db) = db_tokens db" "db_tokens (db_expire now db) = db_tokens db"
  by (simp_all add: db_insert_def db_store_def db_expire_def Let_def split: option.split)

definition uses :: "Key \<Rightarrow> (Key \<times> 'a) list \<Rightarrow> nat" where
  "uses token xs = length (filter (\<lambda>x. fst x = token) xs)"

definition tokens_ok :: "(bytes \<Rightarrow> Key) \<Rightarrow> Database \<Rightarrow> (Key \<times> Address \<times> nat) list \<Rightarrow> (Key \<times> Address) list \<Rightarrow> bool" where
  "tokens_ok sha1 db issued accepted \<longleftrightarrow>
     (\<forall>t ts. db_tokens db t = Some ts \<longrightarrow> uses t accepted < uses t issued \<and> (\<exists>a. (t, a, ts) \<in> set issued)) \<and>
     (\<forall>t. uses t accepted \<le> uses t issued) \<and>
     (\<forall>(t, a, ts) \<in> set issued. is_address a \<and> t = sha1 (token_bytes a ts)) \<and>
     (\<forall>(t, a) \<in> set accepted. is_address a \<and> (\<exists>a' ts. (t, a', ts) \<in> set issued \<and> t = sha1 (token_bytes a ts)))"

lemma tokens_ok_give:
  assumes "tokens_ok sha1 db issued accepted" "is_address addr" "genToken sha1 env addr db = Some (token, db')"
  shows "tokens_ok sha1 db' ((token, addr, de_now env) # issued) accepted"
proof -
  have g: "token = sha1 (token_bytes addr (de_now env))" "db' = db\<lparr>db_tokens := (db_tokens db)(token \<mapsto> de_now env)\<rparr>"
    using assms(2,3) by (auto simp: genToken_def token_data_bytes Let_def)
  have le: "uses t accepted \<le> uses t issued" for t using assms(1) by (simp add: tokens_ok_def)
  have u: "uses t ((token, addr, de_now env) # issued) = (if t = token then Suc (uses t issued) else uses t issued)" for t
    by (auto simp: uses_def)
  show ?thesis unfolding tokens_ok_def u
  proof (intro conjI)
    show "\<forall>t ts. db_tokens db' t = Some ts \<longrightarrow> uses t accepted < (if t = token then Suc (uses t issued) else uses t issued) \<and>
        (\<exists>a. (t, a, ts) \<in> set ((token, addr, de_now env) # issued))"
      using assms(1) le g(2) by (auto simp: tokens_ok_def less_Suc_eq_le)
    show "\<forall>(t, a) \<in> set accepted. is_address a \<and> (\<exists>a' ts. (t, a', ts) \<in> set ((token, addr, de_now env) # issued) \<and> t = sha1 (token_bytes a ts))"
      using assms(1) unfolding tokens_ok_def by fastforce
  qed (use assms le g in \<open>auto simp: tokens_ok_def le_SucI\<close>)
qed

lemma tokens_ok_check:
  assumes ok: "tokens_ok sha1 db issued accepted" and a: "is_address addr" and c: "checkToken sha1 token addr db = Some (r, db')"
  shows "tokens_ok sha1 db' issued (if r then (token, addr) # accepted else accepted)"
proof (cases r)
  case False
  then have "db' = db" using c by (auto simp: checkToken_def split: option.splits if_splits)
  then show ?thesis using ok False by simp
next
  case True
  then obtain ts where t: "db_tokens db token = Some ts" "token = sha1 (token_bytes addr ts)" "db' = db\<lparr>db_tokens := (db_tokens db)(token := None)\<rparr>"
    using c a by (auto simp: checkToken_def token_data_bytes split: option.splits if_splits)
  have u: "uses t ((token, addr) # accepted) = (if t = token then Suc (uses t accepted) else uses t accepted)" for t
    by (auto simp: uses_def)
  have l: "uses token accepted < uses token issued" "\<exists>a. (token, a, ts) \<in> set issued" using ok t(1) by (auto simp: tokens_ok_def)
  have "tokens_ok sha1 db' issued ((token, addr) # accepted)" unfolding tokens_ok_def u
  proof (intro conjI)
    show "\<forall>(t, a) \<in> set ((token, addr) # accepted). is_address a \<and> (\<exists>a' ts. (t, a', ts) \<in> set issued \<and> t = sha1 (token_bytes a ts))"
      using ok a l(2) t(2) unfolding tokens_ok_def by auto
  qed (use ok l t(3) in \<open>auto simp: tokens_ok_def\<close>)
  then show ?thesis using True by simp
qed

lemma tokens_ok_run: "db_run sha1 env db hist issued accepted ex \<Longrightarrow> tokens_ok sha1 db issued accepted"
proof (induction rule: db_run.induct)
  case (db_gives env db hist issued accepted ex addr token db')
  then show ?case using tokens_ok_give by blast
next
  case (db_checks env db hist issued accepted ex addr token r db')
  then show ?case using tokens_ok_check by blast
qed (auto simp: tokens_ok_def Database_new_def uses_def)

text \<open>
  C10. Whatever is stored, expired and asked for in between, a token is accepted at most as often as it was given out, so a token
  cannot be used twice; and it is accepted only from the address it was given to, unless SHA1 gives the token for the data of two different addresses at the
  time it was given out. A token that was just given out is accepted from its address, and only once.
\<close>

theorem tokens_once:
  assumes "db_run sha1 env db hist issued accepted ex"
  shows "length (filter (\<lambda>x. fst x = t) accepted) \<le> length (filter (\<lambda>x. fst x = t) issued) \<and>
    ((t, a) \<in> set accepted \<longrightarrow> (\<exists>a' ts d d'. (t, a', ts) \<in> set issued \<and> token_data a ts = Some d \<and> token_data a' ts = Some d' \<and>
       (a' = a \<or> d \<noteq> d' \<and> sha1 d = sha1 d'))) \<and>
    (is_address a \<longrightarrow> (\<exists>tok db1 db2. genToken sha1 env a db = Some (tok, db1) \<and> checkToken sha1 tok a db1 = Some (True, db2) \<and>
       checkToken sha1 tok a db2 = Some (False, db2)))"
proof (intro conjI impI)
  have ok: "tokens_ok sha1 db issued accepted" using tokens_ok_run[OF assms] .
  then show "length (filter (\<lambda>x. fst x = t) accepted) \<le> length (filter (\<lambda>x. fst x = t) issued)" by (simp add: tokens_ok_def uses_def)
  assume "(t, a) \<in> set accepted"
  then obtain a' ts where i: "is_address a" "(t, a', ts) \<in> set issued" "t = sha1 (token_bytes a ts)" using ok unfolding tokens_ok_def by fastforce
  then have "is_address a'" "t = sha1 (token_bytes a' ts)" using ok unfolding tokens_ok_def by fastforce+
  then show "\<exists>a' ts d d'. (t, a', ts) \<in> set issued \<and> token_data a ts = Some d \<and> token_data a' ts = Some d' \<and> (a' = a \<or> d \<noteq> d' \<and> sha1 d = sha1 d')"
    using i token_bytes_inj[of a a' ts] by (metis token_data_bytes)
next
  assume "is_address a"
  then show "\<exists>tok db1 db2. genToken sha1 env a db = Some (tok, db1) \<and> checkToken sha1 tok a db1 = Some (True, db2) \<and>
       checkToken sha1 tok a db2 = Some (False, db2)"
    by (simp add: genToken_def checkToken_def token_data_bytes Let_def)
qed

theorem tokens_once_witness:
  "\<exists>tok db1 db2. genToken (take 20) \<lparr>de_now = 5, de_doCall = (\<lambda>_. True)\<rparr> (V4 1 2) Database_new = Some (tok, db1) \<and>
     checkToken (take 20) tok (V4 1 2) db1 = Some (True, db2) \<and> checkToken (take 20) tok (V4 1 2) db2 = Some (False, db2)"
  using tokens_once[OF db_start, of _ "V4 1 2"] by simp

section \<open>Expiry\<close>

definition stored_for :: "Key \<Rightarrow> (Key \<times> DBItem) list \<Rightarrow> DBItem list" where
  "stored_for key hist = map snd (filter (\<lambda>x. fst x = key) hist)"

definition items_of :: "Key \<Rightarrow> Database \<Rightarrow> DBItem list" where
  "items_of key db = (case db_items db key of None \<Rightarrow> [] | Some l \<Rightarrow> l)"

lemma items_of_ops:
  "items_of key (db_insert k db) = items_of key db"
  "items_of key (db_store k i db) = (if k = key then items_of key db @ [i] else items_of key db)"
  "items_of key (db_expire now db) = dropWhile (di_expired now) (items_of key db)"
  "genToken sha1 env addr db = Some (t, db') \<Longrightarrow> items_of key db' = items_of key db"
  "checkToken sha1 t addr db = Some (r, db') \<Longrightarrow> items_of key db' = items_of key db"
  by (auto simp: items_of_def db_insert_def db_store_def db_expire_def Let_def genToken_def checkToken_def split: option.splits if_splits)

lemma dropWhile_sorted:
  assumes "sorted (map di_time_stamp is)"
  shows "dropWhile (\<lambda>i. di_time_stamp i + c \<le> now) is = filter (\<lambda>i. now < di_time_stamp i + c) is"
  using assms
proof (induction "is")
  case (Cons i "is")
  show ?case
  proof (cases "di_time_stamp i + c \<le> now")
    case False
    then have "\<forall>j \<in> set is. now < di_time_stamp j + c" using Cons.prems by fastforce
    then show ?thesis using False by simp
  qed (use Cons in simp)
qed simp

lemma di_expired_eq: "di_time_stamp i \<le> now \<Longrightarrow> now < 2 ^ 64 \<Longrightarrow> di_expired now i \<longleftrightarrow> di_time_stamp i + MAX_ITEM_AGE \<le> now"
  by (auto simp: di_expired_def sub64_id)

definition db_items_ok :: "DhtEnv \<Rightarrow> Database \<Rightarrow> (Key \<times> DBItem) list \<Rightarrow> nat \<Rightarrow> bool" where
  "db_items_ok env db hist ex \<longleftrightarrow> ex \<le> de_now env \<and> sorted (map (di_time_stamp \<circ> snd) hist) \<and>
     (\<forall>x \<in> set hist. di_time_stamp (snd x) \<le> de_now env) \<and>
     (\<forall>key. items_of key db = filter (\<lambda>i. ex < di_time_stamp i + MAX_ITEM_AGE) (stored_for key hist))"

lemma db_items_expire:
  assumes ok: "db_items_ok env db hist ex" and b: "de_now env < 2 ^ 64"
  shows "db_items_ok env (db_expire (de_now env) db) hist (de_now env)"
proof -
  let ?n = "de_now env"
  have old: "\<forall>i \<in> set (stored_for key hist). di_time_stamp i \<le> ?n" for key using ok by (auto simp: db_items_ok_def stored_for_def)
  have srt: "sorted (map di_time_stamp (filter P (stored_for key hist)))" for P key
    using ok unfolding db_items_ok_def stored_for_def by (simp add: filter_map sorted_filter)
  have "items_of key (db_expire ?n db) = filter (\<lambda>i. ?n < di_time_stamp i + MAX_ITEM_AGE) (stored_for key hist)" for key
  proof -
    let ?l = "filter (\<lambda>i. ex < di_time_stamp i + MAX_ITEM_AGE) (stored_for key hist)"
    have "items_of key (db_expire ?n db) = dropWhile (di_expired ?n) ?l" using ok by (simp add: items_of_ops db_items_ok_def)
    also have "\<dots> = dropWhile (\<lambda>i. di_time_stamp i + MAX_ITEM_AGE \<le> ?n) ?l"
      by (rule dropWhile_cong) (use old di_expired_eq b in auto)
    also have "\<dots> = filter (\<lambda>i. ?n < di_time_stamp i + MAX_ITEM_AGE) ?l" by (rule dropWhile_sorted[OF srt])
    also have "\<dots> = filter (\<lambda>i. ?n < di_time_stamp i + MAX_ITEM_AGE) (stored_for key hist)"
      using ok unfolding filter_filter by (intro filter_cong) (auto simp: db_items_ok_def)
    finally show ?thesis .
  qed
  then show ?thesis using ok by (simp add: db_items_ok_def)
qed

lemma db_run_items: "db_run sha1 env db hist issued accepted ex \<Longrightarrow> de_now env < 2 ^ 64 \<Longrightarrow> db_items_ok env db hist ex"
proof (induction rule: db_run.induct)
  case (db_start env)
  then show ?case by (simp add: db_items_ok_def Database_new_def items_of_def stored_for_def)
next
  case (db_clock env db hist issued accepted ex env')
  then show ?case unfolding db_items_ok_def by fastforce
next
  case (db_stores env db hist issued accepted ex key addr)
  then have ok: "db_items_ok env db hist ex" by simp
  have "0 < MAX_ITEM_AGE" by (simp add: MAX_ITEM_AGE_def)
  then show ?case using ok
    by (auto simp: db_items_ok_def items_of_ops stored_for_def DBItem_new_def sorted_append)
next
  case (db_expires env db hist issued accepted ex)
  then show ?case using db_items_expire by blast
qed (simp_all add: db_items_ok_def items_of_ops)

lemma sample_loop_take:
  assumes "max_entries < 2 ^ 31" "length tdbl \<le> max_entries"
  shows "sample_loop is tdbl max_entries v = tdbl @ take (max_entries - length tdbl) (filter (\<lambda>i. ipVersion (di_addr i) = v) is)"
  using assms(2)
proof (induction "is" arbitrary: tdbl)
  case (Cons i "is")
  have c: "int (length tdbl) < int32 max_entries \<longleftrightarrow> length tdbl < max_entries" using assms(1) by (simp add: int32_id)
  show ?case
  proof (cases "length tdbl < max_entries")
    case True
    then obtain m where m: "max_entries - length tdbl = Suc m" by (metis Suc_diff_Suc)
    then have "max_entries - Suc (length tdbl) = m" by simp
    then show ?thesis using True c m Cons.IH[of "tdbl @ [i]"] Cons.IH[of tdbl] by (auto simp: c)
  qed (use c Cons.prems in simp)
qed simp



end
