(* ===== verification/Dht_Message.thy ===== *)
theory Dht_Message
  imports Dht_Database Bencode
begin

text \<open>
  The messages of the DHT (\<open>src/dht/rpcmsg.cpp\<close> and the classes derived from \<open>RPCMsg\<close>), how they are written with the encoder and read
  from a decoded dictionary, and \<open>RPCMsgFactory\<close>, which chooses the class. A message is a value of a datatype with a constructor per
  class; what all have in common is in the header. Texts and numbers are converted by Qt, which the arguments \<open>qs\<close> (a byte array
  to a \<open>QString\<close>) and \<open>number\<close> stand for, as in the theory of bencoding.

  Shown is that what one node sends another reads, with the exception of nodes that are all IPv6.
\<close>

section \<open>Messages\<close>

datatype Method = PING | FIND_NODE | GET_PEERS | ANNOUNCE_PEER | NONE_METHOD

datatype MsgType = REQ_MSG | RSP_MSG | ERR_MSG

record RPCHeader =
  m_mtid :: bytes
  m_id :: Key
  m_origin :: Address

datatype RPCMsg =
    PingReq RPCHeader
  | FindNodeReq RPCHeader Key "string list"
  | GetPeersReq RPCHeader Key "string list"
  | AnnounceReq RPCHeader Key "string list" u16 Key
  | PingRsp RPCHeader
  | FindNodeRsp RPCHeader PackedNodeContainer
  | GetPeersRsp RPCHeader PackedNodeContainer "DBItem list" Key
  | AnnounceRsp RPCHeader
  | ErrMsg RPCHeader string

fun msg_header :: "RPCMsg \<Rightarrow> RPCHeader" where
  "msg_header (PingReq h) = h"
| "msg_header (FindNodeReq h _ _) = h"
| "msg_header (GetPeersReq h _ _) = h"
| "msg_header (AnnounceReq h _ _ _ _) = h"
| "msg_header (PingRsp h) = h"
| "msg_header (FindNodeRsp h _) = h"
| "msg_header (GetPeersRsp h _ _ _) = h"
| "msg_header (AnnounceRsp h) = h"
| "msg_header (ErrMsg h _) = h"

fun map_header :: "(RPCHeader \<Rightarrow> RPCHeader) \<Rightarrow> RPCMsg \<Rightarrow> RPCMsg" where
  "map_header f (PingReq h) = PingReq (f h)"
| "map_header f (FindNodeReq h t w) = FindNodeReq (f h) t w"
| "map_header f (GetPeersReq h i w) = GetPeersReq (f h) i w"
| "map_header f (AnnounceReq h i w p t) = AnnounceReq (f h) i w p t"
| "map_header f (PingRsp h) = PingRsp (f h)"
| "map_header f (FindNodeRsp h n) = FindNodeRsp (f h) n"
| "map_header f (GetPeersRsp h n v t) = GetPeersRsp (f h) n v t"
| "map_header f (AnnounceRsp h) = AnnounceRsp (f h)"
| "map_header f (ErrMsg h e) = ErrMsg (f h) e"

definition setOrigin :: "Address \<Rightarrow> RPCMsg \<Rightarrow> RPCMsg" where
  "setOrigin a = map_header (\<lambda>h. h\<lparr>m_origin := a\<rparr>)"

definition setMTID :: "bytes \<Rightarrow> RPCMsg \<Rightarrow> RPCMsg" where
  "setMTID t = map_header (\<lambda>h. h\<lparr>m_mtid := t\<rparr>)"

fun getMethod :: "RPCMsg \<Rightarrow> Method" where
  "getMethod (PingReq _) = PING"
| "getMethod (FindNodeReq _ _ _) = FIND_NODE"
| "getMethod (GetPeersReq _ _ _) = GET_PEERS"
| "getMethod (AnnounceReq _ _ _ _ _) = ANNOUNCE_PEER"
| "getMethod (PingRsp _) = PING"
| "getMethod (FindNodeRsp _ _) = FIND_NODE"
| "getMethod (GetPeersRsp _ _ _ _) = GET_PEERS"
| "getMethod (AnnounceRsp _) = ANNOUNCE_PEER"
| "getMethod (ErrMsg _ _) = NONE_METHOD"

fun getType :: "RPCMsg \<Rightarrow> MsgType" where
  "getType (PingReq _) = REQ_MSG"
| "getType (FindNodeReq _ _ _) = REQ_MSG"
| "getType (GetPeersReq _ _ _) = REQ_MSG"
| "getType (AnnounceReq _ _ _ _ _) = REQ_MSG"
| "getType (PingRsp _) = RSP_MSG"
| "getType (FindNodeRsp _ _) = RSP_MSG"
| "getType (GetPeersRsp _ _ _ _) = RSP_MSG"
| "getType (AnnounceRsp _) = RSP_MSG"
| "getType (ErrMsg _ _) = ERR_MSG"

definition wants :: "string list \<Rightarrow> nat \<Rightarrow> bool" where
  "wants want ip_version \<longleftrightarrow> (if ip_version = 4 then ''n4'' \<in> set want else if ip_version = 6 then ''n6'' \<in> set want else False)"

section \<open>Writing\<close>

text \<open>The calls of the encoder, in the order they are made.\<close>

type_synonym enc_call = "BufferOutput \<Rightarrow> BufferOutput"

definition enc_calls :: "enc_call list \<Rightarrow> bytes" where
  "enc_calls calls = bo_data (fold (\<lambda>c. c) calls \<lparr>bo_data = [], bo_ptr = 0\<rparr>)"

definition wstr :: "(nat \<Rightarrow> bytes) \<Rightarrow> string \<Rightarrow> enc_call" where
  \<comment> \<open>\<open>write(const QString &)\<close>\<close>
  "wstr number s = (\<lambda>out. enc_data number out (ascii s))"

definition wraw :: "(nat \<Rightarrow> bytes) \<Rightarrow> bytes \<Rightarrow> enc_call" where
  \<comment> \<open>\<open>write(const Uint8*, Uint32)\<close>\<close>
  "wraw number d = (\<lambda>out. enc_data number out d)"

definition warr :: "(nat \<Rightarrow> bytes) \<Rightarrow> bytes \<Rightarrow> enc_call" where
  \<comment> \<open>\<open>write(const QByteArray &)\<close>\<close>
  "warr number d = (\<lambda>out. enc_bytes number out d)"

definition wnum :: "(nat \<Rightarrow> bytes) \<Rightarrow> nat \<Rightarrow> enc_call" where
  "wnum number n = (\<lambda>out. enc_uint number out n)"

definition PingReq_encode :: "(nat \<Rightarrow> bytes) \<Rightarrow> RPCHeader \<Rightarrow> bytes" where
  "PingReq_encode number h = enc_calls
     [enc_beginDict,
        wstr number ''a'', enc_beginDict,
          wstr number ''id'', wraw number (m_id h),
        enc_end,
        wstr number ''q'', wstr number ''ping'',
        wstr number ''t'', warr number (m_mtid h),
        wstr number ''y'', wstr number ''q'',
      enc_end]"

definition FindNodeReq_encode :: "(nat \<Rightarrow> bytes) \<Rightarrow> RPCHeader \<Rightarrow> Key \<Rightarrow> bytes" where
  "FindNodeReq_encode number h target = enc_calls
     [enc_beginDict,
        wstr number ''a'', enc_beginDict,
          wstr number ''id'', wraw number (m_id h),
          wstr number ''target'', wraw number target,
        enc_end,
        wstr number ''q'', wstr number ''find_node'',
        wstr number ''t'', warr number (m_mtid h),
        wstr number ''y'', wstr number ''q'',
      enc_end]"

definition GetPeersReq_encode :: "(nat \<Rightarrow> bytes) \<Rightarrow> RPCHeader \<Rightarrow> Key \<Rightarrow> bytes" where
  "GetPeersReq_encode number h info_hash = enc_calls
     [enc_beginDict,
        wstr number ''a'', enc_beginDict,
          wstr number ''id'', wraw number (m_id h),
          wstr number ''info_hash'', wraw number info_hash,
        enc_end,
        wstr number ''q'', wstr number ''get_peers'',
        wstr number ''t'', warr number (m_mtid h),
        wstr number ''y'', wstr number ''q'',
      enc_end]"

definition AnnounceReq_encode :: "(nat \<Rightarrow> bytes) \<Rightarrow> RPCHeader \<Rightarrow> Key \<Rightarrow> u16 \<Rightarrow> Key \<Rightarrow> bytes" where
  "AnnounceReq_encode number h info_hash port token = enc_calls
     [enc_beginDict,
        wstr number ''a'', enc_beginDict,
          wstr number ''id'', wraw number (m_id h),
          wstr number ''info_hash'', wraw number info_hash,
          wstr number ''port'', wnum number (unat port),
          wstr number ''token'', wraw number token,
        enc_end,
        wstr number ''q'', wstr number ''announce_peer'',
        wstr number ''t'', warr number (m_mtid h),
        wstr number ''y'', wstr number ''q'',
      enc_end]"

definition PingRsp_encode :: "(nat \<Rightarrow> bytes) \<Rightarrow> RPCHeader \<Rightarrow> bytes" where
  "PingRsp_encode number h = enc_calls
     [enc_beginDict,
        wstr number ''r'', enc_beginDict,
          wstr number ''id'', wraw number (m_id h),
        enc_end,
        wstr number ''t'', warr number (m_mtid h),
        wstr number ''y'', wstr number ''r'',
      enc_end]"

definition AnnounceRsp_encode :: "(nat \<Rightarrow> bytes) \<Rightarrow> RPCHeader \<Rightarrow> bytes" where
  "AnnounceRsp_encode number h = enc_calls
     [enc_beginDict,
        wstr number ''r'', enc_beginDict,
          wstr number ''id'', wraw number (m_id h),
        enc_end,
        wstr number ''t'', warr number (m_mtid h),
        wstr number ''y'', wstr number ''r'',
      enc_end]"

definition write_nodes :: "(nat \<Rightarrow> bytes) \<Rightarrow> PackedNodeContainer \<Rightarrow> enc_call list" where
  "write_nodes number n =
     (if length (pn_nodes n) > 0 then [wstr number ''nodes'', warr number (pn_nodes n)] else []) @
     (if length (pn_nodes6 n) > 0 then [wstr number ''nodes6'', warr number (pn_nodes6 n)] else [])"

definition FindNodeRsp_encode :: "(nat \<Rightarrow> bytes) \<Rightarrow> RPCHeader \<Rightarrow> PackedNodeContainer \<Rightarrow> bytes" where
  "FindNodeRsp_encode number h n = enc_calls
     ([enc_beginDict,
        wstr number ''r'', enc_beginDict,
          wstr number ''id'', wraw number (m_id h)] @
          write_nodes number n @
        [enc_end,
        wstr number ''t'', warr number (m_mtid h),
        wstr number ''y'', wstr number ''r'',
      enc_end])"

definition write_item :: "(nat \<Rightarrow> bytes) \<Rightarrow> DBItem \<Rightarrow> enc_call" where
  \<comment> \<open>\<open>tmp\<close> has 18 bytes, and the first \<open>b\<close> of them are written\<close>
  "write_item number i = (\<lambda>out. case di_pack i (replicate 18 0) of None \<Rightarrow> out | Some (tmp, b) \<Rightarrow> enc_data number out (take b tmp))"

definition GetPeersRsp_encode :: "(nat \<Rightarrow> bytes) \<Rightarrow> RPCHeader \<Rightarrow> PackedNodeContainer \<Rightarrow> DBItem list \<Rightarrow> Key \<Rightarrow> bytes" where
  "GetPeersRsp_encode number h n items token = enc_calls
     ([enc_beginDict,
        wstr number ''r'', enc_beginDict,
          wstr number ''id'', wraw number (m_id h)] @
          write_nodes number n @
          [wstr number ''token'', wraw number token] @
          (if length items > 0 then [wstr number ''values'', enc_beginList] @ map (write_item number) items @ [enc_end] else []) @
        [enc_end,
        wstr number ''t'', warr number (m_mtid h),
        wstr number ''y'', wstr number ''r'',
      enc_end])"

fun msg_encode :: "(nat \<Rightarrow> bytes) \<Rightarrow> RPCMsg \<Rightarrow> bytes" where
  "msg_encode number (PingReq h) = PingReq_encode number h"
| "msg_encode number (FindNodeReq h t _) = FindNodeReq_encode number h t"
| "msg_encode number (GetPeersReq h i _) = GetPeersReq_encode number h i"
| "msg_encode number (AnnounceReq h i _ p t) = AnnounceReq_encode number h i p t"
| "msg_encode number (PingRsp h) = PingRsp_encode number h"
| "msg_encode number (FindNodeRsp h n) = FindNodeRsp_encode number h n"
| "msg_encode number (GetPeersRsp h n v t) = GetPeersRsp_encode number h n v t"
| "msg_encode number (AnnounceRsp h) = AnnounceRsp_encode number h"
| "msg_encode number (ErrMsg h e) = []"

section \<open>Reading\<close>

type_synonym bdict = "(bytes \<times> BNode) list"

definition Address_null :: Address where
  "Address_null = V6 (replicate 16 0) 0"

definition getString :: "(bytes \<Rightarrow> string) \<Rightarrow> bdict \<Rightarrow> string \<Rightarrow> string outcome" where
  "getString qs d key = obind (value_bytes (getValue qs d key)) (\<lambda>s. Return (qs s))"

definition list_getString :: "(bytes \<Rightarrow> string) \<Rightarrow> BNode list \<Rightarrow> nat \<Rightarrow> string outcome" where
  \<comment> \<open>\<open>QList::at\<close> outside the list is undefined\<close>
  "list_getString qs l i = (case list_getByteArray l i of None \<Rightarrow> Throw ''undefined'' | Some r \<Rightarrow> obind r (\<lambda>s. Return (qs s)))"

definition RPCMsg_parse :: "(bytes \<Rightarrow> string) \<Rightarrow> bdict \<Rightarrow> RPCHeader outcome" where
  "RPCMsg_parse qs d =
     obind (getByteArray qs d ''t'') (\<lambda>mtid.
       if mtid = [] then Throw ''Invalid DHT transaction ID''
       else obind (getString qs d ''y'') (\<lambda>t.
         let h = \<lparr>m_mtid = mtid, m_id = key_min, m_origin = Address_null\<rparr>;
             with_id = (\<lambda>args. case args of None \<Rightarrow> Return h
               | Some a \<Rightarrow> obind (getByteArray qs a ''id'') (\<lambda>b. Return (h\<lparr>m_id := Key_of_bytes b\<rparr>))) in
         if t = ''q'' then with_id (getDict qs d ''a'')
         else if t = ''r'' then with_id (getDict qs d ''r'')
         else if t = ''e'' then Return h
         else Throw ''Unknown message type''))"

definition need_dict :: "string \<Rightarrow> bdict option \<Rightarrow> bdict outcome" where
  "need_dict e d = (case d of None \<Rightarrow> Throw e | Some a \<Rightarrow> Return a)"

fun read_want :: "(bytes \<Rightarrow> string) \<Rightarrow> BNode list \<Rightarrow> string list outcome" where
  "read_want qs [] = Return []"
| "read_want qs (n # ns) = obind (list_getString qs [n] 0) (\<lambda>s. obind (read_want qs ns) (\<lambda>r. Return (s # r)))"

definition parse_want :: "(bytes \<Rightarrow> string) \<Rightarrow> bdict \<Rightarrow> string list outcome" where
  "parse_want qs args = (case getList qs args ''want'' of None \<Rightarrow> Return [] | Some ln \<Rightarrow> read_want qs ln)"

definition FindNodeReq_parse :: "(bytes \<Rightarrow> string) \<Rightarrow> bdict \<Rightarrow> RPCMsg outcome" where
  "FindNodeReq_parse qs d =
     obind (RPCMsg_parse qs d) (\<lambda>h.
     obind (need_dict ''Invalid request, arguments missing'' (getDict qs d ''a'')) (\<lambda>args.
     obind (getByteArray qs args ''target'') (\<lambda>target.
     obind (parse_want qs args) (\<lambda>want. Return (FindNodeReq h (Key_of_bytes target) want)))))"

definition GetPeersReq_parse :: "(bytes \<Rightarrow> string) \<Rightarrow> bdict \<Rightarrow> (RPCHeader \<times> Key \<times> string list) outcome" where
  "GetPeersReq_parse qs d =
     obind (RPCMsg_parse qs d) (\<lambda>h.
     obind (need_dict ''Invalid request, arguments missing'' (getDict qs d ''a'')) (\<lambda>args.
     obind (getByteArray qs args ''info_hash'') (\<lambda>ih.
     obind (parse_want qs args) (\<lambda>want. Return (h, Key_of_bytes ih, want)))))"

definition AnnounceReq_parse :: "(bytes \<Rightarrow> string) \<Rightarrow> bdict \<Rightarrow> RPCMsg outcome" where
  "AnnounceReq_parse qs d =
     obind (GetPeersReq_parse qs d) (\<lambda>(h, _, want).
     obind (need_dict ''Invalid request, arguments missing'' (getDict qs d ''a'')) (\<lambda>args.
     obind (getByteArray qs args ''info_hash'') (\<lambda>ih.
     obind (getInt qs args ''port'') (\<lambda>port.
     obind (getByteArray qs args ''token'') (\<lambda>token.
       Return (AnnounceReq h (Key_of_bytes ih) want (word_of_int port) (Key_of_bytes token)))))))"

definition read_nodes :: "(bytes \<Rightarrow> string) \<Rightarrow> bdict \<Rightarrow> PackedNodeContainer" where
  "read_nodes qs args =
     (let arr = (\<lambda>v. case v of None \<Rightarrow> [] | Some x \<Rightarrow> Value_toByteArray x) in
      \<lparr>pn_nodes = arr (getValue qs args ''nodes''), pn_nodes6 = arr (getValue qs args ''nodes6'')\<rparr>)"

definition FindNodeRsp_parse :: "(bytes \<Rightarrow> string) \<Rightarrow> bdict \<Rightarrow> RPCMsg outcome" where
  "FindNodeRsp_parse qs d =
     obind (RPCMsg_parse qs d) (\<lambda>h.
     obind (need_dict ''Invalid response, arguments missing'' (getDict qs d ''r'')) (\<lambda>args.
       if getValue qs args ''nodes'' = None \<and> getList qs args ''nodes6'' = None then Throw ''Missing nodes or nodes6 parameter''
       else Return (FindNodeRsp h (read_nodes qs args))))"

definition read_item :: "DhtEnv \<Rightarrow> bytes \<Rightarrow> DBItem list" where
  "read_item env d =
     (if length d = 6 then
        (case (ReadUint16 d 4, ReadUint32 d 0) of (Some port, Some ip) \<Rightarrow> [DBItem_new env (V4 ip port)] | _ \<Rightarrow> [])
      else if length d = 18 then
        (case (ReadUint16 d 16, mem_read d 0 16) of (Some port, Some ip) \<Rightarrow> [DBItem_new env (V6 ip port)] | _ \<Rightarrow> [])
      else [])"

fun read_values :: "DhtEnv \<Rightarrow> BNode list \<Rightarrow> DBItem list outcome" where
  "read_values env [] = Return []"
| "read_values env (n # ns) =
     obind (value_bytes (as_value (Some n))) (\<lambda>d. obind (read_values env ns) (\<lambda>r. Return (read_item env d @ r)))"

definition GetPeersRsp_parse :: "DhtEnv \<Rightarrow> (bytes \<Rightarrow> string) \<Rightarrow> bdict \<Rightarrow> RPCMsg outcome" where
  "GetPeersRsp_parse env qs d =
     obind (RPCMsg_parse qs d) (\<lambda>h.
     obind (need_dict ''Invalid response, arguments missing'' (getDict qs d ''r'')) (\<lambda>args.
     obind (getByteArray qs args ''token'') (\<lambda>token.
     obind (case getList qs args ''values'' of None \<Rightarrow> Return [] | Some vals \<Rightarrow> read_values env vals) (\<lambda>items.
       Return (GetPeersRsp h
         (if getValue qs args ''nodes'' \<noteq> None \<or> getList qs args ''nodes6'' \<noteq> None then read_nodes qs args else PackedNodeContainer_new)
         items (Key_of_bytes token))))))"

definition AnnounceRsp_parse :: "(bytes \<Rightarrow> string) \<Rightarrow> bdict \<Rightarrow> RPCMsg outcome" where
  "AnnounceRsp_parse qs d =
     obind (RPCMsg_parse qs d) (\<lambda>h.
     obind (need_dict ''Invalid response, arguments missing'' (getDict qs d ''r'')) (\<lambda>_. Return (AnnounceRsp h)))"

definition ErrMsg_parse :: "(bytes \<Rightarrow> string) \<Rightarrow> bdict \<Rightarrow> RPCMsg outcome" where
  "ErrMsg_parse qs d =
     obind (RPCMsg_parse qs d) (\<lambda>h.
       case getList qs d ''e'' of
         None \<Rightarrow> Throw ''Invalid error message''
       | Some ln \<Rightarrow> obind (list_getString qs ln 1) (\<lambda>s. Return (ErrMsg h s)))"

section \<open>The factory\<close>

definition buildRequest :: "(bytes \<Rightarrow> string) \<Rightarrow> bdict \<Rightarrow> RPCMsg option outcome" where
  "buildRequest qs d =
     (case getDict qs d ''a'' of
        None \<Rightarrow> Throw ''Invalid request, arguments missing''
      | Some args \<Rightarrow> obind (getString qs d ''q'') (\<lambda>str.
          if str = ''ping'' then obind (RPCMsg_parse qs d) (\<lambda>h. Return (Some (PingReq h)))
          else if str = ''find_node'' then obind (FindNodeReq_parse qs d) (\<lambda>m. Return (Some m))
          else if str = ''get_peers'' then obind (GetPeersReq_parse qs d) (\<lambda>(h, ih, want). Return (Some (GetPeersReq h ih want)))
          else if str = ''announce_peer'' then obind (AnnounceReq_parse qs d) (\<lambda>m. Return (Some m))
          else if str = ''vote'' then Return None
          else Throw ''Invalid request type''))"

definition buildResponse :: "DhtEnv \<Rightarrow> (bytes \<Rightarrow> string) \<Rightarrow> (bytes \<Rightarrow> Method) \<Rightarrow> bdict \<Rightarrow> RPCMsg option outcome" where
  "buildResponse env qs findMethod d =
     (case getDict qs d ''r'' of
        None \<Rightarrow> Throw ''Arguments missing for DHT response''
      | Some args \<Rightarrow> obind (getByteArray qs d ''t'') (\<lambda>mtid.
          if mtid = [] then Throw ''Empty transaction ID in DHT response''
          else case findMethod mtid of
            PING \<Rightarrow> obind (RPCMsg_parse qs d) (\<lambda>h. Return (Some (PingRsp h)))
          | FIND_NODE \<Rightarrow> obind (FindNodeRsp_parse qs d) (\<lambda>m. Return (Some m))
          | GET_PEERS \<Rightarrow> obind (GetPeersRsp_parse env qs d) (\<lambda>m. Return (Some m))
          | ANNOUNCE_PEER \<Rightarrow> obind (AnnounceRsp_parse qs d) (\<lambda>m. Return (Some m))
          | NONE_METHOD \<Rightarrow> Throw ''Unknown DHT rpc call''))"

definition msg_build :: "DhtEnv \<Rightarrow> (bytes \<Rightarrow> string) \<Rightarrow> (bytes \<Rightarrow> Method) \<Rightarrow> bdict \<Rightarrow> RPCMsg option outcome" where
  "msg_build env qs findMethod d =
     obind (getString qs d ''y'') (\<lambda>t.
       if t = ''q'' then buildRequest qs d
       else if t = ''r'' then buildResponse env qs findMethod d
       else if t = ''e'' then obind (ErrMsg_parse qs d) (\<lambda>m. Return (Some m))
       else Throw ''Unknown message type'')"

section \<open>What is written\<close>

fun item_bytes :: "DBItem \<Rightarrow> bytes" where
  "item_bytes i = (case di_addr i of V4 ip port \<Rightarrow> be32 ip @ be16 port | V6 ip port \<Rightarrow> ip @ be16 port)"

definition nodes_entries :: "PackedNodeContainer \<Rightarrow> (bytes \<times> btree) list" where
  "nodes_entries n = (if pn_nodes n \<noteq> [] then [(ascii ''nodes'', TStr (pn_nodes n))] else []) @
     (if pn_nodes6 n \<noteq> [] then [(ascii ''nodes6'', TStr (pn_nodes6 n))] else [])"

definition args_tree :: "RPCMsg \<Rightarrow> (bytes \<times> btree) list" where
  "args_tree m = (ascii ''id'', TStr (m_id (msg_header m))) # (case m of
       FindNodeReq h t w \<Rightarrow> [(ascii ''target'', TStr t)]
     | GetPeersReq h i w \<Rightarrow> [(ascii ''info_hash'', TStr i)]
     | AnnounceReq h i w p t \<Rightarrow> [(ascii ''info_hash'', TStr i), (ascii ''port'', TInt (unat p)), (ascii ''token'', TStr t)]
     | FindNodeRsp h n \<Rightarrow> nodes_entries n
     | GetPeersRsp h n v t \<Rightarrow> nodes_entries n @ [(ascii ''token'', TStr t)] @
         (if v \<noteq> [] then [(ascii ''values'', TList (map (\<lambda>i. TStr (item_bytes i)) v))] else [])
     | _ \<Rightarrow> [])"

fun method_name :: "Method \<Rightarrow> string" where
  "method_name PING = ''ping''"
| "method_name FIND_NODE = ''find_node''"
| "method_name GET_PEERS = ''get_peers''"
| "method_name ANNOUNCE_PEER = ''announce_peer''"
| "method_name NONE_METHOD = []"

definition msg_tree :: "RPCMsg \<Rightarrow> btree" where
  "msg_tree m =
     (if getType m = REQ_MSG
      then TDict [(ascii ''a'', TDict (args_tree m)), (ascii ''q'', TStr (ascii (method_name (getMethod m)))),
        (ascii ''t'', TStr (m_mtid (msg_header m))), (ascii ''y'', TStr (ascii ''q''))]
      else TDict [(ascii ''r'', TDict (args_tree m)), (ascii ''t'', TStr (m_mtid (msg_header m))), (ascii ''y'', TStr (ascii ''r''))])"

text \<open>A call appends bytes to what was written, and a sequence of calls appends the bytes of each.\<close>

definition appends :: "enc_call \<Rightarrow> bytes \<Rightarrow> bool" where
  "appends c b \<longleftrightarrow> (\<forall>out. bo_at_end out \<longrightarrow> bo_data (c out) = bo_data out @ b \<and> bo_at_end (c out))"

lemma appends_calls:
  "appends enc_beginDict [100]" "appends enc_beginList [108]" "appends enc_end [101]"
  "appends (wstr number s) (number (length (ascii s)) @ [58] @ ascii s)" "appends (wraw number d) (number (length d) @ [58] @ d)"
  "appends (warr number d) (number (length d) @ [58] @ d)" "appends (wnum number n) ([105] @ number n @ [101])"
  by (auto simp: appends_def wstr_def wraw_def warr_def wnum_def enc_appends enc_data_append enc_beginList_def bo_write_append)

definition writes :: "enc_call list \<Rightarrow> bytes \<Rightarrow> bool" where
  "writes calls b \<longleftrightarrow> appends (fold (\<lambda>c. c) calls) b"

lemma writes_Cons: "appends c b \<Longrightarrow> writes cs bs \<Longrightarrow> writes (c # cs) (b @ bs)"
  by (auto simp: writes_def appends_def)

lemma writes_append: "writes cs b \<Longrightarrow> writes ds d \<Longrightarrow> writes (cs @ ds) (b @ d)"
  by (auto simp: writes_def appends_def)

lemma writes_Nil: "writes [] []"
  by (simp add: writes_def appends_def)

lemma enc_calls_writes: "writes calls b \<Longrightarrow> enc_calls calls = b"
  by (simp add: writes_def appends_def enc_calls_def bo_at_end_def)

lemmas writes_rules = writes_Cons[OF appends_calls(1)] writes_Cons[OF appends_calls(2)] writes_Cons[OF appends_calls(3)]
  writes_Cons[OF appends_calls(4)] writes_Cons[OF appends_calls(5)] writes_Cons[OF appends_calls(6)] writes_Cons[OF appends_calls(7)] writes_Nil

lemma write_item_appends:
  assumes "is_address (di_addr i)"
  shows "appends (write_item number i) (number (length (item_bytes i)) @ [58] @ item_bytes i)"
proof -
  have "\<exists>tmp b. di_pack i (replicate 18 0) = Some (tmp, b) \<and> take b tmp = item_bytes i"
    using assms by (cases "di_addr i") (auto simp: di_pack_def WriteUint32_def WriteUint16_def memcpy_at_def)
  then show ?thesis by (auto simp: appends_def write_item_def enc_data_append simp del: item_bytes.simps)
qed

lemma writes_items:
  "\<forall>i \<in> set v. is_address (di_addr i) \<Longrightarrow>
   writes (map (write_item number) v) (concat (map (tree_bytes number) (map (\<lambda>i. TStr (item_bytes i)) v)))"
proof (induction v)
  case (Cons i v)
  then have "writes (write_item number i # map (write_item number) v)
      ((number (length (item_bytes i)) @ [58] @ item_bytes i) @ concat (map (tree_bytes number) (map (\<lambda>i. TStr (item_bytes i)) v)))"
    by (intro writes_Cons write_item_appends) auto
  then show ?case by simp
qed (simp add: writes_Nil)

definition entries_bytes :: "(nat \<Rightarrow> bytes) \<Rightarrow> (bytes \<times> btree) list \<Rightarrow> bytes" where
  "entries_bytes number es = concat (map (\<lambda>e. number (length (fst e)) @ [58] @ fst e @ tree_bytes number (snd e)) es)"

lemma writes_nodes: "writes (write_nodes number n) (entries_bytes number (nodes_entries n))"
proof -
  have 1: "writes (if length (pn_nodes n) > 0 then [wstr number ''nodes'', warr number (pn_nodes n)] else [])
      (entries_bytes number (if pn_nodes n \<noteq> [] then [(ascii ''nodes'', TStr (pn_nodes n))] else []))"
    using writes_rules(4)[OF writes_rules(6)[OF writes_Nil]] writes_Nil by (auto simp: entries_bytes_def)
  have 2: "writes (if length (pn_nodes6 n) > 0 then [wstr number ''nodes6'', warr number (pn_nodes6 n)] else [])
      (entries_bytes number (if pn_nodes6 n \<noteq> [] then [(ascii ''nodes6'', TStr (pn_nodes6 n))] else []))"
    using writes_rules(4)[OF writes_rules(6)[OF writes_Nil]] writes_Nil by (auto simp: entries_bytes_def)
  have "entries_bytes number (a @ b) = entries_bytes number a @ entries_bytes number b" for a b by (simp add: entries_bytes_def)
  then show ?thesis unfolding write_nodes_def nodes_entries_def using writes_append[OF 1 2] by simp
qed

lemma enc_calls_eq: "writes calls b \<Longrightarrow> b = b' \<Longrightarrow> enc_calls calls = b'"
  using enc_calls_writes by blast

lemma encode_simple:
  "PingReq_encode number h = tree_bytes number (msg_tree (PingReq h))"
  "FindNodeReq_encode number h t = tree_bytes number (msg_tree (FindNodeReq h t w))"
  "GetPeersReq_encode number h t = tree_bytes number (msg_tree (GetPeersReq h t w))"
  "AnnounceReq_encode number h t p k = tree_bytes number (msg_tree (AnnounceReq h t w p k))"
  "PingRsp_encode number h = tree_bytes number (msg_tree (PingRsp h))"
  "AnnounceRsp_encode number h = tree_bytes number (msg_tree (AnnounceRsp h))"
  unfolding PingReq_encode_def FindNodeReq_encode_def GetPeersReq_encode_def AnnounceReq_encode_def PingRsp_encode_def AnnounceRsp_encode_def
  by (rule enc_calls_eq, (rule writes_rules)+, simp add: msg_tree_def args_tree_def)+

lemma entries_bytes_simps:
  "entries_bytes number [] = []"
  "entries_bytes number (e # es) = (number (length (fst e)) @ [58] @ fst e @ tree_bytes number (snd e)) @ entries_bytes number es"
  "entries_bytes number (es @ fs) = entries_bytes number es @ entries_bytes number fs"
  "tree_bytes number (TDict es) = [100] @ entries_bytes number es @ [101]"
  by (simp_all add: entries_bytes_def)

lemma encode_FindNodeRsp: "FindNodeRsp_encode number h n = tree_bytes number (msg_tree (FindNodeRsp h n))"
  unfolding FindNodeRsp_encode_def
  by (rule enc_calls_eq, rule writes_append, (rule writes_rules)+, rule writes_append, rule writes_nodes, (rule writes_rules)+,
      simp del: tree_bytes.simps(4) add: msg_tree_def args_tree_def entries_bytes_simps)

lemma writes_values:
  assumes "\<forall>i \<in> set v. is_address (di_addr i)"
  shows "writes (if length v > 0 then [wstr number ''values'', enc_beginList] @ map (write_item number) v @ [enc_end] else [])
    (entries_bytes number (if v \<noteq> [] then [(ascii ''values'', TList (map (\<lambda>i. TStr (item_bytes i)) v))] else []))"
proof (cases "v = []")
  case False
  note writes_append[OF writes_rules(4)[OF writes_rules(2)[OF writes_Nil]] writes_append[OF writes_items[OF assms] writes_rules(3)[OF writes_Nil]],
    of number "''values''" number]
  then show ?thesis using False by (simp add: entries_bytes_simps del: item_bytes.simps)
qed (simp add: writes_Nil entries_bytes_def)

lemma encode_GetPeersRsp:
  assumes "\<forall>i \<in> set v. is_address (di_addr i)"
  shows "GetPeersRsp_encode number h n v t = tree_bytes number (msg_tree (GetPeersRsp h n v t))"
  unfolding GetPeersRsp_encode_def
  by (rule enc_calls_eq, rule writes_append, (rule writes_rules)+, rule writes_append, rule writes_nodes, rule writes_append, (rule writes_rules)+,
      rule writes_append, rule writes_values[OF assms], (rule writes_rules)+,
      simp del: tree_bytes.simps(4) item_bytes.simps add: msg_tree_def args_tree_def entries_bytes_simps)

fun addresses_ok :: "RPCMsg \<Rightarrow> bool" where
  "addresses_ok (GetPeersRsp h n v t) = (\<forall>i \<in> set v. is_address (di_addr i))"
| "addresses_ok (ErrMsg h e) = False"
| "addresses_ok _ = True"

lemma msg_encode_tree: "addresses_ok m \<Longrightarrow> msg_encode number m = tree_bytes number (msg_tree m)"
  by (cases m) (simp_all only: addresses_ok.simps msg_encode.simps encode_simple encode_FindNodeRsp encode_GetPeersRsp)

section \<open>What is read\<close>

definition arrived :: "DhtEnv \<Rightarrow> RPCMsg \<Rightarrow> RPCMsg" where
  \<comment> \<open>the message as it arrives: without its origin, and with the items created now\<close>
  "arrived env m = (case map_header (\<lambda>h. h\<lparr>m_origin := Address_null\<rparr>) m of
       FindNodeReq h t w \<Rightarrow> FindNodeReq h t []
     | GetPeersReq h i w \<Rightarrow> GetPeersReq h i []
     | AnnounceReq h i w p t \<Rightarrow> AnnounceReq h i [] p t
     | GetPeersRsp h n v t \<Rightarrow> GetPeersRsp h n (map (\<lambda>i. DBItem_new env (di_addr i)) v) t
     | m' \<Rightarrow> m')"

abbreviation dict_matches :: "(bytes \<times> btree) list \<Rightarrow> bdict \<Rightarrow> bool" where
  "dict_matches es ns \<equiv> list_all2 (\<lambda>e m. fst e = fst m \<and> node_matches (snd e) (snd m)) es ns"

lemma Key_of_bytes_id: "is_key k \<Longrightarrow> Key_of_bytes k = k"
  by (simp add: Key_of_bytes_def)

lemma getByteArray_written:
  "dict_matches es ns \<Longrightarrow> tree_lookup qs es key = Some (TStr s) \<Longrightarrow> getByteArray qs ns key = Return s"
  using getValue_written(2)[of es ns qs key s] by (simp add: getByteArray_def value_bytes_def)

lemma getString_written:
  "dict_matches es ns \<Longrightarrow> tree_lookup qs es key = Some (TStr (ascii s)) \<Longrightarrow> \<forall>s. qs (ascii s) = s \<Longrightarrow> getString qs ns key = Return s"
  using getValue_written(2)[of es ns qs key "ascii s"] by (simp add: getString_def value_bytes_def)

lemma RPCMsg_parse_written:
  assumes "dict_matches es ns" "\<forall>s. qs (ascii s) = s" "is_key nid" "mtid \<noteq> []"
    and "tree_lookup qs es ''t'' = Some (TStr mtid)" "tree_lookup qs es ''y'' = Some (TStr (ascii y))"
    and "getDict qs ns (if y = ''q'' then ''a'' else ''r'') = Some args" "getByteArray qs args ''id'' = Return nid" "y = ''q'' \<or> y = ''r''"
  shows "RPCMsg_parse qs ns = Return \<lparr>m_mtid = mtid, m_id = nid, m_origin = Address_null\<rparr>"
  using getByteArray_written[OF assms(1,5)] getString_written[OF assms(1,6,2)] assms(3,4,7-)
  by (auto simp: RPCMsg_parse_def Let_def Key_of_bytes_id)

lemma read_values_written:
  assumes "\<forall>i \<in> set v. is_address (di_addr i)" "list_all2 node_matches (map (\<lambda>i. TStr (item_bytes i)) v) ns"
  shows "read_values env ns = Return (map (\<lambda>i. DBItem_new env (di_addr i)) v)"
  using assms
proof (induction v arbitrary: ns)
  case (Cons i v)
  then obtain n ms where ns: "ns = n # ms" "node_matches (TStr (item_bytes i)) n" "list_all2 node_matches (map (\<lambda>i. TStr (item_bytes i)) v) ms"
    by (auto simp: list_all2_Cons1 simp del: item_bytes.simps node_matches.simps)
  have "read_item env (item_bytes i) = [DBItem_new env (di_addr i)]"
  proof (cases "di_addr i")
    case (V4 ip port)
    have "ReadUint32 (item_bytes i) 0 = Some ip" by (rule ReadUint32_enc) (simp add: V4 mem_read_def)
    moreover have "ReadUint16 (item_bytes i) 4 = Some port" by (rule ReadUint16_enc) (simp add: V4 mem_read_def)
    ultimately show ?thesis using V4 by (simp add: read_item_def)
  next
    case (V6 ip port)
    then have l: "length ip = 16" using Cons.prems(1) by simp
    have "ReadUint16 (item_bytes i) 16 = Some port" by (rule ReadUint16_enc) (simp add: V6 l mem_read_def)
    then show ?thesis using V6 l by (simp add: read_item_def mem_read_def)
  qed
  moreover obtain off len where "n = BValueNode (VString (item_bytes i)) off len" using node_matchesD(2)[OF ns(2)] by blast
  ultimately show ?case using ns Cons by (simp add: value_bytes_def del: item_bytes.simps)
qed simp

fun msg_sendable :: "RPCMsg \<Rightarrow> bool" where
  \<comment> \<open>what is known of the messages a node writes, and when all their nodes arrive\<close>
  "msg_sendable (FindNodeReq h t w) = is_key t"
| "msg_sendable (GetPeersReq h i w) = is_key i"
| "msg_sendable (AnnounceReq h i w p t) = (is_key i \<and> is_key t)"
| "msg_sendable (FindNodeRsp h n) = (pn_nodes n \<noteq> [] \<and> length (pn_nodes n) < 2 ^ 31 \<and> length (pn_nodes6 n) < 2 ^ 31)"
| "msg_sendable (GetPeersRsp h n v t) =
     ((pn_nodes n \<noteq> [] \<or> pn_nodes6 n = []) \<and> length (pn_nodes n) < 2 ^ 31 \<and> length (pn_nodes6 n) < 2 ^ 31 \<and>
      (\<forall>i \<in> set v. is_address (di_addr i)) \<and> is_key t)"
| "msg_sendable (ErrMsg h e) = False"
| "msg_sendable _ = True"

lemma nodes_written:
  assumes "dict_matches es ns" "\<And>key. key = ''nodes'' \<or> key = ''nodes6'' \<Longrightarrow> tree_lookup qs es key = tree_lookup qs (nodes_entries n) key" "\<forall>s. qs (ascii s) = s"
  shows "getValue qs ns ''nodes'' = (if pn_nodes n \<noteq> [] then Some (VString (pn_nodes n)) else None)"
    "getValue qs ns ''nodes6'' = (if pn_nodes6 n \<noteq> [] then Some (VString (pn_nodes6 n)) else None)"
    "read_nodes qs ns = n"
proof -
  show 1: "getValue qs ns ''nodes'' = (if pn_nodes n \<noteq> [] then Some (VString (pn_nodes n)) else None)"
    using getValue_written(2,3)[OF assms(1), of qs "''nodes''"] assms(2)[of "''nodes''"] assms(3) by (auto simp: nodes_entries_def)
  show 2: "getValue qs ns ''nodes6'' = (if pn_nodes6 n \<noteq> [] then Some (VString (pn_nodes6 n)) else None)"
    using getValue_written(2,3)[OF assms(1), of qs "''nodes6''"] assms(2)[of "''nodes6''"] assms(3) by (auto simp: nodes_entries_def)
  show "read_nodes qs ns = n" unfolding read_nodes_def 1 2 by (cases n) simp
qed

lemma written_header:
  assumes q: "\<forall>s. qs (ascii s) = s" and k: "is_key (m_id (msg_header m))" and t: "m_mtid (msg_header m) \<noteq> []"
    and "node_matches (msg_tree m) v" and ty: "getType m \<noteq> ERR_MSG"
  obtains ns off len args where "v = BDictNode ns off len" "getDict qs ns (if getType m = REQ_MSG then ''a'' else ''r'') = Some args"
    "dict_matches (args_tree m) args" "RPCMsg_parse qs ns = Return \<lparr>m_mtid = m_mtid (msg_header m), m_id = m_id (msg_header m), m_origin = Address_null\<rparr>"
    "getString qs ns ''y'' = Return (if getType m = REQ_MSG then ''q'' else ''r'')" "getByteArray qs ns ''t'' = Return (m_mtid (msg_header m))"
    "getType m = REQ_MSG \<longrightarrow> getString qs ns ''q'' = Return (method_name (getMethod m))"
proof -
  define es where "es = (if getType m = REQ_MSG
    then [(ascii ''a'', TDict (args_tree m)), (ascii ''q'', TStr (ascii (method_name (getMethod m)))),
        (ascii ''t'', TStr (m_mtid (msg_header m))), (ascii ''y'', TStr (ascii ''q''))]
    else [(ascii ''r'', TDict (args_tree m)), (ascii ''t'', TStr (m_mtid (msg_header m))), (ascii ''y'', TStr (ascii ''r''))])"
  have tr: "msg_tree m = TDict es" by (simp add: msg_tree_def es_def)
  obtain ns off len where v: "v = BDictNode ns off len" "dict_matches es ns" using node_matches_dictD assms(4) unfolding tr by blast
  have lk: "tree_lookup qs es (if getType m = REQ_MSG then ''a'' else ''r'') = Some (TDict (args_tree m))"
    "tree_lookup qs es ''t'' = Some (TStr (m_mtid (msg_header m)))"
    "tree_lookup qs es ''y'' = Some (TStr (ascii (if getType m = REQ_MSG then ''q'' else ''r'')))"
    "getType m = REQ_MSG \<Longrightarrow> tree_lookup qs es ''q'' = Some (TStr (ascii (method_name (getMethod m))))"
    using q by (simp_all add: es_def)
  obtain args where a: "getDict qs ns (if getType m = REQ_MSG then ''a'' else ''r'') = Some args" "dict_matches (args_tree m) args"
    using getValue_written(4)[OF v(2) lk(1)] by blast
  have "tree_lookup qs (args_tree m) ''id'' = Some (TStr (m_id (msg_header m)))" using q by (simp add: args_tree_def)
  note i = getByteArray_written[OF a(2) this]
  have p: "RPCMsg_parse qs ns = Return \<lparr>m_mtid = m_mtid (msg_header m), m_id = m_id (msg_header m), m_origin = Address_null\<rparr>"
    by (rule RPCMsg_parse_written[OF v(2) q k t lk(2,3) _ i]) (use a(1) in \<open>cases "getType m = REQ_MSG"; simp\<close>)+
  show thesis
    by (rule that[OF v(1) a p getString_written[OF v(2) lk(3) q] getByteArray_written[OF v(2) lk(2)]])
      (intro impI getString_written[OF v(2) lk(4) q])
qed

lemma header_eta: "map_header (\<lambda>h. h\<lparr>m_origin := Address_null\<rparr>) (PingReq h) = PingReq \<lparr>m_mtid = m_mtid h, m_id = m_id h, m_origin = Address_null\<rparr>"
  "h\<lparr>m_origin := Address_null\<rparr> = \<lparr>m_mtid = m_mtid h, m_id = m_id h, m_origin = Address_null\<rparr>"
  by (cases h; simp)+

lemma build_request:
  assumes q: "\<forall>s. qs (ascii s) = s" and "is_key (m_id (msg_header m))" "m_mtid (msg_header m) \<noteq> []"
    and m: "node_matches (msg_tree m) v" and s: "msg_sendable m" and ty: "getType m = REQ_MSG"
  obtains ns off len where "v = BDictNode ns off len" "msg_build env qs fm ns = Return (Some (arrived env m))"
proof -
  obtain ns off len args where h0: "v = BDictNode ns off len" "getDict qs ns (if getType m = REQ_MSG then ''a'' else ''r'') = Some args"
    "dict_matches (args_tree m) args" "RPCMsg_parse qs ns = Return \<lparr>m_mtid = m_mtid (msg_header m), m_id = m_id (msg_header m), m_origin = Address_null\<rparr>"
    "getString qs ns ''y'' = Return (if getType m = REQ_MSG then ''q'' else ''r'')" "getByteArray qs ns ''t'' = Return (m_mtid (msg_header m))"
    "getType m = REQ_MSG \<longrightarrow> getString qs ns ''q'' = Return (method_name (getMethod m))"
    by (rule written_header[OF assms(1-4)], use ty in simp, rule that, assumption+)
  have h: "v = BDictNode ns off len" "getDict qs ns ''a'' = Some args"
    "dict_matches (args_tree m) args" "RPCMsg_parse qs ns = Return \<lparr>m_mtid = m_mtid (msg_header m), m_id = m_id (msg_header m), m_origin = Address_null\<rparr>"
    "getString qs ns ''y'' = Return ''q''" "getString qs ns ''q'' = Return (method_name (getMethod m))"
    using h0 ty by (simp_all only: if_True simp_thms)
  note b = getByteArray_written[OF h(3)]
  have w: "parse_want qs args = Return []"
    using getValue_written(6)[OF h(3), of qs "''want''"] q ty by (cases m) (auto simp: parse_want_def args_tree_def)
  have "msg_build env qs fm ns = Return (Some (arrived env m))"
  proof (cases m)
    case (FindNodeReq hd t wt)
    have "getByteArray qs args ''target'' = Return t" by (rule b) (simp add: FindNodeReq args_tree_def q)
    then show ?thesis using h w s FindNodeReq
      by (simp add: msg_build_def buildRequest_def FindNodeReq_parse_def need_dict_def arrived_def Key_of_bytes_id header_eta)
  next
    case (GetPeersReq hd t wt)
    have "getByteArray qs args ''info_hash'' = Return t" by (rule b) (simp add: GetPeersReq args_tree_def q)
    then show ?thesis using h w s GetPeersReq
      by (simp add: msg_build_def buildRequest_def GetPeersReq_parse_def need_dict_def arrived_def Key_of_bytes_id header_eta)
  next
    case (AnnounceReq hd t wt p tok)
    have "getByteArray qs args ''info_hash'' = Return t" by (rule b) (simp add: AnnounceReq args_tree_def q)
    moreover have "getByteArray qs args ''token'' = Return tok" by (rule b) (simp add: AnnounceReq args_tree_def q)
    moreover have "getValue qs args ''port'' = Some (VInt (int (unat p)))"
    proof (rule getValue_written(1)[OF h(3)])
      show "unat p < 2 ^ 31" using unsigned_less[of p, where ?'a = nat] by simp
    qed (simp add: AnnounceReq args_tree_def q)
    moreover have "(word_of_int (int (unat p)) :: u16) = p" by simp
    ultimately show ?thesis using h w s AnnounceReq
      by (simp add: msg_build_def buildRequest_def AnnounceReq_parse_def GetPeersReq_parse_def need_dict_def arrived_def Key_of_bytes_id
          header_eta getInt_def value_int_def)
  qed (use h ty in \<open>simp_all add: msg_build_def buildRequest_def arrived_def header_eta\<close>)
  then show thesis using that h(1) by blast
qed

lemma build_response:
  assumes q: "\<forall>s. qs (ascii s) = s" and "is_key (m_id (msg_header m))" "m_mtid (msg_header m) \<noteq> []"
    and m: "node_matches (msg_tree m) v" and s: "msg_sendable m" and ty: "getType m = RSP_MSG" and f: "fm (m_mtid (msg_header m)) = getMethod m"
  obtains ns off len where "v = BDictNode ns off len" "msg_build env qs fm ns = Return (Some (arrived env m))"
proof -
  obtain ns off len args where h0: "v = BDictNode ns off len" "getDict qs ns (if getType m = REQ_MSG then ''a'' else ''r'') = Some args"
    "dict_matches (args_tree m) args" "RPCMsg_parse qs ns = Return \<lparr>m_mtid = m_mtid (msg_header m), m_id = m_id (msg_header m), m_origin = Address_null\<rparr>"
    "getString qs ns ''y'' = Return (if getType m = REQ_MSG then ''q'' else ''r'')" "getByteArray qs ns ''t'' = Return (m_mtid (msg_header m))"
    "getType m = REQ_MSG \<longrightarrow> getString qs ns ''q'' = Return (method_name (getMethod m))"
    by (rule written_header[OF assms(1-4)], use ty in simp, rule that, assumption+)
  have h: "v = BDictNode ns off len" "getDict qs ns ''r'' = Some args"
    "dict_matches (args_tree m) args" "RPCMsg_parse qs ns = Return \<lparr>m_mtid = m_mtid (msg_header m), m_id = m_id (msg_header m), m_origin = Address_null\<rparr>"
    "getString qs ns ''y'' = Return ''r''" "getByteArray qs ns ''t'' = Return (m_mtid (msg_header m))"
    using h0 ty by (simp_all only: MsgType.distinct if_False)
  have "msg_build env qs fm ns = Return (Some (arrived env m))"
  proof (cases m)
    case (FindNodeRsp hd n)
    have "tree_lookup qs (args_tree m) key = tree_lookup qs (nodes_entries n) key" if "key = ''nodes'' \<or> key = ''nodes6''" for key
      using that q by (auto simp: FindNodeRsp args_tree_def)
    note n = nodes_written[OF h(3) this q]
    show ?thesis using h s FindNodeRsp n f assms(3)
      by (simp add: msg_build_def buildResponse_def FindNodeRsp_parse_def need_dict_def arrived_def header_eta)
  next
    case (GetPeersRsp hd n its tok)
    have ap: "tree_lookup qs (a @ b) key = (case tree_lookup qs a key of None \<Rightarrow> tree_lookup qs b key | Some x \<Rightarrow> Some x)" for a b key
      by (induction a) auto
    have nn: "tree_lookup qs (nodes_entries n) key = None" if "key \<noteq> ''nodes''" "key \<noteq> ''nodes6''" for key
      using that q by (simp add: nodes_entries_def)
    have "tree_lookup qs (args_tree m) key = tree_lookup qs (nodes_entries n) key" if "key = ''nodes'' \<or> key = ''nodes6''" for key
      using that q by (auto simp: GetPeersRsp args_tree_def ap split: option.split)
    note n = nodes_written[OF h(3) this q]
    have t: "getByteArray qs args ''token'' = Return tok"
      by (rule getByteArray_written[OF h(3)]) (simp add: GetPeersRsp args_tree_def ap nn q)
    have lv: "tree_lookup qs (args_tree m) ''values'' = (if its \<noteq> [] then Some (TList (map (\<lambda>i. TStr (item_bytes i)) its)) else None)"
      by (simp add: GetPeersRsp args_tree_def ap nn q del: item_bytes.simps)
    have vs: "(case getList qs args ''values'' of None \<Rightarrow> Return [] | Some vals \<Rightarrow> read_values env vals) = Return (map (\<lambda>i. DBItem_new env (di_addr i)) its)"
    proof (cases "its = []")
      case True
      then show ?thesis using getValue_written(6)[OF h(3), of qs "''values''"] lv by simp
    next
      case False
      then obtain vns where "getList qs args ''values'' = Some vns" "list_all2 node_matches (map (\<lambda>i. TStr (item_bytes i)) its) vns"
        using getValue_written(5)[OF h(3), of qs "''values''"] lv by auto
      then show ?thesis using read_values_written[of its vns env] s GetPeersRsp by simp
    qed
    have "(if getValue qs args ''nodes'' \<noteq> None \<or> getList qs args ''nodes6'' \<noteq> None then read_nodes qs args else PackedNodeContainer_new) = n"
      using n s GetPeersRsp by (cases n) (auto simp: PackedNodeContainer_new_def)
    then show ?thesis using h s GetPeersRsp t vs f assms(3)
      by (simp add: msg_build_def buildResponse_def GetPeersRsp_parse_def need_dict_def arrived_def Key_of_bytes_id header_eta)
  qed (use h ty f assms(3) in \<open>simp_all add: msg_build_def buildResponse_def AnnounceRsp_parse_def need_dict_def arrived_def header_eta\<close>)
  then show thesis using that h(1) by blast
qed

lemma msg_tree_ok:
  assumes "msg_sendable m" "is_key (m_id (msg_header m))" "length (m_mtid (msg_header m)) < 2 ^ 31"
  shows "tree_ok (msg_tree m)"
proof -
  have i: "length (item_bytes i) < 2 ^ 31" if "is_address (di_addr i)" for i using that by (cases "di_addr i") simp_all
  have a: "length (ascii s) = length s" for s by (simp add: ascii_def)
  have p: "unat (p :: u16) < 2 ^ 63" for p using unsigned_less[of p, where ?'a = nat] by simp
  have "length (method_name (getMethod m)) < 2 ^ 31" by (cases "getMethod m") simp_all
  moreover have "\<forall>e \<in> set (args_tree m). length (fst e) < 2 ^ 31 \<and> tree_ok (snd e)"
    using assms i p by (cases m) (auto simp: args_tree_def nodes_entries_def a simp del: item_bytes.simps)
  ultimately show ?thesis using assms(3) by (simp add: msg_tree_def a)
qed

text \<open>
  C15. What a node sends, the node that receives it reads: a request or response written by \<open>encode\<close> is decoded and built, by the class that the request of
  the same transaction selects, into the message that was sent, with its identity, target, token, packed nodes and peers. For the nodes
  this needs an IPv4 node among them: a response to \<open>find_node\<close> without IPv4 nodes is thrown away.
\<close>

theorem RPCMsg_roundtrip:
  assumes "qt_numbers toInt toLongLong number" "\<forall>s. qs (ascii s) = s"
    and "is_key (m_id (msg_header m))" "m_mtid (msg_header m) \<noteq> []" "length (m_mtid (msg_header m)) < 2 ^ 31"
    and "getType m = RSP_MSG \<Longrightarrow> findMethod (m_mtid (msg_header m)) = getMethod m" "msg_sendable m"
  shows "\<exists>ns off len pos. decode toInt toLongLong (msg_encode number m) 0 = Return (Some (BDictNode ns off len), pos) \<and>
    msg_build env qs findMethod ns = Return (Some (arrived env m))"
proof -
  have ok: "addresses_ok m" using assms(7) by (cases m) simp_all
  have "drop 0 (msg_encode number m) = tree_bytes number (msg_tree m)" using msg_encode_tree[OF ok] by simp
  from decode_tree[OF assms(1) msg_tree_ok[OF assms(7,3,5)] this] obtain v
    where v: "decode toInt toLongLong (msg_encode number m) 0 = Return (Some v, 0 + length (tree_bytes number (msg_tree m)))" "node_matches (msg_tree m) v" .
  obtain ns off len where "v = BDictNode ns off len" "msg_build env qs findMethod ns = Return (Some (arrived env m))"
  proof (cases "getType m")
    case REQ_MSG
    show thesis by (rule build_request[OF assms(2-4) v(2) assms(7) REQ_MSG]) (rule that)
  next
    case RSP_MSG
    show thesis by (rule build_response[OF assms(2-4) v(2) assms(7) RSP_MSG, where fm = findMethod]) (rule assms(6)[OF RSP_MSG], rule that)
  next
    case ERR_MSG
    then show thesis using assms(7) by (cases m) simp_all
  qed
  then show ?thesis using v(1) by blast
qed

theorem RPCMsg_roundtrip_witness:
  "let m = FindNodeRsp \<lparr>m_mtid = [5], m_id = key_max, m_origin = V4 1 2\<rparr> \<lparr>pn_nodes = [1, 2], pn_nodes6 = []\<rparr>;
       env = \<lparr>de_now = 0, de_doCall = (\<lambda>_. True)\<rparr>
   in \<exists>ns off len pos. decode (dec_parse (2 ^ 31)) (dec_parse (2 ^ 63)) (msg_encode dec_number m) 0 = Return (Some (BDictNode ns off len), pos) \<and>
     msg_build env (map (\<lambda>b. char_of (unat b))) (\<lambda>_. FIND_NODE) ns = Return (Some (arrived env m))"
  unfolding Let_def
  by (rule RPCMsg_roundtrip[OF dec.qt_numbers_axioms]) (simp_all add: ascii_qstring key_bounds(2))

text \<open>
  C37. A response to \<open>find_node\<close> whose nodes are all IPv6, or that has no nodes, is never accepted by the class that reads it, whatever the header says:
  the presence of \<open>nodes6\<close> is tested with \<open>getList\<close>, but a node writes a byte array.
\<close>

theorem FindNodeRsp_needs_ipv4:
  assumes "qt_numbers toInt toLongLong number" "\<forall>s. qs (ascii s) = s"
    and "is_key (m_id h)" "m_mtid h \<noteq> []" "length (m_mtid h) < 2 ^ 31" "length (pn_nodes6 n) < 2 ^ 31"
    and "findMethod (m_mtid h) = FIND_NODE" "pn_nodes n = []"
  shows "\<exists>ns off len pos. decode toInt toLongLong (msg_encode number (FindNodeRsp h n)) 0 = Return (Some (BDictNode ns off len), pos) \<and>
    msg_build env qs findMethod ns = Throw ''Missing nodes or nodes6 parameter''"
proof -
  let ?m = "FindNodeRsp h n"
  have "drop 0 (msg_encode number ?m) = tree_bytes number (msg_tree ?m)" using msg_encode_tree[of ?m] by simp
  moreover have "tree_ok (msg_tree ?m)"
    using assms by (auto simp: msg_tree_def args_tree_def nodes_entries_def ascii_def)
  ultimately obtain v
    where v: "decode toInt toLongLong (msg_encode number ?m) 0 = Return (Some v, 0 + length (tree_bytes number (msg_tree ?m)))" "node_matches (msg_tree ?m) v"
    using decode_tree[OF assms(1)] by blast
  obtain ns off len args where b: "v = BDictNode ns off len" "getDict qs ns (if getType ?m = REQ_MSG then ''a'' else ''r'') = Some args"
    "dict_matches (args_tree ?m) args" "RPCMsg_parse qs ns = Return \<lparr>m_mtid = m_mtid (msg_header ?m), m_id = m_id (msg_header ?m), m_origin = Address_null\<rparr>"
    "getString qs ns ''y'' = Return (if getType ?m = REQ_MSG then ''q'' else ''r'')" "getByteArray qs ns ''t'' = Return (m_mtid (msg_header ?m))"
    by (rule written_header[OF assms(2) _ _ v(2)], use assms in simp, use assms in simp, simp, rule that, assumption+)
  have "tree_lookup qs (args_tree ?m) key = tree_lookup qs (nodes_entries n) key" if "key = ''nodes'' \<or> key = ''nodes6''" for key
    using that assms(2) by (auto simp: args_tree_def)
  note w = nodes_written[OF b(3) this assms(2)]
  have "getList qs args ''nodes6'' = None"
    using w(2) getValue_written(6)[OF b(3), of qs "''nodes6''"] assms(2,8)
    by (cases "getData qs args ''nodes6''" rule: as_value.cases) (auto simp: getValue_def getList_def args_tree_def nodes_entries_def split: if_splits)
  then have "msg_build env qs findMethod ns = Throw ''Missing nodes or nodes6 parameter''"
    using b w assms by (simp add: msg_build_def buildResponse_def FindNodeRsp_parse_def need_dict_def)
  then show ?thesis using v(1) b(1) by blast
qed

theorem FindNodeRsp_needs_ipv4_witness:
  "let m = FindNodeRsp \<lparr>m_mtid = [5], m_id = key_max, m_origin = V4 1 2\<rparr> \<lparr>pn_nodes = [], pn_nodes6 = replicate 38 1\<rparr>;
       env = \<lparr>de_now = 0, de_doCall = (\<lambda>_. True)\<rparr>
   in \<exists>ns off len pos. decode (dec_parse (2 ^ 31)) (dec_parse (2 ^ 63)) (msg_encode dec_number m) 0 = Return (Some (BDictNode ns off len), pos) \<and>
     msg_build env (map (\<lambda>b. char_of (unat b))) (\<lambda>_. FIND_NODE) ns = Throw ''Missing nodes or nodes6 parameter''"
  unfolding Let_def
  by (rule FindNodeRsp_needs_ipv4[OF dec.qt_numbers_axioms]) (simp_all add: ascii_qstring key_bounds(2))

end
