(* ===== verification/Dht_Task.thy ===== *)
theory Dht_Task
  imports Dht_Message
begin

text \<open>
  The tasks of the DHT: \<open>src/dht/task.cpp\<close> with its two subclasses, the lookup of nodes (\<open>src/dht/nodelookup.cpp\<close>) and the announcement of a torrent
  (\<open>src/dht/announcetask.cpp\<close>). A task is a record that the records of the subclasses extend; the methods that a subclass overrides are
  arguments of the operations of the base class. \<open>tk_calls\<close> holds the requests given to \<open>RPCServer::doCall\<close>, which always returns a call; the answer to a
  call or its timeout is a step of a run.

  The locale \<open>task_kind\<close> is what the base class relies on in its subclasses; from it follows, for both, that no more than 16 requests are outstanding, that the number
  of requests is bounded, that a started task is never stuck and that it ends once its requests have ended.
\<close>

section \<open>Task\<close>

definition MAX_CONCURRENT_REQS :: nat where
  "MAX_CONCURRENT_REQS = 16"

record Task =
  tk_todo :: "KBucketEntry list"
  tk_visited :: "KBucketEntry list"
  tk_outstanding :: nat
  tk_finished :: bool
  tk_queued :: bool
  tk_calls :: "RPCMsg list"

definition kes_contains :: "KBucketEntry \<Rightarrow> KBucketEntry list \<Rightarrow> bool" where
  "kes_contains e s = ord_contains ke_id (ke_id e) s"

definition kes_insert :: "KBucketEntry \<Rightarrow> KBucketEntry list \<Rightarrow> KBucketEntry list" where
  "kes_insert e s = ord_insert ke_id e s"

definition canDoRequest :: "'a Task_scheme \<Rightarrow> bool" where
  "canDoRequest t \<longleftrightarrow> tk_outstanding t < MAX_CONCURRENT_REQS"

definition rpcCall :: "RPCMsg \<Rightarrow> 'a Task_scheme \<Rightarrow> bool \<times> 'a Task_scheme" where
  "rpcCall req t =
     (if \<not> canDoRequest t then (False, t)
      else (True, t\<lparr>tk_outstanding := add32 (tk_outstanding t) 1, tk_calls := tk_calls t @ [req]\<rparr>))"

definition task_done :: "'a Task_scheme \<Rightarrow> 'a Task_scheme" where
  "task_done t = t\<lparr>tk_finished := True\<rparr>"

definition task_kill :: "'a Task_scheme \<Rightarrow> 'a Task_scheme" where
  "task_kill t = t\<lparr>tk_finished := True\<rparr>"

definition Task_fill :: "KClosestNodesSearch \<Rightarrow> bool \<Rightarrow> 'a Task_scheme \<Rightarrow> 'a Task_scheme" where
  "Task_fill kns queued t = t\<lparr>tk_todo := fold kes_insert (map snd (ks_emap kns)) (tk_todo t), tk_queued := queued\<rparr>"

definition Task_start :: "('a Task_scheme \<Rightarrow> 'a Task_scheme) \<Rightarrow> KClosestNodesSearch \<Rightarrow> bool \<Rightarrow> 'a Task_scheme \<Rightarrow> 'a Task_scheme" where
  "Task_start update kns queued t = (let t' = Task_fill kns queued t in if \<not> queued then update t' else t')"

definition Task_start_queued :: "('a Task_scheme \<Rightarrow> 'a Task_scheme) \<Rightarrow> 'a Task_scheme \<Rightarrow> 'a Task_scheme" where
  "Task_start_queued update t = (if tk_queued t then update (t\<lparr>tk_queued := False\<rparr>) else t)"

definition Task_ended :: "'a Task_scheme \<Rightarrow> 'a Task_scheme" where
  "Task_ended t = (if tk_outstanding t > 0 then t\<lparr>tk_outstanding := tk_outstanding t - 1\<rparr> else t)"

definition Task_onResponse :: "('m \<Rightarrow> 'a Task_scheme \<Rightarrow> 'a Task_scheme) \<Rightarrow> ('a Task_scheme \<Rightarrow> 'a Task_scheme) \<Rightarrow> 'm \<Rightarrow> 'a Task_scheme \<Rightarrow> 'a Task_scheme" where
  "Task_onResponse callFinished update m t =
     (let t1 = Task_ended t in
      if \<not> tk_finished t1
      then let t2 = callFinished m t1 in if canDoRequest t2 \<and> \<not> tk_finished t2 then update t2 else t2
      else t1)"

definition Task_onTimeout :: "('a Task_scheme \<Rightarrow> 'a Task_scheme) \<Rightarrow> ('a Task_scheme \<Rightarrow> 'a Task_scheme) \<Rightarrow> 'a Task_scheme \<Rightarrow> 'a Task_scheme" where
  "Task_onTimeout callTimeout update t =
     (let t1 = Task_ended t in
      if \<not> tk_finished t1
      then let t2 = callTimeout t1 in if canDoRequest t2 \<and> \<not> tk_finished t2 then update t2 else t2
      else t1)"

definition addDHTNode :: "DhtEnv \<Rightarrow> Address \<Rightarrow> 'a Task_scheme \<Rightarrow> 'a Task_scheme" where
  \<comment> \<open>for an address, given as such or found by the resolver; the identity is the null key\<close>
  "addDHTNode env addr t = t\<lparr>tk_todo := kes_insert (KBucketEntry_new env addr key_min) (tk_todo t)\<rparr>"

section \<open>Looking up a node\<close>

record NodeLookup = Task +
  nl_node_id :: Key
  nl_our_id :: Key
  nl_num_nodes_rsp :: nat

definition NodeLookup_new :: "Key \<Rightarrow> Key \<Rightarrow> NodeLookup" where
  "NodeLookup_new our_id key =
     \<lparr>tk_todo = [], tk_visited = [], tk_outstanding = 0, tk_finished = False, tk_queued = True, tk_calls = [],
      nl_node_id = key, nl_our_id = our_id, nl_num_nodes_rsp = 0\<rparr>"

definition nl_node :: "DhtEnv \<Rightarrow> bytes \<Rightarrow> nat \<Rightarrow> nat \<Rightarrow> NodeLookup \<Rightarrow> NodeLookup" where
  "nl_node env nodes ip_version j t =
     (case UnpackBucketEntry env nodes (u32 (j * (if ip_version = 4 then 26 else 38))) ip_version of
        Inl _ \<Rightarrow> t
      | Inr e \<Rightarrow> if ke_id e \<noteq> nl_our_id t \<and> \<not> kes_contains e (tk_todo t) \<and> \<not> kes_contains e (tk_visited t)
                 then t\<lparr>tk_todo := kes_insert e (tk_todo t)\<rparr> else t)"

definition NodeLookup_handleNodes :: "DhtEnv \<Rightarrow> bytes \<Rightarrow> nat \<Rightarrow> NodeLookup \<Rightarrow> NodeLookup" where
  "NodeLookup_handleNodes env nodes ip_version t =
     fold (nl_node env nodes ip_version) [0..<length nodes div (if ip_version = 4 then 26 else 38)] t"

definition NodeLookup_callFinished :: "DhtEnv \<Rightarrow> RPCMsg \<Rightarrow> NodeLookup \<Rightarrow> NodeLookup" where
  "NodeLookup_callFinished env rsp t =
     (if tk_finished t then t
      else if getMethod rsp = FIND_NODE \<and> getType rsp = RSP_MSG then
        case rsp of
          FindNodeRsp _ n \<Rightarrow>
            let t1 = (if length (pn_nodes n) > 0 then NodeLookup_handleNodes env (pn_nodes n) 4 t else t);
                t2 = (if length (pn_nodes6 n) > 0 then NodeLookup_handleNodes env (pn_nodes6 n) 6 t1 else t1)
            in t2\<lparr>nl_num_nodes_rsp := add32 (nl_num_nodes_rsp t2) 1\<rparr>
        | _ \<Rightarrow> t
      else t)"

definition NodeLookup_callTimeout :: "NodeLookup \<Rightarrow> NodeLookup" where
  "NodeLookup_callTimeout t = t"

fun lookup_loop :: "KBucketEntry list \<Rightarrow> NodeLookup \<Rightarrow> NodeLookup" where
  "lookup_loop [] t = t\<lparr>tk_todo := []\<rparr>"
| "lookup_loop (e # es) t =
     (if canDoRequest t then
        lookup_loop es
          (if \<not> kes_contains e (tk_visited t)
           then let t' = snd (rpcCall (FindNodeReq \<lparr>m_mtid = [], m_id = nl_our_id t, m_origin = ke_addr e\<rparr> (nl_node_id t) []) t)
                in t'\<lparr>tk_visited := kes_insert e (tk_visited t')\<rparr>
           else t)
      else t\<lparr>tk_todo := e # es\<rparr>)"

definition NodeLookup_update :: "NodeLookup \<Rightarrow> NodeLookup" where
  "NodeLookup_update t =
     (let t = lookup_loop (tk_todo t) t in
      if tk_todo t = [] \<and> tk_outstanding t = 0 \<and> \<not> tk_finished t then task_done t
      else if length (tk_visited t) > 200 then task_done t
      else t)"

section \<open>Announcing a torrent\<close>

record AnnounceTask = Task +
  at_info_hash :: Key
  at_port :: u16
  at_our_id :: Key
  at_answered :: "(KBucketEntry \<times> Key) list"
  at_answered_visited :: "KBucketEntry list"
  at_db :: Database
  at_returned_items :: "DBItem list"
  at_data_ready :: nat

definition AnnounceTask_new :: "Key \<Rightarrow> Database \<Rightarrow> Key \<Rightarrow> u16 \<Rightarrow> AnnounceTask" where
  "AnnounceTask_new our_id db info_hash port =
     \<lparr>tk_todo = [], tk_visited = [], tk_outstanding = 0, tk_finished = False, tk_queued = True, tk_calls = [],
      at_info_hash = info_hash, at_port = port, at_our_id = our_id, at_answered = [], at_answered_visited = [],
      at_db = db, at_returned_items = [], at_data_ready = 0\<rparr>"

definition at_node :: "DhtEnv \<Rightarrow> bytes \<Rightarrow> nat \<Rightarrow> nat \<Rightarrow> AnnounceTask \<Rightarrow> AnnounceTask" where
  "at_node env nodes ip_version j t =
     (case UnpackBucketEntry env nodes (u32 (j * (if ip_version = 4 then 26 else 38))) ip_version of
        Inl _ \<Rightarrow> t
      | Inr e \<Rightarrow> if \<not> kes_contains e (tk_visited t) \<and> length (tk_todo t) < 100
                 then t\<lparr>tk_todo := kes_insert e (tk_todo t)\<rparr> else t)"

definition AnnounceTask_handleNodes :: "DhtEnv \<Rightarrow> bytes \<Rightarrow> nat \<Rightarrow> AnnounceTask \<Rightarrow> AnnounceTask" where
  "AnnounceTask_handleNodes env nodes ip_version t =
     fold (at_node env nodes ip_version) [0..<length nodes div (if ip_version = 4 then 26 else 38)] t"

definition store_items :: "DBItem list \<Rightarrow> AnnounceTask \<Rightarrow> AnnounceTask" where
  "store_items = fold (\<lambda>i t. t\<lparr>at_db := db_store (at_info_hash t) i (at_db t), at_returned_items := at_returned_items t @ [i]\<rparr>)"

definition AnnounceTask_callFinished :: "DhtEnv \<Rightarrow> Method \<times> RPCMsg \<Rightarrow> AnnounceTask \<Rightarrow> AnnounceTask" where
  \<comment> \<open>the method of the call and the response to it\<close>
  "AnnounceTask_callFinished env c t =
     (if fst c \<noteq> GET_PEERS then t
      else case snd c of
        GetPeersRsp h n items token \<Rightarrow>
          let t1 = (if length (pn_nodes n) > 0 then AnnounceTask_handleNodes env (pn_nodes n) 4 t else t);
              t2 = (if length (pn_nodes6 n) > 0 then AnnounceTask_handleNodes env (pn_nodes6 n) 6 t1 else t1);
              t3 = store_items items t2;
              t4 = (if length items > 0 then t3\<lparr>at_data_ready := Suc (at_data_ready t3)\<rparr> else t3);
              e = KBucketEntry_new env (m_origin h) (m_id h)
          in if \<not> kes_contains e (at_answered_visited t4)
             then t4\<lparr>at_answered := ord_insert (\<lambda>x. ke_id (fst x)) (e, token) (at_answered t4)\<rparr> else t4
      | _ \<Rightarrow> t)"

definition AnnounceTask_callTimeout :: "AnnounceTask \<Rightarrow> AnnounceTask" where
  "AnnounceTask_callTimeout t = t"

fun answered_loop :: "(KBucketEntry \<times> Key) list \<Rightarrow> AnnounceTask \<Rightarrow> AnnounceTask" where
  "answered_loop [] t = t\<lparr>at_answered := []\<rparr>"
| "answered_loop (e # es) t =
     (if canDoRequest t then
        answered_loop es
          (if \<not> kes_contains (fst e) (at_answered_visited t)
           then let t' = snd (rpcCall (AnnounceReq \<lparr>m_mtid = [], m_id = at_our_id t, m_origin = ke_addr (fst e)\<rparr> (at_info_hash t) [] (at_port t) (snd e)) t)
                in t'\<lparr>at_answered_visited := kes_insert (fst e) (at_answered_visited t')\<rparr>
           else t)
      else t\<lparr>at_answered := e # es\<rparr>)"

fun peers_loop :: "KBucketEntry list \<Rightarrow> AnnounceTask \<Rightarrow> AnnounceTask" where
  "peers_loop [] t = t\<lparr>tk_todo := []\<rparr>"
| "peers_loop (e # es) t =
     (if canDoRequest t then
        peers_loop es
          (if \<not> kes_contains e (tk_visited t)
           then let t' = snd (rpcCall (GetPeersReq \<lparr>m_mtid = [], m_id = at_our_id t, m_origin = ke_addr e\<rparr> (at_info_hash t) []) t)
                in t'\<lparr>tk_visited := kes_insert e (tk_visited t')\<rparr>
           else t)
      else t\<lparr>tk_todo := e # es\<rparr>)"

definition AnnounceTask_update :: "AnnounceTask \<Rightarrow> AnnounceTask" where
  "AnnounceTask_update t =
     (let t = answered_loop (at_answered t) t; t = peers_loop (tk_todo t) t in
      if tk_todo t = [] \<and> at_answered t = [] \<and> tk_outstanding t = 0 \<and> \<not> tk_finished t then task_done t
      else if length (at_answered_visited t) > 50 \<or> length (tk_visited t) > 200 then task_done t
      else t)"

definition takeItem :: "AnnounceTask \<Rightarrow> DBItem option \<times> AnnounceTask" where
  "takeItem t = (case at_returned_items t of [] \<Rightarrow> (None, t) | i # is \<Rightarrow> (Some i, t\<lparr>at_returned_items := is\<rparr>))"

section \<open>Runs of a task\<close>

text \<open>
  A run of a task from its start, with the number of its calls that have ended; \<open>m\<close> is what a response brings, of which \<open>good\<close> holds. A response or a
  timeout comes for a call that is outstanding.
\<close>

inductive task_run :: "('m \<Rightarrow> bool) \<Rightarrow> ('m \<Rightarrow> 'a Task_scheme \<Rightarrow> 'a Task_scheme) \<Rightarrow> ('a Task_scheme \<Rightarrow> 'a Task_scheme) \<Rightarrow> ('a Task_scheme \<Rightarrow> 'a Task_scheme) \<Rightarrow>
    KClosestNodesSearch \<Rightarrow> 'a Task_scheme \<Rightarrow> nat \<Rightarrow> 'a Task_scheme \<Rightarrow> bool"
  for good callFinished callTimeout update kns t0 where
  run_begin: "task_run good callFinished callTimeout update kns t0 0 (Task_start update kns q t0)"
| run_start: "task_run good callFinished callTimeout update kns t0 n t \<Longrightarrow> task_run good callFinished callTimeout update kns t0 n (Task_start_queued update t)"
| run_response: "\<lbrakk>task_run good callFinished callTimeout update kns t0 n t; 0 < tk_outstanding t; good m\<rbrakk> \<Longrightarrow>
    task_run good callFinished callTimeout update kns t0 (Suc n) (Task_onResponse callFinished update m t)"
| run_timeout: "\<lbrakk>task_run good callFinished callTimeout update kns t0 n t; 0 < tk_outstanding t\<rbrakk> \<Longrightarrow>
    task_run good callFinished callTimeout update kns t0 (Suc n) (Task_onTimeout callTimeout update t)"
| run_kill: "task_run good callFinished callTimeout update kns t0 n t \<Longrightarrow> task_run good callFinished callTimeout update kns t0 n (task_kill t)"
| run_add: "task_run good callFinished callTimeout update kns t0 n t \<Longrightarrow> task_run good callFinished callTimeout update kns t0 n (addDHTNode env addr t)"

section \<open>What the base class relies on\<close>

locale task_kind =
  fixes good :: "'m \<Rightarrow> bool" and callFinished :: "'m \<Rightarrow> 'a Task_scheme \<Rightarrow> 'a Task_scheme" and callTimeout :: "'a Task_scheme \<Rightarrow> 'a Task_scheme"
    and update :: "'a Task_scheme \<Rightarrow> 'a Task_scheme" and inv :: "'a Task_scheme \<Rightarrow> bool" and limit :: nat
  assumes finished_keeps: "inv t \<Longrightarrow> good m \<Longrightarrow> inv (callFinished m t) \<and> tk_outstanding (callFinished m t) = tk_outstanding t \<and>
      tk_calls (callFinished m t) = tk_calls t \<and> tk_finished (callFinished m t) = tk_finished t \<and> tk_queued (callFinished m t) = tk_queued t"
    and timeout_keeps: "callTimeout t = t"
    and base_keeps: "inv t \<Longrightarrow> inv (t\<lparr>tk_outstanding := n\<rparr>)" "inv t \<Longrightarrow> inv (t\<lparr>tk_queued := b\<rparr>)" "inv t \<Longrightarrow> inv (t\<lparr>tk_finished := b\<rparr>)"
    and add_keeps: "inv t \<Longrightarrow> inv (addDHTNode env addr t)"
    and update_keeps: "inv t \<Longrightarrow> tk_outstanding t \<le> 16 \<Longrightarrow> inv (update t) \<and> tk_queued (update t) = tk_queued t \<and> tk_outstanding (update t) \<le> 16 \<and>
      (\<exists>cs. tk_calls (update t) = tk_calls t @ cs \<and> tk_outstanding (update t) = tk_outstanding t + length cs)"
    and update_progress: "inv t \<Longrightarrow> tk_outstanding t \<le> 16 \<Longrightarrow> tk_finished (update t) \<or> 0 < tk_outstanding (update t)"
    and update_limit: "inv t \<Longrightarrow> tk_outstanding t \<le> 16 \<Longrightarrow> tk_finished (update t) \<or> length (tk_calls (update t)) \<le> limit"
begin

definition running :: "nat \<Rightarrow> 'a Task_scheme \<Rightarrow> bool" where
  "running n t \<longleftrightarrow> inv t \<and> tk_outstanding t \<le> 16 \<and> n + tk_outstanding t = length (tk_calls t) \<and>
     (tk_finished t \<or> length (tk_calls t) \<le> limit) \<and> length (tk_calls t) \<le> limit + 16 \<and>
     (tk_queued t \<or> tk_finished t \<or> 0 < tk_outstanding t) \<and> (tk_queued t \<longrightarrow> tk_calls t = [])"

lemma running_update:
  assumes "inv t" "tk_outstanding t \<le> 16" "n + tk_outstanding t = length (tk_calls t)" "\<not> tk_queued t" "length (tk_calls t) \<le> limit \<or> tk_calls t = []"
  shows "running n (update t)"
proof -
  obtain cs where cs: "tk_calls (update t) = tk_calls t @ cs" "tk_outstanding (update t) = tk_outstanding t + length cs"
      "inv (update t)" "tk_queued (update t) = tk_queued t" "tk_outstanding (update t) \<le> 16"
    using update_keeps[OF assms(1,2)] by blast
  then have "length (tk_calls (update t)) \<le> limit + 16" using assms(5) by auto
  then show ?thesis using cs assms update_progress[OF assms(1,2)] update_limit[OF assms(1,2)] by (simp add: running_def)
qed

lemma ended_running:
  assumes "running n t" "0 < tk_outstanding t"
  shows "inv (Task_ended t)" "tk_outstanding (Task_ended t) < 16" "Suc n + tk_outstanding (Task_ended t) = length (tk_calls (Task_ended t))"
    "tk_finished (Task_ended t) = tk_finished t" "tk_calls (Task_ended t) = tk_calls t" "\<not> tk_queued (Task_ended t)"
  using assms base_keeps(1) by (auto simp: running_def Task_ended_def)

lemma running_ends:
  assumes "running n t" "0 < tk_outstanding t"
    and f: "inv (f (Task_ended t)) \<and> tk_outstanding (f (Task_ended t)) = tk_outstanding (Task_ended t) \<and>
      tk_calls (f (Task_ended t)) = tk_calls (Task_ended t) \<and> tk_finished (f (Task_ended t)) = tk_finished (Task_ended t) \<and>
      tk_queued (f (Task_ended t)) = tk_queued (Task_ended t)"
  shows "running (Suc n) (if \<not> tk_finished (Task_ended t)
    then if canDoRequest (f (Task_ended t)) \<and> \<not> tk_finished (f (Task_ended t)) then update (f (Task_ended t)) else f (Task_ended t) else Task_ended t)"
proof -
  note e = ended_running[OF assms(1,2)]
  show ?thesis
  proof (cases "tk_finished t")
    case True
    then show ?thesis using e assms(1) by (auto simp: running_def)
  next
    case False
    have c: "canDoRequest (f (Task_ended t))" using e f by (simp add: canDoRequest_def MAX_CONCURRENT_REQS_def)
    have "running (Suc n) (update (f (Task_ended t)))"
      by (rule running_update) (use e f False assms(1) in \<open>auto simp: running_def\<close>)
    then show ?thesis using c f e False by simp
  qed
qed

lemma running_run:
  assumes "task_run good callFinished callTimeout update kns t0 n t"
    and init: "\<And>q. inv (Task_fill kns q t0)" "tk_calls t0 = []" "tk_outstanding t0 = 0"
  shows "running n t"
  using assms(1)
proof (induction rule: task_run.induct)
  case (run_begin q)
  show ?case
  proof (cases q)
    case True
    then show ?thesis using init by (auto simp: Task_start_def Task_fill_def running_def)
  next
    case False
    have "running 0 (update (Task_fill kns q t0))" by (rule running_update) (use init False in \<open>auto simp: Task_fill_def\<close>)
    then show ?thesis using False by (simp add: Task_start_def)
  qed
next
  case (run_start n t)
  then show ?case unfolding Task_start_queued_def
    using running_update[of "t\<lparr>tk_queued := False\<rparr>" n] base_keeps(2)[of t False] by (auto simp: running_def)
next
  case (run_response n t m)
  note r = running_ends[OF run_response(4,2), of "callFinished m"]
  show ?case unfolding Task_onResponse_def Let_def
    by (rule r) (use finished_keeps[OF ended_running(1)[OF run_response(4,2)] run_response(3)] in blast)
next
  case (run_timeout n t)
  note r = running_ends[OF run_timeout(3,2), of callTimeout]
  show ?case unfolding Task_onTimeout_def Let_def
    by (rule r) (use timeout_keeps ended_running[OF run_timeout(3,2)] in simp)
next
  case (run_kill n t)
  then show ?case using base_keeps(3)[of t True] by (auto simp: running_def task_kill_def)
next
  case (run_add n t env addr)
  then show ?case using add_keeps[of t env addr] by (auto simp: running_def addDHTNode_def)
qed

end

section \<open>Sets of entries\<close>

definition node_keys_ok :: "KBucketEntry list \<Rightarrow> bool" where
  "node_keys_ok s \<longleftrightarrow> (\<forall>e \<in> set s. is_key (ke_id e))"

definition kes_ok :: "KBucketEntry list \<Rightarrow> bool" where
  "kes_ok s \<longleftrightarrow> node_keys_ok s \<and> distinct (map ke_id s)"

lemma node_keys_insert: "node_keys_ok s \<Longrightarrow> is_key (ke_id e) \<Longrightarrow> node_keys_ok (kes_insert e s)"
  using ord_insert_subset[of ke_id e s] by (auto simp: node_keys_ok_def kes_insert_def)

lemma kes_insert_new:
  assumes "kes_ok s" "is_key (ke_id e)" "\<not> kes_contains e s"
  shows "kes_ok (kes_insert e s)" "length (kes_insert e s) = Suc (length s)" "set (kes_insert e s) = insert e (set s)"
proof -
  have k: "\<forall>y \<in> set s. is_key (ke_id y)" using assms(1) by (simp add: kes_ok_def node_keys_ok_def)
  note i = ord_insert_insort[of ke_id e s, OF assms(2) k] ord_insert_length[of ke_id e s, OF assms(2) k]
  show l: "length (kes_insert e s) = Suc (length s)" "set (kes_insert e s) = insert e (set s)"
    using i assms(3) by (simp_all add: kes_insert_def kes_contains_def)
  have d: "distinct s" "inj_on ke_id (set s)" "e \<notin> set s" using assms by (auto simp: kes_ok_def distinct_map kes_contains_def ord_contains_def)
  have "inj_on ke_id (insert e (set s))" using d assms(3) by (force simp: kes_contains_def ord_contains_def inj_on_def)
  moreover have "distinct (kes_insert e s)" using d i(1) assms(3) by (simp add: kes_insert_def kes_contains_def distinct_insort)
  ultimately show "kes_ok (kes_insert e s)" using assms(1,2) l(2) by (auto simp: kes_ok_def node_keys_ok_def distinct_map)
qed

lemma node_keys_fold: "node_keys_ok s \<Longrightarrow> node_keys_ok es \<Longrightarrow> node_keys_ok (fold kes_insert es s)"
proof (induction es arbitrary: s)
  case (Cons e es)
  have k: "is_key (ke_id e)" "node_keys_ok es" using Cons.prems(2) by (simp_all add: node_keys_ok_def)
  show ?case using Cons.IH[OF node_keys_insert[OF Cons.prems(1) k(1)] k(2)] by simp
qed simp

lemma mem_ok_Inr: "mem_ok v = Inr x \<longleftrightarrow> v = Some x"
  by (simp add: mem_ok_def split: option.split)

lemma mem_read_len: "mem_read ba off n = Some k \<Longrightarrow> length k = n"
  by (auto simp: mem_read_def split: if_splits)

lemma Unpack_key: "UnpackBucketEntry env ba off v = Inr e \<Longrightarrow> is_key (ke_id e)"
  unfolding UnpackBucketEntry_def
  by (auto simp: mem_ok_Inr Option.bind_eq_Some_conv KBucketEntry_new_def split: if_split_asm dest: mem_read_len)

text \<open>What the loops do to the fields of the base class.\<close>

definition called :: "'a Task_scheme \<Rightarrow> 'a Task_scheme \<Rightarrow> nat \<Rightarrow> bool" where
  "called t t' n \<longleftrightarrow> tk_queued t' = tk_queued t \<and> tk_finished t' = tk_finished t \<and> tk_outstanding t' = tk_outstanding t + n \<and>
     tk_outstanding t' \<le> 16 \<and> (\<exists>cs. tk_calls t' = tk_calls t @ cs \<and> length cs = n)"

lemma called_refl: "tk_outstanding t \<le> 16 \<Longrightarrow> called t t 0"
  by (simp add: called_def)

lemma called_trans: "called a b m \<Longrightarrow> called b c n \<Longrightarrow> called a c (m + n)"
  by (auto simp: called_def)

lemma rpcCall_called: "canDoRequest t \<Longrightarrow> called t (snd (rpcCall req t)) 1"
  by (auto simp: rpcCall_def called_def canDoRequest_def MAX_CONCURRENT_REQS_def add32_id)

section \<open>The lookup\<close>

definition asked :: "RPCMsg \<Rightarrow> Address" where
  "asked c = m_origin (msg_header c)"

definition lookup_ok :: "NodeLookup \<Rightarrow> bool" where
  "lookup_ok t \<longleftrightarrow> node_keys_ok (tk_todo t) \<and> kes_ok (tk_visited t) \<and> length (tk_calls t) = length (tk_visited t) \<and>
     asked ` set (tk_calls t) = ke_addr ` set (tk_visited t)"

lemma lookup_visit:
  assumes ok: "lookup_ok t" and e: "is_key (ke_id e)" and c: "canDoRequest t" and new: "\<not> kes_contains e (tk_visited t)"
    and t': "t' = snd (rpcCall (FindNodeReq \<lparr>m_mtid = [], m_id = nl_our_id t, m_origin = ke_addr e\<rparr> (nl_node_id t) []) t)"
  shows "lookup_ok (t'\<lparr>tk_visited := kes_insert e (tk_visited t')\<rparr>)" "called t (t'\<lparr>tk_visited := kes_insert e (tk_visited t')\<rparr>) 1"
proof -
  have v: "tk_visited t' = tk_visited t" "tk_todo t' = tk_todo t"
      "tk_calls t' = tk_calls t @ [FindNodeReq \<lparr>m_mtid = [], m_id = nl_our_id t, m_origin = ke_addr e\<rparr> (nl_node_id t) []]"
    using c by (simp_all add: t' rpcCall_def)
  have "kes_ok (tk_visited t)" using ok by (simp add: lookup_ok_def)
  note i = kes_insert_new[OF this e new]
  show "lookup_ok (t'\<lparr>tk_visited := kes_insert e (tk_visited t')\<rparr>)" using ok i v by (auto simp: lookup_ok_def asked_def)
  show "called t (t'\<lparr>tk_visited := kes_insert e (tk_visited t')\<rparr>) 1" using rpcCall_called[OF c, of "FindNodeReq \<lparr>m_mtid = [], m_id = nl_our_id t, m_origin = ke_addr e\<rparr> (nl_node_id t) []"]
    by (simp add: t' called_def)
qed

lemma lookup_loop_law:
  assumes "lookup_ok t" "node_keys_ok es" "tk_outstanding t \<le> 16"
  shows "lookup_ok (lookup_loop es t) \<and> (\<exists>n. called t (lookup_loop es t) n) \<and>
    (tk_todo (lookup_loop es t) = [] \<or> tk_outstanding (lookup_loop es t) = 16)"
  using assms
proof (induction es arbitrary: t)
  case Nil
  have "called t (t\<lparr>tk_todo := []\<rparr>) 0" using Nil by (simp add: called_def)
  then show ?case using Nil by (auto simp: lookup_ok_def node_keys_ok_def)
next
  case (Cons e es)
  have k: "is_key (ke_id e)" "node_keys_ok es" using Cons.prems(2) by (simp_all add: node_keys_ok_def)
  show ?case
  proof (cases "canDoRequest t")
    case False
    have "called t (t\<lparr>tk_todo := e # es\<rparr>) 0" using Cons.prems by (simp add: called_def)
    moreover have "lookup_ok (t\<lparr>tk_todo := e # es\<rparr>)" using Cons.prems by (simp add: lookup_ok_def)
    ultimately show ?thesis using False Cons.prems(3) by (auto simp: canDoRequest_def MAX_CONCURRENT_REQS_def)
  next
    case True
    define t1 where "t1 = (if \<not> kes_contains e (tk_visited t)
           then let t' = snd (rpcCall (FindNodeReq \<lparr>m_mtid = [], m_id = nl_our_id t, m_origin = ke_addr e\<rparr> (nl_node_id t) []) t)
                in t'\<lparr>tk_visited := kes_insert e (tk_visited t')\<rparr> else t)"
    have s: "lookup_ok t1 \<and> (\<exists>n. called t t1 n)"
      using lookup_visit[OF Cons.prems(1) k(1) True _ refl] called_refl[OF Cons.prems(3)] Cons.prems(1) unfolding t1_def Let_def by auto
    then obtain n where n: "called t t1 n" by blast
    then have "tk_outstanding t1 \<le> 16" by (simp add: called_def)
    then have IH: "lookup_ok (lookup_loop es t1) \<and> (\<exists>n. called t1 (lookup_loop es t1) n) \<and>
        (tk_todo (lookup_loop es t1) = [] \<or> tk_outstanding (lookup_loop es t1) = 16)" using Cons.IH[OF _ k(2)] s by blast
    then have "\<exists>n. called t (lookup_loop es t1) n" using called_trans[OF n] by blast
    moreover have "lookup_loop (e # es) t = lookup_loop es t1" using True by (simp add: t1_def)
    ultimately show ?thesis using IH by simp
  qed
qed

lemma nl_node_keeps:
  assumes "lookup_ok t"
  shows "lookup_ok (nl_node env nodes v j t) \<and> tk_outstanding (nl_node env nodes v j t) = tk_outstanding t \<and> tk_calls (nl_node env nodes v j t) = tk_calls t \<and>
    tk_finished (nl_node env nodes v j t) = tk_finished t \<and> tk_queued (nl_node env nodes v j t) = tk_queued t"
proof (cases "UnpackBucketEntry env nodes (u32 (j * (if v = 4 then 26 else 38))) v")
  case (Inr e)
  have "node_keys_ok (kes_insert e (tk_todo t))" using assms by (intro node_keys_insert Unpack_key[OF Inr]) (simp add: lookup_ok_def)
  then show ?thesis using assms unfolding nl_node_def Inr by (simp add: lookup_ok_def)
qed (use assms in \<open>simp add: nl_node_def\<close>)

lemma NodeLookup_handleNodes_keeps:
  assumes "lookup_ok t"
  shows "let t' = NodeLookup_handleNodes env nodes v t in lookup_ok t' \<and> tk_outstanding t' = tk_outstanding t \<and> tk_calls t' = tk_calls t \<and>
    tk_finished t' = tk_finished t \<and> tk_queued t' = tk_queued t"
proof -
  have "let t' = fold (nl_node env nodes v) js t in lookup_ok t' \<and> tk_outstanding t' = tk_outstanding t \<and> tk_calls t' = tk_calls t \<and>
    tk_finished t' = tk_finished t \<and> tk_queued t' = tk_queued t" for js
    using assms
  proof (induction js arbitrary: t)
    case (Cons j js)
    then show ?case using nl_node_keeps[OF Cons.prems, of env nodes v j] Cons.IH[of "nl_node env nodes v j t"] by (simp add: Let_def)
  qed (simp add: Let_def)
  then show ?thesis by (simp add: NodeLookup_handleNodes_def)
qed

lemma lookup_ok_other [simp]:
  "lookup_ok (t\<lparr>nl_num_nodes_rsp := n\<rparr>) = lookup_ok t" "lookup_ok (t\<lparr>tk_outstanding := n\<rparr>) = lookup_ok t"
  "lookup_ok (t\<lparr>tk_queued := b\<rparr>) = lookup_ok t" "lookup_ok (t\<lparr>tk_finished := b\<rparr>) = lookup_ok t"
  by (simp_all add: lookup_ok_def)

lemma lookup_finished:
  assumes "lookup_ok t"
  shows "lookup_ok (NodeLookup_callFinished env m t) \<and> tk_outstanding (NodeLookup_callFinished env m t) = tk_outstanding t \<and>
    tk_calls (NodeLookup_callFinished env m t) = tk_calls t \<and> tk_finished (NodeLookup_callFinished env m t) = tk_finished t \<and>
    tk_queued (NodeLookup_callFinished env m t) = tk_queued t"
proof (cases m)
  case (FindNodeRsp h n)
  define t1 where "t1 = (if length (pn_nodes n) > 0 then NodeLookup_handleNodes env (pn_nodes n) 4 t else t)"
  define t2 where "t2 = (if length (pn_nodes6 n) > 0 then NodeLookup_handleNodes env (pn_nodes6 n) 6 t1 else t1)"
  have 1: "lookup_ok t1 \<and> tk_outstanding t1 = tk_outstanding t \<and> tk_calls t1 = tk_calls t \<and> tk_finished t1 = tk_finished t \<and> tk_queued t1 = tk_queued t"
    using NodeLookup_handleNodes_keeps[OF assms, of env "pn_nodes n" 4] assms by (simp add: t1_def Let_def)
  have 2: "lookup_ok t2 \<and> tk_outstanding t2 = tk_outstanding t1 \<and> tk_calls t2 = tk_calls t1 \<and> tk_finished t2 = tk_finished t1 \<and> tk_queued t2 = tk_queued t1"
    using NodeLookup_handleNodes_keeps[of t1 env "pn_nodes6 n" 6] 1 by (simp add: t2_def Let_def)
  have "NodeLookup_callFinished env m t = (if tk_finished t then t else t2\<lparr>nl_num_nodes_rsp := add32 (nl_num_nodes_rsp t2) 1\<rparr>)"
    by (simp add: NodeLookup_callFinished_def FindNodeRsp t2_def t1_def Let_def)
  then show ?thesis using 1 2 assms by simp
qed (use assms in \<open>simp_all add: NodeLookup_callFinished_def\<close>)

lemma lookup_update:
  assumes "lookup_ok t" "tk_outstanding t \<le> 16"
  shows "lookup_ok (NodeLookup_update t) \<and> tk_queued (NodeLookup_update t) = tk_queued t \<and> tk_outstanding (NodeLookup_update t) \<le> 16 \<and>
      (\<exists>cs. tk_calls (NodeLookup_update t) = tk_calls t @ cs \<and> tk_outstanding (NodeLookup_update t) = tk_outstanding t + length cs)"
    "tk_finished (NodeLookup_update t) \<or> 0 < tk_outstanding (NodeLookup_update t)"
    "tk_finished (NodeLookup_update t) \<or> length (tk_calls (NodeLookup_update t)) \<le> 200"
proof -
  let ?l = "lookup_loop (tk_todo t) t"
  have l: "lookup_ok ?l" "\<exists>n. called t ?l n" "tk_todo ?l = [] \<or> tk_outstanding ?l = 16"
    using lookup_loop_law[OF assms(1) _ assms(2)] assms(1) by (auto simp: lookup_ok_def)
  have u: "NodeLookup_update t = ?l\<lparr>tk_finished := tk_finished (NodeLookup_update t)\<rparr>"
    by (simp add: NodeLookup_update_def task_done_def Let_def)
  then have f: "tk_todo (NodeLookup_update t) = tk_todo ?l" "tk_outstanding (NodeLookup_update t) = tk_outstanding ?l"
      "tk_calls (NodeLookup_update t) = tk_calls ?l" "tk_queued (NodeLookup_update t) = tk_queued ?l" "tk_visited (NodeLookup_update t) = tk_visited ?l"
    by (metis Task.select_convs Task.surjective Task.update_convs(4))+
  show "lookup_ok (NodeLookup_update t) \<and> tk_queued (NodeLookup_update t) = tk_queued t \<and> tk_outstanding (NodeLookup_update t) \<le> 16 \<and>
      (\<exists>cs. tk_calls (NodeLookup_update t) = tk_calls t @ cs \<and> tk_outstanding (NodeLookup_update t) = tk_outstanding t + length cs)"
    using l(1,2) unfolding lookup_ok_def f called_def by auto
  show "tk_finished (NodeLookup_update t) \<or> 0 < tk_outstanding (NodeLookup_update t)"
    unfolding f(2) using l(3) by (auto simp: NodeLookup_update_def task_done_def Let_def)
  have "length (tk_calls ?l) = length (tk_visited ?l)" using l(1) by (simp add: lookup_ok_def)
  then show "tk_finished (NodeLookup_update t) \<or> length (tk_calls (NodeLookup_update t)) \<le> 200"
    unfolding f(3) by (auto simp: NodeLookup_update_def task_done_def Let_def)
qed

interpretation lookup: task_kind "\<lambda>_. True" "\<lambda>(env, m). NodeLookup_callFinished env m" NodeLookup_callTimeout NodeLookup_update lookup_ok 200
proof (unfold_locales, goal_cases)
  case (1 t m)
  then show ?case using lookup_finished by (cases m) simp
next
  case (6 t env addr)
  then show ?case
    using node_keys_insert[of "tk_todo t" "KBucketEntry_new env addr key_min"] key_bounds(1) by (simp add: lookup_ok_def addDHTNode_def KBucketEntry_new_def)
next
  case (7 t)
  then show ?case by (rule lookup_update(1))
next
  case (8 t)
  then show ?case by (rule lookup_update(2))
next
  case (9 t)
  then show ?case by (rule lookup_update(3))
qed (simp_all add: NodeLookup_callTimeout_def)

text \<open>
  C6. A lookup of a node always comes to an end: whatever the answers contain, at most 16 requests are outstanding and at most 216 are sent, one per node identity;
  a started lookup that has not finished waits for an answer; so it has finished when all its requests have been answered or have timed out, at the
  latest after 216 of them.
\<close>

theorem NodeLookup_ends:
  assumes "task_run (\<lambda>_. True) (\<lambda>(env, m). NodeLookup_callFinished env m) NodeLookup_callTimeout NodeLookup_update kns (NodeLookup_new our key) n t"
    and "\<forall>x \<in> set (ks_emap kns). is_key (ke_id (snd x))"
  shows "tk_outstanding t \<le> 16 \<and> length (tk_calls t) \<le> 216 \<and>
    length (tk_calls t) = length (tk_visited t) \<and> distinct (map ke_id (tk_visited t)) \<and>
       (\<lambda>c. m_origin (msg_header c)) ` set (tk_calls t) = ke_addr ` set (tk_visited t) \<and>
    (\<not> tk_queued t \<and> (tk_outstanding t = 0 \<or> 216 \<le> n) \<longrightarrow> tk_finished t)"
proof -
  have init: "lookup_ok (Task_fill kns q (NodeLookup_new our key))" for q
    using node_keys_fold[of "[]" "map snd (ks_emap kns)"] assms(2) by (auto simp: lookup_ok_def Task_fill_def NodeLookup_new_def node_keys_ok_def kes_ok_def)
  have "lookup.running n t"
    by (rule lookup.running_run[OF assms(1)]) (use init in \<open>simp_all add: NodeLookup_new_def\<close>)
  then have r: "lookup_ok t" "tk_outstanding t \<le> 16" "n + tk_outstanding t = length (tk_calls t)" "length (tk_calls t) \<le> 200 + 16"
      "tk_queued t \<or> tk_finished t \<or> 0 < tk_outstanding t" by (auto simp: lookup.running_def)
  moreover have "length (tk_calls t) = length (tk_visited t) \<and> distinct (map ke_id (tk_visited t)) \<and>
       (\<lambda>c. m_origin (msg_header c)) ` set (tk_calls t) = ke_addr ` set (tk_visited t)"
    using r(1) by (simp add: lookup_ok_def kes_ok_def asked_def[abs_def])
  moreover have "\<not> tk_queued t \<and> (tk_outstanding t = 0 \<or> 216 \<le> n) \<longrightarrow> tk_finished t" using r by auto
  ultimately show ?thesis by simp
qed

theorem NodeLookup_ends_witness:
  "let env = \<lparr>de_now = 0, de_doCall = (\<lambda>_. True)\<rparr>;
       kns = \<lparr>ks_key = key_min, ks_emap = [(key_max, KBucketEntry_new env (V4 1 2) key_max)], ks_max_entries = 20\<rparr>;
       t = Task_onTimeout NodeLookup_callTimeout NodeLookup_update (Task_start NodeLookup_update kns False (NodeLookup_new key_min key_min))
   in tk_finished t \<and> length (tk_calls t) = 1"
proof -
  let ?env = "\<lparr>de_now = 0, de_doCall = (\<lambda>_. True)\<rparr>"
  let ?kns = "\<lparr>ks_key = key_min, ks_emap = [(key_max, KBucketEntry_new ?env (V4 1 2) key_max)], ks_max_entries = 20\<rparr>"
  let ?s = "Task_start NodeLookup_update ?kns False (NodeLookup_new key_min key_min)"
  note ev = Task_start_def Task_fill_def NodeLookup_new_def NodeLookup_update_def canDoRequest_def MAX_CONCURRENT_REQS_def kes_contains_def
    ord_contains_def kes_insert_def rpcCall_def task_done_def add32_def KBucketEntry_new_def Let_def
  have s: "tk_outstanding ?s = 1" "length (tk_calls ?s) = 1" "\<not> tk_queued ?s" by (simp_all add: ev)
  have q: "tk_outstanding (Task_onTimeout NodeLookup_callTimeout NodeLookup_update ?s) = 0"
      "\<not> tk_queued (Task_onTimeout NodeLookup_callTimeout NodeLookup_update ?s)"
      "length (tk_calls (Task_onTimeout NodeLookup_callTimeout NodeLookup_update ?s)) = 1"
    by (simp_all add: ev Task_onTimeout_def Task_ended_def NodeLookup_callTimeout_def)
  have "task_run (\<lambda>_. True) (\<lambda>(env, m). NodeLookup_callFinished env m) NodeLookup_callTimeout NodeLookup_update ?kns (NodeLookup_new key_min key_min)
      1 (Task_onTimeout NodeLookup_callTimeout NodeLookup_update ?s)"
    using run_timeout[OF run_begin] s(1) by (metis One_nat_def zero_less_one)
  then show ?thesis using NodeLookup_ends q key_bounds(2) by (auto simp: KBucketEntry_new_def Let_def)
qed

section \<open>The announcement\<close>

definition announce_ok :: "AnnounceTask \<Rightarrow> bool" where
  "announce_ok t \<longleftrightarrow> node_keys_ok (tk_todo t) \<and> kes_ok (tk_visited t) \<and> node_keys_ok (map fst (at_answered t)) \<and> kes_ok (at_answered_visited t) \<and>
     length (tk_calls t) = length (tk_visited t) + length (at_answered_visited t)"

lemma announce_ok_other [simp]:
  "announce_ok (t\<lparr>tk_outstanding := n\<rparr>) = announce_ok t" "announce_ok (t\<lparr>tk_queued := b\<rparr>) = announce_ok t" "announce_ok (t\<lparr>tk_finished := b\<rparr>) = announce_ok t"
  "announce_ok (t\<lparr>at_data_ready := n\<rparr>) = announce_ok t" "announce_ok (t\<lparr>at_db := d, at_returned_items := l\<rparr>) = announce_ok t"
  by (simp_all add: announce_ok_def)

lemma announce_ask:
  assumes ok: "announce_ok t" and e: "is_key (ke_id e)" and c: "canDoRequest t" and new: "\<not> kes_contains e (tk_visited t)"
    and t': "t' = snd (rpcCall req t)"
  shows "announce_ok (t'\<lparr>tk_visited := kes_insert e (tk_visited t')\<rparr>)" "called t (t'\<lparr>tk_visited := kes_insert e (tk_visited t')\<rparr>) 1"
proof -
  have v: "t' = t\<lparr>tk_outstanding := add32 (tk_outstanding t) 1, tk_calls := tk_calls t @ [req]\<rparr>" using c by (simp add: t' rpcCall_def)
  have "kes_ok (tk_visited t)" using ok by (simp add: announce_ok_def)
  note i = kes_insert_new[OF this e new]
  show "announce_ok (t'\<lparr>tk_visited := kes_insert e (tk_visited t')\<rparr>)" using ok i v by (simp add: announce_ok_def)
  show "called t (t'\<lparr>tk_visited := kes_insert e (tk_visited t')\<rparr>) 1" using rpcCall_called[OF c, of req] by (simp add: t' called_def)
qed

lemma announce_announce:
  assumes ok: "announce_ok t" and e: "is_key (ke_id e)" and c: "canDoRequest t" and new: "\<not> kes_contains e (at_answered_visited t)"
    and t': "t' = snd (rpcCall req t)"
  shows "announce_ok (t'\<lparr>at_answered_visited := kes_insert e (at_answered_visited t')\<rparr>)"
    "called t (t'\<lparr>at_answered_visited := kes_insert e (at_answered_visited t')\<rparr>) 1"
proof -
  have v: "t' = t\<lparr>tk_outstanding := add32 (tk_outstanding t) 1, tk_calls := tk_calls t @ [req]\<rparr>" using c by (simp add: t' rpcCall_def)
  have "kes_ok (at_answered_visited t)" using ok by (simp add: announce_ok_def)
  note i = kes_insert_new[OF this e new]
  show "announce_ok (t'\<lparr>at_answered_visited := kes_insert e (at_answered_visited t')\<rparr>)" using ok i v by (simp add: announce_ok_def)
  show "called t (t'\<lparr>at_answered_visited := kes_insert e (at_answered_visited t')\<rparr>) 1" using rpcCall_called[OF c, of req] by (simp add: t' called_def)
qed

lemma answered_loop_law:
  assumes "announce_ok t" "node_keys_ok (map fst es)" "tk_outstanding t \<le> 16"
  shows "announce_ok (answered_loop es t) \<and> (\<exists>n. called t (answered_loop es t) n) \<and>
    (at_answered (answered_loop es t) = [] \<or> tk_outstanding (answered_loop es t) = 16)"
  using assms
proof (induction es arbitrary: t)
  case Nil
  have "called t (t\<lparr>at_answered := []\<rparr>) 0" using Nil by (simp add: called_def)
  then show ?case using Nil by (auto simp: announce_ok_def node_keys_ok_def)
next
  case (Cons e es)
  have k: "is_key (ke_id (fst e))" "node_keys_ok (map fst es)" using Cons.prems(2) by (simp_all add: node_keys_ok_def)
  show ?case
  proof (cases "canDoRequest t")
    case False
    have "called t (t\<lparr>at_answered := e # es\<rparr>) 0" using Cons.prems by (simp add: called_def)
    moreover have "announce_ok (t\<lparr>at_answered := e # es\<rparr>)" using Cons.prems by (simp add: announce_ok_def)
    ultimately show ?thesis using False Cons.prems(3) by (auto simp: canDoRequest_def MAX_CONCURRENT_REQS_def)
  next
    case True
    define t1 where "t1 = (if \<not> kes_contains (fst e) (at_answered_visited t)
           then let t' = snd (rpcCall (AnnounceReq \<lparr>m_mtid = [], m_id = at_our_id t, m_origin = ke_addr (fst e)\<rparr> (at_info_hash t) [] (at_port t) (snd e)) t)
                in t'\<lparr>at_answered_visited := kes_insert (fst e) (at_answered_visited t')\<rparr>
           else t)"
    have s: "announce_ok t1 \<and> (\<exists>n. called t t1 n)"
      using announce_announce[OF Cons.prems(1) k(1) True _ refl] called_refl[OF Cons.prems(3)] Cons.prems(1) unfolding t1_def Let_def by auto
    then obtain n where n: "called t t1 n" by blast
    then have "tk_outstanding t1 \<le> 16" by (simp add: called_def)
    then have IH: "announce_ok (answered_loop es t1) \<and> (\<exists>n. called t1 (answered_loop es t1) n) \<and>
        (at_answered (answered_loop es t1) = [] \<or> tk_outstanding (answered_loop es t1) = 16)" using Cons.IH[OF _ k(2)] s by blast
    then have "\<exists>n. called t (answered_loop es t1) n" using called_trans[OF n] by blast
    moreover have "answered_loop (e # es) t = answered_loop es t1" using True by (simp add: t1_def)
    ultimately show ?thesis using IH by simp
  qed
qed

lemma peers_loop_law:
  assumes "announce_ok t" "node_keys_ok es" "tk_outstanding t \<le> 16"
  shows "announce_ok (peers_loop es t) \<and> (\<exists>n. called t (peers_loop es t) n) \<and> at_answered (peers_loop es t) = at_answered t \<and>
    (tk_todo (peers_loop es t) = [] \<or> tk_outstanding (peers_loop es t) = 16)"
  using assms
proof (induction es arbitrary: t)
  case Nil
  have "called t (t\<lparr>tk_todo := []\<rparr>) 0" using Nil by (simp add: called_def)
  then show ?case using Nil by (auto simp: announce_ok_def node_keys_ok_def)
next
  case (Cons e es)
  have k: "is_key (ke_id e)" "node_keys_ok es" using Cons.prems(2) by (simp_all add: node_keys_ok_def)
  show ?case
  proof (cases "canDoRequest t")
    case False
    have "called t (t\<lparr>tk_todo := e # es\<rparr>) 0" using Cons.prems by (simp add: called_def)
    moreover have "announce_ok (t\<lparr>tk_todo := e # es\<rparr>)" using Cons.prems by (simp add: announce_ok_def)
    ultimately show ?thesis using False Cons.prems(3) by (auto simp: canDoRequest_def MAX_CONCURRENT_REQS_def)
  next
    case True
    define t1 where "t1 = (if \<not> kes_contains e (tk_visited t)
           then let t' = snd (rpcCall (GetPeersReq \<lparr>m_mtid = [], m_id = at_our_id t, m_origin = ke_addr e\<rparr> (at_info_hash t) []) t)
                in t'\<lparr>tk_visited := kes_insert e (tk_visited t')\<rparr>
           else t)"
    have s: "announce_ok t1 \<and> (\<exists>n. called t t1 n)"
      using announce_ask[OF Cons.prems(1) k(1) True _ refl] called_refl[OF Cons.prems(3)] Cons.prems(1) unfolding t1_def Let_def by auto
    have a: "at_answered t1 = at_answered t" by (simp add: t1_def Let_def rpcCall_def)
    obtain n where n: "called t t1 n" using s by blast
    then have "tk_outstanding t1 \<le> 16" by (simp add: called_def)
    then have IH: "announce_ok (peers_loop es t1) \<and> (\<exists>n. called t1 (peers_loop es t1) n) \<and> at_answered (peers_loop es t1) = at_answered t1 \<and>
        (tk_todo (peers_loop es t1) = [] \<or> tk_outstanding (peers_loop es t1) = 16)" using Cons.IH[OF _ k(2)] s by blast
    then have "\<exists>n. called t (peers_loop es t1) n" using called_trans[OF n] by blast
    moreover have "peers_loop (e # es) t = peers_loop es t1" using True by (simp add: t1_def)
    ultimately show ?thesis using IH a by simp
  qed
qed

definition same_base :: "'a Task_scheme \<Rightarrow> 'a Task_scheme \<Rightarrow> bool" where
  "same_base t t' \<longleftrightarrow> tk_outstanding t' = tk_outstanding t \<and> tk_calls t' = tk_calls t \<and> tk_finished t' = tk_finished t \<and> tk_queued t' = tk_queued t"

lemma same_base_trans: "same_base a b \<Longrightarrow> same_base b c \<Longrightarrow> same_base a c"
  by (simp add: same_base_def)

lemma fold_same_base:
  assumes "\<And>x t. P t \<Longrightarrow> P (f x t) \<and> same_base t (f x t)" "P t"
  shows "P (fold f xs t) \<and> same_base t (fold f xs t)"
  using assms(2)
proof (induction xs arbitrary: t)
  case (Cons x xs)
  then show ?case using assms(1)[OF Cons.prems, of x] Cons.IH[of "f x t"] same_base_trans[of t "f x t" "fold f xs (f x t)"] by auto
qed (simp add: same_base_def)

lemma AnnounceTask_handleNodes_keeps:
  assumes "announce_ok t"
  shows "announce_ok (AnnounceTask_handleNodes env nodes v t) \<and> same_base t (AnnounceTask_handleNodes env nodes v t)"
  unfolding AnnounceTask_handleNodes_def
proof (rule fold_same_base[where P = announce_ok, OF _ assms])
  fix j :: nat and t assume ok: "announce_ok t"
  show "announce_ok (at_node env nodes v j t) \<and> same_base t (at_node env nodes v j t)"
  proof (cases "UnpackBucketEntry env nodes (u32 (j * (if v = 4 then 26 else 38))) v")
    case (Inr e)
    have "node_keys_ok (kes_insert e (tk_todo t))" using ok by (intro node_keys_insert Unpack_key[OF Inr]) (simp add: announce_ok_def)
    then show ?thesis using ok unfolding at_node_def Inr by (simp add: announce_ok_def same_base_def)
  qed (use ok in \<open>simp add: at_node_def same_base_def\<close>)
qed

lemma announce_finished:
  assumes "announce_ok t" "is_key (m_id (msg_header (snd c)))"
  shows "announce_ok (AnnounceTask_callFinished env c t) \<and> same_base t (AnnounceTask_callFinished env c t)"
proof (cases "fst c = GET_PEERS")
  case True
  show ?thesis
  proof (cases "snd c")
    case (GetPeersRsp h n items token)
    define t1 where "t1 = (if length (pn_nodes n) > 0 then AnnounceTask_handleNodes env (pn_nodes n) 4 t else t)"
    define t2 where "t2 = (if length (pn_nodes6 n) > 0 then AnnounceTask_handleNodes env (pn_nodes6 n) 6 t1 else t1)"
    define t3 where "t3 = store_items items t2"
    define t4 where "t4 = (if length items > 0 then t3\<lparr>at_data_ready := Suc (at_data_ready t3)\<rparr> else t3)"
    define e where "e = KBucketEntry_new env (m_origin h) (m_id h)"
    have 1: "announce_ok t1 \<and> same_base t t1" using AnnounceTask_handleNodes_keeps[OF assms(1)] assms(1) by (simp add: t1_def same_base_def)
    then have 2: "announce_ok t2 \<and> same_base t t2"
      using AnnounceTask_handleNodes_keeps[of t1 env "pn_nodes6 n" 6] same_base_trans by (auto simp: t2_def)
    have "announce_ok t3 \<and> same_base t2 t3" unfolding t3_def store_items_def
      by (rule fold_same_base[where P = announce_ok]) (use 2 in \<open>simp_all add: same_base_def\<close>)
    then have 4: "announce_ok t4 \<and> same_base t t4" using 2 by (simp add: t4_def same_base_def)
    have "is_key (ke_id e)" using assms(2) GetPeersRsp by (simp add: e_def KBucketEntry_new_def)
    then have k: "node_keys_ok (map fst (ord_insert (\<lambda>x. ke_id (fst x)) (e, token) (at_answered t4)))"
      using 4 ord_insert_subset[of "\<lambda>x. ke_id (fst x)" "(e, token)" "at_answered t4"] by (fastforce simp: announce_ok_def node_keys_ok_def)
    have "announce_ok t4" using 4 by blast
    then have "announce_ok (t4\<lparr>at_answered := ord_insert (\<lambda>x. ke_id (fst x)) (e, token) (at_answered t4)\<rparr>)"
      using k by (simp add: announce_ok_def)
    moreover have "AnnounceTask_callFinished env c t =
        (if \<not> kes_contains e (at_answered_visited t4) then t4\<lparr>at_answered := ord_insert (\<lambda>x. ke_id (fst x)) (e, token) (at_answered t4)\<rparr> else t4)"
      using True by (simp add: AnnounceTask_callFinished_def GetPeersRsp t4_def t3_def t2_def t1_def e_def Let_def)
    ultimately show ?thesis using 4 by (simp add: same_base_def)
  qed (use assms True in \<open>simp_all add: AnnounceTask_callFinished_def same_base_def\<close>)
qed (use assms in \<open>simp add: AnnounceTask_callFinished_def same_base_def\<close>)

lemma announce_update:
  assumes "announce_ok t" "tk_outstanding t \<le> 16"
  shows "announce_ok (AnnounceTask_update t) \<and> tk_queued (AnnounceTask_update t) = tk_queued t \<and> tk_outstanding (AnnounceTask_update t) \<le> 16 \<and>
      (\<exists>cs. tk_calls (AnnounceTask_update t) = tk_calls t @ cs \<and> tk_outstanding (AnnounceTask_update t) = tk_outstanding t + length cs)"
    "tk_finished (AnnounceTask_update t) \<or> 0 < tk_outstanding (AnnounceTask_update t)"
    "tk_finished (AnnounceTask_update t) \<or> length (tk_calls (AnnounceTask_update t)) \<le> 250"
proof -
  let ?a = "answered_loop (at_answered t) t"
  let ?l = "peers_loop (tk_todo ?a) ?a"
  obtain m where a: "announce_ok ?a" "called t ?a m" "at_answered ?a = [] \<or> tk_outstanding ?a = 16"
    using answered_loop_law[OF assms(1) _ assms(2)] assms(1) by (auto simp: announce_ok_def)
  then have "tk_outstanding ?a \<le> 16" "node_keys_ok (tk_todo ?a)" by (simp_all add: called_def announce_ok_def)
  from peers_loop_law[OF a(1) this(2,1)] obtain n where l: "announce_ok ?l" "called ?a ?l n" "at_answered ?l = at_answered ?a"
      "tk_todo ?l = [] \<or> tk_outstanding ?l = 16" by blast
  have tl: "called t ?l (m + n)" using called_trans[OF a(2) l(2)] .
  have idle: "tk_todo ?l = [] \<and> at_answered ?l = []" if "tk_outstanding ?l = 0" using l a(2,3) that by (auto simp: called_def)
  have u: "AnnounceTask_update t = ?l\<lparr>tk_finished := tk_finished (AnnounceTask_update t)\<rparr>"
    by (simp add: AnnounceTask_update_def task_done_def Let_def)
  have f: "tk_outstanding (AnnounceTask_update t) = tk_outstanding ?l" "tk_calls (AnnounceTask_update t) = tk_calls ?l"
      "tk_queued (AnnounceTask_update t) = tk_queued ?l"
    by (subst u, simp)+
  have "announce_ok (AnnounceTask_update t)" by (subst u) (simp add: l(1))
  then show "announce_ok (AnnounceTask_update t) \<and> tk_queued (AnnounceTask_update t) = tk_queued t \<and> tk_outstanding (AnnounceTask_update t) \<le> 16 \<and>
      (\<exists>cs. tk_calls (AnnounceTask_update t) = tk_calls t @ cs \<and> tk_outstanding (AnnounceTask_update t) = tk_outstanding t + length cs)"
    using tl unfolding f called_def by auto
  show "tk_finished (AnnounceTask_update t) \<or> 0 < tk_outstanding (AnnounceTask_update t)"
    unfolding f(1) using idle by (auto simp: AnnounceTask_update_def task_done_def Let_def)
  have "length (tk_calls ?l) = length (tk_visited ?l) + length (at_answered_visited ?l)" using l(1) by (simp add: announce_ok_def)
  then show "tk_finished (AnnounceTask_update t) \<or> length (tk_calls (AnnounceTask_update t)) \<le> 250"
    unfolding f(2) by (auto simp: AnnounceTask_update_def task_done_def Let_def)
qed

interpretation announce: task_kind "\<lambda>(env, c). is_key (m_id (msg_header (snd c)))" "\<lambda>(env, c). AnnounceTask_callFinished env c"
  AnnounceTask_callTimeout AnnounceTask_update announce_ok 250
proof (unfold_locales, goal_cases)
  case (1 t m)
  then show ?case using announce_finished by (cases m) (simp add: same_base_def)
next
  case (6 t env addr)
  then show ?case
    using node_keys_insert[of "tk_todo t" "KBucketEntry_new env addr key_min"] key_bounds(1) by (simp add: announce_ok_def addDHTNode_def KBucketEntry_new_def)
next
  case (7 t)
  then show ?case by (rule announce_update(1))
next
  case (8 t)
  then show ?case by (rule announce_update(2))
next
  case (9 t)
  then show ?case by (rule announce_update(3))
qed (simp_all add: AnnounceTask_callTimeout_def)

text \<open>
  C38. An announcement comes to an end as well: whatever nodes and peers the answers contain, at most 16 requests are outstanding and at most 266 are sent in all,
  no node is asked for peers twice and none is announced to twice; a started announcement that has not finished waits for an answer, and has finished when its requests have
  been answered or have timed out, at the latest after 266 of them.
\<close>

theorem AnnounceTask_ends:
  assumes "task_run (\<lambda>(env, c). is_key (m_id (msg_header (snd c)))) (\<lambda>(env, c). AnnounceTask_callFinished env c) AnnounceTask_callTimeout AnnounceTask_update
      kns (AnnounceTask_new our db info_hash port) n t"
    and "\<forall>x \<in> set (ks_emap kns). is_key (ke_id (snd x))"
  shows "tk_outstanding t \<le> 16 \<and> length (tk_calls t) \<le> 266 \<and>
    length (tk_calls t) = length (tk_visited t) + length (at_answered_visited t) \<and> distinct (map ke_id (tk_visited t)) \<and> distinct (map ke_id (at_answered_visited t)) \<and>
    (\<not> tk_queued t \<and> (tk_outstanding t = 0 \<or> 266 \<le> n) \<longrightarrow> tk_finished t)"
proof -
  have init: "announce_ok (Task_fill kns q (AnnounceTask_new our db info_hash port))" for q
    using node_keys_fold[of "[]" "map snd (ks_emap kns)"] assms(2) by (auto simp: announce_ok_def Task_fill_def AnnounceTask_new_def node_keys_ok_def kes_ok_def)
  have "announce.running n t"
    by (rule announce.running_run[OF assms(1)]) (use init in \<open>simp_all add: AnnounceTask_new_def\<close>)
  then have r: "announce_ok t" "tk_outstanding t \<le> 16" "n + tk_outstanding t = length (tk_calls t)" "length (tk_calls t) \<le> 250 + 16"
      "tk_queued t \<or> tk_finished t \<or> 0 < tk_outstanding t" by (auto simp: announce.running_def)
  moreover have "length (tk_calls t) = length (tk_visited t) + length (at_answered_visited t) \<and> distinct (map ke_id (tk_visited t)) \<and> distinct (map ke_id (at_answered_visited t))"
    using r(1) by (simp add: announce_ok_def kes_ok_def)
  moreover have "\<not> tk_queued t \<and> (tk_outstanding t = 0 \<or> 266 \<le> n) \<longrightarrow> tk_finished t" using r by auto
  ultimately show ?thesis by simp
qed

theorem AnnounceTask_ends_witness:
  "let env = \<lparr>de_now = 0, de_doCall = (\<lambda>_. True)\<rparr>;
       kns = \<lparr>ks_key = key_min, ks_emap = [(key_max, KBucketEntry_new env (V4 1 2) key_max)], ks_max_entries = 20\<rparr>;
       t = Task_onTimeout AnnounceTask_callTimeout AnnounceTask_update (Task_start AnnounceTask_update kns False (AnnounceTask_new key_min Database_new key_min 6881))
   in tk_finished t \<and> length (tk_calls t) = 1"
proof -
  let ?env = "\<lparr>de_now = 0, de_doCall = (\<lambda>_. True)\<rparr>"
  let ?kns = "\<lparr>ks_key = key_min, ks_emap = [(key_max, KBucketEntry_new ?env (V4 1 2) key_max)], ks_max_entries = 20\<rparr>"
  let ?s = "Task_start AnnounceTask_update ?kns False (AnnounceTask_new key_min Database_new key_min 6881)"
  let ?t = "Task_onTimeout AnnounceTask_callTimeout AnnounceTask_update ?s"
  note ev = Task_start_def Task_fill_def AnnounceTask_new_def AnnounceTask_update_def canDoRequest_def MAX_CONCURRENT_REQS_def kes_contains_def
    ord_contains_def kes_insert_def rpcCall_def task_done_def add32_def KBucketEntry_new_def Let_def
  have s: "tk_outstanding ?s = 1" by (simp add: ev)
  have q: "tk_outstanding ?t = 0" "\<not> tk_queued ?t" "length (tk_calls ?t) = 1"
    by (simp_all add: ev Task_onTimeout_def Task_ended_def AnnounceTask_callTimeout_def)
  have "task_run (\<lambda>(env, c). is_key (m_id (msg_header (snd c)))) (\<lambda>(env, c). AnnounceTask_callFinished env c) AnnounceTask_callTimeout AnnounceTask_update
      ?kns (AnnounceTask_new key_min Database_new key_min 6881) 1 ?t"
    using run_timeout[OF run_begin] s by (metis One_nat_def zero_less_one)
  then show ?thesis using AnnounceTask_ends q key_bounds(2) by (auto simp: KBucketEntry_new_def Let_def)
qed

section \<open>From the answer of one node to the lookup of another\<close>

definition learn :: "DhtEnv \<Rightarrow> KBucketEntry \<Rightarrow> NodeLookup \<Rightarrow> NodeLookup" where
  "learn env e t =
     (if ke_id e \<noteq> nl_our_id t \<and> \<not> kes_contains e (tk_todo t) \<and> \<not> kes_contains e (tk_visited t)
      then t\<lparr>tk_todo := kes_insert (KBucketEntry_new env (ke_addr e) (ke_id e)) (tk_todo t)\<rparr> else t)"

definition node_ok :: "nat \<Rightarrow> KBucketEntry \<Rightarrow> bool" where
  "node_ok v e \<longleftrightarrow> is_key (ke_id e) \<and> is_address (ke_addr e) \<and> ipVersion (ke_addr e) = v"

lemma nl_node_compact:
  assumes "node_ok v e" "length pre = j * (if v = 4 then 26 else 38)" "length pre < 2 ^ 31"
  shows "nl_node env (pre @ compact e @ post) v j t = learn env e t"
proof -
  have "u32 (j * (if v = 4 then 26 else 38)) = length pre" using assms(2,3) by (simp only: u32_id) (simp add: u32_id)
  moreover have "UnpackBucketEntry env (pre @ compact e @ post) (length pre) v = Inr (KBucketEntry_new env (ke_addr e) (ke_id e))"
    using UnpackBucketEntry_compact[of e pre env post] assms by (simp add: node_ok_def)
  ultimately show ?thesis by (simp add: nl_node_def learn_def KBucketEntry_new_def kes_contains_def)
qed

lemma compact_length: "node_ok v e \<Longrightarrow> length (compact e) = (if v = 4 then 26 else 38)"
  using PackBucketEntry_compact(2)[of e] by (simp add: node_ok_def)

lemma fold_nodes:
  assumes "\<forall>e \<in> set es. node_ok v e" "length pre = k * (if v = 4 then 26 else 38)" "length (pre @ concat (map compact es)) < 2 ^ 31"
  shows "fold (nl_node env (pre @ concat (map compact es)) v) [k..<k + length es] t = fold (learn env) es t"
  using assms
proof (induction es arbitrary: pre k t)
  case (Cons e es)
  have n: "node_ok v e" using Cons.prems(1) by simp
  have u: "[k..<k + length (e # es)] = k # [Suc k..<Suc k + length es]" by (simp add: upt_rec)
  have "nl_node env (pre @ concat (map compact (e # es))) v k t = learn env e t"
    using nl_node_compact[OF n Cons.prems(2), of env "concat (map compact es)"] Cons.prems(3) by simp
  moreover have "fold (nl_node env ((pre @ compact e) @ concat (map compact es)) v) [Suc k..<Suc k + length es] (learn env e t) = fold (learn env) es (learn env e t)"
    by (rule Cons.IH) (use Cons.prems compact_length[OF n] in simp_all)
  ultimately show ?case unfolding u by simp
qed simp

lemma concat_compact_length: "\<forall>e \<in> set es. node_ok v e \<Longrightarrow> length (concat (map compact es)) = length es * (if v = 4 then 26 else 38)"
  by (induction es) (simp_all add: compact_length)

lemma handleNodes_compact:
  assumes "\<forall>e \<in> set es. node_ok v e" "length es < 2 ^ 25"
  shows "NodeLookup_handleNodes env (concat (map compact es)) v t = fold (learn env) es t"
proof -
  have l: "length (concat (map compact es)) = length es * (if v = 4 then 26 else 38)" using concat_compact_length[OF assms(1)] .
  then have "length (concat (map compact es)) div (if v = 4 then 26 else 38) = length es" by simp
  moreover have "length (concat (map compact es)) < 2 ^ 31" using l assms(2) by (simp split: if_splits)
  ultimately show ?thesis using fold_nodes[OF assms(1), of "[]" 0 env t] by (simp add: NodeLookup_handleNodes_def)
qed

lemma handleNodes_guarded:
  assumes "\<forall>e \<in> set es. node_ok v e" "length es < 2 ^ 25"
  shows "(if length (concat (map compact es)) > 0 then NodeLookup_handleNodes env (concat (map compact es)) v t else t) = fold (learn env) es t"
proof (cases es)
  case (Cons e fs)
  then have "length (concat (map compact es)) > 0" using compact_length[of v e] assms(1) by (simp split: if_splits)
  then show ?thesis using handleNodes_compact[OF assms] by (simp only: if_True)
qed simp

definition learns :: "DhtEnv \<Rightarrow> KBucketEntry list \<Rightarrow> NodeLookup \<Rightarrow> NodeLookup \<Rightarrow> bool" where
  "learns env es t t' \<longleftrightarrow> node_keys_ok (tk_todo t') \<and> tk_visited t' = tk_visited t \<and> nl_our_id t' = nl_our_id t \<and>
     ke_id ` set (tk_todo t') = ke_id ` set (tk_todo t) \<union> (ke_id ` set es - {nl_our_id t} - ke_id ` set (tk_visited t)) \<and>
     set (tk_todo t') \<subseteq> set (tk_todo t) \<union> (\<lambda>e. KBucketEntry_new env (ke_addr e) (ke_id e)) ` set es"

lemma learn_law:
  assumes "is_key (ke_id e)" "node_keys_ok (tk_todo t)"
  shows "learns env [e] t (learn env e t)"
proof -
  have c: "kes_contains x s \<longleftrightarrow> ke_id x \<in> ke_id ` set s" for x s
    by (auto simp: kes_contains_def ord_contains_def intro: rev_image_eqI)
  let ?n = "KBucketEntry_new env (ke_addr e) (ke_id e)"
  show ?thesis
  proof (cases "ke_id e \<noteq> nl_our_id t \<and> \<not> kes_contains e (tk_todo t) \<and> \<not> kes_contains e (tk_visited t)")
    case True
    have n: "is_key (ke_id ?n)" "ke_id ?n = ke_id e" using assms(1) by (simp_all add: KBucketEntry_new_def)
    have "set (kes_insert ?n (tk_todo t)) = insert ?n (set (tk_todo t))"
      using ord_insert_length(2)[of ke_id ?n "tk_todo t"] n assms(2) True by (simp add: kes_insert_def kes_contains_def node_keys_ok_def)
    then show ?thesis using True n node_keys_insert[OF assms(2) n(1)] by (auto simp: learns_def learn_def c)
  next
    case False
    then have "learn env e t = t" unfolding learn_def by (rule if_not_P)
    then show ?thesis using False assms(2) by (auto simp: learns_def c)
  qed
qed

lemma learns_trans:
  assumes "learns env es t t1" "learns env fs t1 t2"
  shows "learns env (es @ fs) t t2"
proof -
  note a = assms(1)[unfolded learns_def] and b = assms(2)[unfolded learns_def]
  have v: "tk_visited t1 = tk_visited t" "nl_our_id t1 = nl_our_id t" using a by simp_all
  have i: "ke_id ` set (tk_todo t1) = ke_id ` set (tk_todo t) \<union> (ke_id ` set es - {nl_our_id t} - ke_id ` set (tk_visited t))" using a by simp
  have j: "ke_id ` set (tk_todo t2) = ke_id ` set (tk_todo t1) \<union> (ke_id ` set fs - {nl_our_id t} - ke_id ` set (tk_visited t))" using b v by simp
  let ?c = "\<lambda>e. KBucketEntry_new env (ke_addr e) (ke_id e)"
  have p: "set (tk_todo t1) \<subseteq> set (tk_todo t) \<union> ?c ` set es" "set (tk_todo t2) \<subseteq> set (tk_todo t1) \<union> ?c ` set fs" using a b by simp_all
  have "ke_id ` set (tk_todo t2) = ke_id ` set (tk_todo t) \<union> (ke_id ` set (es @ fs) - {nl_our_id t} - ke_id ` set (tk_visited t))"
    unfolding j i set_append image_Un by blast
  moreover have "set (tk_todo t2) \<subseteq> set (tk_todo t) \<union> ?c ` set (es @ fs)" unfolding set_append image_Un using p by blast
  ultimately show ?thesis unfolding learns_def using b v by simp
qed

lemma fold_learn:
  "\<forall>e \<in> set es. is_key (ke_id e) \<Longrightarrow> node_keys_ok (tk_todo t) \<Longrightarrow> learns env es t (fold (learn env) es t)"
proof (induction es arbitrary: t)
  case (Cons e es)
  have 1: "learns env [e] t (learn env e t)" using learn_law Cons.prems by simp
  then have "learns env es (learn env e t) (fold (learn env) es (learn env e t))" using Cons by (simp add: learns_def)
  then show ?case using learns_trans[OF 1] by simp
qed (simp add: learns_def)



end
