(* ===== verification/Dht_Rpc.thy ===== *)
theory Dht_Rpc
  imports Dht_Message
begin

text \<open>
  The calls of the DHT (\<open>src/dht/rpcserver.cpp\<close>): requests get a transaction identifier of one byte, wait in a queue when all 256 are taken, and are sent when one is free.
  A call is the number of its creation and its request. The loop that looks for an identifier in \<open>doQueuedCalls\<close> has no exit when all are taken; the model gives it 256
  steps, after which it has seen every byte, and is \<open>None\<close> if it would go on.

  Shown is that the identifiers in use are different, that no call is lost, that calls only wait while all identifiers are in use, and that the loop ends.
\<close>

section \<open>Operations\<close>

type_synonym rpc_call = "nat \<times> RPCMsg"

record RPCServer =
  rs_calls :: "(bytes \<times> rpc_call) list"
  rs_queue :: "rpc_call list"
  rs_next_mtid :: u8
  rs_sent :: "RPCMsg list"
  rs_made :: nat

definition RPCServer_new :: RPCServer where
  "RPCServer_new = \<lparr>rs_calls = [], rs_queue = [], rs_next_mtid = 0, rs_sent = [], rs_made = 0\<rparr>"

definition rs_contains :: "RPCServer \<Rightarrow> bytes \<Rightarrow> bool" where
  "rs_contains s mtid \<longleftrightarrow> map_of (rs_calls s) mtid \<noteq> None"

definition findMethod :: "RPCServer \<Rightarrow> bytes \<Rightarrow> Method" where
  "findMethod s mtid = (case map_of (rs_calls s) mtid of None \<Rightarrow> NONE_METHOD | Some c \<Rightarrow> getMethod (snd c))"

definition getNumActiveRPCCalls :: "RPCServer \<Rightarrow> nat" where
  "getNumActiveRPCCalls s = length (rs_calls s)"

function free_slot :: "(bytes \<Rightarrow> bool) \<Rightarrow> u8 \<Rightarrow> u8 \<Rightarrow> u8 \<times> bool" where
  \<comment> \<open>the loop of \<open>doCall\<close>: the value of \<open>next_mtid\<close> after it, and whether it was left with a free identifier\<close>
  "free_slot used start n =
     (if used [n] then let n' = n + 1 in if n' = start then (n', False) else free_slot used start n'
      else (n, True))"
  by auto

lemma next_byte:
  assumes "n + 1 \<noteq> (start :: u8)"
  shows "unat (n + 1 - start) = Suc (unat (n - start))"
proof -
  have "n - start \<noteq> - 1" using assms by (metis add_diff_cancel_left' diff_add_cancel diff_eq_diff_eq add.commute uminus_add_conv_diff)
  then have "unat (n - start + 1) = Suc (unat (n - start))" by (metis unatSuc add.commute add_eq_0_iff)
  then show ?thesis by (simp add: algebra_simps)
qed

termination free_slot
proof (relation "measure (\<lambda>(used, start, n). 256 - unat (n - start))")
  fix used :: "bytes \<Rightarrow> bool" and start n n' :: u8
  assume "used [n]" "n' = n + 1" "n' \<noteq> start"
  then have "unat (n' - start) = Suc (unat (n - start))" using next_byte by simp
  moreover have "unat (n' - start) < 256" by (rule unat_byte)
  ultimately show "((used, start, n'), used, start, n) \<in> measure (\<lambda>(used, start, n). 256 - unat (n - start))" by simp
qed simp

declare free_slot.simps [simp del]

fun skip_used :: "(bytes \<Rightarrow> bool) \<Rightarrow> nat \<Rightarrow> u8 \<Rightarrow> u8 option" where
  "skip_used used 0 n = None"
| "skip_used used (Suc k) n = (if used [n] then skip_used used k (n + 1) else Some n)"

definition rs_doCall :: "RPCMsg \<Rightarrow> RPCServer \<Rightarrow> nat \<times> RPCServer" where
  "rs_doCall msg s =
     (let (n, found) = free_slot (rs_contains s) (rs_next_mtid s) (rs_next_mtid s) in
      if \<not> found
      then (rs_made s, s\<lparr>rs_next_mtid := n, rs_queue := rs_queue s @ [(rs_made s, msg)], rs_made := Suc (rs_made s)\<rparr>)
      else let msg' = setMTID [n] msg in
        (rs_made s, s\<lparr>rs_next_mtid := n, rs_sent := rs_sent s @ [msg'], rs_calls := rs_calls s @ [([n], (rs_made s, msg'))], rs_made := Suc (rs_made s)\<rparr>))"

fun queued_loop :: "rpc_call list \<Rightarrow> RPCServer \<Rightarrow> RPCServer option" where
  "queued_loop [] s = Some (s\<lparr>rs_queue := []\<rparr>)"
| "queued_loop (c # cs) s =
     (if length (rs_calls s) < 256 then
        case skip_used (rs_contains s) 256 (rs_next_mtid s) of
          None \<Rightarrow> None
        | Some n \<Rightarrow>
            let msg = setMTID [n] (snd c) in
            queued_loop cs (s\<lparr>rs_next_mtid := n + 1, rs_sent := rs_sent s @ [msg], rs_calls := rs_calls s @ [([n], (fst c, msg))]\<rparr>)
      else Some (s\<lparr>rs_queue := c # cs\<rparr>))"

definition doQueuedCalls :: "RPCServer \<Rightarrow> RPCServer option" where
  "doQueuedCalls s = queued_loop (rs_queue s) s"

definition rs_erase :: "bytes \<Rightarrow> RPCServer \<Rightarrow> RPCServer" where
  "rs_erase mtid s = s\<lparr>rs_calls := filter (\<lambda>c. fst c \<noteq> mtid) (rs_calls s)\<rparr>"

definition rs_response :: "RPCMsg \<Rightarrow> RPCServer \<Rightarrow> RPCServer option" where
  \<comment> \<open>the end of \<open>dataReceived\<close>: the call has told its listeners\<close>
  "rs_response msg s =
     (if getType msg = RSP_MSG \<and> rs_contains s (m_mtid (msg_header msg))
      then doQueuedCalls (rs_erase (m_mtid (msg_header msg)) s) else Some s)"

definition rs_timedOut :: "bytes \<Rightarrow> RPCServer \<Rightarrow> RPCServer option" where
  "rs_timedOut mtid s = doQueuedCalls (if rs_contains s mtid then rs_erase mtid s else s)"

section \<open>Identifiers\<close>

lemma free_slot_full:
  "free_slot used start n = (n', False) \<Longrightarrow> unat (n - start) \<le> unat (b - start) \<Longrightarrow> used [b]"
proof (induction used start n rule: free_slot.induct)
  case (1 used start n)
  have used: "used [n]" using "1.prems"(1) by (simp add: free_slot.simps[of used start n] split: if_splits)
  show ?case
  proof (cases "b = n")
    case False
    then have "unat (n - start) \<noteq> unat (b - start)" by (metis diff_left_imp_eq word_unat_eq_iff diff_eq_eq add_diff_cancel)
    then have lt: "Suc (unat (n - start)) \<le> unat (b - start)" using "1.prems"(2) by simp
    have "n + 1 \<noteq> start"
    proof
      assume "n + 1 = start"
      then have "n - start = - 1" by (metis add_diff_cancel_left' diff_add_cancel uminus_add_conv_diff add.commute diff_eq_diff_eq)
      moreover have "(- 1 :: u8) = 255" by simp
      ultimately have "unat (n - start) = 255" by simp
      then show False using lt unat_byte[of "b - start"] by simp
    qed
    then show ?thesis using "1.IH"[OF used refl] "1.prems"(1) lt next_byte used by (simp add: free_slot.simps[of used start n] Let_def)
  qed (use used in simp)
qed

lemma free_slot_free: "free_slot used start n = (n', True) \<Longrightarrow> \<not> used [n']"
proof (induction used start n rule: free_slot.induct)
  case (1 used start n)
  then show ?case by (cases "used [n]"; cases "n + 1 = start") (simp_all add: free_slot.simps[of used start n] Let_def)
qed

lemma skip_used_None: "skip_used used k n = None \<Longrightarrow> i < k \<Longrightarrow> used [n + of_nat i]"
proof (induction k arbitrary: n i)
  case (Suc k)
  have u: "used [n]" "skip_used used k (n + 1) = None" using Suc.prems(1) by (auto split: if_splits)
  show ?case
  proof (cases i)
    case (Suc j)
    then have "used [(n + 1) + of_nat j]" using Suc.IH[OF u(2), of j] Suc.prems(2) by simp
    then show ?thesis using Suc by (simp add: algebra_simps)
  qed (use u in simp)
qed simp

lemma skip_used_total:
  assumes "\<not> used [b]"
  obtains n where "skip_used used 256 m = Some n"
proof (cases "skip_used used 256 m")
  case None
  have "used [m + of_nat (unat (b - m))]" by (rule skip_used_None[OF None unat_byte])
  then show thesis using assms by simp
qed (use that in blast)

lemma skip_used_free: "skip_used used k n = Some m \<Longrightarrow> \<not> used [m]"
  by (induction k arbitrary: n) (auto split: if_splits)

section \<open>Histories\<close>

text \<open>Calls are made, answered and time out; the last argument holds the calls that have ended.\<close>

inductive rpc_run :: "RPCServer \<Rightarrow> nat list \<Rightarrow> bool" where
  rpc_start: "rpc_run RPCServer_new []"
| rpc_call: "rpc_run s ended \<Longrightarrow> rpc_run (snd (rs_doCall msg s)) ended"
| rpc_response: "\<lbrakk>rpc_run s ended; getType msg = RSP_MSG; map_of (rs_calls s) (m_mtid (msg_header msg)) = Some (k, req); rs_response msg s = Some s'\<rbrakk> \<Longrightarrow>
    rpc_run s' (k # ended)"
| rpc_other: "\<lbrakk>rpc_run s ended; getType msg \<noteq> RSP_MSG \<or> \<not> rs_contains s (m_mtid (msg_header msg)); rs_response msg s = Some s'\<rbrakk> \<Longrightarrow> rpc_run s' ended"
| rpc_timeout: "\<lbrakk>rpc_run s ended; map_of (rs_calls s) mtid = Some (k, req); rs_timedOut mtid s = Some s'\<rbrakk> \<Longrightarrow> rpc_run s' (k # ended)"

definition rpc_slots_ok :: "RPCServer \<Rightarrow> bool" where
  "rpc_slots_ok s \<longleftrightarrow> distinct (map fst (rs_calls s)) \<and> (\<forall>c \<in> set (rs_calls s). fst c = m_mtid (msg_header (snd (snd c))) \<and> length (fst c) = 1)"

definition numbers :: "RPCServer \<Rightarrow> nat list \<Rightarrow> nat list" where
  "numbers s ended = map (\<lambda>c. fst (snd c)) (rs_calls s) @ map fst (rs_queue s) @ ended"

lemma rpc_slots_other [simp]:
  "rpc_slots_ok (s\<lparr>rs_queue := q\<rparr>) = rpc_slots_ok s" "rpc_slots_ok (s\<lparr>rs_next_mtid := n\<rparr>) = rpc_slots_ok s" "rpc_slots_ok (s\<lparr>rs_made := k\<rparr>) = rpc_slots_ok s"
  by (simp_all add: rpc_slots_ok_def)

lemma header_mtid [simp]: "m_mtid (msg_header (setMTID t m)) = t"
  by (cases m) (simp_all add: setMTID_def)

lemma slots_bytes:
  assumes "rpc_slots_ok s"
  shows "length (rs_calls s) = card {b. rs_contains s [b]}"
proof -
  have "fst ` set (rs_calls s) = (\<lambda>b. [b]) ` {b. rs_contains s [b]}"
  proof
    show "fst ` set (rs_calls s) \<subseteq> (\<lambda>b. [b]) ` {b. rs_contains s [b]}"
    proof
      fix x assume "x \<in> fst ` set (rs_calls s)"
      then obtain c where c: "c \<in> set (rs_calls s)" "x = fst c" by blast
      then have "length x = 1" using assms by (auto simp: rpc_slots_ok_def)
      then obtain b where "x = [b]" by (auto simp: length_Suc_conv)
      then show "x \<in> (\<lambda>b. [b]) ` {b. rs_contains s [b]}" using c by (intro image_eqI[of _ _ b]) (auto simp: rs_contains_def map_of_eq_None_iff intro: rev_image_eqI)
    qed
  qed (auto simp: rs_contains_def map_of_eq_None_iff)
  then have "card (fst ` set (rs_calls s)) = card {b. rs_contains s [b]}" by (simp add: card_image inj_on_def)
  then show ?thesis using assms distinct_card[of "map fst (rs_calls s)"] by (simp add: rpc_slots_ok_def)
qed

lemma slots_limit: "rpc_slots_ok s \<Longrightarrow> length (rs_calls s) \<le> 256"
  using slots_bytes[of s] card_mono[of UNIV "{b. rs_contains s [b]}"] by (simp add: card_word)

lemma slots_room:
  assumes "rpc_slots_ok s" "length (rs_calls s) < 256"
  obtains b where "\<not> rs_contains s [b]"
proof (rule ccontr)
  assume "\<not> thesis"
  then have "{b. rs_contains s [b]} = UNIV" using that by blast
  then show False using slots_bytes[OF assms(1)] assms(2) by (simp add: card_word)
qed

lemma slots_add:
  assumes "rpc_slots_ok s" "\<not> rs_contains s [n]"
  shows "rpc_slots_ok (s\<lparr>rs_next_mtid := m, rs_sent := x, rs_calls := rs_calls s @ [([n], (k, setMTID [n] msg))]\<rparr>)"
  using assms by (auto simp: rpc_slots_ok_def rs_contains_def map_of_eq_None_iff)

lemma queued_loop_law:
  assumes "rpc_slots_ok s"
  shows "\<exists>s'. queued_loop cs s = Some s' \<and> rpc_slots_ok s' \<and> rs_made s' = rs_made s \<and> (rs_queue s' \<noteq> [] \<longrightarrow> length (rs_calls s') = 256) \<and>
    map (\<lambda>c. fst (snd c)) (rs_calls s') @ map fst (rs_queue s') = map (\<lambda>c. fst (snd c)) (rs_calls s) @ map fst cs"
  using assms
proof (induction cs arbitrary: s)
  case (Cons c cs)
  show ?case
  proof (cases "length (rs_calls s) < 256")
    case True
    obtain b where "\<not> rs_contains s [b]" using slots_room[OF Cons.prems True] .
    then obtain n where n: "skip_used (rs_contains s) 256 (rs_next_mtid s) = Some n" by (rule skip_used_total)
    let ?s = "s\<lparr>rs_next_mtid := n + 1, rs_sent := rs_sent s @ [setMTID [n] (snd c)], rs_calls := rs_calls s @ [([n], (fst c, setMTID [n] (snd c)))]\<rparr>"
    have "rpc_slots_ok ?s" by (rule slots_add[OF Cons.prems skip_used_free[OF n]])
    from Cons.IH[OF this] show ?thesis using True n by (simp add: Let_def)
  next
    case False
    then have "length (rs_calls s) = 256" using slots_limit[OF Cons.prems] by simp
    then show ?thesis using False Cons.prems by auto
  qed
qed simp

definition rpc_ok :: "RPCServer \<Rightarrow> nat list \<Rightarrow> bool" where
  "rpc_ok s ended \<longleftrightarrow> rpc_slots_ok s \<and> (rs_queue s \<noteq> [] \<longrightarrow> length (rs_calls s) = 256) \<and>
     distinct (numbers s ended) \<and> set (numbers s ended) = {..<rs_made s}"

lemma rpc_ok_call:
  assumes "rpc_ok s ended"
  shows "rpc_ok (snd (rs_doCall msg s)) ended"
proof -
  obtain n f where r: "free_slot (rs_contains s) (rs_next_mtid s) (rs_next_mtid s) = (n, f)" by (cases "free_slot (rs_contains s) (rs_next_mtid s) (rs_next_mtid s)")
  have nm: "distinct (rs_made s # numbers s ended)" "set (rs_made s # numbers s ended) = {..<Suc (rs_made s)}"
    using assms by (auto simp: rpc_ok_def lessThan_Suc)
  show ?thesis
  proof (cases f)
    case True
    have "\<not> rs_contains s [n]" using free_slot_free r True by (metis (full_types))
    then have ok: "rpc_slots_ok (snd (rs_doCall msg s))"
      using slots_add[of s n] assms r True by (simp add: rs_doCall_def rpc_ok_def Let_def)
    have "length (rs_calls (snd (rs_doCall msg s))) = Suc (length (rs_calls s))" "rs_queue (snd (rs_doCall msg s)) = rs_queue s"
      using r True by (simp_all add: rs_doCall_def Let_def)
    then have "rs_queue s = []" using slots_limit[OF ok] assms by (auto simp: rpc_ok_def)
    then show ?thesis using ok nm r True by (auto simp: rpc_ok_def rs_doCall_def Let_def numbers_def)
  next
    case False
    have "rs_contains s [b]" for b using free_slot_full[of "rs_contains s" "rs_next_mtid s" "rs_next_mtid s" n b] False r by simp
    then have "length (rs_calls s) = 256" using slots_bytes[of s] assms by (simp add: rpc_ok_def card_word)
    then show ?thesis using nm r False assms by (auto simp: rpc_ok_def rs_doCall_def Let_def numbers_def)
  qed
qed

lemma erase_numbers:
  assumes "rpc_slots_ok s" "map_of (rs_calls s) mtid = Some (k, req)"
  shows "rpc_slots_ok (rs_erase mtid s)" "rs_queue (rs_erase mtid s) = rs_queue s" "rs_made (rs_erase mtid s) = rs_made s"
    "distinct (numbers s ended) \<Longrightarrow> distinct (numbers (rs_erase mtid s) (k # ended))" "set (numbers (rs_erase mtid s) (k # ended)) = set (numbers s ended)"
proof -
  show "rpc_slots_ok (rs_erase mtid s)" using assms(1) by (auto simp: rpc_slots_ok_def rs_erase_def distinct_map_filter)
  show "rs_queue (rs_erase mtid s) = rs_queue s" "rs_made (rs_erase mtid s) = rs_made s" by (simp_all add: rs_erase_def)
  have "(mtid, (k, req)) \<in> set (rs_calls s)" using map_of_SomeD[OF assms(2)] .
  then obtain xs ys where s: "rs_calls s = xs @ (mtid, (k, req)) # ys" by (meson split_list)
  have "distinct (map fst (xs @ (mtid, (k, req)) # ys))" using assms(1) unfolding rpc_slots_ok_def s by (rule conjunct1)
  then have "mtid \<notin> fst ` set xs" "mtid \<notin> fst ` set ys" by auto
  then have "filter (\<lambda>c. fst c \<noteq> mtid) xs = xs" "filter (\<lambda>c. fst c \<noteq> mtid) ys = ys" by (force intro!: filter_True)+
  then have e: "rs_calls (rs_erase mtid s) = xs @ ys" by (simp add: rs_erase_def s)
  show "distinct (numbers s ended) \<Longrightarrow> distinct (numbers (rs_erase mtid s) (k # ended))"
    unfolding numbers_def e s by (auto simp: rs_erase_def)
  show "set (numbers (rs_erase mtid s) (k # ended)) = set (numbers s ended)" unfolding numbers_def e s by (auto simp: rs_erase_def)
qed

lemma rpc_ok_end:
  assumes "rpc_ok s ended" "map_of (rs_calls s) mtid = Some (k, req)"
  shows "\<exists>s'. doQueuedCalls (rs_erase mtid s) = Some s' \<and> rpc_ok s' (k # ended)"
proof -
  have ok: "rpc_slots_ok s" "distinct (numbers s ended)" "set (numbers s ended) = {..<rs_made s}" using assms(1) by (simp_all add: rpc_ok_def)
  note e = erase_numbers[OF ok(1) assms(2)]
  obtain s' where s: "doQueuedCalls (rs_erase mtid s) = Some s'" "rpc_slots_ok s'" "rs_made s' = rs_made s" "rs_queue s' \<noteq> [] \<longrightarrow> length (rs_calls s') = 256"
      "map (\<lambda>c. fst (snd c)) (rs_calls s') @ map fst (rs_queue s') = map (\<lambda>c. fst (snd c)) (rs_calls (rs_erase mtid s)) @ map fst (rs_queue (rs_erase mtid s))"
    using queued_loop_law[OF e(1), of "rs_queue (rs_erase mtid s)"] e(3) unfolding doQueuedCalls_def by auto
  have "numbers s' (k # ended) = numbers (rs_erase mtid s) (k # ended)" using s(5) by (simp add: numbers_def)
  then show ?thesis using s e(4,5)[of ended] ok by (simp add: rpc_ok_def)
qed

lemma rpc_run_ok: "rpc_run s ended \<Longrightarrow> rpc_ok s ended"
proof (induction rule: rpc_run.induct)
  case rpc_start
  then show ?case by (simp add: rpc_ok_def RPCServer_new_def rpc_slots_ok_def numbers_def)
next
  case (rpc_call s ended msg)
  then show ?case by (intro rpc_ok_call)
next
  case (rpc_response s ended msg k req s')
  then show ?case using rpc_ok_end[OF rpc_response(5,3)] by (auto simp: rs_response_def rs_contains_def)
next
  case (rpc_other s ended msg s')
  then show ?case by (auto simp: rs_response_def split: if_splits)
next
  case (rpc_timeout s ended mtid k req s')
  then show ?case using rpc_ok_end[OF rpc_timeout(4,2)] by (auto simp: rs_timedOut_def rs_contains_def)
qed

text \<open>
  C14. Calls to other nodes: at any time at most 256 calls are outstanding, each with its own transaction identifier of one byte, which is the one its request was
  sent with; a call waits in the queue only while all 256 identifiers are in use; every call that was made is either outstanding, in the queue or ended, and only one of
  them, so none is lost or counted twice; and when an outstanding call is answered or times out, looking for identifiers for the waiting calls comes to an end.
\<close>

theorem RPCServer_calls:
  assumes "rpc_run s ended"
  shows "length (rs_calls s) \<le> 256 \<and> distinct (map fst (rs_calls s)) \<and> (\<forall>(mtid, k, req) \<in> set (rs_calls s). mtid = m_mtid (msg_header req) \<and> length mtid = 1) \<and>
    (rs_queue s \<noteq> [] \<longrightarrow> length (rs_calls s) = 256) \<and>
    distinct (map (\<lambda>(mtid, k, req). k) (rs_calls s) @ map fst (rs_queue s) @ ended) \<and>
    set (map (\<lambda>(mtid, k, req). k) (rs_calls s) @ map fst (rs_queue s) @ ended) = {..<rs_made s} \<and>
    (mtid \<in> fst ` set (rs_calls s) \<longrightarrow> (\<exists>s'. rs_timedOut mtid s = Some s') \<and>
       (getType rsp = RSP_MSG \<and> m_mtid (msg_header rsp) = mtid \<longrightarrow> (\<exists>s'. rs_response rsp s = Some s')))"
proof -
  have ok: "rpc_ok s ended" using rpc_run_ok[OF assms] .
  then have "rpc_slots_ok s" "length (rs_calls s) \<le> 256" using slots_limit[of s] by (simp_all add: rpc_ok_def)
  then have a: "length (rs_calls s) \<le> 256 \<and> distinct (map fst (rs_calls s)) \<and> (\<forall>(mtid, k, req) \<in> set (rs_calls s). mtid = m_mtid (msg_header req) \<and> length mtid = 1)"
    unfolding rpc_slots_ok_def by fastforce
  have b: "rs_queue s \<noteq> [] \<longrightarrow> length (rs_calls s) = 256" using ok by (simp add: rpc_ok_def)
  have n: "numbers s ended = map (\<lambda>(mtid, k, req). k) (rs_calls s) @ map fst (rs_queue s) @ ended" by (simp add: numbers_def case_prod_unfold)
  have c: "distinct (map (\<lambda>(mtid, k, req). k) (rs_calls s) @ map fst (rs_queue s) @ ended)"
    "set (map (\<lambda>(mtid, k, req). k) (rs_calls s) @ map fst (rs_queue s) @ ended) = {..<rs_made s}"
    using ok unfolding rpc_ok_def n by blast+
  have "(\<exists>s'. rs_timedOut mtid s = Some s') \<and> (getType rsp = RSP_MSG \<and> m_mtid (msg_header rsp) = mtid \<longrightarrow> (\<exists>s'. rs_response rsp s = Some s'))"
    if u: "mtid \<in> fst ` set (rs_calls s)"
  proof -
    obtain k req where m: "map_of (rs_calls s) mtid = Some (k, req)" using u by (metis map_of_eq_None_iff not_None_eq surj_pair)
    then show ?thesis using rpc_ok_end[OF ok m] by (auto simp: rs_timedOut_def rs_response_def rs_contains_def)
  qed
  then show ?thesis using a b c by blast
qed

theorem RPCServer_calls_witness:
  "\<exists>s'. rs_timedOut [0] (snd (rs_doCall (PingReq \<lparr>m_mtid = [], m_id = key_min, m_origin = V4 1 2\<rparr>) RPCServer_new)) = Some s'"
proof -
  let ?s = "snd (rs_doCall (PingReq \<lparr>m_mtid = [], m_id = key_min, m_origin = V4 1 2\<rparr>) RPCServer_new)"
  have "rpc_run ?s []" by (rule rpc_call[OF rpc_start])
  moreover have "[0] \<in> fst ` set (rs_calls ?s)" by (simp add: rs_doCall_def RPCServer_new_def free_slot.simps rs_contains_def Let_def)
  ultimately show ?thesis using RPCServer_calls by blast
qed

end
