(* ===== verification/Dht_Node.thy ===== *)
theory Dht_Node
  imports Dht_Rpc
begin

text \<open>
  A node of the DHT: its two routing tables (\<open>src/dht/node.cpp\<close>), its database, and how it handles requests, responses and timeouts (\<open>src/dht/dht.cpp\<close>). A message arrives as
  \<open>RPCServer::dataReceived\<close> hands it over: built from the datagram and with its origin set. What the node sends is in \<open>dh_sent\<close>; that it starts a lookup of its own identity is counted in
  \<open>dh_own_lookups\<close>. A handler is \<open>None\<close> when an exception leaves it.

  Shown is that the handlers raise no exception, that the tables and the database of a node are always in a state its parts reach on their own, and what the protocol
  of announcing a torrent achieves.
\<close>

section \<open>The node\<close>

record Dht =
  dh_running :: bool
  dh_our_id :: Key
  dh_v4 :: KBucketTable
  dh_v6 :: KBucketTable
  dh_num_receives :: nat
  dh_num_entries :: nat
  dh_own_lookups :: nat
  dh_db :: Database
  dh_sent :: "RPCMsg list"

definition Dht_new :: "Key \<Rightarrow> Dht" where
  "Dht_new our_id =
     \<lparr>dh_running = True, dh_our_id = our_id, dh_v4 = KBucketTable_new our_id, dh_v6 = KBucketTable_new our_id, dh_num_receives = 0, dh_num_entries = 0,
      dh_own_lookups = 0, dh_db = Database_new, dh_sent = []\<rparr>"

definition node_received :: "DhtEnv \<Rightarrow> RPCHeader \<Rightarrow> Dht \<Rightarrow> Dht" where
  "node_received env h d =
     (let e = KBucketEntry_new env (m_origin h) (m_id h);
          d = (if ipVersion (m_origin h) = 4 then d\<lparr>dh_v4 := kt_insert env e (dh_v4 d)\<rparr> else d\<lparr>dh_v6 := kt_insert env e (dh_v6 d)\<rparr>);
          d = d\<lparr>dh_num_receives := add32 (dh_num_receives d) 1\<rparr>;
          d = (if dh_num_receives d = 3 then d\<lparr>dh_own_lookups := Suc (dh_own_lookups d)\<rparr> else d)
      in d\<lparr>dh_num_entries := kt_numEntries (dh_v4 d) + kt_numEntries (dh_v6 d)\<rparr>)"

definition node_findKClosestNodes :: "Dht \<Rightarrow> bool \<Rightarrow> bool \<Rightarrow> KClosestNodesSearch \<Rightarrow> KClosestNodesSearch option" where
  "node_findKClosestNodes d want4 want6 kns =
     Option.bind (if want4 then kt_findKClosestNodes (dh_v4 d) kns else Some kns) (\<lambda>kns.
       if want6 then kt_findKClosestNodes (dh_v6 d) kns else Some kns)"

definition node_onTimeout :: "RPCMsg \<Rightarrow> Dht \<Rightarrow> Dht" where
  "node_onTimeout m d =
     (let a = m_origin (msg_header m) in
      if ipVersion a = 4 then d\<lparr>dh_v4 := kt_onTimeout a (dh_v4 d)\<rparr> else d\<lparr>dh_v6 := kt_onTimeout a (dh_v6 d)\<rparr>)"

section \<open>Handlers\<close>

definition send_msg :: "RPCMsg \<Rightarrow> Dht \<Rightarrow> Dht" where
  "send_msg m d = d\<lparr>dh_sent := dh_sent d @ [m]\<rparr>"

definition dht_ping :: "DhtEnv \<Rightarrow> RPCHeader \<Rightarrow> Dht \<Rightarrow> Dht option" where
  "dht_ping env h d =
     (if \<not> dh_running d then Some d
      else if m_id h = dh_our_id d then Some d
      else Some (node_received env h (send_msg (PingRsp \<lparr>m_mtid = m_mtid h, m_id = dh_our_id d, m_origin = m_origin h\<rparr>) d)))"

definition closest_packed :: "RPCHeader \<Rightarrow> Key \<Rightarrow> string list \<Rightarrow> Dht \<Rightarrow> PackedNodeContainer option" where
  "closest_packed h target want d =
     Option.bind (node_findKClosestNodes d (wants want 4 \<or> ipVersion (m_origin h) = 4) (wants want 6 \<or> ipVersion (m_origin h) = 6)
         (KClosestNodesSearch_new target K_nodes))
       (\<lambda>kns. case ks_pack kns PackedNodeContainer_new of Inl _ \<Rightarrow> None | Inr n \<Rightarrow> Some n)"

definition dht_findNode :: "DhtEnv \<Rightarrow> RPCHeader \<Rightarrow> Key \<Rightarrow> string list \<Rightarrow> Dht \<Rightarrow> Dht option" where
  "dht_findNode env h target want d =
     (if \<not> dh_running d then Some d
      else if m_id h = dh_our_id d then Some d
      else let d = node_received env h d in
        map_option (\<lambda>n. send_msg (FindNodeRsp \<lparr>m_mtid = m_mtid h, m_id = dh_our_id d, m_origin = m_origin h\<rparr> n) d) (closest_packed h target want d))"

definition dht_announce :: "(bytes \<Rightarrow> Key) \<Rightarrow> DhtEnv \<Rightarrow> RPCHeader \<Rightarrow> Key \<Rightarrow> u16 \<Rightarrow> Key \<Rightarrow> Dht \<Rightarrow> Dht option" where
  "dht_announce sha1 env h info_hash port token d =
     (if \<not> dh_running d then Some d
      else if m_id h = dh_our_id d then Some d
      else let d = node_received env h d in
        map_option (\<lambda>(ok, db).
            if \<not> ok then d\<lparr>dh_db := db\<rparr>
            else send_msg (AnnounceRsp \<lparr>m_mtid = m_mtid h, m_id = dh_our_id d, m_origin = m_origin h\<rparr>)
              (d\<lparr>dh_db := db_store info_hash (DBItem_new env (m_origin h)) db\<rparr>))
          (checkToken sha1 token (m_origin h) (dh_db d)))"

definition dht_getPeers :: "(bytes \<Rightarrow> Key) \<Rightarrow> DhtEnv \<Rightarrow> RPCHeader \<Rightarrow> Key \<Rightarrow> string list \<Rightarrow> Dht \<Rightarrow> Dht option" where
  "dht_getPeers sha1 env h info_hash want d =
     (if \<not> dh_running d then Some d
      else if m_id h = dh_our_id d then Some d
      else let d = node_received env h d;
               dbl = db_sample info_hash [] 50 (ipVersion (m_origin h)) (dh_db d) in
        Option.bind (genToken sha1 env (m_origin h) (dh_db d)) (\<lambda>(token, db).
          let d = d\<lparr>dh_db := db\<rparr> in
          map_option (\<lambda>n. send_msg (GetPeersRsp \<lparr>m_mtid = m_mtid h, m_id = dh_our_id d, m_origin = m_origin h\<rparr> n dbl token) d)
            (closest_packed h info_hash want d)))"

definition dht_response :: "DhtEnv \<Rightarrow> RPCHeader \<Rightarrow> Dht \<Rightarrow> Dht option" where
  "dht_response env h d = Some (if \<not> dh_running d then d else node_received env h d)"

definition dht_timeout :: "RPCMsg \<Rightarrow> Dht \<Rightarrow> Dht option" where
  "dht_timeout m d = Some (node_onTimeout m d)"

definition expireDatabaseItems :: "DhtEnv \<Rightarrow> Dht \<Rightarrow> Dht" where
  "expireDatabaseItems env d = d\<lparr>dh_db := db_expire (de_now env) (dh_db d)\<rparr>"

fun msg_apply :: "(bytes \<Rightarrow> Key) \<Rightarrow> DhtEnv \<Rightarrow> RPCMsg \<Rightarrow> Dht \<Rightarrow> Dht option" where
  "msg_apply sha1 env (PingReq h) d = dht_ping env h d"
| "msg_apply sha1 env (FindNodeReq h t w) d = dht_findNode env h t w d"
| "msg_apply sha1 env (GetPeersReq h i w) d = dht_getPeers sha1 env h i w d"
| "msg_apply sha1 env (AnnounceReq h i w p t) d = dht_announce sha1 env h i p t d"
| "msg_apply sha1 env (PingRsp h) d = dht_response env h d"
| "msg_apply sha1 env (FindNodeRsp h n) d = dht_response env h d"
| "msg_apply sha1 env (GetPeersRsp h n v t) d = dht_response env h d"
| "msg_apply sha1 env (AnnounceRsp h) d = dht_response env h d"
| "msg_apply sha1 env (ErrMsg h e) d = Some d"

section \<open>Datagrams\<close>

fun isIPv4Mapped :: "Address \<Rightarrow> bool" where
  "isIPv4Mapped (V4 _ _) = False"
| "isIPv4Mapped (V6 ip _) = ((\<forall>i < 10. ip ! i = 0) \<and> ip ! 10 = 0xFF \<and> ip ! 11 = 0xFF)"

fun convertIPv4Mapped :: "Address \<Rightarrow> Address" where
  "convertIPv4Mapped (V4 ip port) = V4 ip port"
| "convertIPv4Mapped (V6 ip port) =
     (if isIPv4Mapped (V6 ip port)
      then V4 (push_bit 24 (ucast (ip ! 12)) OR push_bit 16 (ucast (ip ! 13)) OR push_bit 8 (ucast (ip ! 14)) OR ucast (ip ! 15)) port
      else V6 ip port)"

definition dataReceived :: "(bytes \<Rightarrow> int option) \<Rightarrow> (bytes \<Rightarrow> int option) \<Rightarrow> (bytes \<Rightarrow> string) \<Rightarrow> (bytes \<Rightarrow> Key) \<Rightarrow> DhtEnv \<Rightarrow>
    bytes \<Rightarrow> Address \<Rightarrow> RPCServer \<Rightarrow> Dht \<Rightarrow> (RPCMsg \<times> Dht) option" where
  \<comment> \<open>the message the datagram holds and the node after it; \<open>None\<close> when nothing is done. The call that a response ends is ended by \<open>rs_response\<close>\<close>
  "dataReceived toInt toLongLong qs sha1 env ptr addr srv d =
     (case decode toInt toLongLong ptr 0 of
        Return (Some (BDictNode dict _ _), _) \<Rightarrow>
          (case msg_build env qs (findMethod srv) dict of
             Return (Some msg) \<Rightarrow>
               let msg = setOrigin (if ipVersion addr = 6 \<and> isIPv4Mapped addr then convertIPv4Mapped addr else addr) msg in
               map_option (\<lambda>d. (msg, d)) (msg_apply sha1 env msg d)
           | _ \<Rightarrow> None)
      | _ \<Rightarrow> None)"

section \<open>Histories of a node\<close>

definition msg_ok :: "RPCMsg \<Rightarrow> bool" where
  "msg_ok m \<longleftrightarrow> is_key (m_id (msg_header m)) \<and> is_address (m_origin (msg_header m))"

inductive bucket_event :: "KBucketTable \<Rightarrow> KBucketTable \<Rightarrow> bool" where
  ev_response: "i < length (kt_buckets t) \<Longrightarrow> bucket_event t (t\<lparr>kt_buckets := (kt_buckets t)[i := kb_onResponse env c (kt_buckets t ! i)]\<rparr>)"
| ev_timeout: "i < length (kt_buckets t) \<Longrightarrow> bucket_event t (t\<lparr>kt_buckets := (kt_buckets t)[i := kb_onCallTimeout env c (kt_buckets t ! i)]\<rparr>)"
| ev_refresh: "bucket_event t (refreshBuckets env started t)"

text \<open>
  Messages and timeouts arrive, the pings of the buckets end, the database is expired on its timer and tasks of the node put peers into it
  and register keys.
\<close>

inductive dht_run :: "(bytes \<Rightarrow> Key) \<Rightarrow> Key \<Rightarrow> DhtEnv \<Rightarrow> Dht \<Rightarrow> bool" for sha1 our where
  dht_start: "dht_run sha1 our env (Dht_new our)"
| dht_clock: "\<lbrakk>dht_run sha1 our env d; de_now env \<le> de_now env'\<rbrakk> \<Longrightarrow> dht_run sha1 our env' d"
| dht_message: "\<lbrakk>dht_run sha1 our env d; msg_ok m; msg_apply sha1 env m d = Some d'\<rbrakk> \<Longrightarrow> dht_run sha1 our env d'"
| dht_call_timeout: "\<lbrakk>dht_run sha1 our env d; dht_timeout m d = Some d'\<rbrakk> \<Longrightarrow> dht_run sha1 our env d'"
| dht_buckets4: "\<lbrakk>dht_run sha1 our env d; bucket_event (dh_v4 d) t\<rbrakk> \<Longrightarrow> dht_run sha1 our env (d\<lparr>dh_v4 := t\<rparr>)"
| dht_buckets6: "\<lbrakk>dht_run sha1 our env d; bucket_event (dh_v6 d) t\<rbrakk> \<Longrightarrow> dht_run sha1 our env (d\<lparr>dh_v6 := t\<rparr>)"
| dht_expire: "dht_run sha1 our env d \<Longrightarrow> dht_run sha1 our env (expireDatabaseItems env d)"
| dht_found: "dht_run sha1 our env d \<Longrightarrow> dht_run sha1 our env (d\<lparr>dh_db := db_store k (DBItem_new env a) (dh_db d)\<rparr>)"
| dht_register: "dht_run sha1 our env d \<Longrightarrow> dht_run sha1 our env (d\<lparr>dh_db := db_insert k (dh_db d)\<rparr>)"

lemma bucket_event_run: "bucket_event t t' \<Longrightarrow> kt_run our t \<Longrightarrow> kt_run our t'"
  by (induction rule: bucket_event.induct) (auto intro: kt_response kt_call_timeout kt_refresh)

definition db_reached :: "(bytes \<Rightarrow> Key) \<Rightarrow> DhtEnv \<Rightarrow> Database \<Rightarrow> bool" where
  "db_reached sha1 env db \<longleftrightarrow> (\<exists>hist issued accepted ex. db_run sha1 env db hist issued accepted ex)"

definition dht_ok :: "(bytes \<Rightarrow> Key) \<Rightarrow> Key \<Rightarrow> DhtEnv \<Rightarrow> Dht \<Rightarrow> bool" where
  "dht_ok sha1 our env d \<longleftrightarrow> dh_our_id d = our \<and> kt_run our (dh_v4 d) \<and> kt_run our (dh_v6 d) \<and> db_reached sha1 env (dh_db d)"

lemma db_reachedI: "db_run sha1 env db hist issued accepted ex \<Longrightarrow> db_reached sha1 env db"
  by (auto simp: db_reached_def)

lemma db_reached_ops:
  assumes "db_reached sha1 env db"
  shows "db_reached sha1 env (db_store k (DBItem_new env a) db)" "db_reached sha1 env (db_insert k db)" "db_reached sha1 env (db_expire (de_now env) db)"
    "is_address a \<Longrightarrow> genToken sha1 env a db = Some (t, db') \<Longrightarrow> db_reached sha1 env db'"
    "is_address a \<Longrightarrow> checkToken sha1 t a db = Some (r, db') \<Longrightarrow> db_reached sha1 env db'"
    "de_now env \<le> de_now env' \<Longrightarrow> db_reached sha1 env' db"
proof -
  obtain hist issued accepted ex where r: "db_run sha1 env db hist issued accepted ex" using assms by (auto simp: db_reached_def)
  show "db_reached sha1 env (db_store k (DBItem_new env a) db)" using db_stores[OF r] by (rule db_reachedI)
  show "db_reached sha1 env (db_insert k db)" using db_inserts[OF r] by (rule db_reachedI)
  show "db_reached sha1 env (db_expire (de_now env) db)" using db_expires[OF r] by (rule db_reachedI)
  show "db_reached sha1 env db'" if "is_address a" "genToken sha1 env a db = Some (t, db')" using db_gives[OF r that] by (rule db_reachedI)
  show "db_reached sha1 env db'" if "is_address a" "checkToken sha1 t a db = Some (r, db')" using db_checks[OF r that] by (rule db_reachedI)
  show "db_reached sha1 env' db" if "de_now env \<le> de_now env'" using db_clock[OF r that] by (rule db_reachedI)
qed

lemma node_received_fields [simp]:
  "dh_our_id (node_received env h d) = dh_our_id d" "dh_db (node_received env h d) = dh_db d" "dh_sent (node_received env h d) = dh_sent d"
  "dh_running (node_received env h d) = dh_running d"
  by (simp_all add: node_received_def Let_def)

lemma send_msg_fields [simp]:
  "dh_our_id (send_msg m d) = dh_our_id d" "dh_db (send_msg m d) = dh_db d" "dh_sent (send_msg m d) = dh_sent d @ [m]" "dh_running (send_msg m d) = dh_running d"
  "dh_v4 (send_msg m d) = dh_v4 d" "dh_v6 (send_msg m d) = dh_v6 d"
  by (simp_all add: send_msg_def)

lemma dht_ok_received:
  assumes "dht_ok sha1 our env d" "is_key (m_id h)" "is_address (m_origin h)"
  shows "dht_ok sha1 our env (node_received env h d)"
proof -
  have "valid_node (KBucketEntry_new env (m_origin h) (m_id h))" using assms(2,3) by (simp add: KBucketEntry_new_def)
  then have "kt_run our t \<Longrightarrow> kt_run our (kt_insert env (KBucketEntry_new env (m_origin h) (m_id h)) t)" for t using kt_run.kt_insert by blast
  then show ?thesis using assms(1) by (simp add: dht_ok_def node_received_def Let_def)
qed

lemma dht_ok_send [simp]: "dht_ok sha1 our env (send_msg m d) = dht_ok sha1 our env d"
  by (simp add: dht_ok_def)

section \<open>Searching the tables\<close>

lemma tryInsert_total:
  assumes "0 < ks_max_entries s" "length (ks_emap s) \<le> ks_max_entries s"
  shows "\<exists>s'. tryInsert e s = Some s' \<and> ks_max_entries s' = ks_max_entries s \<and> length (ks_emap s') \<le> ks_max_entries s \<and>
    snd ` set (ks_emap s') \<subseteq> insert e (snd ` set (ks_emap s))"
proof -
  let ?d = "(key_distance (ks_key s) (ke_id e), e)"
  have sub: "snd ` set (ord_insert fst ?d (ks_emap s)) \<subseteq> insert e (snd ` set (ks_emap s))" using ord_insert_subset[of fst ?d "ks_emap s"] by force
  have len: "length (ord_insert k x ys) \<le> Suc (length ys)" for k :: "Key \<times> KBucketEntry \<Rightarrow> Key" and x ys by (induction ys) auto
  have keep: "set ys \<subseteq> set (ord_insert k x ys)" for k :: "Key \<times> KBucketEntry \<Rightarrow> Key" and x ys by (induction ys) auto
  show ?thesis
  proof (cases "length (ks_emap s) < ks_max_entries s")
    case True
    then show ?thesis using sub len[of fst ?d "ks_emap s"] by (simp add: tryInsert_def Let_def)
  next
    case False
    then have ne: "ks_emap s \<noteq> []" using assms(1) by auto
    let ?mx = "fst (List.last (ks_emap s))"
    have "List.last (ks_emap s) \<in> set (ord_insert fst ?d (ks_emap s))" using last_in_set[OF ne] keep[of "ks_emap s" fst ?d] by blast
    then have "length (filter (\<lambda>x. fst x \<noteq> ?mx) (ord_insert fst ?d (ks_emap s))) < length (ord_insert fst ?d (ks_emap s))"
      by (intro length_filter_less) auto
    then have "length (filter (\<lambda>x. fst x \<noteq> ?mx) (ord_insert fst ?d (ks_emap s))) \<le> ks_max_entries s"
      using len[of fst ?d "ks_emap s"] assms(2) by simp
    moreover have "snd ` set (filter (\<lambda>x. fst x \<noteq> ?mx) (ord_insert fst ?d (ks_emap s))) \<subseteq> insert e (snd ` set (ks_emap s))"
      using sub by auto
    ultimately show ?thesis using False ne assms(2) by (auto simp: tryInsert_def Let_def)
  qed
qed

lemma search_total:
  assumes "0 < ks_max_entries s" "length (ks_emap s) \<le> ks_max_entries s"
  shows "\<exists>s'. search_entries es s = Some s' \<and> ks_max_entries s' = ks_max_entries s \<and> length (ks_emap s') \<le> ks_max_entries s \<and>
    snd ` set (ks_emap s') \<subseteq> snd ` set (ks_emap s) \<union> set es"
  using assms
proof (induction es arbitrary: s)
  case (Cons e es)
  obtain s1 where 1: "tryInsert e s = Some s1" "ks_max_entries s1 = ks_max_entries s" "length (ks_emap s1) \<le> ks_max_entries s"
      "snd ` set (ks_emap s1) \<subseteq> insert e (snd ` set (ks_emap s))" using tryInsert_total[OF Cons.prems] by blast
  obtain s2 where "search_entries es s1 = Some s2" "ks_max_entries s2 = ks_max_entries s1" "length (ks_emap s2) \<le> ks_max_entries s1"
      "snd ` set (ks_emap s2) \<subseteq> snd ` set (ks_emap s1) \<union> set es" using Cons.IH[of s1] Cons.prems 1 by auto
  then show ?case using 1 by auto
qed simp

lemma table_entries_valid:
  assumes "kt_run our t" "is_key our" "e \<in> set (concat (map kb_entries (kt_buckets t)))"
  shows "valid_node e"
proof -
  obtain b where "b \<in> set (kt_buckets t)" "e \<in> set (kb_entries b)" using assms(3) by auto
  then have "bucket_ok b" "e \<in> kb_all b" using table_buckets_ok[OF kt_run_ok[OF assms(1,2)]] by (auto simp: kb_all_def)
  then show ?thesis by (simp add: bucket_ok_def belongs_def)
qed

lemma kt_search_total:
  assumes "kt_run our t" "is_key our" "0 < ks_max_entries s" "length (ks_emap s) \<le> ks_max_entries s" "\<forall>e \<in> snd ` set (ks_emap s). valid_node e"
  shows "\<exists>s'. kt_findKClosestNodes t s = Some s' \<and> ks_max_entries s' = ks_max_entries s \<and> length (ks_emap s') \<le> ks_max_entries s \<and>
    (\<forall>e \<in> snd ` set (ks_emap s'). valid_node e)"
  using search_total[OF assms(3,4), of "concat (map kb_entries (kt_buckets t))"] table_entries_valid[OF assms(1,2)] assms(5)
  unfolding kt_findKClosestNodes_def search_buckets_entries by (elim exE conjE) (intro exI conjI, assumption+, blast)

lemma closest_packed_total:
  assumes "dht_ok sha1 our env d" "is_key our"
  shows "\<exists>n. closest_packed h target want d = Some n"
proof -
  let ?s = "KClosestNodesSearch_new target K_nodes"
  have k: "0 < ks_max_entries ?s" "length (ks_emap ?s) \<le> ks_max_entries ?s" "\<forall>e \<in> snd ` set (ks_emap ?s). valid_node e"
    by (simp_all add: KClosestNodesSearch_new_def K_nodes_def)
  have t: "kt_run our (dh_v4 d)" "kt_run our (dh_v6 d)" using assms(1) by (simp_all add: dht_ok_def)
  have step: "\<exists>s'. (if w then kt_findKClosestNodes t s else Some s) = Some s' \<and> 0 < ks_max_entries s' \<and> length (ks_emap s') \<le> ks_max_entries s' \<and>
      (\<forall>e \<in> snd ` set (ks_emap s'). valid_node e)"
    if "kt_run our t" "0 < ks_max_entries s" "length (ks_emap s) \<le> ks_max_entries s" "\<forall>e \<in> snd ` set (ks_emap s). valid_node e" for t s w
  proof (cases w)
    case True
    then show ?thesis using kt_search_total[OF that(1) assms(2) that(2-4)] that(2) by force
  qed (use that in auto)
  obtain s1 where 1: "(if wants want 4 \<or> ipVersion (m_origin h) = 4 then kt_findKClosestNodes (dh_v4 d) ?s else Some ?s) = Some s1"
      "0 < ks_max_entries s1" "length (ks_emap s1) \<le> ks_max_entries s1" "\<forall>e \<in> snd ` set (ks_emap s1). valid_node e"
    using step[OF t(1) k] by blast
  obtain s2 where 2: "(if wants want 6 \<or> ipVersion (m_origin h) = 6 then kt_findKClosestNodes (dh_v6 d) s1 else Some s1) = Some s2"
      "\<forall>e \<in> snd ` set (ks_emap s2). valid_node e"
    using step[OF t(2) 1(2-4)] by blast
  have "\<forall>e \<in> set (map snd (ks_emap s2)). is_key (ke_id e) \<and> is_address (ke_addr e)" using 2(2) by auto
  note p = pack_loop_compact[OF this, of PackedNodeContainer_new]
  have "node_findKClosestNodes d (wants want 4 \<or> ipVersion (m_origin h) = 4) (wants want 6 \<or> ipVersion (m_origin h) = 6) ?s = Some s2"
    unfolding node_findKClosestNodes_def 1(1) using 2(1) by simp
  then show ?thesis using p by (simp add: closest_packed_def ks_pack_def)
qed

section \<open>What a message does\<close>

definition answer :: "RPCMsg \<Rightarrow> Key \<Rightarrow> RPCMsg \<Rightarrow> bool" where
  "answer m our r \<longleftrightarrow> msg_header r = \<lparr>m_mtid = m_mtid (msg_header m), m_id = our, m_origin = m_origin (msg_header m)\<rparr> \<and>
     getType m = REQ_MSG \<and> getType r = RSP_MSG \<and> getMethod r = getMethod m"

definition handled :: "(bytes \<Rightarrow> Key) \<Rightarrow> Key \<Rightarrow> DhtEnv \<Rightarrow> RPCMsg \<Rightarrow> Dht \<Rightarrow> Dht \<Rightarrow> bool" where
  "handled sha1 our env m d d' \<longleftrightarrow> dht_ok sha1 our env d' \<and> dh_running d' = dh_running d \<and>
     (dh_sent d' = dh_sent d \<or> (\<exists>r. dh_sent d' = dh_sent d @ [r] \<and> answer m our r))"

lemma announce_handled:
  assumes ok: "dht_ok sha1 our env d" and m: "is_key (m_id h)" "is_address (m_origin h)"
  shows "\<exists>d'. dht_announce sha1 env h ih port token d = Some d' \<and> handled sha1 our env (AnnounceReq h ih w port token) d d'"
proof (cases "dh_running d \<and> m_id h \<noteq> dh_our_id d")
  case True
  let ?d = "node_received env h d"
  have r: "dht_ok sha1 our env ?d" by (rule dht_ok_received[OF ok m])
  have "checkToken sha1 token (m_origin h) (dh_db ?d) \<noteq> None"
    using token_data_bytes[OF m(2)] by (cases "db_tokens (dh_db ?d) token") (simp_all add: checkToken_def)
  then obtain b db where c: "checkToken sha1 token (m_origin h) (dh_db ?d) = Some (b, db)" by force
  have "db_reached sha1 env (dh_db ?d)" using r by (simp add: dht_ok_def)
  then have db: "db_reached sha1 env db" using db_reached_ops(5) c m(2) by blast
  show ?thesis
  proof (cases b)
    case False
    then have "dht_announce sha1 env h ih port token d = Some (?d\<lparr>dh_db := db\<rparr>)" using True c by (simp add: dht_announce_def Let_def)
    then show ?thesis using r db by (auto simp: handled_def dht_ok_def)
  next
    case b: True
    let ?r = "AnnounceRsp \<lparr>m_mtid = m_mtid h, m_id = dh_our_id d, m_origin = m_origin h\<rparr>"
    have "dht_announce sha1 env h ih port token d = Some (send_msg ?r (?d\<lparr>dh_db := db_store ih (DBItem_new env (m_origin h)) db\<rparr>))"
      using True c b by (simp add: dht_announce_def Let_def)
    moreover have "answer (AnnounceReq h ih w port token) our ?r" using ok by (simp add: answer_def dht_ok_def)
    ultimately show ?thesis using r db_reached_ops(1)[OF db] by (auto simp: handled_def dht_ok_def)
  qed
qed (use ok in \<open>auto simp: dht_announce_def handled_def\<close>)

lemma getPeers_handled:
  assumes ok: "dht_ok sha1 our env d" and our: "is_key our" and m: "is_key (m_id h)" "is_address (m_origin h)"
  shows "\<exists>d'. dht_getPeers sha1 env h ih w d = Some d' \<and> handled sha1 our env (GetPeersReq h ih w) d d'"
proof (cases "dh_running d \<and> m_id h \<noteq> dh_our_id d")
  case True
  let ?d = "node_received env h d"
  have r: "dht_ok sha1 our env ?d" by (rule dht_ok_received[OF ok m])
  obtain tok db where g: "genToken sha1 env (m_origin h) (dh_db ?d) = Some (tok, db)"
    using token_data_bytes[OF m(2)] by (auto simp: genToken_def Let_def)
  have "db_reached sha1 env (dh_db ?d)" using r by (simp add: dht_ok_def)
  then have db: "db_reached sha1 env db" using db_reached_ops(4) g m(2) by blast
  then have r': "dht_ok sha1 our env (?d\<lparr>dh_db := db\<rparr>)" using r by (simp add: dht_ok_def)
  obtain n where n: "closest_packed h ih w (?d\<lparr>dh_db := db\<rparr>) = Some n" using closest_packed_total[OF r' our] by blast
  let ?r = "GetPeersRsp \<lparr>m_mtid = m_mtid h, m_id = dh_our_id d, m_origin = m_origin h\<rparr> n (db_sample ih [] 50 (ipVersion (m_origin h)) (dh_db d)) tok"
  have "dht_getPeers sha1 env h ih w d = Some (send_msg ?r (?d\<lparr>dh_db := db\<rparr>))"
    using True g n by (simp add: dht_getPeers_def Let_def)
  moreover have "answer (GetPeersReq h ih w) our ?r" using ok by (simp add: answer_def dht_ok_def)
  ultimately show ?thesis using r' by (auto simp: handled_def)
qed (use ok in \<open>auto simp: dht_getPeers_def handled_def\<close>)

lemma findNode_handled:
  assumes ok: "dht_ok sha1 our env d" and our: "is_key our" and m: "is_key (m_id h)" "is_address (m_origin h)"
  shows "\<exists>d'. dht_findNode env h t w d = Some d' \<and> handled sha1 our env (FindNodeReq h t w) d d'"
proof (cases "dh_running d \<and> m_id h \<noteq> dh_our_id d")
  case True
  let ?d = "node_received env h d"
  have r: "dht_ok sha1 our env ?d" by (rule dht_ok_received[OF ok m])
  obtain n where n: "closest_packed h t w ?d = Some n" using closest_packed_total[OF r our] by blast
  let ?r = "FindNodeRsp \<lparr>m_mtid = m_mtid h, m_id = dh_our_id d, m_origin = m_origin h\<rparr> n"
  have "dht_findNode env h t w d = Some (send_msg ?r ?d)" using True n by (simp add: dht_findNode_def Let_def)
  moreover have "answer (FindNodeReq h t w) our ?r" using ok by (simp add: answer_def dht_ok_def)
  ultimately show ?thesis using r by (auto simp: handled_def)
qed (use ok in \<open>auto simp: dht_findNode_def handled_def\<close>)

lemma ping_handled:
  assumes ok: "dht_ok sha1 our env d" and m: "is_key (m_id h)" "is_address (m_origin h)"
  shows "\<exists>d'. dht_ping env h d = Some d' \<and> handled sha1 our env (PingReq h) d d'"
proof -
  have "answer (PingReq h) our (PingRsp \<lparr>m_mtid = m_mtid h, m_id = dh_our_id d, m_origin = m_origin h\<rparr>)" using ok by (simp add: answer_def dht_ok_def)
  then show ?thesis using ok dht_ok_received[OF _ m, of sha1 our env "send_msg _ d"] by (auto simp: dht_ping_def handled_def)
qed

lemma msg_handled:
  assumes ok: "dht_ok sha1 our env d" and our: "is_key our" and m: "msg_ok m"
  shows "\<exists>d'. msg_apply sha1 env m d = Some d' \<and> handled sha1 our env m d d'"
proof -
  have r: "\<exists>d'. dht_response env h d = Some d' \<and> handled sha1 our env m d d'" if "h = msg_header m" for h
    using dht_ok_received[OF ok, of h] ok m that by (auto simp: dht_response_def handled_def msg_ok_def)
  show ?thesis
    using ok our m r announce_handled[OF ok] getPeers_handled[OF ok our] findNode_handled[OF ok our] ping_handled[OF ok]
    by (cases m) (auto simp: msg_ok_def handled_def)
qed

lemma dht_run_ok: "dht_run sha1 our env d \<Longrightarrow> is_key our \<Longrightarrow> dht_ok sha1 our env d"
proof (induction rule: dht_run.induct)
  case (dht_start env)
  have "db_reached sha1 env Database_new" using db_start by (rule db_reachedI)
  then show ?case using kt_start by (simp add: dht_ok_def Dht_new_def)
next
  case (dht_clock env d env')
  then show ?case using db_reached_ops(6) by (auto simp: dht_ok_def)
next
  case (dht_message env d m d')
  then show ?case using msg_handled[of sha1 our env d m] by (auto simp: handled_def)
next
  case (dht_call_timeout env d m d')
  then show ?case using kt_timeout by (auto simp: dht_ok_def dht_timeout_def node_onTimeout_def Let_def)
next
  case (dht_buckets4 env d t)
  then show ?case using bucket_event_run by (auto simp: dht_ok_def)
next
  case (dht_buckets6 env d t)
  then show ?case using bucket_event_run by (auto simp: dht_ok_def)
next
  case (dht_expire env d)
  then show ?case using db_reached_ops(3) by (auto simp: dht_ok_def expireDatabaseItems_def)
next
  case (dht_found env d k a)
  then show ?case using db_reached_ops(1) by (auto simp: dht_ok_def)
next
  case (dht_register env d k)
  then show ?case using db_reached_ops(2) by (auto simp: dht_ok_def)
qed

text \<open>
  C13. A node handles every message, in whatever state earlier messages, timeouts and pings have brought it: no exception leaves the handler; at most one message is sent, only in answer to a
  request, to where the request came from, with its transaction identifier and of its method; and the routing tables and the database remain in
  states that \<open>KBucketTable_partition\<close> and \<open>tokens_once\<close> speak of.
\<close>

theorem DHT_handles_message:
  assumes "dht_run sha1 our env d" "is_key our" "is_key (m_id (msg_header m))" "is_address (m_origin (msg_header m))"
  shows "\<exists>d' rs. msg_apply sha1 env m d = Some d' \<and> dh_sent d' = dh_sent d @ rs \<and> length rs \<le> 1 \<and>
    (\<forall>r \<in> set rs. m_mtid (msg_header r) = m_mtid (msg_header m) \<and> m_id (msg_header r) = our \<and> m_origin (msg_header r) = m_origin (msg_header m) \<and>
      getType m = REQ_MSG \<and> getType r = RSP_MSG \<and> getMethod r = getMethod m) \<and>
    kt_run our (dh_v4 d') \<and> kt_run our (dh_v6 d') \<and> (\<exists>hist issued accepted ex. db_run sha1 env (dh_db d') hist issued accepted ex)"
proof -
  have ok: "dht_ok sha1 our env d" by (rule dht_run_ok[OF assms(1,2)])
  have m: "msg_ok m" using assms(3,4) by (simp add: msg_ok_def)
  obtain d' where d: "msg_apply sha1 env m d = Some d'" "dht_ok sha1 our env d'"
      "dh_sent d' = dh_sent d \<or> (\<exists>r. dh_sent d' = dh_sent d @ [r] \<and> answer m our r)"
    using msg_handled[OF ok assms(2) m] by (auto simp: handled_def)
  obtain rs where rs: "dh_sent d' = dh_sent d @ rs" "length rs \<le> 1" "\<forall>r \<in> set rs. answer m our r"
  proof (cases "dh_sent d' = dh_sent d")
    case True
    then show ?thesis using that[of "[]"] by simp
  next
    case False
    then obtain r where "dh_sent d' = dh_sent d @ [r]" "answer m our r" using d(3) by blast
    then show ?thesis using that[of "[r]"] by simp
  qed
  have "m_mtid (msg_header r) = m_mtid (msg_header m) \<and> m_id (msg_header r) = our \<and> m_origin (msg_header r) = m_origin (msg_header m) \<and>
      getType m = REQ_MSG \<and> getType r = RSP_MSG \<and> getMethod r = getMethod m" if "r \<in> set rs" for r
    using rs(3) that by (simp add: answer_def)
  then show ?thesis using d(1,2) rs(1,2) unfolding dht_ok_def db_reached_def by (intro exI[of _ d'] exI[of _ rs]) blast
qed

theorem DHT_handles_message_witness:
  "\<exists>d'. msg_apply (take 20) \<lparr>de_now = 5, de_doCall = (\<lambda>_. True)\<rparr> (FindNodeReq \<lparr>m_mtid = [1], m_id = key_max, m_origin = V4 1 2\<rparr> key_max []) (Dht_new key_min) = Some d'"
proof -
  have "is_key (m_id (msg_header (FindNodeReq \<lparr>m_mtid = [1], m_id = key_max, m_origin = V4 1 2\<rparr> key_max [])))"
    "is_address (m_origin (msg_header (FindNodeReq \<lparr>m_mtid = [1], m_id = key_max, m_origin = V4 1 2\<rparr> key_max [])))"
    using key_bounds(2) by simp_all
  from DHT_handles_message[OF dht_start key_bounds(1) this] show ?thesis by blast
qed

text \<open>
  C4. Announcing a torrent: a node that asks for peers gets a token, and when it announces itself with this token, then or later and whatever its identity, it is stored as a peer for the torrent with the
  address it sent from, and this is confirmed; the same token does nothing a second time. The port it announces is not used.
\<close>

theorem announce_protocol:
  assumes "dht_run sha1 our env d" "is_key our" "dh_running d"
    and "is_key (m_id h)" "is_address (m_origin h)" "m_id h \<noteq> our" and "m_id h' \<noteq> our" "m_origin h' = m_origin h" and "m_id h'' \<noteq> our" "m_origin h'' = m_origin h"
  shows "\<exists>d1 n peers token d2 d3. dht_getPeers sha1 env h info_hash want d = Some d1 \<and>
    dh_sent d1 = dh_sent d @ [GetPeersRsp \<lparr>m_mtid = m_mtid h, m_id = our, m_origin = m_origin h\<rparr> n peers token] \<and>
    dht_announce sha1 env' h' info_hash port token d1 = Some d2 \<and>
    dh_sent d2 = dh_sent d1 @ [AnnounceRsp \<lparr>m_mtid = m_mtid h', m_id = our, m_origin = m_origin h\<rparr>] \<and>
    (\<exists>l. db_items (dh_db d2) info_hash = Some (l @ [\<lparr>di_addr = m_origin h, di_time_stamp = de_now env'\<rparr>])) \<and>
    dht_announce sha1 env'' h'' info_hash' port' token d2 = Some d3 \<and> dh_sent d3 = dh_sent d2 \<and> dh_db d3 = dh_db d2"
proof -
  have ok: "dht_ok sha1 our env d" by (rule dht_run_ok[OF assms(1,2)])
  then have our: "dh_our_id d = our" by (simp add: dht_ok_def)
  let ?d = "node_received env h d"
  let ?tok = "sha1 (token_bytes (m_origin h) (de_now env))"
  let ?db = "(dh_db d)\<lparr>db_tokens := (db_tokens (dh_db d))(?tok \<mapsto> de_now env)\<rparr>"
  have t: "token_data (m_origin h) ts = Some (token_bytes (m_origin h) ts)" for ts by (rule token_data_bytes[OF assms(5)])
  have g: "genToken sha1 env (m_origin h) (dh_db d) = Some (?tok, ?db)" by (simp add: genToken_def t Let_def)
  obtain n where n: "closest_packed h info_hash want (?d\<lparr>dh_db := ?db\<rparr>) = Some n"
  proof -
    have r: "dht_ok sha1 our env ?d" by (rule dht_ok_received[OF ok assms(4,5)])
    have "db_reached sha1 env (dh_db d)" using ok by (simp add: dht_ok_def)
    then have "db_reached sha1 env ?db" using db_reached_ops(4) g assms(5) by blast
    then have "dht_ok sha1 our env (?d\<lparr>dh_db := ?db\<rparr>)" using r by (simp add: dht_ok_def)
    then show thesis using closest_packed_total[OF _ assms(2)] that by blast
  qed
  let ?peers = "db_sample info_hash [] 50 (ipVersion (m_origin h)) (dh_db d)"
  let ?d1 = "send_msg (GetPeersRsp \<lparr>m_mtid = m_mtid h, m_id = our, m_origin = m_origin h\<rparr> n ?peers ?tok) (?d\<lparr>dh_db := ?db\<rparr>)"
  have 1: "dht_getPeers sha1 env h info_hash want d = Some ?d1" using g n assms(3,6) our by (simp add: dht_getPeers_def Let_def)
  let ?db2 = "?db\<lparr>db_tokens := (db_tokens ?db)(?tok := None)\<rparr>"
  have c: "checkToken sha1 ?tok (m_origin h) ?db = Some (True, ?db2)" by (simp add: checkToken_def t)
  let ?d2 = "send_msg (AnnounceRsp \<lparr>m_mtid = m_mtid h', m_id = our, m_origin = m_origin h\<rparr>)
      ((node_received env' h' ?d1)\<lparr>dh_db := db_store info_hash (DBItem_new env' (m_origin h)) ?db2\<rparr>)"
  have 2: "dht_announce sha1 env' h' info_hash port ?tok ?d1 = Some ?d2" using c assms(3,7,8) our by (simp add: dht_announce_def Let_def)
  have i: "\<exists>l. db_items (dh_db ?d2) info_hash = Some (l @ [\<lparr>di_addr = m_origin h, di_time_stamp = de_now env'\<rparr>])"
    by (simp add: db_store_def DBItem_new_def Let_def)
  have "checkToken sha1 ?tok (m_origin h) (dh_db ?d2) = Some (False, dh_db ?d2)" by (simp add: checkToken_def db_store_def Let_def)
  then have 3: "dht_announce sha1 env'' h'' info_hash' port' ?tok ?d2 = Some ((node_received env'' h'' ?d2)\<lparr>dh_db := dh_db ?d2\<rparr>)"
    using assms(3,9,10) our by (simp add: dht_announce_def Let_def)
  show ?thesis by (rule exI[of _ ?d1], rule exI[of _ n], rule exI[of _ ?peers], rule exI[of _ ?tok], rule exI[of _ ?d2],
      rule exI[of _ "(node_received env'' h'' ?d2)\<lparr>dh_db := dh_db ?d2\<rparr>"]) (use 1 2 3 i in simp)
qed

theorem announce_protocol_witness:
  "\<exists>d1 n peers token d2 d3. dht_getPeers (take 20) \<lparr>de_now = 5, de_doCall = (\<lambda>_. True)\<rparr> \<lparr>m_mtid = [1], m_id = key_max, m_origin = V4 1 2\<rparr> key_max [] (Dht_new key_min) = Some d1 \<and>
    dh_sent d1 = [GetPeersRsp \<lparr>m_mtid = [1], m_id = key_min, m_origin = V4 1 2\<rparr> n peers token] \<and>
    dht_announce (take 20) \<lparr>de_now = 9, de_doCall = (\<lambda>_. True)\<rparr> \<lparr>m_mtid = [2], m_id = key_max, m_origin = V4 1 2\<rparr> key_max 6881 token d1 = Some d2 \<and>
    dht_announce (take 20) \<lparr>de_now = 9, de_doCall = (\<lambda>_. True)\<rparr> \<lparr>m_mtid = [3], m_id = key_max, m_origin = V4 1 2\<rparr> key_min 6881 token d2 = Some d3 \<and> dh_db d3 = dh_db d2"
proof -
  let ?h = "\<lambda>t. \<lparr>m_mtid = [t], m_id = key_max, m_origin = V4 1 2\<rparr>"
  have "key_max \<noteq> key_min" by (simp add: key_max_def key_min_def)
  moreover have "dh_running (Dht_new key_min)" "dh_sent (Dht_new key_min) = []" by (simp_all add: Dht_new_def)
  ultimately show ?thesis
    using announce_protocol[OF dht_start[of "take 20" key_min "\<lparr>de_now = 5, de_doCall = (\<lambda>_. True)\<rparr>"] key_bounds(1),
        of "?h 1" "?h 2" "?h 3" key_max "[]" "\<lparr>de_now = 9, de_doCall = (\<lambda>_. True)\<rparr>" 6881 "\<lparr>de_now = 9, de_doCall = (\<lambda>_. True)\<rparr>" key_min 6881] key_bounds(2)
    by auto
qed

end
