(* ===== verification/Spec2Isabelle.thy ===== *)
theory Spec2Isabelle
  imports Bytes Bit_Set Circular_Buffer Packet_Reader Wire_Packet Packet_Socket Bencode Peer_Protocol Chunk_Requests Chunk_Selector
    Super_Seeder Connection_Limit Utp_Session Dht_Task Dht_Node
begin

text \<open>
  \<^bold>\<open>Verification of the core of libktorrent\<close>

  The library downloads and shares the chunks of a torrent. A \<^emph>\<open>peer\<close> is a connection to another
  client: bytes from its socket are cut into packets by a \<open>PacketReader\<close>, packets are dispatched by
  \<open>Peer::handlePacket\<close>, and what the peer has to say goes out through a \<open>PacketSocket\<close> with a control and a
  data queue. A \<^emph>\<open>chunk\<close> is fetched in pieces of 16384 bytes by a \<open>ChunkDownload\<close>, which hands out requests to
  the \<open>PeerDownloader\<close>s of several peers, collects the pieces and feeds them to a hash. A \<open>ChunkSelector\<close> decides
  which chunk a downloader gets, by priority and rareness (\<open>ChunkCounter\<close>); a \<open>SuperSeeder\<close> decides what is
  offered to whom; a \<open>ConnectionLimit\<close> bounds the number of connections. Beside TCP, peers connect over uTP, a
  stream protocol on UDP with its own handshake, windows, acknowledgements and congestion control. Peers are
  found through the DHT, whose nodes keep a routing table and a database, answer each other's requests and run lookups and
  announcements. All of it is single threaded but
  for the socket threads, which call \<open>PacketReader::onDataReady\<close> and \<open>PacketSocket::write\<close> under a mutex; the
  models treat each such call as one step.

  \<^bold>\<open>Theories and what they model\<close> (paths below \<open>src/src/\<close>)

  \<^item> \<open>Prelude\<close>: 32- and 64-bit arithmetic on natural numbers with the wrap-around written out, byte arrays
    whose out-of-range accesses are \<open>None\<close>, and the shared lemmas.
  \<^item> \<open>Bytes\<close>: \<open>util/functions.h\<close>, the big-endian readers and writers; round trips.
  \<^item> \<open>Bit_Set\<close>: \<open>util/bitset.cpp\<close>, a bit array with a cached number of bits that are on. The locale \<open>bit_array\<close> is
    its contract; every operation keeps the cache exact and has its set meaning.
  \<^item> \<open>Circular_Buffer\<close>: \<open>util/circularbuffer.cpp\<close>; refinement of a bounded byte queue.
  \<^item> \<open>Packet_Reader\<close>: \<open>peer/packetreader.cpp\<close>; refinement of an abstract receiver, independence of the way the
    network cuts the stream, delivery of all packets, the stop on an oversized length.
  \<^item> \<open>Wire_Packet\<close>: \<open>download/packet.cpp\<close>, \<open>download/request.cpp\<close>, \<open>diskio/chunk.cpp\<close>, \<open>diskio/piecedata.cpp\<close>; the frames
    of all messages.
  \<^item> \<open>Packet_Socket\<close>: \<open>net/packetsocket.cpp\<close>; every packet goes out exactly once and whole, in the order of the
    scheduling rule, and dropped pieces never include the one on the wire.
  \<^item> \<open>Bencode\<close>: \<open>bcodec/\<close>, encoder and decoder; the locale \<open>qt_numbers\<close> states what the code uses of the number
    conversions; round trip, termination on every input, the inputs accepted by mistake.
  \<^item> \<open>Peer\<close> and \<open>Peer_Protocol\<close>: \<open>peer/peer.cpp\<close>, \<open>peer/peerdownloader.cpp\<close>, \<open>peer/peeruploader.cpp\<close> and their base
    classes. The operations are in the first, the invariant and the properties in the second: no
    message makes a connection leave its arrays; what each handler does; the request window and its
    timeouts; the upload queue; the extended handshake. One request can overflow the upload path, which
    is stated as a theorem.
  \<^item> \<open>Chunk_Download\<close>, \<open>Chunk_Assembly\<close>, \<open>Chunk_Requests\<close>: \<open>download/chunkdownload.cpp\<close>. The operations and the
    termination of the request loop; what pieces in any order build and what the hash sees; the
    requests at the downloaders. The locale \<open>piece_downloader\<close> is the interface to the downloaders, and
    the peers of \<open>Peer.thy\<close> interpret it.
  \<^item> \<open>Chunk_Counter\<close>, \<open>Chunk_Selector\<close>, \<open>Super_Seeder\<close>, \<open>Connection_Limit\<close>: \<open>peer/chunkcounter.cpp\<close>,
    \<open>download/chunkselector.cpp\<close>, \<open>peer/superseeder.cpp\<close>, \<open>peer/connectionlimit.cpp\<close>; choice by priority and
    rareness, invariants over all histories (the inductive relations \<open>cs_run\<close> and \<open>cl_run\<close>, event lists for
    the super seeder).
  \<^item> \<open>Utp_Protocol\<close>, \<open>Utp_Packet_Buffer\<close>, \<open>Utp_Timing\<close>: \<open>utp/utpprotocol.cpp\<close>, \<open>utp/packetbuffer.cpp\<close>, \<open>utp/timevalue.h\<close>,
    \<open>utp/delaywindow.cpp\<close>; headers and their round trip, 16-bit sequence numbers, packets in place, the sliding
    minimum of the delay.
  \<^item> \<open>Utp_Local_Window\<close>, \<open>Utp_Remote_Window\<close>: \<open>utp/localwindow.cpp\<close>, \<open>utp/remotewindow.cpp\<close>; the receive window refines the
    stream of the peer, the send window keeps exactly the packets that are not acknowledged. The locale
    \<open>retransmitter\<close> is the interface \<open>Retransmitter\<close> of the source, which the connection interprets.
  \<^item> \<open>Utp_Connection\<close>, \<open>Utp_Session\<close>: \<open>utp/connection.cpp\<close>. The operations with their frames and laws in the first; in the second
    all histories (\<open>conn_reach\<close>, \<open>conn_stream\<close>), the handshake, what is sent, what is received and what
    an acknowledgement drops at the other end.
  \<^item> \<open>Dht_Key\<close>, \<open>Dht_Bucket\<close>: \<open>dht/key.cpp\<close>, \<open>dht/kbucketentry.cpp\<close>, \<open>dht/kbucket.cpp\<close>, \<open>dht/kbuckettable.cpp\<close>; the loops over the bytes
    of a key compute with 160-bit numbers; over all histories (\<open>kt_run\<close>) the buckets partition the keys.
  \<^item> \<open>Dht_Search\<close>, \<open>Dht_Database\<close>: \<open>dht/kclosestnodessearch.cpp\<close>, \<open>dht/pack.cpp\<close>, \<open>dht/packednodecontainer.cpp\<close>, \<open>dht/database.cpp\<close>; the
    search returns the closest nodes; tokens are good once and for one address; what expires.
  \<^item> \<open>Dht_Message\<close>, \<open>Dht_Rpc\<close>: \<open>dht/rpcmsg.cpp\<close> with its subclasses, \<open>dht/rpcmsgfactory.cpp\<close>, \<open>dht/rpcserver.cpp\<close>; what is sent is
    what is read, with the one response that the parser rejects; transaction identifiers and the queue of calls.
  \<^item> \<open>Dht_Task\<close>: \<open>dht/task.cpp\<close>, \<open>dht/nodelookup.cpp\<close>, \<open>dht/announcetask.cpp\<close>. The locale \<open>task_kind\<close> is what the base class
    relies on in its subclasses, and both interpret it; bounds on the requests, and that a task ends.
  \<^item> \<open>Dht_Node\<close>: \<open>dht/node.cpp\<close>, \<open>dht/dht.cpp\<close>; no message raises an exception in a handler, and the protocol of announcing.
  \<^item> This theory: the composition of sending, transport, receiving and handling.

  \<^bold>\<open>Conventions.\<close> An object is a record, its methods functions that take and return it. \<open>None\<close> stands for an
  access outside an array or another undefined operation, so a theorem with a result \<open>Some\<close> is a memory
  safety statement; \<open>Inl\<close> of a sum is an exception. Loops that the code does not bound itself are
  \<open>partial_function (option)\<close> definitions, and each of them has a theorem that it returns. Two definitions run on
  fuel: the bencode decoder on twice the length of the input plus two, which \<open>decode_total\<close> shows to be enough, and the search for a
  free transaction identifier on 256 steps, after which it has tried every byte; that it never needs more is
  part of the theorem on the calls of the DHT. 32-bit values are words where bits matter and natural numbers with explicit reduction where
  they count. Callbacks into parts that are not modelled (the peer manager, extensions) are the function
  \<open>e_notify\<close> of the environment; clocks, measured rates, settings, random numbers, the disk cache and the
  network device are parameters, with what the code relies on as hypotheses.

  \<^bold>\<open>Not modelled.\<close> The disk layer below \<open>PieceData\<close> (\<open>diskio/\<close>: files, preallocation, caches), torrent control and
  job queues (\<open>torrent/\<close>), trackers, the start and stop of the DHT with its files and its task manager, the server, sockets and poll pipes of uTP, encryption, UPnP, web seeds over HTTP, the peer manager and
  the choker, streaming, and the saving and loading of partial downloads. Most of these are driven by
  files, sockets and Qt objects; the choker and the chunk
  manager are the parts with logic of their own that are left.
\<close>

section \<open>From one peer to another\<close>

fun send_haves :: "Peer \<Rightarrow> u32w list \<Rightarrow> Peer option" where
  "send_haves p [] = Some p"
| "send_haves p (w # ws) = do { p' \<leftarrow> sendHave p w; send_haves p' ws }"

definition have_packet :: "u32w \<Rightarrow> Packet" where
  "have_packet w = packet_of HAVE (be32 w)"

lemma have_packet_sendable [simp]: "sendable (have_packet w)" "pkt_type (have_packet w) \<noteq> PIECE"
  by (simp_all add: have_packet_def packet_of_sendable msg_types)

lemma send_haves_law:
  assumes "ps_inv (p_sock p)" and "ps_curr (p_sock p) = None" and "data_packets (p_sock p) = []"
  shows "\<exists>s. send_haves p ws = Some (p\<lparr>p_sock := s\<rparr>) \<and> ps_inv s \<and> ps_curr s = None \<and> data_packets s = []
    \<and> control_packets s = control_packets (p_sock p) @ map have_packet ws"
  using assms
proof (induction ws arbitrary: p)
  case Nil
  then show ?case by (intro exI[of _ "p_sock p"]) simp
next
  case (Cons w ws)
  let ?s = "addPacket (p_sock p) (have_packet w)"
  have s: "sendHave p w = Some (p\<lparr>p_sock := ?s\<rparr>)"
    by (simp add: sendHave_def send_packet_def Packet_chunk_frame have_packet_def)
  have "ps_inv ?s" "ps_curr ?s = None" using Cons.prems addPacket_inv by (simp_all add: addPacket_fields)
  moreover have "ps_wf (p_sock p)" using Cons.prems(1) by (simp add: ps_inv_def)
  ultimately show ?case using Cons.IH[of "p\<lparr>p_sock := ?s\<rparr>"] Cons.prems(3) s by (simp add: addPacket_queues)
qed

lemma haves_written:
  assumes "ps_inv s" and "ps_curr s = None" and "data_packets s = []" and "control_packets s = map have_packet ws" and "device_accepts dev"
  shows "\<exists>n s'. PacketSocket_write dev False 0 [] s = Some (n, concat (map (\<lambda>w. frame (HAVE # be32 w)) ws), s') \<and> bytesReadyToWrite s' = False"
proof -
  note st = write_start[OF assms(1)]
  obtain n new s' where h: "write_loop dev 0 [] (starts_with_current s) 0 = Some (n, [] @ new, s')" "queued s' = []"
      "partial_out s @ new = concat (map (\<lambda>i. pkt_data (ps_store s ! i)) (order s))"
    using write_loop_drains[OF st(1) assms(5) st(5), of "[]" 0] unfolding st(2-4) by blast
  have o: "order s = ps_control s" using assms(2,3) by (simp add: order_def data_packets_def)
  have "concat (map (\<lambda>i. pkt_data (ps_store s ! i)) (ps_control s)) = concat (map pkt_data (control_packets s))"
    by (simp add: control_packets_def o_def)
  then have "new = concat (map (\<lambda>w. frame (HAVE # be32 w)) ws)"
    using h(3) assms(2,4) by (simp add: partial_out_def o o_def have_packet_def packet_of_def mk_packet_def)
  then show ?thesis using h(1,2) by (auto simp: PacketSocket_write_def starts_with_current_def bytesReadyToWrite_def queued_def)
qed

lemma handle_haves:
  assumes "peer_inv n p" and "\<not> p_killed p" and "\<forall>ev q. e_notify e ev q = q" and "\<forall>w \<in> set ws. unat w < n"
  shows "\<exists>p'. handle_packets e p (map (\<lambda>w. HAVE # be32 w) ws) = Some p'
    \<and> (\<forall>i. BitSet_get (p_avail p') i \<longleftrightarrow> BitSet_get (p_avail p) i \<or> i \<in> unat ` set ws)"
  using assms(1,2,4)
proof (induction ws arbitrary: p)
  case (Cons w ws)
  let ?p = "p\<lparr>p_received_have := True, p_avail := BitSet_set (p_avail p) (unat w) True\<rparr>"
  have h: "handlePacket e p (HAVE # be32 w) = Some ?p"
      "\<forall>i. BitSet_get (p_avail ?p) i = (i = unat w \<or> BitSet_get (p_avail p) i)"
    using handleHave_law[OF Cons.prems(1,2) assms(3), of w] Cons.prems(3) by auto
  have "peer_inv n ?p" using Cons.prems(1) BitSet_set_counted by (simp add: peer_inv_def)
  then obtain p' where p': "handle_packets e ?p (map (\<lambda>w. HAVE # be32 w) ws) = Some p'"
      "\<forall>i. BitSet_get (p_avail p') i \<longleftrightarrow> BitSet_get (p_avail ?p) i \<or> i \<in> unat ` set ws"
    using Cons.IH[of ?p] Cons.prems(2,3) by auto
  show ?case using h p' by auto
qed simp

text \<open>The rest of the periodic update leaves the availability alone when the callbacks do.\<close>

lemma Peer_update_avail:
  assumes "\<not> p_killed p" and "e_sock_ok e" and "\<not> pr_error (p_reader p)" and "\<forall>ev q. e_notify e ev q = q"
    and "PacketReader_update (p_reader p) = (pkts, rd)" and "handle_packets e (p\<lparr>p_reader := rd\<rparr>) pkts = Some q"
  shows "\<exists>p'. Peer_update e p = Some p' \<and> p_avail p' = p_avail q"
  using assms by (simp add: Peer_update_def Let_def addUploadedBytes_def split: prod.split)



end
